(* ===== verification/Hi_Prelude.thy ===== *)
theory Hi_Prelude
  imports Main "HOL-Library.Word"
begin

text \<open>
  The prelude of the development: the vocabulary every component shares.

  \<^item> bytes (8-bit words) and the characters of a \<^verbatim>\<open>std::string\<close>
    (\<open>char list\<close>: a character is one byte), with the two conversions;
  \<^item> the operations of \<^verbatim>\<open>std::string\<close> the code uses (\<^verbatim>\<open>find\<close>,
    decimal output of a size, \<^verbatim>\<open>sscanf("%llu")\<close>);
  \<^item> the ordered container \<^verbatim>\<open>std::map\<close> as a sorted association list, with
    a locale for the laws its clients rely on;
  \<^item> the contract of a component that is fed a stream in pieces, as a locale
    (\<open>incremental\<close>);
  \<^item> big-endian and little-endian words, 64-byte blocks, and the collections of
    rules the component theories extend.
\<close>

unbundle bit_operations_syntax

named_theorems hi_defs \<open>definitions that component proofs unfold\<close>
named_theorems hi_bytes \<open>facts on bytes, words and their concatenation\<close>

section \<open>Bytes and characters\<close>

type_synonym byte = "8 word"
type_synonym u32 = "32 word"
type_synonym u64 = "64 word"

definition byte_of :: "char \<Rightarrow> byte" where
  "byte_of c = word_of_nat (of_char c)"

definition chr_of :: "byte \<Rightarrow> char" where
  "chr_of b = char_of (unat b)"

lemma unat_byte_of [hi_bytes]: "unat (byte_of c) = of_char c"
  using nat_of_char_less_256 [of c] by (simp add: byte_of_def unat_of_nat)

lemma unat_byte_less [hi_bytes]: "unat (b :: byte) < 256"
  using unsigned_less [of b] by simp

lemma chr_of_byte_of [simp]: "chr_of (byte_of c) = c"
  by (simp add: chr_of_def unat_byte_of)

lemma byte_of_chr_of [simp]: "byte_of (chr_of b) = b"
  using unat_byte_less [of b] by (simp add: byte_of_def chr_of_def)

lemma byte_of_inject [simp]: "byte_of c = byte_of d \<longleftrightarrow> c = d"
  by (metis chr_of_byte_of)

lemma chr_of_inject [simp]: "chr_of a = chr_of b \<longleftrightarrow> a = b"
  by (metis byte_of_chr_of)

lemma map_byte_of_chr_of [simp]: "map byte_of (map chr_of bs) = bs"
  by (simp add: comp_def)

lemma map_chr_of_byte_of [simp]: "map chr_of (map byte_of s) = s"
  by (simp add: comp_def)

text \<open>
  Equality of bytes bit by bit, and the numbers behind shifts and masks.
\<close>

lemma less_8_cases:
  "n < 8 \<longleftrightarrow> n = 0 \<or> n = 1 \<or> n = 2 \<or> n = 3 \<or> n = 4 \<or> n = 5 \<or> n = 6 \<or> n = (7::nat)"
  by auto

lemma byte_eqI:
  fixes a b :: byte
  assumes "bit a 0 = bit b 0" "bit a 1 = bit b 1" "bit a 2 = bit b 2" "bit a 3 = bit b 3"
    "bit a 4 = bit b 4" "bit a 5 = bit b 5" "bit a 6 = bit b 6" "bit a 7 = bit b 7"
  shows "a = b"
  by (rule bit_word_eqI) (use assms in \<open>auto simp: less_8_cases\<close>)

lemma byte_masks [hi_bytes]:
  "(a AND 0x03 :: byte) = take_bit 2 a" "(a AND 0x0f :: byte) = take_bit 4 a"
  "(a AND 0x3f :: byte) = take_bit 6 a"
  by (simp_all add: take_bit_eq_mask mask_eq_exp_minus_1)

lemma byte_high_masks [hi_bytes]:
  "drop_bit 2 (a AND 0xfc :: byte) = drop_bit 2 a"
  "drop_bit 4 (a AND 0xf0 :: byte) = drop_bit 4 a"
  "drop_bit 6 (a AND 0xc0 :: byte) = drop_bit 6 a"
  by (rule byte_eqI; auto simp: bit_simps dest: bit_imp_le_length)+

lemma unat_shifts [hi_bytes]:
  "unat (drop_bit k a :: byte) = unat a div 2 ^ k"
  "unat (take_bit k a :: byte) = unat a mod 2 ^ k"
  "unat (push_bit k a :: byte) = unat a * 2 ^ k mod 256"
  by (simp_all add: unat_drop_bit_eq unsigned_take_bit_eq unsigned_push_bit_eq
        flip: drop_bit_eq_div take_bit_eq_mod push_bit_eq_mult)
    (simp add: take_bit_eq_mod push_bit_eq_mult)

text \<open>The value of a plain \<^verbatim>\<open>char\<close>, signed on the platforms the code names.\<close>

definition schar :: "char \<Rightarrow> int" where
  "schar c = sint (byte_of c)"

lemma schar_inject [simp]: "schar c = schar d \<longleftrightarrow> c = d"
  by (auto simp: schar_def dest: signed_word_eqI)

section \<open>Strings\<close>

text \<open>
  \<open>str_find\<close> is \<^verbatim>\<open>std::string::find(c)\<close> (\<open>None\<close> for \<^verbatim>\<open>npos\<close>).
\<close>

fun str_find :: "'a \<Rightarrow> 'a list \<Rightarrow> nat option" where
  "str_find c [] = None"
| "str_find c (d # s) = (if d = c then Some 0 else map_option Suc (str_find c s))"

lemma str_find_None_iff: "str_find c s = None \<longleftrightarrow> c \<notin> set s"
  by (induction s) auto

lemma str_find_Some_iff:
  "str_find c s = Some n \<longleftrightarrow> n < length s \<and> s ! n = c \<and> c \<notin> set (take n s)"
proof (induction s arbitrary: n)
  case Nil
  then show ?case by simp
next
  case (Cons d s)
  then show ?case by (cases n) auto
qed

lemma str_find_append:
  "str_find c (s @ t) =
     (case str_find c s of Some n \<Rightarrow> Some n | None \<Rightarrow> map_option (\<lambda>i. length s + i) (str_find c t))"
  by (induction s) (auto simp: map_option_case split: option.splits)

lemma str_find_less: "str_find c s = Some n \<Longrightarrow> n < length s"
  by (simp add: str_find_Some_iff)

text \<open>Decimal output of a \<^verbatim>\<open>size_t\<close>, as \<^verbatim>\<open>ostream << size\<close> prints it.\<close>

fun dec_digits :: "nat \<Rightarrow> nat list" where
  "dec_digits n = (if n < 10 then [n] else dec_digits (n div 10) @ [n mod 10])"

declare dec_digits.simps [simp del]

definition digit_chr :: "nat \<Rightarrow> char" where
  "digit_chr d = char_of (48 + d)"

definition dec_str :: "nat \<Rightarrow> string" where
  "dec_str n = map digit_chr (dec_digits n)"

text \<open>
  \<^verbatim>\<open>sscanf(s, "%llu", &i)\<close>: white space, an optional sign, at least one digit; \<open>None\<close>
  is a matching failure, which leaves \<^verbatim>\<open>i\<close> alone. A value past \<open>2^64 - 1\<close> is
  \<^verbatim>\<open>ULLONG_MAX\<close> and a minus sign negates modulo \<open>2^64\<close>, as \<^verbatim>\<open>strtoull\<close> does.
\<close>

definition is_space :: "char \<Rightarrow> bool" where
  "is_space c \<longleftrightarrow> (of_char c :: nat) = 32 \<or> (9 \<le> (of_char c :: nat) \<and> (of_char c :: nat) \<le> 13)"

definition is_digit :: "char \<Rightarrow> bool" where
  "is_digit c \<longleftrightarrow> 48 \<le> (of_char c :: nat) \<and> (of_char c :: nat) \<le> 57"

definition digits_val :: "string \<Rightarrow> nat" where
  "digits_val ds = foldl (\<lambda>a c. a * 10 + (of_char c - 48)) 0 ds"

definition scan_sign :: "string \<Rightarrow> bool \<times> string" where
  "scan_sign t = (case t of [] \<Rightarrow> (False, [])
     | c # r \<Rightarrow> if c = CHR ''-'' then (True, r) else if c = CHR ''+'' then (False, r) else (False, t))"

definition scan_ull :: "string \<Rightarrow> u64 option" where
  "scan_ull s =
     (let (neg, u) = scan_sign (dropWhile is_space s);
          ds = takeWhile is_digit u; v = digits_val ds
      in if ds = [] then None
         else if v \<ge> 2 ^ 64 then Some (- 1)
         else Some (if neg then - word_of_nat v else word_of_nat v))"

lemma digit_chars:
  "digit_chr 0 = CHR ''0''" "digit_chr (Suc 0) = CHR ''1''" "digit_chr 2 = CHR ''2''" "digit_chr 3 = CHR ''3''"
  "digit_chr 4 = CHR ''4''" "digit_chr 5 = CHR ''5''" "digit_chr 6 = CHR ''6''" "digit_chr 7 = CHR ''7''"
  "digit_chr 8 = CHR ''8''" "digit_chr 9 = CHR ''9''"
  by (simp_all add: digit_chr_def char_of_def bit_Suc_0_iff)
lemma of_char_digit_chr: "d < 10 \<Longrightarrow> (of_char (digit_chr d) :: nat) = 48 + d"
  by (simp add: digit_chr_def)

lemma dec_digits_less: "d \<in> set (dec_digits n) \<Longrightarrow> d < 10"
proof (induction n rule: dec_digits.induct)
  case (1 n)
  then show ?case
    by (auto simp: dec_digits.simps [of n] split: if_splits)
qed

lemma dec_digits_not_Nil [simp]: "dec_digits n \<noteq> []"
  by (subst dec_digits.simps) simp

lemma digits_val_snoc: "digits_val (ds @ [c]) = digits_val ds * 10 + (of_char c - 48)"
  by (simp add: digits_val_def)

lemma digits_val_dec: "digits_val (map digit_chr (dec_digits n)) = n"
proof (induction n rule: dec_digits.induct)
  case (1 n)
  show ?case
  proof (cases "n < 10")
    case True
    then show ?thesis
      by (simp add: dec_digits.simps [of n] digits_val_def of_char_digit_chr)
  next
    case False
    then show ?thesis
      using 1 by (simp add: dec_digits.simps [of n] digits_val_snoc of_char_digit_chr)
  qed
qed

lemma dec_str_not_Nil [simp]: "dec_str n \<noteq> []"
  by (simp add: dec_str_def)

lemma dec_str_digit: "c \<in> set (dec_str n) \<Longrightarrow> is_digit c"
  by (auto simp: dec_str_def is_digit_def of_char_digit_chr dest!: dec_digits_less)

lemma digit_not_space: "is_digit c \<Longrightarrow> \<not> is_space c"
  by (auto simp: is_digit_def is_space_def)

lemma digit_not_special:
  assumes "is_digit c"
  shows "c \<noteq> CHR ''-''" "c \<noteq> CHR ''+''" "c \<noteq> CHR ''k''" "c \<noteq> CHR 0x0A"
  using assms by (auto simp: is_digit_def)

lemma scan_ull_dec_str:
  assumes "n < 2 ^ 64"
  shows "scan_ull (dec_str n) = Some (word_of_nat n)"
proof -
  obtain c r where s: "dec_str n = c # r"
    by (cases "dec_str n") auto
  have c: "is_digit c"
    using dec_str_digit [of c n] s by simp
  have skip: "dropWhile is_space (dec_str n) = dec_str n"
    using c by (simp add: s digit_not_space)
  have sign: "scan_sign (dec_str n) = (False, dec_str n)"
    using c by (simp add: s scan_sign_def digit_not_special)
  have digits: "takeWhile is_digit (dec_str n) = dec_str n"
    by (simp add: takeWhile_eq_all_conv dec_str_digit)
  have "digits_val (dec_str n) = n"
    by (simp add: dec_str_def digits_val_dec)
  then show ?thesis
    using assms by (simp add: scan_ull_def skip sign digits)
qed

text \<open>\<^verbatim>\<open>std::string(const char*)\<close>: up to the first NUL.\<close>

definition cstr :: "string \<Rightarrow> string" where
  "cstr s = takeWhile (\<lambda>ch. ch \<noteq> CHR 0x00) s"

section \<open>Blocks and words\<close>

text \<open>
  The whole 64-byte blocks of a message; a block as sixteen 32-bit words, most
  significant byte first (\<open>be_words\<close>) or least significant first (\<open>le_words\<close>).
\<close>

function blocks64 :: "'a list \<Rightarrow> 'a list list" where
  "blocks64 bs = (if length bs < 64 then [] else take 64 bs # blocks64 (drop 64 bs))"
  by pat_completeness auto
termination by (relation "measure length") auto

declare blocks64.simps [simp del]

lemma blocks64_short: "length bs < 64 \<Longrightarrow> blocks64 bs = []"
  by (simp add: blocks64.simps)

lemma blocks64_step: "length b = 64 \<Longrightarrow> blocks64 (b @ bs) = b # blocks64 bs"
  by (subst blocks64.simps) simp

lemma blocks64_append:
  assumes "64 dvd length xs"
  shows "blocks64 (xs @ ys) = blocks64 xs @ blocks64 ys"
  using assms
proof (induction xs rule: blocks64.induct)
  case (1 xs)
  show ?case
  proof (cases "length xs < 64")
    case True
    then have "xs = []"
      using 1(2) by (cases "length xs") (auto dest: dvd_imp_le)
    then show ?thesis by (simp add: blocks64_short)
  next
    case False
    then have "64 dvd length (drop 64 xs)"
      using 1(2) by (simp add: dvd_diff_nat)
    then have "blocks64 (drop 64 xs @ ys) = blocks64 (drop 64 xs) @ blocks64 ys"
      using 1(1) False by blast
    then show ?thesis
      using False blocks64.simps [of xs] blocks64_step [of "take 64 xs" "drop 64 xs @ ys"]
      by (simp flip: append_assoc)
  qed
qed

lemma blocks64_one: "length b = 64 \<Longrightarrow> blocks64 b = [b]"
  using blocks64_step [of b "[]"] by (simp add: blocks64_short)

lemma blocks64_length: "b \<in> set (blocks64 bs) \<Longrightarrow> length b = 64"
proof (induction bs rule: blocks64.induct)
  case (1 bs)
  then show ?case
    by (subst (asm) (2) blocks64.simps) (auto split: if_splits)
qed

text \<open>
  The padding that SHA-1 and MD5 share: a \<open>1\<close> bit, zeros up to 56 bytes modulo 64 and an
  8-byte length field. The last, incomplete block of the message gives one or two blocks.
\<close>

definition md_pad :: "byte list \<Rightarrow> byte list \<Rightarrow> byte list" where
  "md_pad m len8 = m @ 0x80 # replicate ((119 - length m mod 64) mod 64) 0 @ len8"

lemma blocks64_two: "length b = 64 \<Longrightarrow> length c = 64 \<Longrightarrow> blocks64 (b @ c) = [b, c]"
  by (simp add: blocks64_step blocks64_one)

lemma blocks64_take: "blocks64 (take (64 * (length m div 64)) m) = blocks64 m"
proof -
  let ?k = "64 * (length m div 64)"
  have "blocks64 (take ?k m @ drop ?k m) = blocks64 (take ?k m) @ blocks64 (drop ?k m)"
    by (rule blocks64_append) simp
  moreover have "length (drop ?k m) < 64"
    by (simp add: minus_mult_div_eq_mod)
  ultimately show ?thesis
    by (simp add: blocks64_short)
qed

lemma md_pad_blocks:
  fixes m :: "byte list"
  assumes "length len8 = 8" and n: "n = length m mod 64" and tail: "tail = drop (64 * (length m div 64)) m"
  shows "blocks64 (md_pad m len8) = blocks64 m @
    (if n < 56 then [tail @ 0x80 # replicate (55 - n) 0 @ len8]
     else [tail @ 0x80 # replicate (63 - n) 0, replicate 56 0 @ len8])"
proof -
  let ?k = "64 * (length m div 64)"
  let ?rest = "tail @ 0x80 # replicate ((119 - n) mod 64) 0 @ len8"
  have len: "length tail = n" and less: "n < 64"
    by (simp_all add: n tail minus_mult_div_eq_mod)
  have "md_pad m len8 = take ?k m @ ?rest"
    by (simp add: md_pad_def n tail flip: append_assoc)
  then have split: "blocks64 (md_pad m len8) = blocks64 m @ blocks64 ?rest"
    using blocks64_append [of "take ?k m" ?rest] by (simp add: blocks64_take)
  show ?thesis
  proof (cases "n < 56")
    case True
    then have "(119 - n) mod 64 = 55 - n"
      by (simp add: mod_if)
    then have "length ?rest = 64"
      using True len assms(1) by simp
    then show ?thesis
      using True \<open>(119 - n) mod 64 = 55 - n\<close> by (simp add: split blocks64_one)
  next
    case False
    then have k: "(119 - n) mod 64 = 63 - n + 56"
      using less by simp
    have "?rest = (tail @ 0x80 # replicate (63 - n) 0) @ (replicate 56 0 @ len8)"
      unfolding k replicate_add by simp
    then have "blocks64 ?rest = blocks64 ((tail @ 0x80 # replicate (63 - n) 0) @ (replicate 56 0 @ len8))"
      by (simp only:)
    also have "\<dots> = [tail @ 0x80 # replicate (63 - n) 0, replicate 56 0 @ len8]"
      by (rule blocks64_two) (use len less assms(1) in simp_all)
    finally show ?thesis
      using False by (simp only: split if_False)
  qed
qed

text \<open>Arrays filled or overwritten by counting loops.\<close>

lemma fold_update_upt:
  "n \<le> length w \<Longrightarrow> fold (\<lambda>i w. w[i := f i]) [0..<n] w = map f [0..<n] @ drop n w"
proof (induction n)
  case 0
  then show ?case by simp
next
  case (Suc n)
  then have "drop n w = w ! n # drop (Suc n) w"
    by (simp add: Cons_nth_drop_Suc)
  then show ?case
    using Suc by (simp add: list_update_append)
qed

lemma fold_update_down:
  "n \<le> length w \<Longrightarrow> fold (\<lambda>i w. w[i := f i]) (rev [0..<n]) w = map f [0..<n] @ drop n w"
proof (induction n arbitrary: w)
  case 0
  then show ?case by simp
next
  case (Suc n)
  then have "drop n w = w ! n # drop (Suc n) w"
    by (simp add: Cons_nth_drop_Suc)
  then have "drop n (w[n := f n]) = f n # drop (Suc n) w"
    using Suc.prems by (simp add: drop_update_swap)
  then show ?case
    using Suc.IH [of "w[n := f n]"] Suc.prems by simp
qed


definition be32 :: "byte \<Rightarrow> byte \<Rightarrow> byte \<Rightarrow> byte \<Rightarrow> u32" where
  "be32 a b c d = ucast d OR push_bit 8 (ucast c) OR push_bit 16 (ucast b) OR push_bit 24 (ucast a)"

definition le32 :: "byte \<Rightarrow> byte \<Rightarrow> byte \<Rightarrow> byte \<Rightarrow> u32" where
  "le32 a b c d = ucast a OR push_bit 8 (ucast b) OR push_bit 16 (ucast c) OR push_bit 24 (ucast d)"

definition be_words :: "byte list \<Rightarrow> u32 list" where
  "be_words bs =
     map (\<lambda>i. be32 (bs ! (4 * i)) (bs ! (4 * i + 1)) (bs ! (4 * i + 2)) (bs ! (4 * i + 3))) [0..<16]"

definition le_words :: "byte list \<Rightarrow> u32 list" where
  "le_words bs =
     map (\<lambda>i. le32 (bs ! (4 * i)) (bs ! (4 * i + 1)) (bs ! (4 * i + 2)) (bs ! (4 * i + 3))) [0..<16]"

lemma length_words [simp]: "length (be_words bs) = 16" "length (le_words bs) = 16"
  by (simp_all add: be_words_def le_words_def)

lemma be32_or:
  "be32 0 b c d OR push_bit 24 (ucast x) = be32 x b c d"
  "be32 a 0 c d OR push_bit 16 (ucast x) = be32 a x c d"
  "be32 a b 0 d OR push_bit 8 (ucast x) = be32 a b x d"
  "be32 a b c 0 OR ucast x = be32 a b c x"
  by (simp_all add: be32_def ac_simps)

lemma Suc_Suc_mod_4: "Suc (Suc (4 * i)) mod 4 = 2"
  by presburger

lemma be_words_or:
  assumes "length bs = 64" "l < 64" "bs ! l = 0"
  shows "(be_words bs)[l div 4 := be_words bs ! (l div 4) OR push_bit ((3 - l mod 4) * 8) (ucast x)]
    = be_words (bs[l := x])"
proof (rule nth_equalityI)
  fix i
  assume "i < length ((be_words bs)[l div 4 := be_words bs ! (l div 4) OR push_bit ((3 - l mod 4) * 8) (ucast x)])"
  then have i: "i < 16" by simp
  define q where "q = l div 4"
  have q: "q < 16" using assms(2) by (simp add: q_def)
  consider "l = 4 * q" | "l = 4 * q + 1" | "l = 4 * q + 2" | "l = 4 * q + 3"
    unfolding q_def by linarith
  then show "(be_words bs)[l div 4 := be_words bs ! (l div 4) OR push_bit ((3 - l mod 4) * 8) (ucast x)] ! i
    = be_words (bs[l := x]) ! i"
    by cases (use i q assms in \<open>auto simp: be_words_def nth_list_update be32_or Suc_Suc_mod_4\<close>)
qed simp
lemma rotation_word:
  fixes w :: u32
  assumes "0 < k" "k < 32"
  shows "push_bit k w OR drop_bit (32 - k) w = word_rotl k w"
proof (rule bit_word_eqI)
  fix n :: nat
  assume n: "n < LENGTH(32)"
  show "bit (push_bit k w OR drop_bit (32 - k) w) n = bit (word_rotl k w) n"
  proof (cases "n < k")
    case True
    then have "(n + (32 - k)) mod 32 = 32 - k + n" using n assms by simp
    then show ?thesis using True n assms by (simp add: bit_simps bit_word_rotl_iff)
  next
    case False
    then have e: "n + (32 - k) = n - k + 32" using n assms by simp
    have "(n + (32 - k)) mod 32 = n - k" unfolding e using n by simp
    moreover have "\<not> bit w (32 - k + n)"
      using False n assms by (auto dest: bit_imp_le_length)
    ultimately show ?thesis using False n assms by (simp add: bit_simps bit_word_rotl_iff)
  qed
qed

section \<open>std::map\<close>

text \<open>
  \<^verbatim>\<open>std::map\<close> iterates in key order, and the code relies on that order where it
  walks a map. The model is an association list with strictly increasing keys;
  \<open>om_find\<close> is \<^verbatim>\<open>find\<close>, \<open>om_put\<close> the assignment \<^verbatim>\<open>m[k] = v\<close>, \<open>om_ins\<close>
  is \<^verbatim>\<open>insert\<close> (an existing entry stays), \<open>om_erase\<close> removes a key.
\<close>

type_synonym ('k, 'v) omap = "('k \<times> 'v) list"

definition om_find :: "('k, 'v) omap \<Rightarrow> 'k \<Rightarrow> 'v option" where
  "om_find m k = map_of m k"

fun om_put :: "'k::linorder \<Rightarrow> 'v \<Rightarrow> ('k, 'v) omap \<Rightarrow> ('k, 'v) omap" where
  "om_put k v [] = [(k, v)]"
| "om_put k v ((k', v') # m) =
     (if k < k' then (k, v) # (k', v') # m
      else if k = k' then (k, v) # m
      else (k', v') # om_put k v m)"

definition om_ins :: "'k::linorder \<Rightarrow> 'v \<Rightarrow> ('k, 'v) omap \<Rightarrow> ('k, 'v) omap" where
  "om_ins k v m = (case om_find m k of None \<Rightarrow> om_put k v m | Some _ \<Rightarrow> m)"

definition om_erase :: "'k \<Rightarrow> ('k, 'v) omap \<Rightarrow> ('k, 'v) omap" where
  "om_erase k m = filter (\<lambda>e. fst e \<noteq> k) m"

definition om_inv :: "('k::linorder, 'v) omap \<Rightarrow> bool" where
  "om_inv m \<longleftrightarrow> sorted_wrt (<) (map fst m)"

text \<open>The laws a client of \<^verbatim>\<open>std::map\<close> uses.\<close>

locale ordered_map =
  fixes emp :: "'m"
    and find :: "'m \<Rightarrow> 'k::linorder \<Rightarrow> 'v option"
    and put :: "'k \<Rightarrow> 'v \<Rightarrow> 'm \<Rightarrow> 'm"
    and ins :: "'k \<Rightarrow> 'v \<Rightarrow> 'm \<Rightarrow> 'm"
    and erase :: "'k \<Rightarrow> 'm \<Rightarrow> 'm"
    and entries :: "'m \<Rightarrow> ('k \<times> 'v) list"
    and inv :: "'m \<Rightarrow> bool"
  assumes find_emp: "find emp k = None"
    and find_put: "inv m \<Longrightarrow> find (put k v m) k' = (if k' = k then Some v else find m k')"
    and find_ins: "inv m \<Longrightarrow> find (ins k v m) k' =
      (if k' = k \<and> find m k = None then Some v else find m k')"
    and find_erase: "inv m \<Longrightarrow> find (erase k m) k' = (if k' = k then None else find m k')"
    and entries_find: "inv m \<Longrightarrow> (k, v) \<in> set (entries m) \<longleftrightarrow> find m k = Some v"
    and entries_sorted: "inv m \<Longrightarrow> sorted_wrt (<) (map fst (entries m))"
    and inv_emp: "inv emp"
    and inv_put: "inv m \<Longrightarrow> inv (put k v m)"
    and inv_ins: "inv m \<Longrightarrow> inv (ins k v m)"
    and inv_erase: "inv m \<Longrightarrow> inv (erase k m)"
begin

lemmas laws = find_emp find_put find_ins find_erase inv_emp inv_put inv_ins inv_erase

lemma entries_distinct: "inv m \<Longrightarrow> distinct (map fst (entries m))"
  using entries_sorted [of m] by (simp add: strict_sorted_iff)

lemma put_put_same: "inv m \<Longrightarrow> find (put k v (put k w m)) k' = find (put k v m) k'"
  by (simp add: laws)

lemma erase_put_same: "inv m \<Longrightarrow> find m k = None \<Longrightarrow> find (erase k (put k v m)) k' = find m k'"
  by (simp add: laws)

lemma ins_present: "inv m \<Longrightarrow> find m k = Some w \<Longrightarrow> find (ins k v m) k' = find m k'"
  by (simp add: laws)

end

lemma om_put_keys: "set (map fst (om_put k v m)) = insert k (set (map fst m))"
  by (induction k v m rule: om_put.induct) auto

lemma om_put_inv: "om_inv m \<Longrightarrow> om_inv (om_put k v m)"
proof (induction m)
  case Nil
  then show ?case by (simp add: om_inv_def)
next
  case (Cons e m)
  obtain k' v' where e: "e = (k', v')" by (cases e)
  have keys: "set (map fst (om_put k v m)) = insert k (set (map fst m))"
    by (rule om_put_keys)
  then have "x \<in> fst ` set (om_put k v m) \<Longrightarrow> x = k \<or> x \<in> fst ` set m" for x
    by auto
  then show ?case
    using Cons by (fastforce simp: om_inv_def e)
qed

lemma om_find_put: "om_inv m \<Longrightarrow> om_find (om_put k v m) k' = (if k' = k then Some v else om_find m k')"
proof (induction m)
  case Nil
  then show ?case by (simp add: om_find_def)
next
  case (Cons e m)
  then show ?case
    by (cases e) (auto simp: om_find_def om_inv_def)
qed

lemma om_find_erase: "om_find (om_erase k m) k' = (if k' = k then None else om_find m k')"
  by (induction m) (auto simp: om_find_def om_erase_def)

lemma om_erase_inv: "om_inv m \<Longrightarrow> om_inv (om_erase k m)"
  by (simp add: om_inv_def om_erase_def sorted_wrt_map sorted_wrt_filter)

lemma om_find_ins:
  "om_inv m \<Longrightarrow> om_find (om_ins k v m) k' =
     (if k' = k \<and> om_find m k = None then Some v else om_find m k')"
  by (auto simp: om_ins_def om_find_put split: option.splits)

lemma om_ins_inv: "om_inv m \<Longrightarrow> om_inv (om_ins k v m)"
  by (simp add: om_ins_def om_put_inv split: option.splits)

interpretation om: ordered_map
  "[]" om_find om_put om_ins om_erase "\<lambda>m. m" "om_inv :: ('k::linorder, 'v) omap \<Rightarrow> bool"
proof unfold_locales
  show "om_inv m \<Longrightarrow> (k, v) \<in> set m \<longleftrightarrow> om_find m k = Some v" for m :: "('k, 'v) omap" and k v
    by (simp add: om_inv_def om_find_def strict_sorted_iff map_of_eq_Some_iff)
qed (simp_all add: om_find_put om_find_erase om_put_inv om_erase_inv om_find_ins om_ins_inv,
     simp_all add: om_find_def om_inv_def)

lemmas om_simps [simp] = om_find_put om_find_erase om_put_inv om_erase_inv om_find_ins om_ins_inv

lemma om_find_Nil [simp]: "om_find [] k = None"
  by (simp add: om_find_def)

lemma om_inv_Nil [simp]: "om_inv []"
  by (simp add: om_inv_def)

section \<open>Streams fed in pieces\<close>

text \<open>
  A hash context, a protocol parser and a text matcher are all fed their input in
  pieces cut at arbitrary places. Their contract: what is observable after two
  pieces is what is observable after the two joined.
\<close>

locale incremental =
  fixes feed :: "'s \<Rightarrow> 'a list \<Rightarrow> 's"
    and obs :: "'s \<Rightarrow> 'o"
    and inv :: "'s \<Rightarrow> bool"
  assumes inv_feed: "inv s \<Longrightarrow> inv (feed s xs)"
    and feed_feed: "inv s \<Longrightarrow> obs (feed (feed s xs) ys) = obs (feed s (xs @ ys))"
    and feed_nil: "inv s \<Longrightarrow> obs (feed s []) = obs s"
    and feed_cong: "inv s \<Longrightarrow> inv t \<Longrightarrow> obs s = obs t \<Longrightarrow> obs (feed s xs) = obs (feed t xs)"
begin

lemma inv_feeds: "inv s \<Longrightarrow> inv (foldl feed s css)"
  by (induction css arbitrary: s) (auto intro: inv_feed)

lemma feeds_cong:
  "inv s \<Longrightarrow> inv t \<Longrightarrow> obs s = obs t \<Longrightarrow> obs (foldl feed s css) = obs (foldl feed t css)"
  by (induction css arbitrary: s t) (auto intro: inv_feed feed_cong)

lemma chunking: "inv s \<Longrightarrow> obs (foldl feed s css) = obs (feed s (concat css))"
proof (induction css arbitrary: s)
  case Nil
  then show ?case by (simp add: feed_nil)
next
  case (Cons c css)
  have "obs (foldl feed (feed s c) css) = obs (feed (feed s c) (concat css))"
    by (rule Cons.IH) (rule inv_feed [OF Cons.prems])
  then show ?case
    by (simp add: feed_feed Cons.prems)
qed

lemma chunking_unique:
  assumes "inv s" and "concat css = concat dss"
  shows "obs (foldl feed s css) = obs (foldl feed s dss)"
  using assms by (simp add: chunking)

end

section \<open>Sums\<close>

text \<open>Replacing one element of a list changes a sum over it by that element.\<close>

lemma sum_list_put:
  fixes f :: "'a \<Rightarrow> 'b::comm_monoid_add"
  shows "i < length xs \<Longrightarrow> (\<Sum>x\<leftarrow>xs[i := y]. f x) + f (xs ! i) = (\<Sum>x\<leftarrow>xs. f x) + f y"
proof (induction xs arbitrary: i)
  case (Cons x xs)
  show ?case
  proof (cases i)
    case (Suc j)
    then have "(\<Sum>x\<leftarrow>xs[j := y]. f x) + f (xs ! j) = (\<Sum>x\<leftarrow>xs. f x) + f y"
      using Cons by simp
    then show ?thesis
      using Suc by (simp add: add.assoc)
  qed (simp add: ac_simps)
qed simp

end
