(* ===== verification/Base64.thy ===== *)
theory Base64
  imports Hi_Prelude
begin

text \<open>
  \<^verbatim>\<open>crypt/base64.cpp\<close>: the encoder and the two decoders. The loops keep the code's
  three- and four-byte work arrays and the fill index \<^verbatim>\<open>i\<close>; the arrays start with
  arbitrary contents, as the uninitialised C arrays do, and the lemmas show that these are
  never read. The reference is the RFC 4648 grouping on numbers (\<open>rfc4648\<close>). The decoders keep the
  length in an \<^verbatim>\<open>int\<close>, so a string of \<open>2^31\<close> characters or more has another length for them.
\<close>

section \<open>The code\<close>

definition base64_chars :: string where
  "base64_chars = ''ABCDEFGHIJKLMNOPQRSTUVWXYZabcdefghijklmnopqrstuvwxyz0123456789+/''"

definition isalnum :: "char \<Rightarrow> bool" where
  "isalnum c = (let n = of_char c :: nat in
     (48 \<le> n \<and> n \<le> 57) \<or> (65 \<le> n \<and> n \<le> 90) \<or> (97 \<le> n \<and> n \<le> 122))"

definition is_base64 :: "char \<Rightarrow> bool" where
  "is_base64 c \<longleftrightarrow> isalnum c \<or> c = CHR ''+'' \<or> c = CHR ''/''"

text \<open>\<open>base64_chars[x]\<close> and \<open>base64_chars.find(c)\<close> cut to an \<^verbatim>\<open>unsigned char\<close>
  (\<^verbatim>\<open>npos\<close> becomes 255).\<close>

definition b64_char :: "byte \<Rightarrow> char" where
  "b64_char x = base64_chars ! unat x"

definition b64_find :: "char \<Rightarrow> byte" where
  "b64_find c = (case str_find c base64_chars of Some n \<Rightarrow> word_of_nat n | None \<Rightarrow> 255)"

definition enc_group :: "byte list \<Rightarrow> byte list" where
  "enc_group a =
     [drop_bit 2 (a ! 0 AND 0xfc),
      push_bit 4 (a ! 0 AND 0x03) + drop_bit 4 (a ! 1 AND 0xf0),
      push_bit 2 (a ! 1 AND 0x0f) + drop_bit 6 (a ! 2 AND 0xc0),
      a ! 2 AND 0x3f]"

definition dec_group :: "byte list \<Rightarrow> byte list" where
  "dec_group a =
     [push_bit 2 (a ! 0) + drop_bit 4 (a ! 1 AND 0x30),
      push_bit 4 (a ! 1 AND 0xf) + drop_bit 2 (a ! 2 AND 0x3c),
      push_bit 6 (a ! 2 AND 0x3) + a ! 3]"

fun enc_loop :: "byte list \<Rightarrow> nat \<Rightarrow> byte list \<Rightarrow> string \<Rightarrow> nat \<times> byte list \<times> string" where
  "enc_loop [] i a3 ret = (i, a3, ret)"
| "enc_loop (b # bs) i a3 ret =
     (let a3 = a3[i := b]; i = i + 1
      in if i = 3 then enc_loop bs 0 a3 (ret @ map b64_char (enc_group a3))
         else enc_loop bs i a3 ret)"

definition base64_encode_from :: "byte list \<Rightarrow> byte list \<Rightarrow> string" where
  "base64_encode_from junk3 bytes =
     (let (i, a3, ret) = enc_loop bytes 0 junk3 ''''
      in if i \<noteq> 0
         then let a3 = fold (\<lambda>j a. a[j := 0]) [i..<3] a3;
                  a4 = enc_group a3
              in ret @ map (\<lambda>j. b64_char (a4 ! j)) [0..<i + 1] @ replicate (3 - i) CHR ''=''
         else ret)"

definition base64_encode :: "byte list \<Rightarrow> string" where
  "base64_encode bytes = base64_encode_from [0, 0, 0] bytes"

text \<open>
  The length as an \<^verbatim>\<open>int\<close>. The loop counts it down before it looks at the character: \<open>None\<close> is
  the overflow of \<^verbatim>\<open>in_len--\<close>. Behind the last character is a NUL, which is not in the alphabet.
\<close>

definition int_size :: "string \<Rightarrow> int" where
  "int_size s = sint (word_of_nat (length s) :: 32 word)"

fun dec_loop :: "string \<Rightarrow> int \<Rightarrow> nat \<Rightarrow> byte list \<Rightarrow> string \<Rightarrow> (nat \<times> byte list \<times> string) option" where
  "dec_loop [] in_len i a4 ret = (if in_len = - (2 ^ 31) then None else Some (i, a4, ret))"
| "dec_loop (c # s) in_len i a4 ret =
     (if in_len = - (2 ^ 31) then None
      else if in_len \<noteq> 0 \<and> c \<noteq> CHR ''='' \<and> is_base64 c
      then let a4 = a4[i := byte_of c]; i = i + 1
           in if i = 4
              then let a4 = map (\<lambda>x. b64_find (chr_of x)) a4
                   in dec_loop s (in_len - 1) 0 a4 (ret @ map chr_of (dec_group a4))
              else dec_loop s (in_len - 1) i a4 ret
      else Some (i, a4, ret))"

definition base64_decode_from :: "byte list \<Rightarrow> string \<Rightarrow> string option" where
  "base64_decode_from junk4 s =
     (case dec_loop s (int_size s) 0 junk4 '''' of
        None \<Rightarrow> None
      | Some (i, a4, ret) \<Rightarrow>
          Some (if i \<noteq> 0
           then let a4 = fold (\<lambda>j a. a[j := 0]) [i..<4] a4;
                    a4 = map (\<lambda>x. b64_find (chr_of x)) a4;
                    a3 = dec_group a4
                in ret @ map (\<lambda>j. chr_of (a3 ! j)) [0..<i - 1]
           else ret))"

definition base64_decode :: "string \<Rightarrow> string option" where
  "base64_decode s = base64_decode_from [0, 0, 0, 0] s"

text \<open>The decoder into a \<^verbatim>\<open>std::vector<char>\<close> repeats the loop with \<^verbatim>\<open>push_back\<close>.\<close>

fun dec_vec_loop :: "string \<Rightarrow> int \<Rightarrow> nat \<Rightarrow> byte list \<Rightarrow> char list \<Rightarrow> (nat \<times> byte list \<times> char list) option" where
  "dec_vec_loop [] in_len i a4 ret = (if in_len = - (2 ^ 31) then None else Some (i, a4, ret))"
| "dec_vec_loop (c # s) in_len i a4 ret =
     (if in_len = - (2 ^ 31) then None
      else if in_len \<noteq> 0 \<and> c \<noteq> CHR ''='' \<and> is_base64 c
      then let a4 = a4[i := byte_of c]; i = i + 1
           in if i = 4
              then let a4 = map (\<lambda>x. b64_find (chr_of x)) a4
                   in dec_vec_loop s (in_len - 1) 0 a4 (foldl (\<lambda>r x. r @ [chr_of x]) ret (dec_group a4))
              else dec_vec_loop s (in_len - 1) i a4 ret
      else Some (i, a4, ret))"

definition base64_decode_vec :: "string \<Rightarrow> char list option" where
  "base64_decode_vec s =
     (case dec_vec_loop s (int_size s) 0 [0, 0, 0, 0] [] of
        None \<Rightarrow> None
      | Some (i, a4, ret) \<Rightarrow>
          Some (if i \<noteq> 0
           then let a4 = fold (\<lambda>j a. a[j := 0]) [i..<4] a4;
                    a4 = map (\<lambda>x. b64_find (chr_of x)) a4;
                    a3 = dec_group a4
                in foldl (\<lambda>r j. r @ [chr_of (a3 ! j)]) ret [0..<i - 1]
           else ret))"

section \<open>The reference\<close>

text \<open>RFC 4648: three bytes are a 24-bit number, written as four base-64 digits; a last
  group of one or two bytes gives two or three digits and padding.\<close>

definition rfc_digit :: "nat \<Rightarrow> char" where
  "rfc_digit n = base64_chars ! n"

definition rfc_group :: "byte \<Rightarrow> byte \<Rightarrow> byte \<Rightarrow> string" where
  "rfc_group a b c =
     (let n = unat a * 65536 + unat b * 256 + unat c
      in map rfc_digit [n div 262144, n div 4096 mod 64, n div 64 mod 64, n mod 64])"

fun rfc4648 :: "byte list \<Rightarrow> string" where
  "rfc4648 [] = ''''"
| "rfc4648 [a] = take 2 (rfc_group a 0 0) @ ''==''"
| "rfc4648 [a, b] = take 3 (rfc_group a b 0) @ ''=''"
| "rfc4648 (a # b # c # bs) = rfc_group a b c @ rfc4648 bs"

section \<open>Encoding is RFC 4648\<close>

lemma str_find_nth: "distinct s \<Longrightarrow> n < length s \<Longrightarrow> str_find (s ! n) s = Some n"
  by (auto simp: str_find_Some_iff in_set_conv_nth nth_eq_iff_index_eq)

lemma length_base64_chars [simp]: "length base64_chars = 64"
  by (simp add: base64_chars_def)

lemma distinct_base64_chars: "distinct base64_chars"
  by (simp add: base64_chars_def)

lemma base64_chars_valid: "c \<in> set base64_chars \<Longrightarrow> is_base64 c \<and> c \<noteq> CHR ''=''"
proof -
  have "list_all (\<lambda>c. is_base64 c \<and> c \<noteq> CHR ''='') base64_chars"
    by (simp add: base64_chars_def is_base64_def isalnum_def)
  then show "c \<in> set base64_chars \<Longrightarrow> is_base64 c \<and> c \<noteq> CHR ''=''"
    by (auto simp: list_all_iff)
qed

lemma rfc_digit_valid:
  assumes "n < 64"
  shows "is_base64 (rfc_digit n)" "rfc_digit n \<noteq> CHR ''=''" "b64_find (rfc_digit n) = word_of_nat n"
proof -
  have "rfc_digit n \<in> set base64_chars"
    using assms by (simp add: rfc_digit_def)
  then show "is_base64 (rfc_digit n)" "rfc_digit n \<noteq> CHR ''=''"
    by (auto dest: base64_chars_valid)
  show "b64_find (rfc_digit n) = word_of_nat n"
    using assms by (simp add: b64_find_def rfc_digit_def str_find_nth distinct_base64_chars)
qed


lemma enc_group_numbers:
  "map unat (enc_group [a, b, c]) =
     [unat a div 4, unat a mod 4 * 16 + unat b div 16, unat b mod 16 * 4 + unat c div 64, unat c mod 64]"
proof -
  have "unat a div 4 < 64" "unat b div 16 < 16" "unat c div 64 < 4"
    using unat_byte_less [of a] unat_byte_less [of b] unat_byte_less [of c] by auto
  then show ?thesis
    by (simp add: enc_group_def hi_bytes unat_word_ariths)
qed

lemma group_digit_0:
  assumes "(b::nat) < 256" "c < 256"
  shows "(a * 65536 + b * 256 + c) div 262144 = a div 4"
proof -
  have "(a * 65536 + (b * 256 + c)) div (65536 * 4) = a div 4"
    unfolding div_mult2_eq using assms by (subst div_mult_self3) (simp_all)
  then show ?thesis by (simp add: add.assoc)
qed

lemma group_digit_1:
  assumes "(b::nat) < 256" "c < 256"
  shows "(a * 65536 + b * 256 + c) div 4096 mod 64 = a mod 4 * 16 + b div 16"
proof -
  have "(a * 65536 + b * 256 + c) div (256 * 16) = (a * 256 + b) div 16"
    unfolding div_mult2_eq using assms by (intro arg_cong [where f = "\<lambda>n. n div 16"]) simp
  also have "\<dots> = a * 16 + b div 16" by simp
  also have "(a * 16 + b div 16) mod (16 * 4) = a mod 4 * 16 + b div 16"
    unfolding mod_mult2_eq using assms by (simp add: div_less)
  finally show ?thesis by simp
qed

lemma group_digit_2:
  assumes "(c::nat) < 256"
  shows "(a * 65536 + b * 256 + c) div 64 mod 64 = b mod 16 * 4 + c div 64"
proof -
  have "(a * 65536 + b * 256 + c) div 64 = a * 16 * 64 + (b * 4 + c div 64)" by simp
  then have "(a * 65536 + b * 256 + c) div 64 mod 64 = (b * 4 + c div 64) mod (4 * 16)"
    by (simp only: mod_mult_self3) simp
  also have "\<dots> = b mod 16 * 4 + c div 64"
    unfolding mod_mult2_eq using assms by simp
  finally show ?thesis .
qed

lemma group_digit_3: "(a * 65536 + b * 256 + c) mod 64 = c mod (64::nat)"
proof -
  have "a * 65536 + b * 256 + c = (a * 1024 + b * 4) * 64 + c" by simp
  then show ?thesis by (simp only: mod_mult_self3)
qed

lemmas group_digits = group_digit_0 group_digit_1 group_digit_2 group_digit_3

lemma enc_group_rfc: "map b64_char (enc_group [a, b, c]) = rfc_group a b c"
proof -
  have "map b64_char (enc_group [a, b, c]) = map rfc_digit (map unat (enc_group [a, b, c]))"
    by (simp add: b64_char_def rfc_digit_def)
  then show ?thesis
    by (simp only: enc_group_numbers rfc_group_def Let_def group_digits unat_byte_less)
qed

lemma length_3_cases: "length xs = 3 \<longleftrightarrow> (\<exists>a b c. xs = [a, b, c])"
  by (auto simp: numeral_eq_Suc length_Suc_conv)

lemma length_4_cases: "length xs = 4 \<longleftrightarrow> (\<exists>a b c d. xs = [a, b, c, d])"
  by (auto simp: numeral_eq_Suc length_Suc_conv)

lemma length_enc_group [simp]: "length (enc_group a) = 4"
  by (simp add: enc_group_def)

lemma length_dec_group [simp]: "length (dec_group a) = 3"
  by (simp add: dec_group_def)

lemma enc_loop_step:
  "length a3 = 3 \<Longrightarrow> enc_loop (a # b # c # bs) 0 a3 ret = enc_loop bs 0 [a, b, c] (ret @ rfc_group a b c)"
  by (auto simp: length_3_cases enc_group_rfc)

lemma map_nth_take: "n \<le> length xs \<Longrightarrow> map (\<lambda>j. f (xs ! j)) [0..<n] = take n (map f xs)"
  by (rule nth_equalityI) auto

definition enc_finish :: "nat \<times> byte list \<times> string \<Rightarrow> string" where
  "enc_finish = (\<lambda>(i, a3, ret).
     if i \<noteq> 0
     then let a3 = fold (\<lambda>j a. a[j := 0]) [i..<3] a3; a4 = enc_group a3
          in ret @ map (\<lambda>j. b64_char (a4 ! j)) [0..<i + 1] @ replicate (3 - i) CHR ''=''
     else ret)"

lemma enc_finish_code: "base64_encode_from junk3 bytes = enc_finish (enc_loop bytes 0 junk3 '''')"
  by (simp add: base64_encode_from_def enc_finish_def)

lemma enc_finish_1: "enc_finish (Suc 0, [a, y, z], ret) = ret @ take 2 (rfc_group a 0 0) @ ''==''"
proof -
  have "fold (\<lambda>j a. a[j := 0]) [Suc 0..<3] [a, y, z] = [a, 0, 0]"
    by (simp add: upt_rec)
  moreover have "map (\<lambda>j. b64_char (enc_group [a, 0, 0] ! j)) [0..<Suc 0 + 1] = take 2 (rfc_group a 0 0)"
    unfolding enc_group_rfc [symmetric] by (subst map_nth_take) (simp_all add: numeral_2_eq_2)
  ultimately show ?thesis
    by (simp add: enc_finish_def numeral_eq_Suc del: upt_Suc)
qed

lemma enc_finish_2: "enc_finish (Suc (Suc 0), [a, b, z], ret) = ret @ take 3 (rfc_group a b 0) @ ''=''"
proof -
  have "fold (\<lambda>j a. a[j := 0]) [Suc (Suc 0)..<3] [a, b, z] = [a, b, 0]"
    by (simp add: upt_rec)
  moreover have "map (\<lambda>j. b64_char (enc_group [a, b, 0] ! j)) [0..<Suc (Suc 0) + 1] = take 3 (rfc_group a b 0)"
    unfolding enc_group_rfc [symmetric] by (subst map_nth_take) (simp_all add: numeral_3_eq_3)
  ultimately show ?thesis
    by (simp add: enc_finish_def numeral_eq_Suc del: upt_Suc)
qed

lemma enc_loop_finish: "length a3 = 3 \<Longrightarrow> enc_finish (enc_loop bs 0 a3 ret) = ret @ rfc4648 bs"
proof (induction bs arbitrary: a3 ret rule: rfc4648.induct)
  case 1
  then show ?case by (simp add: enc_finish_def)
next
  case (2 a)
  then show ?case
    by (auto simp: length_3_cases enc_finish_1)
next
  case (3 a b)
  then show ?case
    by (auto simp: length_3_cases enc_finish_2)
next
  case (4 a b c bs)
  show ?case
    unfolding enc_loop_step [OF 4(2)]
    using 4(1) [of "[a, b, c]" "ret @ rfc_group a b c"] by simp
qed

text \<open>
  C16: The encoder writes the RFC 4648 encoding of its input, whatever the uninitialised
  work array held before.
\<close>

theorem base64_encode_rfc4648:
  assumes "length junk3 = 3"
  shows "base64_encode_from junk3 bytes = rfc4648 bytes"
  using enc_loop_finish [OF assms] by (simp add: enc_finish_code)

theorem base64_encode_rfc4648_witness:
  "base64_encode_from [200, 7, 7] [77, 97, 110, 77] = ''TWFuTQ==''"
  by (subst base64_encode_rfc4648) (simp_all add: rfc_group_def rfc_digit_def base64_chars_def)

section \<open>Decoding\<close>

definition dec_finish :: "nat \<times> byte list \<times> string \<Rightarrow> string" where
  "dec_finish = (\<lambda>(i, a4, ret).
     if i \<noteq> 0
     then let a4 = fold (\<lambda>j a. a[j := 0]) [i..<4] a4;
              a4 = map (\<lambda>x. b64_find (chr_of x)) a4;
              a3 = dec_group a4
          in ret @ map (\<lambda>j. chr_of (a3 ! j)) [0..<i - 1]
     else ret)"

text \<open>The loop without its counter.\<close>

fun dec_steps :: "string \<Rightarrow> nat \<Rightarrow> byte list \<Rightarrow> string \<Rightarrow> nat \<times> byte list \<times> string" where
  "dec_steps [] i a4 ret = (i, a4, ret)"
| "dec_steps (c # s) i a4 ret =
     (if c \<noteq> CHR ''='' \<and> is_base64 c
      then let a4 = a4[i := byte_of c]; i = i + 1
           in if i = 4
              then let a4 = map (\<lambda>x. b64_find (chr_of x)) a4
                   in dec_steps s 0 a4 (ret @ map chr_of (dec_group a4))
              else dec_steps s i a4 ret
      else (i, a4, ret))"

lemma dec_loop_steps: "dec_loop s (int n) i a4 ret = Some (dec_steps (take n s) i a4 ret)"
proof (induction s arbitrary: n i a4 ret)
  case (Cons c s)
  have "dec_loop s (int n - 1) i a4 ret = Some (dec_steps (take (n - 1) s) i a4 ret)" if "n \<noteq> 0" for i a4 ret
    using Cons.IH [of "n - 1" i a4 ret] that by (simp add: of_nat_diff)
  then show ?case
    by (cases n) (simp_all add: Let_def)
qed simp

lemma dec_finish_code:
  assumes "int_size s = int n"
  shows "base64_decode_from junk4 s = Some (dec_finish (dec_steps (take n s) 0 junk4 ''''))"
  unfolding base64_decode_from_def assms dec_loop_steps by (simp add: dec_finish_def split: prod.split)

lemma int_size_small: "length s < 2 ^ 31 \<Longrightarrow> int_size s = int (length s)"
  by (simp add: int_size_def signed_of_nat signed_take_bit_int_eq_self)

lemma int_size_mod: "length s mod 2 ^ 32 < 2 ^ 31 \<Longrightarrow> int_size s = int (length s mod 2 ^ 32)"
proof -
  assume less: "length s mod 2 ^ 32 < 2 ^ 31"
  have "(word_of_nat (length s) :: 32 word) = word_of_nat (length s mod 2 ^ 32)"
    by (simp add: word_of_nat_eq_iff take_bit_eq_mod)
  then show ?thesis
    using less by (simp add: int_size_def signed_of_nat signed_take_bit_int_eq_self)
qed

definition dec_quad :: "string \<Rightarrow> string" where
  "dec_quad q = map chr_of (dec_group (map b64_find q))"

definition digit_char :: "char \<Rightarrow> bool" where
  "digit_char c \<longleftrightarrow> c \<noteq> CHR ''='' \<and> is_base64 c"

text \<open>What the decoder computes: the longest prefix of digits, by fours. The zero bytes
  that fill up a last group are not in the alphabet; no output bit depends on them.\<close>

fun dec_spec :: "string \<Rightarrow> string" where
  "dec_spec (a # b # c # d # s) = dec_quad [a, b, c, d] @ dec_spec s"
| "dec_spec [a, b, c] = take 2 (dec_quad [a, b, c, chr_of 0])"
| "dec_spec [a, b] = take 1 (dec_quad [a, b, chr_of 0, chr_of 0])"
| "dec_spec [a] = ''''"
| "dec_spec [] = ''''"

lemma dec_steps_digits:
  "dec_finish (dec_steps s i a4 ret) = dec_finish (dec_steps (takeWhile digit_char s) i a4 ret)"
  by (induction s i a4 ret rule: dec_steps.induct) (simp_all add: digit_char_def Let_def)

lemma dec_steps_step:
  assumes "length a4 = 4" "list_all digit_char [a, b, c, d]"
  shows "dec_steps (a # b # c # d # s) 0 a4 ret =
    dec_steps s 0 (map b64_find [a, b, c, d]) (ret @ dec_quad [a, b, c, d])"
  using assms by (auto simp: length_4_cases digit_char_def dec_quad_def Let_def)

lemma dec_finish_n:
  "dec_finish (Suc 0, a4, ret) = ret"
  "dec_finish (Suc (Suc 0), [byte_of a, byte_of b, z, w], ret) = ret @ dec_spec [a, b]"
  "dec_finish (Suc (Suc (Suc 0)), [byte_of a, byte_of b, byte_of c, w], ret) = ret @ dec_spec [a, b, c]"
  by (simp_all add: dec_finish_def upt_rec dec_group_def dec_quad_def)

lemma dec_steps_finish:
  "length a4 = 4 \<Longrightarrow> list_all digit_char s \<Longrightarrow> dec_finish (dec_steps s 0 a4 ret) = ret @ dec_spec s"
proof (induction s arbitrary: a4 ret rule: dec_spec.induct)
  case (1 a b c d s)
  then have l: "list_all digit_char [a, b, c, d]" "list_all digit_char s"
    by simp_all
  show ?case
    unfolding dec_steps_step [OF 1(2) l(1)]
    using 1(1) [of "map b64_find [a, b, c, d]" "ret @ dec_quad [a, b, c, d]"] l(2) by simp
qed (auto simp: length_4_cases digit_char_def dec_finish_n simp del: dec_spec.simps(2,3),
     simp add: dec_finish_def)

lemma base64_decode_is_spec:
  assumes "length junk4 = 4" "int_size s = int n"
  shows "base64_decode_from junk4 s = Some (dec_spec (takeWhile digit_char (take n s)))"
proof -
  have "list_all digit_char (takeWhile digit_char (take n s))"
    by (auto simp: list_all_iff dest: set_takeWhileD)
  then show ?thesis
    unfolding dec_finish_code [OF assms(2)] by (subst dec_steps_digits) (simp add: dec_steps_finish assms(1))
qed

lemma dec_spec_length:
  "length (dec_spec s) = length s div 4 * 3 + (length s mod 4 - 1)"
proof (induction s rule: dec_spec.induct)
  case (1 a b c d s)
  have "length (a # b # c # d # s) = length s + 4" by simp
  moreover have "(length s + 4) div 4 = length s div 4 + 1" "(length s + 4) mod 4 = length s mod 4"
    by simp_all
  ultimately show ?case
    using 1 by (simp only: dec_spec.simps length_append) (simp add: dec_quad_def)
qed (simp_all add: dec_quad_def)

section \<open>Round trip\<close>

lemma b64_find_rfc: "n < 64 \<Longrightarrow> unat (b64_find (rfc_digit n)) = n"
  by (simp add: rfc_digit_valid unat_of_nat)

lemma and_shift_masks:
  "drop_bit 4 (x AND 0x30 :: byte) = take_bit 2 (drop_bit 4 x)"
  "drop_bit 2 (x AND 0x3c :: byte) = take_bit 4 (drop_bit 2 x)"
  by (rule byte_eqI; auto simp: bit_simps dest: bit_imp_le_length)+

lemma dec_group_numbers:
  assumes "unat x < 64" "unat y < 64" "unat z < 64" "unat w < 64"
  shows "map unat (dec_group [x, y, z, w]) =
    [unat x * 4 + unat y div 16, unat y mod 16 * 16 + unat z div 4, unat z mod 4 * 64 + unat w]"
proof -
  have "unat y div 16 < 4" "unat z div 4 < 16"
    using assms by auto
  then show ?thesis
    using assms by (simp add: dec_group_def hi_bytes and_shift_masks unat_word_ariths)
qed

lemma rfc_group_digits:
  "rfc_group a b c = map rfc_digit
     [unat a div 4, unat a mod 4 * 16 + unat b div 16, unat b mod 16 * 4 + unat c div 64, unat c mod 64]"
  by (simp only: rfc_group_def Let_def group_digits unat_byte_less)

lemma group_ranges:
  "unat (a::byte) div 4 < 64" "unat a mod 4 * 16 + unat (b::byte) div 16 < 64"
  "unat b mod 16 * 4 + unat (c::byte) div 64 < 64" "unat c mod 64 < 64"
  using unat_byte_less [of a] unat_byte_less [of b] unat_byte_less [of c] by auto

lemma group_inverse:
  fixes a b c :: nat
  assumes "b < 256" "c < 256"
  shows "a div 4 * 4 + (a mod 4 * 16 + b div 16) div 16 = a"
    "(a mod 4 * 16 + b div 16) mod 16 * 16 + (b mod 16 * 4 + c div 64) div 4 = b"
    "(b mod 16 * 4 + c div 64) mod 4 * 64 + c mod 64 = c"
proof -
  have "b div 16 < 16" "c div 64 < 4"
    using assms by auto
  then show "a div 4 * 4 + (a mod 4 * 16 + b div 16) div 16 = a"
    "(a mod 4 * 16 + b div 16) mod 16 * 16 + (b mod 16 * 4 + c div 64) div 4 = b"
    "(b mod 16 * 4 + c div 64) mod 4 * 64 + c mod 64 = c"
    by simp_all
qed

lemma dec_quad_rfc_group: "dec_quad (rfc_group a b c) = map chr_of [a, b, c]"
proof -
  have "map unat (dec_group (map b64_find (rfc_group a b c))) = map unat [a, b, c]"
    by (simp only: rfc_group_digits list.map)
      (subst dec_group_numbers; simp only: b64_find_rfc group_ranges group_inverse [OF unat_byte_less unat_byte_less])
  then have "dec_group (map b64_find (rfc_group a b c)) = [a, b, c]"
    by (rule map_injective) (auto intro: injI)
  then show ?thesis
    by (simp add: dec_quad_def)
qed

lemma rfc_group_chars: "list_all digit_char (rfc_group a b c)" "length (rfc_group a b c) = 4"
  by (simp_all add: rfc_group_digits digit_char_def rfc_digit_valid group_ranges)

lemma dec_quad_take:
  "take (Suc 0) (dec_quad [p, q, r, s]) = take (Suc 0) (dec_quad [p, q, r', s'])"
  "take 2 (dec_quad [p, q, r, s]) = take 2 (dec_quad [p, q, r, s'])"
  by (simp_all add: dec_quad_def dec_group_def)

lemma dec_spec_rfc4648: "dec_spec (takeWhile digit_char (rfc4648 bs)) = map chr_of bs"
proof (induction bs rule: rfc4648.induct)
  case 1
  then show ?case by simp
next
  case (2 a)
  obtain p q r s where g: "rfc_group a 0 0 = [p, q, r, s]"
    using rfc_group_chars(2) [of a 0 0] by (auto simp: length_4_cases)
  then have "take 1 (dec_quad [p, q, chr_of 0, chr_of 0]) = [chr_of a]"
    using dec_quad_rfc_group [of a 0 0] by (simp add: dec_quad_take(1) [of p q _ _ r s])
  then show ?case
    using rfc_group_chars(1) [of a 0 0] g by (simp add: digit_char_def)
next
  case (3 a b)
  obtain p q r s where g: "rfc_group a b 0 = [p, q, r, s]"
    using rfc_group_chars(2) [of a b 0] by (auto simp: length_4_cases)
  then have "take 2 (dec_quad [p, q, r, chr_of 0]) = [chr_of a, chr_of b]"
    using dec_quad_rfc_group [of a b 0] by (simp add: dec_quad_take(2) [of p q r _ s])
  then show ?case
    using rfc_group_chars(1) [of a b 0] g by (simp add: digit_char_def)
next
  case (4 a b c bs)
  obtain p q r s where g: "rfc_group a b c = [p, q, r, s]"
    using rfc_group_chars(2) [of a b c] by (auto simp: length_4_cases)
  then show ?case
    using rfc_group_chars(1) [of a b c] dec_quad_rfc_group [of a b c] 4 by simp
qed

section \<open>The vector decoder\<close>

lemma foldl_snoc_map: "foldl (\<lambda>r x. r @ [f x]) ret xs = ret @ map f xs"
  by (induction xs arbitrary: ret) simp_all

lemma dec_vec_loop_eq: "dec_vec_loop s in_len i a4 ret = dec_loop s in_len i a4 ret"
  by (induction s in_len i a4 ret rule: dec_vec_loop.induct) (simp_all add: foldl_snoc_map Let_def)

lemma base64_decode_vec_eq: "base64_decode_vec s = base64_decode s"
  by (simp add: base64_decode_vec_def base64_decode_def base64_decode_from_def dec_vec_loop_eq
      foldl_snoc_map Let_def split: option.split prod.split)

text \<open>
  C18: Decoding an encoding returns the bytes, with the string and with the vector decoder, as long
  as the encoding has less than \<open>2^31\<close> characters, which the \<^verbatim>\<open>int\<close> of the decoders can count.
\<close>

theorem base64_roundtrip:
  assumes "length (base64_encode bytes) < 2 ^ 31"
  shows "base64_decode (base64_encode bytes) = Some (map chr_of bytes) \<and>
    base64_decode_vec (base64_encode bytes) = Some (map chr_of bytes)"
  using base64_decode_is_spec [of "[0, 0, 0, 0]" "base64_encode bytes", OF _ int_size_small [OF assms]]
  by (simp add: base64_decode_vec_eq base64_decode_def base64_encode_def enc_finish_code enc_loop_finish dec_spec_rfc4648)

theorem base64_roundtrip_witness:
  "base64_decode (base64_encode [77, 97, 110, 77]) = Some ''ManM''"
proof -
  have "length (base64_encode [77, 97, 110, 77]) = 8" "map chr_of [77, 97, 110, 77] = ''ManM''"
    by code_simp+
  then show ?thesis
    using base64_roundtrip [of "[77, 97, 110, 77]"] by simp
qed

text \<open>Of a string of \<open>2^32\<close> characters nothing is decoded, such as the encoding of \<open>3 * 2^30\<close> bytes.\<close>

lemma base64_decode_nothing:
  assumes "length s = 2 ^ 32"
  shows "base64_decode s = Some []"
  using base64_decode_is_spec [of "[0, 0, 0, 0]" s 0] int_size_mod [of s] assms by (simp add: base64_decode_def)

text \<open>
  On any input of less than \<open>2^31\<close> characters both decoders stop at the first character that is
  \<^verbatim>\<open>=\<close> or outside the alphabet and depend on nothing behind it, nor on the uninitialised array;
  \<open>n\<close> digits give three bytes for every four and \<open>n mod 4 - 1\<close> bytes for the rest.
\<close>

lemma base64_decode_any_input:
  assumes "length junk4 = 4" "length s < 2 ^ 31"
  shows "\<exists>out. base64_decode_from junk4 s = Some out \<and> base64_decode (takeWhile digit_char s) = Some out \<and>
    base64_decode_vec s = Some out \<and>
    length out = length (takeWhile digit_char s) div 4 * 3 + (length (takeWhile digit_char s) mod 4 - 1)"
proof -
  let ?d = "takeWhile digit_char s"
  have "length ?d < 2 ^ 31"
    using assms(2) length_takeWhile_le [of digit_char s] by linarith
  note d = int_size_small [OF this] and s = int_size_small [OF assms(2)]
  have "base64_decode_from j s = Some (dec_spec ?d)" if "length j = 4" for j
    using base64_decode_is_spec [OF that s] by simp
  moreover have "base64_decode_from j ?d = Some (dec_spec ?d)" if "length j = 4" for j
    using base64_decode_is_spec [OF that d] by simp
  ultimately show ?thesis
    using assms(1) by (simp add: base64_decode_vec_eq base64_decode_def dec_spec_length)
qed

lemma base64_decode_any_input_witness:
  "base64_decode_from [1, 2, 3, 4] ''TWE=xx'' = base64_decode ''TWE''"
  using base64_decode_any_input [of "[1, 2, 3, 4]" "''TWE=xx''"]
  by (auto simp: digit_char_def is_base64_def isalnum_def)

end
