(* ===== verification/Sha1.thy ===== *)
theory Sha1
  imports Hi_Prelude
begin

text \<open>
  \<^verbatim>\<open>crypt/sha1.cpp\<close>. The round buffer \<^verbatim>\<open>w[80]\<close> is a list of 80 words that is
  updated in place, as in the code, and starts with arbitrary contents; the five
  \<^verbatim>\<open>while\<close> loops of \<^verbatim>\<open>innerHash\<close> are five folds over their round numbers. The
  reference is FIPS 180-4: padding, message schedule and round function as recursive
  definitions. Lengths are below \<open>2^28\<close> bytes, where \<^verbatim>\<open>bytelength << 3\<close> is an \<^verbatim>\<open>int\<close>.
\<close>

section \<open>The code\<close>

definition rol :: "u32 \<Rightarrow> nat \<Rightarrow> u32" where
  "rol value steps = push_bit steps value OR drop_bit (32 - steps) value"

definition clearWBuffert :: "u32 list \<Rightarrow> u32 list" where
  "clearWBuffert buffert = fold (\<lambda>pos w. w[pos := 0]) (rev [0..<16]) buffert"

type_synonym vars = "u32 \<times> u32 \<times> u32 \<times> u32 \<times> u32"

definition f_choose :: "u32 \<Rightarrow> u32 \<Rightarrow> u32 \<Rightarrow> u32" where
  "f_choose b c d = (b AND c) OR (NOT b AND d)"

definition f_parity :: "u32 \<Rightarrow> u32 \<Rightarrow> u32 \<Rightarrow> u32" where
  "f_parity b c d = b XOR c XOR d"

definition f_major :: "u32 \<Rightarrow> u32 \<Rightarrow> u32 \<Rightarrow> u32" where
  "f_major b c d = (b AND c) OR (b AND d) OR (c AND d)"

definition sha1macro :: "(u32 \<Rightarrow> u32 \<Rightarrow> u32 \<Rightarrow> u32) \<Rightarrow> u32 \<Rightarrow> u32 list \<Rightarrow> nat \<Rightarrow> vars \<Rightarrow> vars" where
  "sha1macro func val w round = (\<lambda>(a, b, c, d, e).
     let t = rol a 5 + func b c d + e + val + w ! round in (t, a, rol b 30, c, d))"

definition expand :: "u32 list \<Rightarrow> nat \<Rightarrow> u32 list" where
  "expand w round = w[round := rol (w ! (round - 3) XOR w ! (round - 8)
     XOR w ! (round - 14) XOR w ! (round - 16)) 1]"

definition round_loop ::
  "(u32 \<Rightarrow> u32 \<Rightarrow> u32 \<Rightarrow> u32) \<Rightarrow> u32 \<Rightarrow> nat \<Rightarrow> nat \<Rightarrow> vars \<times> u32 list \<Rightarrow> vars \<times> u32 list" where
  "round_loop func val from til vw =
     fold (\<lambda>round (v, w). let w = expand w round in (sha1macro func val w round v, w)) [from..<til] vw"

definition innerHash :: "u32 list \<Rightarrow> u32 list \<Rightarrow> u32 list \<times> u32 list" where
  "innerHash result w =
     (let v = (result ! 0, result ! 1, result ! 2, result ! 3, result ! 4);
          v = fold (\<lambda>round v. sha1macro f_choose 0x5a827999 w round v) [0..<16] v;
          vw = round_loop f_choose 0x5a827999 16 20 (v, w);
          vw = round_loop f_parity 0x6ed9eba1 20 40 vw;
          vw = round_loop f_major 0x8f1bbcdc 40 60 vw;
          vw = round_loop f_parity 0xca62c1d6 60 80 vw;
          ((a, b, c, d, e), w) = vw
      in ([result ! 0 + a, result ! 1 + b, result ! 2 + c, result ! 3 + d, result ! 4 + e], w))"

definition load_block :: "byte list \<Rightarrow> nat \<Rightarrow> u32 list \<Rightarrow> u32 list" where
  "load_block sarray cur w =
     fold (\<lambda>rp w. let p = cur + 4 * rp in
             w[rp := be32 (sarray ! p) (sarray ! (p + 1)) (sarray ! (p + 2)) (sarray ! (p + 3))])
       [0..<16] w"

function full_blocks :: "byte list \<Rightarrow> nat \<Rightarrow> u32 list \<Rightarrow> u32 list \<Rightarrow> nat \<times> u32 list \<times> u32 list" where
  "full_blocks sarray cur result w =
     (if cur + 64 \<le> length sarray
      then let (result, w) = innerHash result (load_block sarray cur w)
           in full_blocks sarray (cur + 64) result w
      else (cur, result, w))"
  by pat_completeness auto
termination by (relation "measure (\<lambda>(s, cur, _). length s + 64 - cur)") auto

declare full_blocks.simps [simp del]

definition or_byte :: "nat \<Rightarrow> byte \<Rightarrow> u32 list \<Rightarrow> u32 list" where
  "or_byte l x w = w[l div 4 := w ! (l div 4) OR push_bit ((3 - l mod 4) * 8) (ucast x)]"

definition last_block :: "byte list \<Rightarrow> nat \<Rightarrow> u32 list \<Rightarrow> u32 list \<Rightarrow> u32 list \<times> u32 list" where
  "last_block sarray cur result w =
     (let endCurrentBlock = length sarray - cur;
          w = clearWBuffert w;
          w = fold (\<lambda>l w. or_byte l (sarray ! (l + cur)) w) [0..<endCurrentBlock] w;
          w = or_byte endCurrentBlock 0x80 w;
          (result, w) = (if endCurrentBlock \<ge> 56
                         then let (result, w) = innerHash result w in (result, clearWBuffert w)
                         else (result, w));
          w = w[15 := push_bit 3 (word_of_nat (length sarray))]
      in innerHash result w)"

definition store_hash :: "u32 list \<Rightarrow> byte list \<Rightarrow> byte list" where
  "store_hash result hash =
     fold (\<lambda>hb hash. hash[hb := ucast (drop_bit (nat (((3 - int hb) AND 3) * 8)) (result ! (hb div 4)) AND 0xff)])
       (rev [0..<20]) hash"

definition sha1_calc :: "u32 list \<Rightarrow> byte list \<Rightarrow> byte list \<Rightarrow> byte list" where
  "sha1_calc w src hash =
     (let result = [0x67452301, 0xefcdab89, 0x98badcfe, 0x10325476, 0xc3d2e1f0];
          (cur, result, w) = full_blocks src 0 result w;
          (result, w) = last_block src cur result w
      in store_hash result hash)"

text \<open>
  The overload on \<^verbatim>\<open>std::string\<close> builds the result with \<^verbatim>\<open>std::string(hash)\<close>, a C string:
  the bytes of the 40-byte array (\<open>hash\<close>, uninitialised) up to the first zero byte.
\<close>

definition sha1_calc_string :: "u32 list \<Rightarrow> byte list \<Rightarrow> string \<Rightarrow> string" where
  "sha1_calc_string w hash src =
     map chr_of (takeWhile (\<lambda>b. b \<noteq> 0) (sha1_calc w (map byte_of src) hash))"

definition hexDigits :: string where
  "hexDigits = ''0123456789abcdef''"

text \<open>\<open>toHexString\<close> reads 20 bytes; \<open>toHex\<close> runs it on the characters of a string
  (\<open>mem\<close>: the memory at \<^verbatim>\<open>_s.data()\<close>, which the code does not check to hold 20 bytes).\<close>

definition toHexString :: "byte list \<Rightarrow> string \<Rightarrow> string" where
  "toHexString hash hexstring =
     (fold (\<lambda>hb h. h[2 * hb := hexDigits ! unat (drop_bit 4 (hash ! hb) AND 0xf),
                     2 * hb + 1 := hexDigits ! unat (hash ! hb AND 0xf)])
        (rev [0..<20]) hexstring)[40 := CHR 0x00]"

definition toHex :: "string \<Rightarrow> byte list \<Rightarrow> string" where
  "toHex hex mem = takeWhile (\<lambda>c. c \<noteq> CHR 0x00) (toHexString mem hex)"

section \<open>The reference: FIPS 180-4\<close>

fun fips_W :: "u32 list \<Rightarrow> nat \<Rightarrow> u32" where
  "fips_W M t =
     (if t < 16 then M ! t
      else word_rotl 1 (fips_W M (t - 3) XOR fips_W M (t - 8) XOR fips_W M (t - 14) XOR fips_W M (t - 16)))"

declare fips_W.simps [simp del]

definition fips_f :: "nat \<Rightarrow> u32 \<Rightarrow> u32 \<Rightarrow> u32 \<Rightarrow> u32" where
  "fips_f t x y z =
     (if t < 20 then (x AND y) XOR (NOT x AND z)
      else if t < 40 then x XOR y XOR z
      else if t < 60 then (x AND y) XOR (x AND z) XOR (y AND z)
      else x XOR y XOR z)"

definition fips_K :: "nat \<Rightarrow> u32" where
  "fips_K t = (if t < 20 then 0x5a827999 else if t < 40 then 0x6ed9eba1
     else if t < 60 then 0x8f1bbcdc else 0xca62c1d6)"

definition fips_round :: "u32 list \<Rightarrow> nat \<Rightarrow> vars \<Rightarrow> vars" where
  "fips_round M t = (\<lambda>(a, b, c, d, e).
     (word_rotl 5 a + fips_f t b c d + e + fips_K t + fips_W M t, a, word_rotl 30 b, c, d))"

definition fips_compress :: "u32 list \<Rightarrow> byte list \<Rightarrow> u32 list" where
  "fips_compress H block =
     (let (a, b, c, d, e) = fold (fips_round (be_words block)) [0..<80] (H ! 0, H ! 1, H ! 2, H ! 3, H ! 4)
      in [H ! 0 + a, H ! 1 + b, H ! 2 + c, H ! 3 + d, H ! 4 + e])"

definition be_bytes32 :: "u32 \<Rightarrow> byte list" where
  "be_bytes32 x = [ucast (drop_bit 24 x), ucast (drop_bit 16 x), ucast (drop_bit 8 x), ucast x]"

text \<open>Padding (\<open>md_pad\<close>) with the bit length on 64 bits.\<close>

definition fips_pad :: "byte list \<Rightarrow> byte list" where
  "fips_pad m =
     md_pad m (be_bytes32 (word_of_nat (length m * 8 div 2 ^ 32)) @ be_bytes32 (word_of_nat (length m * 8)))"

definition fips_sha1 :: "byte list \<Rightarrow> byte list" where
  "fips_sha1 m = concat (map be_bytes32
     (foldl fips_compress [0x67452301, 0xefcdab89, 0x98badcfe, 0x10325476, 0xc3d2e1f0]
       (blocks64 (fips_pad m))))"

section \<open>The compression function\<close>

lemma rol_rotl: "0 < k \<Longrightarrow> k < 32 \<Longrightarrow> rol v k = word_rotl k v"
  by (simp add: rol_def rotation_word)

lemma fips_f_code:
  "t < 20 \<Longrightarrow> fips_f t b c d = f_choose b c d"
  "20 \<le> t \<Longrightarrow> t < 40 \<Longrightarrow> fips_f t b c d = f_parity b c d"
  "40 \<le> t \<Longrightarrow> t < 60 \<Longrightarrow> fips_f t b c d = f_major b c d"
  "60 \<le> t \<Longrightarrow> fips_f t b c d = f_parity b c d"
  by (auto simp: fips_f_def f_choose_def f_parity_def f_major_def bit_simps intro!: bit_word_eqI)

lemma sha1macro_fips:
  assumes "func = fips_f t" "val = fips_K t" "w ! t = fips_W M t"
  shows "sha1macro func val w t v = fips_round M t v"
  using assms by (cases v) (simp add: sha1macro_def fips_round_def rol_rotl)

text \<open>After the rounds below \<open>t\<close> the variables are the reference's and the buffer holds the
  message schedule up to \<open>t\<close>.\<close>

definition in_round :: "u32 list \<Rightarrow> vars \<Rightarrow> nat \<Rightarrow> vars \<times> u32 list \<Rightarrow> bool" where
  "in_round M v0 t vw \<longleftrightarrow> length (snd vw) = 80 \<and> (\<forall>i < max 16 t. snd vw ! i = fips_W M i) \<and>
     fst vw = fold (fips_round M) [0..<t] v0"

lemma in_round_step:
  assumes "in_round M v0 t (v, w)" "16 \<le> t" "t < 80" "func = fips_f t" "val = fips_K t"
  shows "in_round M v0 (Suc t) (let w = expand w t in (sha1macro func val w t v, w))"
proof -
  have W: "i < t \<Longrightarrow> w ! i = fips_W M i" for i
    using assms(1,2) by (simp add: in_round_def)
  have new: "expand w t ! t = fips_W M t"
    using assms W by (simp add: expand_def in_round_def rol_rotl fips_W.simps [of M t])
  then have "sha1macro func val (expand w t) t v = fips_round M t v"
    by (rule sha1macro_fips [OF assms(4,5)])
  moreover have "i < Suc t \<Longrightarrow> expand w t ! i = fips_W M i" for i
    using new W by (cases "i = t") (simp_all add: expand_def)
  ultimately show ?thesis
    using assms(1,2) by (simp add: in_round_def Let_def expand_def)
qed

lemma in_round_loop:
  assumes "from \<le> til" "16 \<le> from" "til \<le> 80" "in_round M v0 from vw"
    and "\<And>t. from \<le> t \<Longrightarrow> t < til \<Longrightarrow> func = fips_f t \<and> val = fips_K t"
  shows "in_round M v0 til (round_loop func val from til vw)"
  using assms
proof (induction til rule: dec_induct)
  case base
  then show ?case by (simp add: round_loop_def)
next
  case (step t)
  then have "in_round M v0 t (round_loop func val from t vw)" by simp
  moreover have "round_loop func val from (Suc t) vw =
      (\<lambda>(v, w). let w = expand w t in (sha1macro func val w t v, w)) (round_loop func val from t vw)"
    using step(1) by (simp add: round_loop_def)
  ultimately show ?case
    using step in_round_step [of M v0 t] by (auto split: prod.splits)
qed

lemma first_rounds:
  assumes "\<And>i. i < 16 \<Longrightarrow> w ! i = M ! i" "n \<le> 16"
  shows "fold (\<lambda>round v. sha1macro f_choose 0x5a827999 w round v) [0..<n] v = fold (fips_round M) [0..<n] v"
  using assms(2)
proof (induction n)
  case 0
  then show ?case by simp
next
  case (Suc n)
  have "sha1macro f_choose 0x5a827999 w n x = fips_round M n x" for x
    using Suc.prems assms(1)
    by (intro sha1macro_fips ext) (auto simp: fips_f_code fips_K_def fips_W.simps)
  then show ?case
    using Suc by simp
qed

lemma innerHash_fips:
  assumes "length w = 80" "take 16 w = be_words block"
  shows "fst (innerHash result w) = fips_compress result block" "length (snd (innerHash result w)) = 80"
proof -
  define M where "M = be_words block"
  define v0 where "v0 = (result ! 0, result ! 1, result ! 2, result ! 3, result ! 4)"
  have w: "w ! i = M ! i" if "i < 16" for i
    using that by (simp add: M_def flip: assms(2))
  have 0: "in_round M v0 16 (fold (\<lambda>round v. sha1macro f_choose 0x5a827999 w round v) [0..<16] v0, w)"
    using assms(1) w by (simp add: in_round_def first_rounds fips_W.simps)
  note 1 = in_round_loop [OF _ _ _ 0, where func = f_choose and val = "0x5a827999" and til = 20]
  note 2 = in_round_loop [OF _ _ _ 1, where func = f_parity and val = "0x6ed9eba1" and til = 40]
  note 3 = in_round_loop [OF _ _ _ 2, where func = f_major and val = "0x8f1bbcdc" and til = 60]
  note 4 = in_round_loop [OF _ _ _ 3, where func = f_parity and val = "0xca62c1d6" and til = 80]
  define R where "R = round_loop f_parity 0xca62c1d6 60 80 (round_loop f_major 0x8f1bbcdc 40 60
       (round_loop f_parity 0x6ed9eba1 20 40 (round_loop f_choose 0x5a827999 16 20
         (fold (\<lambda>round v. sha1macro f_choose 0x5a827999 w round v) [0..<16] v0, w))))"
  obtain a b c d e w' where R: "R = ((a, b, c, d, e), w')"
    by (metis surj_pair)
  have "in_round M v0 80 R"
    unfolding R_def by (rule 4) (auto simp: fips_f_code fips_K_def intro!: ext)
  then have "length w' = 80" "fold (fips_round M) [0..<80] v0 = (a, b, c, d, e)"
    by (simp_all add: in_round_def R)
  moreover have "innerHash result w =
      ([result ! 0 + a, result ! 1 + b, result ! 2 + c, result ! 3 + d, result ! 4 + e], w')"
    using R by (simp add: innerHash_def R_def v0_def Let_def)
  ultimately show "fst (innerHash result w) = fips_compress result block"
    "length (snd (innerHash result w)) = 80"
    by (simp_all add: fips_compress_def v0_def M_def)
qed

section \<open>Blocks and padding\<close>

lemma load_block_words:
  assumes "length w = 80" "cur + 64 \<le> length s"
  shows "take 16 (load_block s cur w) = be_words (take 64 (drop cur s))" "length (load_block s cur w) = 80"
  using assms by (simp_all add: load_block_def fold_update_upt be_words_def Let_def add.assoc)

lemma clear_words:
  "length w = 80 \<Longrightarrow> take 16 (clearWBuffert w) = be_words (replicate 64 0)"
  "length w = 80 \<Longrightarrow> length (clearWBuffert w) = 80"
  by (auto simp: clearWBuffert_def fold_update_down be_words_def be32_def)

lemma full_blocks_fips:
  assumes "length w = 80" "cur \<le> length s" "full_blocks s cur result w = (cur', result', w')"
  shows "cur' = cur + 64 * ((length s - cur) div 64) \<and>
    result' = foldl fips_compress result (blocks64 (drop cur s)) \<and> length w' = 80"
  using assms
proof (induction s cur result w rule: full_blocks.induct)
  case (1 s cur result w)
  show ?case
  proof (cases "cur + 64 \<le> length s")
    case True
    obtain r1 w1 where i: "innerHash result (load_block s cur w) = (r1, w1)"
      by (cases "innerHash result (load_block s cur w)")
    have h: "r1 = fips_compress result (take 64 (drop cur s))" "length w1 = 80"
      using innerHash_fips [of "load_block s cur w" "take 64 (drop cur s)" result]
        load_block_words [OF 1(2) True] i by simp_all
    have "full_blocks s (cur + 64) r1 w1 = (cur', result', w')"
      using 1(4) True i by (simp add: full_blocks.simps [of s cur])
    then have "cur' = cur + 64 + 64 * ((length s - (cur + 64)) div 64) \<and>
        result' = foldl fips_compress r1 (blocks64 (drop (cur + 64) s)) \<and> length w' = 80"
      using 1(1) [OF True i [symmetric] refl h(2)] True by simp
    moreover have "(length s - cur) div 64 = (length s - (cur + 64)) div 64 + 1"
      using True div_add_self2 [of 64 "length s - (cur + 64)"] by simp
    moreover have "blocks64 (drop cur s) = take 64 (drop cur s) # blocks64 (drop (cur + 64) s)"
      using True by (subst blocks64.simps) (simp add: add.commute)
    ultimately show ?thesis
      using h(1) by (simp del: drop_drop)
  next
    case False
    then show ?thesis
      using 1(2-4) by (simp add: full_blocks.simps [of s cur] blocks64_short)
  qed
qed

lemma or_byte_words:
  assumes "length w = 80" "take 16 w = be_words bs" "length bs = 64" "l < 64" "bs ! l = 0"
  shows "take 16 (or_byte l x w) = be_words (bs[l := x])" "length (or_byte l x w) = 80"
proof -
  have "w ! (l div 4) = be_words bs ! (l div 4)"
    using assms(4) by (simp flip: assms(2))
  then have "take 16 (or_byte l x w) =
      (be_words bs)[l div 4 := be_words bs ! (l div 4) OR push_bit ((3 - l mod 4) * 8) (ucast x)]"
    using assms(2) by (simp add: or_byte_def take_update_swap)
  then show "take 16 (or_byte l x w) = be_words (bs[l := x])"
    using assms by (simp add: be_words_or)
qed (simp add: or_byte_def assms)

lemma or_tail_words:
  assumes "length w = 80" "take 16 w = be_words (replicate 64 0)" "n \<le> length tail" "length tail < 64"
  shows "take 16 (fold (\<lambda>l w. or_byte l (tail ! l) w) [0..<n] w) = be_words (take n tail @ replicate (64 - n) 0)
    \<and> length (fold (\<lambda>l w. or_byte l (tail ! l) w) [0..<n] w) = 80"
  using assms(3)
proof (induction n)
  case 0
  then show ?case using assms by simp
next
  case (Suc n)
  let ?bs = "take n tail @ replicate (64 - n) (0::byte)"
  obtain k where k: "64 - n = Suc k" "64 - Suc n = k"
    using Suc.prems assms(4) by (metis Suc_diff_Suc Suc_le_lessD less_trans)
  then have "?bs[n := tail ! n] = take (Suc n) tail @ replicate (64 - Suc n) 0"
    using Suc.prems by (simp add: list_update_append take_Suc_conv_app_nth)
  moreover have "?bs ! n = 0" "length ?bs = 64" "n < 64"
    using Suc.prems assms(4) by (simp_all add: nth_append)
  ultimately show ?case
    using Suc or_byte_words [of "fold (\<lambda>l w. or_byte l (tail ! l) w) [0..<n] w" ?bs n "tail ! n"] by simp
qed

lemma be32_bytes: "be32 (ucast (drop_bit 24 x)) (ucast (drop_bit 16 x)) (ucast (drop_bit 8 x)) (ucast x) = x"
proof (rule bit_word_eqI)
  fix n :: nat
  assume "n < LENGTH(32)"
  then consider "n < 8" | "8 \<le> n" "n < 16" | "16 \<le> n" "n < 24" | "24 \<le> n" "n < 32"
    by fastforce
  then show "bit (be32 (ucast (drop_bit 24 x)) (ucast (drop_bit 16 x)) (ucast (drop_bit 8 x)) (ucast x)) n = bit x n"
    by cases (auto simp: be32_def bit_simps)
qed

lemma be_words_length_field:
  assumes "length bs = 56" "length w = 80" "take 16 w = be_words (bs @ replicate 8 0)"
  shows "take 16 (w[15 := x]) = be_words (bs @ be_bytes32 0 @ be_bytes32 x)"
proof -
  have low: "(bs @ be_bytes32 0 @ be_bytes32 x) ! j = (bs @ replicate 8 0) ! j" if "j < 60" for j
    using that assms(1) by (auto simp: nth_append be_bytes32_def nth_Cons' numeral_eq_Suc)
  have x: "be32 (ucast (drop_bit 24 x)) (ucast (drop_bit 16 x)) (ucast (drop_bit 8 x)) (ucast x) = x"
    by (rule be32_bytes)
  show ?thesis
  proof (rule nth_equalityI)
    fix i
    assume "i < length (take 16 (w[15 := x]))"
    then have i: "i < 16" by simp
    show "take 16 (w[15 := x]) ! i = be_words (bs @ be_bytes32 0 @ be_bytes32 x) ! i"
    proof (cases "i = 15")
      case True
      then show ?thesis
        using assms(1,2) x by (simp add: be_words_def nth_append be_bytes32_def)
    next
      case False
      then have "take 16 w ! i = be_words (bs @ be_bytes32 0 @ be_bytes32 x) ! i"
        unfolding assms(3) using i low by (simp add: be_words_def)
      then show ?thesis
        using i False assms(2) by simp
    qed
  qed (simp add: assms(2))
qed


lemma last_block_code:
  assumes "cur \<le> length s" "n = length s - cur" "tail = drop cur s"
  shows "last_block s cur result w =
    (let w2 = or_byte n 0x80 (fold (\<lambda>l w. or_byte l (tail ! l) w) [0..<n] (clearWBuffert w));
         x = push_bit 3 (word_of_nat (length s))
     in if 56 \<le> n then innerHash (fst (innerHash result w2)) ((clearWBuffert (snd (innerHash result w2)))[15 := x])
        else innerHash result (w2[15 := x]))"
proof -
  have "s ! (l + cur) = tail ! l" for l
    using assms by (simp add: add.commute)
  then show ?thesis
    by (simp add: last_block_def assms(2) Let_def split: prod.splits)
qed

lemma last_block_fips:
  assumes w: "length w = 80" and cur: "cur \<le> length s" and n: "n = length s - cur" "n < 64"
    and tail: "tail = drop cur s" and x: "x = push_bit 3 (word_of_nat (length s))"
  shows "fst (last_block s cur result w) = foldl fips_compress result
    (if n < 56 then [tail @ 0x80 # replicate (55 - n) 0 @ be_bytes32 0 @ be_bytes32 x]
     else [tail @ 0x80 # replicate (63 - n) 0, replicate 56 0 @ be_bytes32 0 @ be_bytes32 x])"
proof -
  have len: "length tail = n"
    by (simp add: tail n)
  define w1 where "w1 = fold (\<lambda>l w. or_byte l (tail ! l) w) [0..<n] (clearWBuffert w)"
  define w2 where "w2 = or_byte n 0x80 w1"
  let ?b = "tail @ 0x80 # replicate (63 - n) 0"
  have w1: "take 16 w1 = be_words (tail @ replicate (64 - n) 0)" "length w1 = 80"
    using or_tail_words [of "clearWBuffert w" n tail] clear_words [OF w] len n(2) by (simp_all add: w1_def)
  have "64 - n = Suc (63 - n)"
    using n(2) by simp
  then have "(tail @ replicate (64 - n) 0)[n := 0x80] = ?b"
    by (simp add: list_update_append len)
  then have w2: "take 16 w2 = be_words ?b" "length w2 = 80"
    using or_byte_words [of w1 "tail @ replicate (64 - n) 0" n "0x80"] w1 len n(2)
    by (simp_all add: w2_def nth_append)
  show ?thesis
  proof (cases "n < 56")
    case True
    then have "63 - n = (55 - n) + 8"
      by simp
    then have "?b = (tail @ 0x80 # replicate (55 - n) 0) @ replicate 8 0"
      by (simp only: replicate_add append_assoc append.simps)
    then have "take 16 (w2[15 := x]) = be_words ((tail @ 0x80 # replicate (55 - n) 0) @ be_bytes32 0 @ be_bytes32 x)"
      using True len w2 by (intro be_words_length_field) simp_all
    then show ?thesis
      using True innerHash_fips(1) [of "w2[15 := x]"] w2(2)
      by (simp add: last_block_code [OF cur n(1) tail] w1_def [symmetric] w2_def [symmetric] x [symmetric])
  next
    case False
    have r: "fst (innerHash result w2) = fips_compress result ?b" "length (snd (innerHash result w2)) = 80"
      using innerHash_fips [OF w2(2,1)] by simp_all
    define w3 where "w3 = clearWBuffert (snd (innerHash result w2))"
    have "take 16 w3 = be_words (replicate 56 0 @ replicate 8 0)" "length w3 = 80"
      using clear_words [OF r(2)] by (simp_all add: w3_def flip: replicate_add)
    then have "take 16 (w3[15 := x]) = be_words (replicate 56 0 @ be_bytes32 0 @ be_bytes32 x)"
      by (intro be_words_length_field) simp_all
    then show ?thesis
      using False innerHash_fips(1) [of "w3[15 := x]"] \<open>length w3 = 80\<close> r(1)
      by (simp add: last_block_code [OF cur n(1) tail] w1_def [symmetric] w2_def [symmetric] x [symmetric]
          w3_def [symmetric])
  qed
qed


lemma ucast_low_byte: "(ucast (v AND 0xff :: u32) :: byte) = ucast v"
  by (rule byte_eqI) (simp_all add: bit_simps)

lemma store_hash_bytes:
  assumes "20 \<le> length hash"
  shows "store_hash [a, b, c, d, e] hash = concat (map be_bytes32 [a, b, c, d, e]) @ drop 20 hash"
  unfolding store_hash_def fold_update_down [OF assms]
  by (simp add: upt_rec be_bytes32_def ucast_low_byte)

lemma fips_compress_5: "\<exists>a b c d e. fips_compress H blk = [a, b, c, d, e]"
  by (simp add: fips_compress_def split: prod.splits)

lemma foldl_compress_5:
  "\<exists>a b c d e. H = [a, b, c, d, e] \<Longrightarrow> \<exists>a b c d e. foldl fips_compress H bs = [a, b, c, d, e]"
  by (induction bs arbitrary: H) (simp, simp add: fips_compress_5)

lemma sha1_calc_fips:
  assumes "length src < 2 ^ 28" "length w = 80" "20 \<le> length hash"
  shows "sha1_calc w src hash = fips_sha1 src @ drop 20 hash"
proof -
  let ?H = "[0x67452301, 0xefcdab89, 0x98badcfe, 0x10325476, 0xc3d2e1f0] :: u32 list"
  obtain cur r w1 where full: "full_blocks src 0 ?H w = (cur, r, w1)"
    by (metis surj_pair)
  have f: "cur = 64 * (length src div 64)" "r = foldl fips_compress ?H (blocks64 src)" "length w1 = 80"
    using full_blocks_fips [OF assms(2) _ full] by simp_all
  define n where "n = length src mod 64"
  define x :: u32 where "x = push_bit 3 (word_of_nat (length src))"
  have n: "cur \<le> length src" "n = length src - cur" "n < 64"
    by (simp_all add: f(1) n_def minus_mult_div_eq_mod)
  have "length src * 8 div 2 ^ 32 = 0"
    using assms(1) by simp
  moreover have "word_of_nat (length src * 8) = x"
    by (simp add: x_def push_bit_eq_mult)
  ultimately have pad: "fips_pad src = md_pad src (be_bytes32 0 @ be_bytes32 x)"
    by (simp add: fips_pad_def)
  have "blocks64 (fips_pad src) = blocks64 src @
    (if n < 56 then [drop cur src @ 0x80 # replicate (55 - n) 0 @ be_bytes32 0 @ be_bytes32 x]
     else [drop cur src @ 0x80 # replicate (63 - n) 0, replicate 56 0 @ be_bytes32 0 @ be_bytes32 x])"
    unfolding pad by (rule md_pad_blocks) (simp_all add: be_bytes32_def n_def f(1))
  then have "foldl fips_compress ?H (blocks64 (fips_pad src)) = fst (last_block src cur r w1)"
    unfolding last_block_fips [OF f(3) n refl x_def] by (simp only: foldl_append f(2))
  then show ?thesis
    using foldl_compress_5 [of ?H "blocks64 (fips_pad src)"] full assms(3)
    by (auto simp: sha1_calc_def fips_sha1_def store_hash_bytes split: prod.splits)
qed

section \<open>Strings and hexadecimal\<close>

lemma length_fips_sha1: "length (fips_sha1 m) = 20"
  using foldl_compress_5 [of "[0x67452301, 0xefcdab89, 0x98badcfe, 0x10325476, 0xc3d2e1f0]" "blocks64 (fips_pad m)"]
  by (auto simp: fips_sha1_def be_bytes32_def)

definition hex_byte :: "byte \<Rightarrow> string" where
  "hex_byte b = [hexDigits ! (unat b div 16), hexDigits ! (unat b mod 16)]"

lemma hex_nibbles: "unat (drop_bit 4 b AND 0xf :: byte) = unat b div 16" "unat (b AND 0xf :: byte) = unat b mod 16"
proof -
  have "unat b div 16 < 16"
    using unat_byte_less [of b] by auto
  then show "unat (drop_bit 4 b AND 0xf) = unat b div 16" "unat (b AND 0xf) = unat b mod 16"
    by (simp_all add: hi_bytes)
qed

lemma fold_update_pairs:
  "2 * n \<le> length h \<Longrightarrow> fold (\<lambda>i h. h[2 * i := f i, 2 * i + 1 := g i]) (rev [0..<n]) h =
     concat (map (\<lambda>i. [f i, g i]) [0..<n]) @ drop (2 * n) h"
proof (induction n arbitrary: h)
  case 0
  then show ?case by simp
next
  case (Suc n)
  then have "drop (2 * n) h = h ! (2 * n) # h ! (2 * n + 1) # drop (2 * Suc n) h"
    by (simp add: Cons_nth_drop_Suc)
  then have "drop (2 * n) (h[2 * n := f n, 2 * n + 1 := g n]) = f n # g n # drop (2 * Suc n) h"
    using Suc.prems by (simp add: drop_update_swap)
  then show ?case
    using Suc.IH [of "h[2 * n := f n, 2 * n + 1 := g n]"] Suc.prems by simp
qed

lemma hexDigits_not_nul:
  assumes "n < 16"
  shows "hexDigits ! n \<noteq> CHR 0x00"
proof -
  have "hexDigits ! n \<in> set hexDigits"
    using assms by (intro nth_mem) (simp add: hexDigits_def)
  then show "hexDigits ! n \<noteq> CHR 0x00"
    by (auto simp: hexDigits_def)
qed

lemma hex_byte_not_nul: "c \<in> set (hex_byte b) \<Longrightarrow> c \<noteq> CHR 0x00"
proof -
  have "unat b div 16 < 16"
    using unat_byte_less [of b] by auto
  then have "CHR 0x00 \<notin> set (hex_byte b)"
    using hexDigits_not_nul [of "unat b div 16"] hexDigits_not_nul [of "unat b mod 16"]
    by (simp add: hex_byte_def eq_commute)
  then show "c \<in> set (hex_byte b) \<Longrightarrow> c \<noteq> CHR 0x00"
    by blast
qed

lemma length_hex: "length (concat (map hex_byte bs)) = 2 * length bs"
  by (induction bs) (simp_all add: hex_byte_def)

lemma toHexString_bytes:
  assumes "length h = 41" "20 \<le> length m"
  shows "toHexString m h = concat (map hex_byte (take 20 m)) @ [CHR 0x00]"
proof -
  have "map (\<lambda>i. [hexDigits ! unat (drop_bit 4 (m ! i) AND 0xf), hexDigits ! unat (m ! i AND 0xf)]) [0..<20]
      = map hex_byte (take 20 m)"
    unfolding hex_nibbles(1) unfolding hex_nibbles(2) hex_byte_def [symmetric] using assms(2)
    by (intro nth_equalityI) simp_all
  moreover obtain z where "drop 40 h = [z]"
    using assms(1) length_drop [of 40 h] by (cases "drop 40 h") auto
  ultimately show ?thesis
    using assms fold_update_pairs [of 20 h] length_hex [of "take 20 m"]
    by (simp add: toHexString_def list_update_append)
qed

lemma toHex_bytes:
  assumes "length h = 41" "20 \<le> length m"
  shows "toHex h m = concat (map hex_byte (take 20 m))"
proof -
  have "takeWhile (\<lambda>c. c \<noteq> CHR 0x00) (concat (map hex_byte (take 20 m)) @ [CHR 0x00]) =
      concat (map hex_byte (take 20 m))"
    by (subst takeWhile_append2) (auto dest: hex_byte_not_nul)
  then show ?thesis
    by (simp add: toHex_def toHexString_bytes assms)
qed

lemma length_takeWhile_lt: "x \<in> set xs \<Longrightarrow> \<not> P x \<Longrightarrow> length (takeWhile P xs) < length xs"
  by (induction xs) auto

text \<open>
  C7: For every input below \<open>2^28\<close> bytes the digest stored in the first 20 bytes of the output
  is the FIPS 180-4 digest, whatever the round buffer and the output held before; the rest of the
  output is untouched.
\<close>

theorem sha1_calc_correct:
  assumes "length src < 2 ^ 28" "length w = 80" "20 \<le> length hash"
  shows "sha1_calc w src hash = fips_sha1 src @ drop 20 hash"
  by (rule sha1_calc_fips [OF assms])

theorem sha1_calc_correct_witness:
  "sha1_calc (replicate 80 7) (replicate 1000 65) (replicate 40 1) = fips_sha1 (replicate 1000 65) @ replicate 20 1"
  using sha1_calc_correct [of "replicate 1000 65" "replicate 80 7" "replicate 40 1"] by simp

text \<open>
  The \<^verbatim>\<open>std::string\<close> overload cuts the digest at its first zero byte: when the
  digest has one, fewer than 20 characters come back; when it has none, \<^verbatim>\<open>toHex\<close> gives
  the 40 hexadecimal digits of the digest, whatever the uninitialised rest of the array holds.
\<close>

lemma sha1_string_digest:
  assumes "length src < 2 ^ 28" "length w = 80" "length hash = 40" "length hex = 41"
  shows "if 0 \<in> set (fips_sha1 (map byte_of src))
    then length (sha1_calc_string w hash src) < 20
    else toHex hex (map byte_of (sha1_calc_string w hash src)) = concat (map hex_byte (fips_sha1 (map byte_of src)))"
proof -
  let ?d = "fips_sha1 (map byte_of src)"
  have calc: "sha1_calc w (map byte_of src) hash = ?d @ drop 20 hash"
    using assms by (simp add: sha1_calc_fips)
  show ?thesis
  proof (cases "0 \<in> set ?d")
    case True
    then have "takeWhile (\<lambda>b. b \<noteq> 0) (?d @ drop 20 hash) = takeWhile (\<lambda>b. b \<noteq> 0) ?d"
      by (simp add: takeWhile_append1 [of 0])
    moreover have "length (takeWhile (\<lambda>b. b \<noteq> 0) ?d) < length ?d"
      using True by (auto intro: length_takeWhile_lt)
    ultimately show ?thesis
      using True by (simp add: sha1_calc_string_def calc length_fips_sha1)
  next
    case False
    then have "takeWhile (\<lambda>b. b \<noteq> 0) (?d @ drop 20 hash) = ?d @ takeWhile (\<lambda>b. b \<noteq> 0) (drop 20 hash)"
      by (subst takeWhile_append2) auto
    then show ?thesis
      using False assms(4) by (simp add: sha1_calc_string_def calc toHex_bytes length_fips_sha1 del: map_map)
  qed
qed

theorem sha1_string_digest_witness:
  "if 0 \<in> set (fips_sha1 [97, 98, 99])
    then length (sha1_calc_string (replicate 80 0) (replicate 40 0) ''abc'') < 20
    else toHex (replicate 41 CHR ''x'') (map byte_of (sha1_calc_string (replicate 80 0) (replicate 40 0) ''abc''))
      = concat (map hex_byte (fips_sha1 [97, 98, 99]))"
  using sha1_string_digest [of "''abc''" "replicate 80 0" "replicate 40 0" "replicate 41 CHR ''x''"]
  by (simp add: byte_of_def)

end
