(* ===== verification/Md5.thy ===== *)
theory Md5
  imports Hi_Prelude
begin

text \<open>
  \<^verbatim>\<open>crypt/md5.cpp\<close>: the context, the 64 unrolled \<^verbatim>\<open>STEP\<close>s as a table of their
  arguments in the order of the source, \<^verbatim>\<open>body\<close>, \<^verbatim>\<open>MD5_Init\<close>, \<^verbatim>\<open>MD5_Update\<close> and
  \<^verbatim>\<open>MD5_Final\<close> with the 29-bit and 32-bit byte counters. The words are read as the
  little-endian variant of \<^verbatim>\<open>SET\<close>/\<^verbatim>\<open>GET\<close> reads them. The reference is RFC 1321 in its
  indexed form. A context \<open>represents\<close> the message fed so far; the update function is an
  instance of the \<open>incremental\<close> contract.
\<close>

section \<open>The code\<close>

type_synonym quad = "u32 \<times> u32 \<times> u32 \<times> u32"

record md5_ctx =
  md_lo :: u32
  md_hi :: u32
  md_abcd :: quad
  md_buffer :: "byte list"
  md_block :: "u32 list"

datatype md5_fn = MD_F | MD_G | MD_H | MD_H2 | MD_I

fun md5_fun :: "md5_fn \<Rightarrow> u32 \<Rightarrow> u32 \<Rightarrow> u32 \<Rightarrow> u32" where
  "md5_fun MD_F x y z = z XOR (x AND (y XOR z))"
| "md5_fun MD_G x y z = y XOR (z AND (x XOR y))"
| "md5_fun MD_H x y z = (x XOR y) XOR z"
| "md5_fun MD_H2 x y z = x XOR (y XOR z)"
| "md5_fun MD_I x y z = y XOR (x OR NOT z)"

definition STEP_value :: "md5_fn \<Rightarrow> u32 \<Rightarrow> u32 \<Rightarrow> u32 \<Rightarrow> u32 \<Rightarrow> u32 \<Rightarrow> u32 \<Rightarrow> nat \<Rightarrow> u32" where
  "STEP_value f a b c d x t s =
     (let a = a + md5_fun f b c d + x + t;
          a = push_bit s a OR drop_bit (32 - s) (a AND 0xffffffff)
      in a + b)"

text \<open>The four argument orders \<^verbatim>\<open>a,b,c,d\<close>, \<^verbatim>\<open>d,a,b,c\<close>, \<^verbatim>\<open>c,d,a,b\<close> and \<^verbatim>\<open>b,c,d,a\<close>
  are the roles 0 to 3; the step assigns the variable named first.\<close>

definition STEP :: "md5_fn \<Rightarrow> nat \<Rightarrow> u32 \<Rightarrow> u32 \<Rightarrow> nat \<Rightarrow> quad \<Rightarrow> quad" where
  "STEP f role x t s = (\<lambda>(a, b, c, d).
     if role = 0 then (STEP_value f a b c d x t s, b, c, d)
     else if role = 1 then (a, b, c, STEP_value f d a b c x t s)
     else if role = 2 then (a, b, STEP_value f c d a b x t s, d)
     else (a, STEP_value f b c d a x t s, c, d))"

definition md5_steps :: "(md5_fn \<times> nat \<times> nat \<times> u32 \<times> nat) list" where
  "md5_steps = [
    (MD_F, 0, 0, 0xd76aa478, 7), (MD_F, 1, 1, 0xe8c7b756, 12),
    (MD_F, 2, 2, 0x242070db, 17), (MD_F, 3, 3, 0xc1bdceee, 22),
    (MD_F, 0, 4, 0xf57c0faf, 7), (MD_F, 1, 5, 0x4787c62a, 12),
    (MD_F, 2, 6, 0xa8304613, 17), (MD_F, 3, 7, 0xfd469501, 22),
    (MD_F, 0, 8, 0x698098d8, 7), (MD_F, 1, 9, 0x8b44f7af, 12),
    (MD_F, 2, 10, 0xffff5bb1, 17), (MD_F, 3, 11, 0x895cd7be, 22),
    (MD_F, 0, 12, 0x6b901122, 7), (MD_F, 1, 13, 0xfd987193, 12),
    (MD_F, 2, 14, 0xa679438e, 17), (MD_F, 3, 15, 0x49b40821, 22),
    (MD_G, 0, 1, 0xf61e2562, 5), (MD_G, 1, 6, 0xc040b340, 9),
    (MD_G, 2, 11, 0x265e5a51, 14), (MD_G, 3, 0, 0xe9b6c7aa, 20),
    (MD_G, 0, 5, 0xd62f105d, 5), (MD_G, 1, 10, 0x02441453, 9),
    (MD_G, 2, 15, 0xd8a1e681, 14), (MD_G, 3, 4, 0xe7d3fbc8, 20),
    (MD_G, 0, 9, 0x21e1cde6, 5), (MD_G, 1, 14, 0xc33707d6, 9),
    (MD_G, 2, 3, 0xf4d50d87, 14), (MD_G, 3, 8, 0x455a14ed, 20),
    (MD_G, 0, 13, 0xa9e3e905, 5), (MD_G, 1, 2, 0xfcefa3f8, 9),
    (MD_G, 2, 7, 0x676f02d9, 14), (MD_G, 3, 12, 0x8d2a4c8a, 20),
    (MD_H, 0, 5, 0xfffa3942, 4), (MD_H2, 1, 8, 0x8771f681, 11),
    (MD_H, 2, 11, 0x6d9d6122, 16), (MD_H2, 3, 14, 0xfde5380c, 23),
    (MD_H, 0, 1, 0xa4beea44, 4), (MD_H2, 1, 4, 0x4bdecfa9, 11),
    (MD_H, 2, 7, 0xf6bb4b60, 16), (MD_H2, 3, 10, 0xbebfbc70, 23),
    (MD_H, 0, 13, 0x289b7ec6, 4), (MD_H2, 1, 0, 0xeaa127fa, 11),
    (MD_H, 2, 3, 0xd4ef3085, 16), (MD_H2, 3, 6, 0x04881d05, 23),
    (MD_H, 0, 9, 0xd9d4d039, 4), (MD_H2, 1, 12, 0xe6db99e5, 11),
    (MD_H, 2, 15, 0x1fa27cf8, 16), (MD_H2, 3, 2, 0xc4ac5665, 23),
    (MD_I, 0, 0, 0xf4292244, 6), (MD_I, 1, 7, 0x432aff97, 10),
    (MD_I, 2, 14, 0xab9423a7, 15), (MD_I, 3, 5, 0xfc93a039, 21),
    (MD_I, 0, 12, 0x655b59c3, 6), (MD_I, 1, 3, 0x8f0ccc92, 10),
    (MD_I, 2, 10, 0xffeff47d, 15), (MD_I, 3, 1, 0x85845dd1, 21),
    (MD_I, 0, 8, 0x6fa87e4f, 6), (MD_I, 1, 15, 0xfe2ce6e0, 10),
    (MD_I, 2, 6, 0xa3014314, 15), (MD_I, 3, 13, 0x4e0811a1, 21),
    (MD_I, 0, 4, 0xf7537e82, 6), (MD_I, 1, 11, 0xbd3af235, 10),
    (MD_I, 2, 2, 0x2ad7d2bb, 15), (MD_I, 3, 9, 0xeb86d391, 21)]"

definition md5_rounds :: "byte list \<Rightarrow> quad \<Rightarrow> quad" where
  "md5_rounds ptr abcd =
     (let w = le_words ptr in fold (\<lambda>(f, role, n, t, s). STEP f role (w ! n) t s) md5_steps abcd)"

text \<open>\<open>body\<close> on a positive multiple of 64 bytes, as all its callers pass.\<close>

function body_loop :: "byte list \<Rightarrow> quad \<Rightarrow> quad" where
  "body_loop ptr abcd =
     (let (saved_a, saved_b, saved_c, saved_d) = abcd;
          (a, b, c, d) = md5_rounds (take 64 ptr) abcd;
          abcd = (a + saved_a, b + saved_b, c + saved_c, d + saved_d)
      in if length ptr \<le> 64 then abcd else body_loop (drop 64 ptr) abcd)"
  by pat_completeness auto
termination by (relation "measure (\<lambda>(ptr, _). length ptr)") auto

declare body_loop.simps [simp del]

definition md5_body :: "md5_ctx \<Rightarrow> byte list \<Rightarrow> md5_ctx" where
  "md5_body ctx data = ctx\<lparr>md_abcd := body_loop data (md_abcd ctx)\<rparr>"

definition MD5_Init :: "md5_ctx \<Rightarrow> md5_ctx" where
  "MD5_Init ctx = ctx\<lparr>md_abcd := (0x67452301, 0xefcdab89, 0x98badcfe, 0x10325476), md_lo := 0, md_hi := 0\<rparr>"

text \<open>\<open>put_bytes\<close> is \<^verbatim>\<open>memcpy\<close> into the buffer at an offset.\<close>

definition put_bytes :: "byte list \<Rightarrow> nat \<Rightarrow> byte list \<Rightarrow> byte list" where
  "put_bytes buf off data = take off buf @ data @ drop (off + length data) buf"

definition count_bytes :: "md5_ctx \<Rightarrow> u64 \<Rightarrow> md5_ctx" where
  "count_bytes ctx sz =
     (let saved_lo = md_lo ctx;
          lo = ucast ((ucast saved_lo + sz) AND 0x1fffffff);
          hi = (if lo < saved_lo then md_hi ctx + 1 else md_hi ctx);
          hi = hi + ucast (drop_bit 29 sz)
      in ctx\<lparr>md_lo := lo, md_hi := hi\<rparr>)"

definition update_blocks :: "md5_ctx \<Rightarrow> byte list \<Rightarrow> md5_ctx" where
  "update_blocks ctx data =
     (let n = length data - length data mod 64;
          (ctx, data) = (if length data \<ge> 64 then (md5_body ctx (take n data), drop n data) else (ctx, data))
      in ctx\<lparr>md_buffer := put_bytes (md_buffer ctx) 0 data\<rparr>)"

definition MD5_Update :: "md5_ctx \<Rightarrow> byte list \<Rightarrow> md5_ctx" where
  "MD5_Update ctx data =
     (let used = unat (md_lo ctx AND 0x3f);
          ctx = count_bytes ctx (word_of_nat (length data))
      in if used \<noteq> 0
         then let available = 64 - used
              in if length data < available
                 then ctx\<lparr>md_buffer := put_bytes (md_buffer ctx) used data\<rparr>
                 else let ctx = ctx\<lparr>md_buffer := put_bytes (md_buffer ctx) used (take available data)\<rparr>;
                          ctx = md5_body ctx (md_buffer ctx)
                      in update_blocks ctx (drop available data)
         else update_blocks ctx data)"

definition le_bytes32 :: "u32 \<Rightarrow> byte list" where
  "le_bytes32 x = [ucast x, ucast (drop_bit 8 x), ucast (drop_bit 16 x), ucast (drop_bit 24 x)]"

definition MD5_Final :: "md5_ctx \<Rightarrow> byte list \<times> md5_ctx" where
  "MD5_Final ctx =
     (let used = unat (md_lo ctx AND 0x3f);
          ctx = ctx\<lparr>md_buffer := put_bytes (md_buffer ctx) used [0x80]\<rparr>;
          used = used + 1;
          available = 64 - used;
          (ctx, used, available) =
            (if available < 8
             then let ctx = ctx\<lparr>md_buffer := put_bytes (md_buffer ctx) used (replicate available 0)\<rparr>
                  in (md5_body ctx (md_buffer ctx), 0, 64)
             else (ctx, used, available));
          ctx = ctx\<lparr>md_buffer := put_bytes (md_buffer ctx) used (replicate (available - 8) 0)\<rparr>;
          ctx = ctx\<lparr>md_lo := push_bit 3 (md_lo ctx)\<rparr>;
          ctx = ctx\<lparr>md_buffer := put_bytes (put_bytes (md_buffer ctx) 56 (le_bytes32 (md_lo ctx))) 60
                                    (le_bytes32 (md_hi ctx))\<rparr>;
          ctx = md5_body ctx (md_buffer ctx);
          (a, b, c, d) = md_abcd ctx
      in (le_bytes32 a @ le_bytes32 b @ le_bytes32 c @ le_bytes32 d,
          \<lparr>md_lo = 0, md_hi = 0, md_abcd = (0, 0, 0, 0), md_buffer = replicate 64 0, md_block = replicate 16 0\<rparr>))"

section \<open>The reference: RFC 1321\<close>

definition rfc_T :: "u32 list" where
  "rfc_T = [
    0xd76aa478, 0xe8c7b756, 0x242070db, 0xc1bdceee, 0xf57c0faf, 0x4787c62a,
    0xa8304613, 0xfd469501, 0x698098d8, 0x8b44f7af, 0xffff5bb1, 0x895cd7be,
    0x6b901122, 0xfd987193, 0xa679438e, 0x49b40821, 0xf61e2562, 0xc040b340,
    0x265e5a51, 0xe9b6c7aa, 0xd62f105d, 0x02441453, 0xd8a1e681, 0xe7d3fbc8,
    0x21e1cde6, 0xc33707d6, 0xf4d50d87, 0x455a14ed, 0xa9e3e905, 0xfcefa3f8,
    0x676f02d9, 0x8d2a4c8a, 0xfffa3942, 0x8771f681, 0x6d9d6122, 0xfde5380c,
    0xa4beea44, 0x4bdecfa9, 0xf6bb4b60, 0xbebfbc70, 0x289b7ec6, 0xeaa127fa,
    0xd4ef3085, 0x04881d05, 0xd9d4d039, 0xe6db99e5, 0x1fa27cf8, 0xc4ac5665,
    0xf4292244, 0x432aff97, 0xab9423a7, 0xfc93a039, 0x655b59c3, 0x8f0ccc92,
    0xffeff47d, 0x85845dd1, 0x6fa87e4f, 0xfe2ce6e0, 0xa3014314, 0x4e0811a1,
    0xf7537e82, 0xbd3af235, 0x2ad7d2bb, 0xeb86d391]"

definition rfc_f :: "nat \<Rightarrow> u32 \<Rightarrow> u32 \<Rightarrow> u32 \<Rightarrow> u32" where
  "rfc_f i x y z =
     (if i < 16 then (x AND y) OR (NOT x AND z)
      else if i < 32 then (x AND z) OR (y AND NOT z)
      else if i < 48 then x XOR y XOR z
      else y XOR (x OR NOT z))"

definition rfc_k :: "nat \<Rightarrow> nat" where
  "rfc_k i = (if i < 16 then i else if i < 32 then (5 * i + 1) mod 16
     else if i < 48 then (3 * i + 5) mod 16 else 7 * i mod 16)"

definition rfc_s :: "nat \<Rightarrow> nat" where
  "rfc_s i = [[7, 12, 17, 22], [5, 9, 14, 20], [4, 11, 16, 23], [6, 10, 15, 21]] ! (i div 16) ! (i mod 4)"

definition rfc_round :: "u32 list \<Rightarrow> nat \<Rightarrow> quad \<Rightarrow> quad" where
  "rfc_round X i = (\<lambda>(a, b, c, d).
     (d, b + word_rotl (rfc_s i) (a + rfc_f i b c d + X ! rfc_k i + rfc_T ! i), b, c))"

definition rfc_compress :: "quad \<Rightarrow> byte list \<Rightarrow> quad" where
  "rfc_compress abcd block =
     (let (a, b, c, d) = abcd; (a', b', c', d') = fold (rfc_round (le_words block)) [0..<64] abcd
      in (a' + a, b' + b, c' + c, d' + d))"

definition rfc1321 :: "byte list \<Rightarrow> byte list" where
  "rfc1321 m =
     (let bits = length m * 8;
          (a, b, c, d) = foldl rfc_compress (0x67452301, 0xefcdab89, 0x98badcfe, 0x10325476)
            (blocks64 (md_pad m (le_bytes32 (word_of_nat bits) @ le_bytes32 (word_of_nat (bits div 2 ^ 32)))))
      in le_bytes32 a @ le_bytes32 b @ le_bytes32 c @ le_bytes32 d)"

section \<open>The compression function\<close>

definition fn_of :: "nat \<Rightarrow> md5_fn" where
  "fn_of i = (if i < 16 then MD_F else if i < 32 then MD_G
     else if i < 48 then (if even i then MD_H else MD_H2) else MD_I)"

lemma md5_steps_indexed:
  "md5_steps = map (\<lambda>i. (fn_of i, i mod 4, rfc_k i, rfc_T ! i, rfc_s i)) [0..<64]"
  by (simp add: md5_steps_def rfc_T_def fn_of_def rfc_k_def rfc_s_def upt_rec)

lemma md5_fun_rfc: "md5_fun (fn_of i) x y z = rfc_f i x y z"
  by (auto simp: fn_of_def rfc_f_def bit_simps intro!: bit_word_eqI)

lemma rfc_s_range: "i < 64 \<Longrightarrow> 0 < rfc_s i \<and> rfc_s i < 32"
proof -
  assume "i < 64"
  then have "i div 16 < 4" "i mod 4 < 4"
    by auto
  then have "i div 16 = 0 \<or> i div 16 = 1 \<or> i div 16 = 2 \<or> i div 16 = 3"
    "i mod 4 = 0 \<or> i mod 4 = 1 \<or> i mod 4 = 2 \<or> i mod 4 = 3"
    by arith+
  then show ?thesis
    unfolding rfc_s_def by (elim disjE) simp_all
qed

text \<open>The reference rotates the four variables after each step, the code renames them.\<close>

fun roles :: "nat \<Rightarrow> quad \<Rightarrow> quad" where
  "roles r (a, b, c, d) =
     (if r = 0 then (a, b, c, d) else if r = 1 then (d, a, b, c)
      else if r = 2 then (c, d, a, b) else (b, c, d, a))"

lemma all_ones: "(0xffffffff :: u32) = - 1"
  by simp

lemma STEP_value_rfc:
  "i < 64 \<Longrightarrow> STEP_value (fn_of i) a b c d x t (rfc_s i) = b + word_rotl (rfc_s i) (a + rfc_f i b c d + x + t)"
  using rfc_s_range [of i]
  by (simp add: STEP_value_def md5_fun_rfc rotation_word all_ones add.commute)

lemma mod_4_succ:
  "(i mod 4 = 0 \<and> Suc i mod 4 = 1) \<or> (i mod 4 = 1 \<and> Suc i mod 4 = 2) \<or>
   (i mod 4 = 2 \<and> Suc i mod 4 = 3) \<or> (i mod 4 = 3 \<and> Suc i mod 4 = 0)"
  by presburger

lemma rfc_round_roles:
  assumes "i < 64"
  shows "rfc_round X i (roles (i mod 4) v) =
    roles (Suc i mod 4) (STEP (fn_of i) (i mod 4) (X ! rfc_k i) (rfc_T ! i) (rfc_s i) v)"
  using mod_4_succ [of i]
  by (elim disjE conjE) (use assms in \<open>cases v; simp add: rfc_round_def STEP_def STEP_value_rfc\<close>)+

lemma md5_rounds_rfc: "md5_rounds block v = fold (rfc_round (le_words block)) [0..<64] v"
proof -
  let ?X = "le_words block"
  have "fold (rfc_round ?X) [0..<n] v =
      roles (n mod 4) (fold (\<lambda>i. STEP (fn_of i) (i mod 4) (?X ! rfc_k i) (rfc_T ! i) (rfc_s i)) [0..<n] v)"
    if "n \<le> 64" for n
    using that
  proof (induction n)
    case 0
    then show ?case by (cases v) simp
  next
    case (Suc n)
    then show ?case by (simp add: rfc_round_roles)
  qed
  from this [of 64] show ?thesis
    by (cases "fold (\<lambda>i. STEP (fn_of i) (i mod 4) (?X ! rfc_k i) (rfc_T ! i) (rfc_s i)) [0..<64] v")
      (simp add: md5_rounds_def md5_steps_indexed fold_map comp_def)
qed

lemma body_loop_code:
  "body_loop data v = (if length data \<le> 64 then rfc_compress v (take 64 data)
     else body_loop (drop 64 data) (rfc_compress v (take 64 data)))"
proof -
  have "(let (saved_a, saved_b, saved_c, saved_d) = v; (a, b, c, d) = md5_rounds (take 64 data) v
      in (a + saved_a, b + saved_b, c + saved_c, d + saved_d)) = rfc_compress v (take 64 data)"
    by (simp add: rfc_compress_def md5_rounds_rfc)
  then show ?thesis
    by (subst body_loop.simps) (auto simp: Let_def split: prod.splits)
qed

lemma body_loop_rfc:
  "64 dvd length data \<Longrightarrow> data \<noteq> [] \<Longrightarrow> body_loop data v = foldl rfc_compress v (blocks64 data)"
proof (induction data arbitrary: v rule: blocks64.induct)
  case (1 data)
  have ge: "64 \<le> length data"
    using 1(2,3) by (intro dvd_imp_le) auto
  show ?case
  proof (cases "length data \<le> 64")
    case True
    then show ?thesis
      using ge by (simp add: body_loop_code [of data] blocks64_one)
  next
    case False
    have "body_loop (drop 64 data) w = foldl rfc_compress w (blocks64 (drop 64 data))" for w
      using False 1 by (simp add: dvd_diff_nat)
    then show ?thesis
      using False blocks64.simps [of data] by (simp add: body_loop_code [of data])
  qed
qed

section \<open>What a context represents\<close>

definition rfc_init :: quad where
  "rfc_init = (0x67452301, 0xefcdab89, 0x98badcfe, 0x10325476)"

text \<open>\<open>represents m ctx\<close>: the chaining value is that of the whole blocks of \<open>m\<close>, the
  buffer starts with the rest of \<open>m\<close>, and the two counters hold its length modulo \<open>2^61\<close>.\<close>

definition rest :: "byte list \<Rightarrow> byte list" where
  "rest m = drop (64 * (length m div 64)) m"

definition represents :: "byte list \<Rightarrow> md5_ctx \<Rightarrow> bool" where
  "represents m ctx \<longleftrightarrow> md_abcd ctx = foldl rfc_compress rfc_init (blocks64 m) \<and>
     length (md_buffer ctx) = 64 \<and> take (length m mod 64) (md_buffer ctx) = rest m \<and>
     unat (md_lo ctx) = length m mod 2 ^ 29 \<and> unat (md_hi ctx) = length m div 2 ^ 29 mod 2 ^ 32"

lemma length_rest: "length (rest m) = length m mod 64"
  by (simp add: rest_def minus_mult_div_eq_mod)

lemma split_rest: "take (64 * (length m div 64)) m @ rest m = m"
  by (simp add: rest_def)

lemma blocks_rest_append:
  "blocks64 (m @ data) = blocks64 m @ blocks64 (rest m @ data)" "rest (m @ data) = rest (rest m @ data)"
proof -
  let ?k = "64 * (length m div 64)"
  have "blocks64 (take ?k m @ (rest m @ data)) = blocks64 (take ?k m) @ blocks64 (rest m @ data)"
    by (rule blocks64_append) simp
  then show "blocks64 (m @ data) = blocks64 m @ blocks64 (rest m @ data)"
    using split_rest [of m] blocks64_take [of m] by (metis append_assoc)
  have "length m = ?k + length (rest m)"
    by (simp add: length_rest)
  then have "length (m @ data) div 64 = length m div 64 + length (rest m @ data) div 64"
    by (metis (no_types, lifting) add.assoc div_mult_self3 length_append zero_neq_numeral mult.commute)
  then show "rest (m @ data) = rest (rest m @ data)"
    by (simp add: rest_def distrib_left add.commute)
qed

lemma used_bytes: "unat (v AND 0x3f :: u32) = unat v mod 64"
proof -
  have "v AND 0x3f = take_bit 6 v"
    by (simp add: take_bit_eq_mask mask_eq_exp_minus_1)
  moreover have "unat (take_bit 6 v) = unat v mod 64"
    by (simp add: unsigned_take_bit_eq take_bit_eq_mod [where 'a = nat])
  ultimately show ?thesis
    by (simp only:)
qed

lemma carry_div:
  fixes n k M :: nat
  assumes "0 < M"
  shows "(n + k) div M = n div M + k div M + (if (n + k) mod M < n mod M then 1 else 0)"
proof -
  define p q where "p = n mod M" and "q = k mod M"
  have lt: "p < M" "q < M"
    using assms by (simp_all add: p_def q_def)
  have sum: "(n + k) mod M = (p + q) mod M" "(n + k) div M = n div M + k div M + (p + q) div M"
    by (simp_all add: p_def q_def mod_add_eq div_add1_eq [of n k])
  show ?thesis
  proof (cases "p + q < M")
    case True
    then show ?thesis by (simp add: sum p_def [symmetric])
  next
    case False
    then have "(p + q) div M = 1"
      using lt by (intro div_nat_eqI) simp_all
    moreover have "(p + q) mod M = p + q - M"
      using False lt by (intro mod_nat_eqI) simp_all
    ultimately show ?thesis
      using False lt by (simp add: sum p_def [symmetric])
  qed
qed

lemma unat_low29: "unat (ucast (x AND 0x1fffffff :: u64) :: u32) = unat x mod 2 ^ 29"
proof -
  have "x AND 0x1fffffff = take_bit 29 x"
    by (simp add: take_bit_eq_mask mask_eq_exp_minus_1)
  moreover have "unat (take_bit 29 x) = unat x mod 2 ^ 29"
    by (simp add: unsigned_take_bit_eq take_bit_eq_mod [where 'a = nat])
  ultimately have "unat (x AND 0x1fffffff) = unat x mod 2 ^ 29"
    by (simp only:)
  then show ?thesis
    by (simp add: unsigned_ucast_eq take_bit_eq_mod)
qed

lemma mod_add_outer: "(a mod M + c + b mod M) mod M = (a + b + c) mod (M::nat)"
proof -
  have "(a mod M + c + b mod M) mod M = (a mod M + (c + b)) mod M"
    using mod_add_right_eq [of "a mod M + c" b M] by (simp only: add.assoc)
  then show ?thesis
    by (simp only: mod_add_left_eq) (simp only: ac_simps)
qed

lemma count_bytes_counts:
  assumes "unat (md_lo ctx) = n mod 2 ^ 29" "unat (md_hi ctx) = n div 2 ^ 29 mod 2 ^ 32"
  shows "unat (md_lo (count_bytes ctx (word_of_nat k))) = (n + k) mod 2 ^ 29"
    and "unat (md_hi (count_bytes ctx (word_of_nat k))) = (n + k) div 2 ^ 29 mod 2 ^ 32"
proof -
  let ?x = "ucast (md_lo ctx) + word_of_nat k :: u64"
  let ?lo = "ucast (?x AND 0x1fffffff) :: u32"
  have "unat ?x mod 2 ^ 29 = (unat (md_lo ctx) + k) mod 2 ^ 29"
    by (simp add: unat_word_ariths unsigned_ucast_eq take_bit_eq_mod unat_of_nat mod_mod_cancel mod_simps)
  also have "\<dots> = (n + k) mod 2 ^ 29"
    by (simp only: assms mod_add_left_eq)
  finally have lo: "unat ?lo = (n + k) mod 2 ^ 29"
    by (simp only: unat_low29)
  then show "unat (md_lo (count_bytes ctx (word_of_nat k))) = (n + k) mod 2 ^ 29"
    by (simp add: count_bytes_def Let_def)
  have carry: "?lo < md_lo ctx \<longleftrightarrow> (n + k) mod 2 ^ 29 < n mod 2 ^ 29"
    by (simp only: word_less_nat_alt lo assms)
  have sz: "unat (ucast (drop_bit 29 (word_of_nat k :: u64)) :: u32) = k div 2 ^ 29 mod 2 ^ 32"
  proof -
    have "unat (ucast (drop_bit 29 (word_of_nat k :: u64)) :: u32) = k mod (2 ^ 29 * 2 ^ 35) div 2 ^ 29 mod 2 ^ 32"
      by (simp add: unsigned_ucast_eq unat_drop_bit_eq drop_bit_eq_div [where 'a = nat]
        take_bit_eq_mod [where 'a = nat] unat_of_nat)
    also have "\<dots> = k div 2 ^ 29 mod 2 ^ 35 mod 2 ^ 32"
      by (simp only: mod_mult2_eq) simp
    also have "\<dots> = k div 2 ^ 29 mod 2 ^ 32"
      by (rule mod_mod_cancel) simp
    finally show ?thesis .
  qed
  have "unat (md_hi (count_bytes ctx (word_of_nat k))) =
      (n div 2 ^ 29 mod 2 ^ 32 + (if (n + k) mod 2 ^ 29 < n mod 2 ^ 29 then 1 else 0) + k div 2 ^ 29 mod 2 ^ 32) mod 2 ^ 32"
    using carry by (simp add: count_bytes_def Let_def unat_word_ariths sz assms mod_add_left_eq)
  also have "\<dots> = (n div 2 ^ 29 + k div 2 ^ 29 + (if (n + k) mod 2 ^ 29 < n mod 2 ^ 29 then 1 else 0)) mod 2 ^ 32"
    by (rule mod_add_outer)
  also have "\<dots> = (n + k) div 2 ^ 29 mod 2 ^ 32"
    using carry_div [of "2 ^ 29" n k] by simp
  finally show "unat (md_hi (count_bytes ctx (word_of_nat k))) = (n + k) div 2 ^ 29 mod 2 ^ 32" .
qed

lemma rest_short: "length m < 64 \<Longrightarrow> rest m = m"
  by (simp add: rest_def)

lemma rest_step: "length b = 64 \<Longrightarrow> rest (b @ data) = rest data"
  using blocks_rest_append(2) [of b data] by (simp add: rest_def)

lemma length_put_bytes [simp]:
  "off + length data \<le> length buf \<Longrightarrow> length (put_bytes buf off data) = length buf"
  by (simp add: put_bytes_def)

lemma body_rfc:
  "64 dvd length data \<Longrightarrow> data \<noteq> [] \<Longrightarrow>
    md5_body ctx data = ctx\<lparr>md_abcd := foldl rfc_compress (md_abcd ctx) (blocks64 data)\<rparr>"
  by (simp add: md5_body_def body_loop_rfc)

lemma update_blocks_code:
  "update_blocks ctx data =
     (if 64 \<le> length data
      then ctx\<lparr>md_abcd := foldl rfc_compress (md_abcd ctx) (blocks64 data),
               md_buffer := put_bytes (md_buffer ctx) 0 (rest data)\<rparr>
      else ctx\<lparr>md_buffer := put_bytes (md_buffer ctx) 0 data\<rparr>)"
proof (cases "64 \<le> length data")
  case True
  let ?d = "take (64 * (length data div 64)) data"
  have "64 dvd length ?d" "?d \<noteq> []"
    using True by auto
  note body = body_rfc [OF this]
  have n: "length data - length data mod 64 = 64 * (length data div 64)"
    by (simp add: minus_mod_eq_mult_div)
  show ?thesis
    using True by (simp add: update_blocks_def n body blocks64_take flip: rest_def)
qed (simp add: update_blocks_def)

lemma update_blocks_rfc:
  assumes "length (md_buffer ctx) = 64"
  shows "md_abcd (update_blocks ctx data) = foldl rfc_compress (md_abcd ctx) (blocks64 data)"
    "length (md_buffer (update_blocks ctx data)) = 64"
    "take (length data mod 64) (md_buffer (update_blocks ctx data)) = rest data"
    "md_lo (update_blocks ctx data) = md_lo ctx" "md_hi (update_blocks ctx data) = md_hi ctx"
  using assms length_rest [of data]
  by (auto simp: update_blocks_code blocks64_short rest_short put_bytes_def)

lemma count_bytes_frame [simp]:
  "md_abcd (count_bytes ctx s) = md_abcd ctx" "md_buffer (count_bytes ctx s) = md_buffer ctx"
  by (simp_all add: count_bytes_def Let_def)

lemma md5_body_frame [simp]:
  "md_buffer (md5_body ctx d) = md_buffer ctx" "md_lo (md5_body ctx d) = md_lo ctx" "md_hi (md5_body ctx d) = md_hi ctx"
  by (simp_all add: md5_body_def)

lemma MD5_Update_represents:
  assumes rep: "represents m ctx"
  shows "represents (m @ data) (MD5_Update ctx data)"
proof -
  define ctx1 where "ctx1 = count_bytes ctx (word_of_nat (length data))"
  define used where "used = length m mod 64"
  note r = rep [unfolded represents_def]
  have used: "unat (md_lo ctx AND 0x3f) = used" "used < 64" "length (rest m) = used"
    using r by (simp_all add: used_bytes used_def length_rest mod_mod_cancel)
  have counts: "unat (md_lo ctx1) = length (m @ data) mod 2 ^ 29"
    "unat (md_hi ctx1) = length (m @ data) div 2 ^ 29 mod 2 ^ 32"
    using r count_bytes_counts [of ctx "length m" "length data"] by (simp_all add: ctx1_def)
  have frame: "md_abcd ctx1 = foldl rfc_compress rfc_init (blocks64 m)" "md_buffer ctx1 = md_buffer ctx"
    "length (md_buffer ctx) = 64" "take used (md_buffer ctx) = rest m"
    using r by (simp_all add: ctx1_def used_def)
  have len: "length (m @ data) mod 64 = length (rest m @ data) mod 64"
    by (simp add: length_rest mod_simps)
  consider "used = 0" | "used \<noteq> 0" "length data < 64 - used" | "used \<noteq> 0" "\<not> length data < 64 - used"
    by blast
  then show ?thesis
  proof cases
    case 1
    then have "rest m = []"
      using used by simp
    moreover have "MD5_Update ctx data = update_blocks ctx1 data"
      using 1 used by (simp add: MD5_Update_def ctx1_def)
    ultimately show ?thesis
      using update_blocks_rfc [of ctx1 data] frame counts len
      by (simp add: represents_def blocks_rest_append [of m])
  next
    case 2
    then have "MD5_Update ctx data = ctx1\<lparr>md_buffer := put_bytes (md_buffer ctx) used data\<rparr>"
      using used by (simp add: MD5_Update_def ctx1_def Let_def)
    moreover have small: "length (rest m @ data) < 64"
      using 2 used by simp
    moreover have "length (m @ data) mod 64 = used + length data"
      unfolding len using small used by simp
    ultimately show ?thesis
      using 2 frame counts used
      by (simp add: represents_def blocks_rest_append [of m] len blocks64_short rest_short put_bytes_def)
  next
    case 3
    define b d where "b = rest m @ take (64 - used) data" and "d = drop (64 - used) data"
    have split: "rest m @ data = b @ d" and b: "length b = 64"
      using 3 used by (simp_all add: b_def d_def)
    have buf: "put_bytes (md_buffer ctx) used (take (64 - used) data) = b"
      using 3 frame by (simp add: put_bytes_def b_def)
    have "MD5_Update ctx data = update_blocks (md5_body (ctx1\<lparr>md_buffer := b\<rparr>) b) d"
      using 3 used buf by (simp add: MD5_Update_def ctx1_def Let_def d_def)
    moreover have "md5_body (ctx1\<lparr>md_buffer := b\<rparr>) b =
        ctx1\<lparr>md_buffer := b, md_abcd := foldl rfc_compress (md_abcd ctx1) [b]\<rparr>"
      using b by (subst body_rfc) (auto simp: blocks64_one)
    moreover have "(length m + length data) mod 64 = length d mod 64"
      using len b unfolding split by simp
    ultimately show ?thesis
      using update_blocks_rfc [of "md5_body (ctx1\<lparr>md_buffer := b\<rparr>) b" d] frame counts b
      by (simp add: represents_def blocks_rest_append [of m] len split blocks64_step rest_step)
  qed
qed

section \<open>The digest\<close>

lemma length_bits:
  assumes "unat (lo :: u32) = n mod 2 ^ 29" "unat (hi :: u32) = n div 2 ^ 29 mod 2 ^ 32"
  shows "push_bit 3 lo = word_of_nat (n * 8)" "hi = word_of_nat (n * 8 div 2 ^ 32)"
proof -
  have w: "unat (word_of_nat m :: u32) = m mod 2 ^ 32" for m
    by (simp only: unat_of_nat) simp
  have "unat (push_bit 3 lo) = unat lo * 8 mod 2 ^ 32"
  proof -
    have "push_bit 3 lo = lo * 8"
      by (simp only: push_bit_eq_mult) simp
    then show ?thesis
      by (simp only: unat_word_ariths) simp
  qed
  also have "\<dots> = n * 8 mod (2 ^ 29 * 8) mod 2 ^ 32"
    by (simp only: assms mult_mod_left)
  finally have "unat (push_bit 3 lo) = unat (word_of_nat (n * 8) :: u32)"
    by (simp only: w) simp
  then show "push_bit 3 lo = word_of_nat (n * 8)"
    by (simp only: word_unat_eq_iff)
  have "n * 8 div (2 ^ 29 * 8) = n div 2 ^ 29"
    by (rule div_mult_mult2) simp
  then have "unat hi = unat (word_of_nat (n * 8 div 2 ^ 32) :: u32)"
    by (simp only: assms w) simp
  then show "hi = word_of_nat (n * 8 div 2 ^ 32)"
    by (simp only: word_unat_eq_iff)
qed

lemma length_le_bytes32 [simp]: "length (le_bytes32 x) = 4"
  by (simp add: le_bytes32_def)

lemma put_length_field:
  "length b = 56 \<Longrightarrow> length c = 8 \<Longrightarrow>
     put_bytes (put_bytes (b @ c) 56 (le_bytes32 x)) 60 (le_bytes32 y) = b @ le_bytes32 x @ le_bytes32 y"
  by (simp add: put_bytes_def)

lemma put_zeros:
  assumes "length buf = 64" "used \<le> 56" "take used buf = p"
  shows "\<exists>c. length c = 8 \<and> put_bytes buf used (replicate (56 - used) 0) = (p @ replicate (56 - used) 0) @ c"
  using assms by (intro exI [of _ "drop 56 buf"]) (simp add: put_bytes_def)

definition digest_of :: "quad \<Rightarrow> byte list" where
  "digest_of = (\<lambda>(a, b, c, d). le_bytes32 a @ le_bytes32 b @ le_bytes32 c @ le_bytes32 d)"

lemma final_tail:
  assumes "length buf = 64" "used \<le> 56" "take used buf = p"
  shows "put_bytes (put_bytes (put_bytes buf used (replicate (56 - used) 0)) 56 (le_bytes32 x)) 60 (le_bytes32 y) =
    p @ replicate (56 - used) 0 @ le_bytes32 x @ le_bytes32 y"
proof -
  obtain c where c: "length c = 8"
      "put_bytes buf used (replicate (56 - used) 0) = (p @ replicate (56 - used) 0) @ c"
    using put_zeros [OF assms] by blast
  have len: "length (p @ replicate (56 - used) 0) = 56"
    using assms by auto
  show ?thesis
    unfolding c(2) put_length_field [OF len c(1)] by simp
qed

lemma MD5_Final_code:
  assumes "used = unat (md_lo ctx AND 0x3f)" "used < 64"
  shows "fst (MD5_Final ctx) =
    (let buf = put_bytes (md_buffer ctx) used [0x80];
         fin = (\<lambda>b u. put_bytes (put_bytes (put_bytes b u (replicate (56 - u) 0)) 56
            (le_bytes32 (push_bit 3 (md_lo ctx)))) 60 (le_bytes32 (md_hi ctx)))
     in if 55 < used
        then let buf = put_bytes buf (used + 1) (replicate (63 - used) 0)
             in digest_of (body_loop (fin buf 0) (body_loop buf (md_abcd ctx)))
        else digest_of (body_loop (fin buf (used + 1)) (md_abcd ctx)))"
  using assms(2)
  by (auto simp: MD5_Final_def Let_def digest_of_def md5_body_def assms(1) [symmetric] split: prod.splits)

lemma MD5_Final_represents:
  assumes rep: "represents m ctx"
  shows "fst (MD5_Final ctx) = rfc1321 m"
proof -
  define used where "used = length m mod 64"
  note r = rep [unfolded represents_def]
  have used: "used = unat (md_lo ctx AND 0x3f)" "used < 64" "length (rest m) = used"
    using r by (simp_all add: used_bytes used_def length_rest mod_mod_cancel)
  have buf: "length (md_buffer ctx) = 64" "take used (md_buffer ctx) = rest m"
    using r by (simp_all add: used_def)
  define len8 where "len8 = le_bytes32 (word_of_nat (length m * 8)) @ le_bytes32 (word_of_nat (length m * 8 div 2 ^ 32))"
  have len8: "le_bytes32 (push_bit 3 (md_lo ctx)) @ le_bytes32 (md_hi ctx) = len8"
    using r length_bits [of "md_lo ctx" "length m" "md_hi ctx"] by (simp only: len8_def)
  let ?buf = "put_bytes (md_buffer ctx) used [0x80]"
  have b1: "length ?buf = 64" "take (used + 1) ?buf = rest m @ [0x80]"
    using buf used(2,3) by (simp_all add: put_bytes_def)
  have pad: "rfc1321 m = digest_of (foldl rfc_compress rfc_init (blocks64 (md_pad m len8)))"
    by (simp add: rfc1321_def digest_of_def rfc_init_def len8_def Let_def)
  have blocks: "blocks64 (md_pad m len8) = blocks64 m @
    (if used < 56 then [rest m @ 0x80 # replicate (55 - used) 0 @ len8]
     else [rest m @ 0x80 # replicate (63 - used) 0, replicate 56 0 @ len8])"
    by (rule md_pad_blocks) (simp_all add: len8_def used_def rest_def)
  have body: "body_loop b v = rfc_compress v b" if "length b = 64" for b v
    using that by (simp add: body_loop_code)
  show ?thesis
  proof (cases "55 < used")
    case False
    then have "fst (MD5_Final ctx) = digest_of (rfc_compress (md_abcd ctx)
        (rest m @ [0x80] @ replicate (56 - (used + 1)) 0 @ len8))"
      using final_tail [OF b1(1) _ b1(2)] used
      by (simp add: MD5_Final_code [OF used(1,2)] Let_def body len8 len8_def)
    then show ?thesis
      using False r by (simp add: pad blocks)
  next
    case True
    have "put_bytes ?buf (used + 1) (replicate (63 - used) 0) = rest m @ 0x80 # replicate (63 - used) 0"
      using b1 used by (simp add: put_bytes_def)
    moreover have "length (rest m @ 0x80 # replicate (63 - used) (0::byte)) = 64"
      using used by simp
    moreover note final_tail [OF this, of 0 "[]"]
    ultimately have "fst (MD5_Final ctx) = digest_of (rfc_compress (rfc_compress (md_abcd ctx)
        (rest m @ 0x80 # replicate (63 - used) 0)) (replicate 56 0 @ len8))"
      using True used by (simp add: MD5_Final_code [OF used(1,2)] Let_def body len8 len8_def)
    then show ?thesis
      using True r by (simp add: pad blocks)
  qed
qed

section \<open>Feeding a context in pieces\<close>

definition md5_obs :: "md5_ctx \<Rightarrow> quad \<times> u32 \<times> u32 \<times> byte list" where
  "md5_obs ctx = (md_abcd ctx, md_lo ctx, md_hi ctx, take (unat (md_lo ctx) mod 64) (md_buffer ctx))"

definition md5_inv :: "md5_ctx \<Rightarrow> bool" where
  "md5_inv ctx \<longleftrightarrow> (\<exists>m. represents m ctx)"

lemma represents_used: "represents m ctx \<Longrightarrow> unat (md_lo ctx) mod 64 = length m mod 64"
  by (simp add: represents_def mod_mod_cancel)

lemma represents_obs: "represents m s \<Longrightarrow> represents m t \<Longrightarrow> md5_obs s = md5_obs t"
  using represents_used [of m s] represents_used [of m t]
  by (auto simp: md5_obs_def represents_def word_unat_eq_iff)

lemma represents_cong: "represents m s \<Longrightarrow> md5_inv t \<Longrightarrow> md5_obs s = md5_obs t \<Longrightarrow> represents m t"
  using represents_used [of m s] by (auto simp: md5_obs_def md5_inv_def represents_def)

interpretation md5: incremental MD5_Update md5_obs md5_inv
proof unfold_locales
  fix s t xs ys
  show "md5_inv s \<Longrightarrow> md5_inv (MD5_Update s xs)"
    by (auto simp: md5_inv_def intro: MD5_Update_represents)
  show "md5_inv s \<Longrightarrow> md5_obs (MD5_Update (MD5_Update s xs) ys) = md5_obs (MD5_Update s (xs @ ys))"
    unfolding md5_inv_def by (metis MD5_Update_represents append_assoc represents_obs)
  show "md5_inv s \<Longrightarrow> md5_obs (MD5_Update s []) = md5_obs s"
    unfolding md5_inv_def by (metis MD5_Update_represents append_Nil2 represents_obs)
  show "md5_inv s \<Longrightarrow> md5_inv t \<Longrightarrow> md5_obs s = md5_obs t \<Longrightarrow>
      md5_obs (MD5_Update s xs) = md5_obs (MD5_Update t xs)"
    using represents_cong [of _ s t] MD5_Update_represents represents_obs unfolding md5_inv_def by metis
qed

lemma MD5_Init_represents: "length (md_buffer ctx) = 64 \<Longrightarrow> represents [] (MD5_Init ctx)"
  by (simp add: represents_def MD5_Init_def rfc_init_def blocks64_short rest_def)

text \<open>
  C8: The digest of a message fed to \<^verbatim>\<open>MD5_Update\<close> in any pieces is the RFC 1321 digest of
  the concatenation, for messages of any length (the length field counts modulo \<open>2^64\<close> bits) and
  whatever the context held before \<^verbatim>\<open>MD5_Init\<close>.
\<close>

theorem md5_chunks_rfc1321:
  assumes "length (md_buffer ctx) = 64"
  shows "fst (MD5_Final (foldl MD5_Update (MD5_Init ctx) chunks)) = rfc1321 (concat chunks)"
proof -
  have init: "represents [] (MD5_Init ctx)"
    using assms by (rule MD5_Init_represents)
  then have inv: "md5_inv (MD5_Init ctx)"
    by (auto simp: md5_inv_def)
  have "represents (concat chunks) (MD5_Update (MD5_Init ctx) (concat chunks))"
    using MD5_Update_represents [OF init] by simp
  then have "represents (concat chunks) (foldl MD5_Update (MD5_Init ctx) chunks)"
    using md5.inv_feeds [OF inv] md5.chunking [OF inv] by (metis represents_cong)
  then show ?thesis
    by (rule MD5_Final_represents)
qed

theorem md5_chunks_rfc1321_witness:
  "fst (MD5_Final (foldl MD5_Update (MD5_Init \<lparr>md_lo = 9, md_hi = 9, md_abcd = (1, 2, 3, 4),
      md_buffer = replicate 64 7, md_block = []\<rparr>) [[97, 98], [], replicate 100 99])) =
   rfc1321 ([97, 98] @ replicate 100 99)"
  by (subst md5_chunks_rfc1321) simp_all

end
