(* ===== verification/Frames.thy ===== *)
theory Frames
  imports Hi_Prelude
begin

text \<open>
  What the two frame parsers of the binary protocol (\<^verbatim>\<open>HttpApi/BinServer/Parser.cpp\<close> and
  \<^verbatim>\<open>HttpApi/BinClient/Parser.cpp\<close>) share: the constants, the size line, and the contract
  of a parser that is fed the bytes of a socket and hands out messages one at a time. The
  contract is the locale \<open>frame_source\<close>; inside it the stream of messages is shown not to
  depend on how the bytes were cut.
\<close>

section \<open>Constants and the size line\<close>

definition HIAPI_HANDSHAKE :: string where
  "HIAPI_HANDSHAKE = ''hiapi_connected''"

definition KEEPALIVE_MESSAGE :: string where
  "KEEPALIVE_MESSAGE = ''k''"

definition newline :: char where
  "newline = CHR 0x0A"

text \<open>
  \<^verbatim>\<open>string_to_uint64\<close>: the result variable is uninitialised, so a line that \<^verbatim>\<open>sscanf\<close>
  does not match yields whatever is on the stack at that call (\<open>junk\<close>). A parser is given
  one such value per call, as a function of the number of unmatched lines it has read so far.
\<close>

definition string_to_uint64 :: "u64 \<Rightarrow> string \<Rightarrow> u64" where
  "string_to_uint64 junk s = (case scan_ull s of Some v \<Rightarrow> v | None \<Rightarrow> junk)"

text \<open>The line before the first newline and what is behind it.\<close>

definition split_line :: "string \<Rightarrow> (string \<times> string) option" where
  "split_line s = (case str_find newline s of None \<Rightarrow> None
     | Some p \<Rightarrow> Some (take p s, drop (p + 1) s))"

text \<open>How a peer frames a message: its size in decimal, a newline, the message.\<close>

definition frame :: "string \<Rightarrow> string" where
  "frame d = dec_str (length d) @ newline # d"

lemma split_line_append:
  "split_line s = Some (l, r) \<Longrightarrow> split_line (s @ t) = Some (l, r @ t)"
  by (auto simp: split_line_def str_find_append split: option.splits dest: str_find_less)

lemma split_line_length: "split_line s = Some (l, r) \<Longrightarrow> length r < length s"
  by (auto simp: split_line_def split: option.splits dest: str_find_less)

text \<open>The number of unmatched lines after a line: a line that matches leaves it alone, and its
  value does not depend on \<open>junk\<close>.\<close>

definition uninit_after :: "string \<Rightarrow> nat \<Rightarrow> nat" where
  "uninit_after s n = (case scan_ull s of Some v \<Rightarrow> n | None \<Rightarrow> n + 1)"

lemma uninit_after_ge [simp]: "n \<le> uninit_after s n"
  by (simp add: uninit_after_def split: option.split)

lemma uninit_after_same:
  "uninit_after s n \<le> n \<Longrightarrow> string_to_uint64 j s = string_to_uint64 i s"
  by (simp add: uninit_after_def string_to_uint64_def split: option.splits)

lemma newline_not_in_dec_str: "newline \<notin> set (dec_str n)"
  using digit_not_special(4) [of newline] dec_str_digit [of newline n] by (auto simp: newline_def)

lemma split_line_dec_str [simp]: "split_line (dec_str n @ newline # r) = Some (dec_str n, r)"
proof -
  have "str_find newline (dec_str n) = None"
    by (simp add: str_find_None_iff newline_not_in_dec_str)
  then show ?thesis
    by (simp add: split_line_def str_find_append)
qed

lemma string_to_uint64_dec_str [simp]:
  "n < 2 ^ 64 \<Longrightarrow> string_to_uint64 junk (dec_str n) = word_of_nat n"
  by (simp add: string_to_uint64_def scan_ull_dec_str)

lemma uninit_after_dec_str [simp]: "n < 2 ^ 64 \<Longrightarrow> uninit_after (dec_str n) k = k"
  by (simp add: uninit_after_def scan_ull_dec_str)

section \<open>The contract of a frame parser\<close>

text \<open>
  \<open>parse\<close> works on the buffered bytes until it has a message (\<open>has\<close>, \<open>msg\<close>), needs
  more bytes, or raises. \<open>add\<close> appends bytes, \<open>clear\<close> takes the message away; \<open>pump\<close>
  is the client's loop: parse, and while there is a message, take it and parse again.
\<close>

locale frame_source =
  fixes parse :: "'s \<Rightarrow> 's \<times> 'e option"
    and has :: "'s \<Rightarrow> bool"
    and msg :: "'s \<Rightarrow> 'm"
    and clear :: "'s \<Rightarrow> 's"
    and add :: "'s \<Rightarrow> char list \<Rightarrow> 's"
    and pump :: "'s \<Rightarrow> 'm list \<times> 's \<times> 'e option"
    and msr :: "'s \<Rightarrow> nat"
  assumes parse_error: "parse s = (t, Some e) \<Longrightarrow> parse (add s y) = (add t y, Some e)"
    and parse_wait: "parse s = (t, None) \<Longrightarrow> \<not> has t \<Longrightarrow> parse (add s y) = parse (add t y)"
    and parse_message: "parse s = (t, None) \<Longrightarrow> \<not> has s \<Longrightarrow> has t \<Longrightarrow> parse (add s y) = (add t y, None)"
    and parse_msr: "parse s = (t, None) \<Longrightarrow> \<not> has s \<Longrightarrow> has t \<Longrightarrow> msr (clear t) < msr s"
    and has_add: "has (add s y) = has s"
    and msg_add: "msg (add s y) = msg s"
    and clear_add: "clear (add s y) = add (clear s) y"
    and not_has_clear: "\<not> has (clear s)"
    and add_nil: "add s [] = s"
    and add_add: "add (add s x) y = add s (x @ y)"
    and pump_eq: "\<not> has s \<Longrightarrow> pump s = (case parse s of (t, Some e) \<Rightarrow> ([], t, Some e)
      | (t, None) \<Rightarrow> if has t
          then (case parse (clear t) of (u, Some e) \<Rightarrow> ([], u, Some e)
                | (u, None) \<Rightarrow> (case pump (clear t) of (ms, v, e) \<Rightarrow> (msg t # ms, v, e)))
          else ([], t, None))"
begin

lemma pump_error:
  "\<not> has s \<Longrightarrow> pump s = (ms, t, Some e) \<Longrightarrow> \<exists>ms' t'. pump (add s y) = (ms', t', Some e)"
proof (induction "msr s" arbitrary: s ms t rule: less_induct)
  case less
  obtain u eu where p: "parse s = (u, eu)" by (cases "parse s")
  have na: "\<not> has (add s y)" using less.prems(1) by (simp add: has_add)
  show ?case
  proof (cases eu)
    case (Some e')
    then show ?thesis
      using less.prems p pump_eq [OF less.prems(1)] parse_error [of s u e' y]
      by (simp add: pump_eq [OF na])
  next
    case None
    show ?thesis
    proof (cases "has u")
      case False
      then show ?thesis
        using less.prems p None by (simp add: pump_eq)
    next
      case True
      have pa: "parse (add s y) = (add u y, None)"
        using parse_message p None True less.prems(1) by blast
      have "\<exists>ms' t'. pump (clear u) = (ms', t', Some e)"
        using less.prems p None True not_has_clear [of u] pump_eq [of "clear u"]
        by (auto simp: pump_eq [OF less.prems(1)] split: prod.splits option.splits)
      then obtain ms' t' where "pump (clear u) = (ms', t', Some e)" by blast
      moreover have "msr (clear u) < msr s"
        using parse_msr p None True less.prems(1) by blast
      ultimately obtain ms2 t2 where q: "pump (add (clear u) y) = (ms2, t2, Some e)"
        using less.hyps not_has_clear by blast
      have nc: "\<not> has (add (clear u) y)"
        by (simp add: has_add not_has_clear)
      show ?thesis
        using q True pa pump_eq [OF nc] by (auto simp: pump_eq [OF na] has_add clear_add split: prod.splits option.splits)
    qed
  qed
qed

lemma pump_rest:
  "\<not> has s \<Longrightarrow> pump s = (ms, t, None) \<Longrightarrow> parse t = (t, None) \<and> \<not> has t"
proof (induction "msr s" arbitrary: s ms rule: less_induct)
  case less
  obtain u eu where p: "parse s = (u, eu)" by (cases "parse s")
  show ?case
  proof (cases "eu = None \<and> has u")
    case False
    then have "t = u" "\<not> has u" "eu = None"
      using less.prems p by (auto simp: pump_eq split: option.splits)
    then show ?thesis
      using parse_wait [of s u "[]"] p by (simp add: add_nil)
  next
    case True
    then have "msr (clear u) < msr s"
      using parse_msr p less.prems(1) by blast
    moreover obtain ms' where "pump (clear u) = (ms', t, None)"
      using less.prems p True by (auto simp: pump_eq split: prod.splits option.splits)
    ultimately show ?thesis
      using less.hyps not_has_clear by blast
  qed
qed

lemma pump_append:
  "\<not> has s \<Longrightarrow> pump s = (ms, t, None) \<Longrightarrow> pump (add t y) = (ms', u, None) \<Longrightarrow>
     pump (add s y) = (ms @ ms', u, None)"
proof (induction "msr s" arbitrary: s ms rule: less_induct)
  case less
  obtain q eq where p: "parse s = (q, eq)" by (cases "parse s")
  have na: "\<not> has (add s y)" using less.prems(1) by (simp add: has_add)
  show ?case
  proof (cases "eq = None \<and> has q")
    case False
    then have t: "t = q" "ms = []" "\<not> has q" "eq = None"
      using less.prems p by (auto simp: pump_eq split: option.splits)
    have "parse (add s y) = parse (add q y)"
      using parse_wait p t by blast
    moreover have "\<not> has (add q y)"
      using t by (simp add: has_add)
    ultimately show ?thesis
      using less.prems(3) t by (simp add: pump_eq na)
  next
    case True
    have pa: "parse (add s y) = (add q y, None)"
      using parse_message p True less.prems(1) by blast
    obtain ms1 where c: "pump (clear q) = (ms1, t, None)" and ms: "ms = msg q # ms1"
      using less.prems p True by (auto simp: pump_eq split: prod.splits option.splits)
    have "msr (clear q) < msr s"
      using parse_msr p True less.prems(1) by blast
    then have d: "pump (add (clear q) y) = (ms1 @ ms', u, None)"
      using less.hyps [OF _ not_has_clear c less.prems(3)] by blast
    have nc: "\<not> has (add (clear q) y)"
      by (simp add: has_add not_has_clear)
    obtain v where "parse (add (clear q) y) = (v, None)"
      using d by (auto simp: pump_eq [OF nc] split: prod.splits option.splits)
    then show ?thesis
      using d pa True ms by (simp add: pump_eq [OF na] has_add clear_add msg_add)
  qed
qed

lemma pump_append_error:
  "\<not> has s \<Longrightarrow> pump s = (ms, t, None) \<Longrightarrow> pump (add t y) = (ms', u, Some e) \<Longrightarrow>
     \<exists>ms2 u2. pump (add s y) = (ms2, u2, Some e)"
proof (induction "msr s" arbitrary: s ms rule: less_induct)
  case less
  obtain q eq where p: "parse s = (q, eq)" by (cases "parse s")
  have na: "\<not> has (add s y)" using less.prems(1) by (simp add: has_add)
  show ?case
  proof (cases "eq = None \<and> has q")
    case False
    then have t: "t = q" "\<not> has q" "eq = None"
      using less.prems p by (auto simp: pump_eq split: option.splits)
    have "parse (add s y) = parse (add q y)"
      using parse_wait p t by blast
    moreover have "\<not> has (add q y)"
      using t by (simp add: has_add)
    ultimately show ?thesis
      using less.prems(3) t by (simp add: pump_eq na)
  next
    case True
    have pa: "parse (add s y) = (add q y, None)"
      using parse_message p True less.prems(1) by blast
    obtain ms1 where c: "pump (clear q) = (ms1, t, None)"
      using less.prems p True by (auto simp: pump_eq split: prod.splits option.splits)
    have "msr (clear q) < msr s"
      using parse_msr p True less.prems(1) by blast
    then obtain ms2 u2 where d: "pump (add (clear q) y) = (ms2, u2, Some e)"
      using less.hyps [OF _ not_has_clear c less.prems(3)] by blast
    have nc: "\<not> has (add (clear q) y)"
      by (simp add: has_add not_has_clear)
    show ?thesis
      using d pa True pump_eq [OF nc] by (auto simp: pump_eq [OF na] has_add clear_add split: prod.splits option.splits)
  qed
qed

text \<open>
  The messages of a stream whose parsing raises: \<open>raises s ms t e\<close> when the parser, its
  messages taken away one by one, gives \<open>ms\<close> and then raises \<open>e\<close> in state \<open>t\<close>.
\<close>

inductive raises :: "'s \<Rightarrow> 'm list \<Rightarrow> 's \<Rightarrow> 'e \<Rightarrow> bool" where
  at_once: "parse s = (t, Some e) \<Longrightarrow> raises s [] t e"
| behind: "parse s = (u, None) \<Longrightarrow> has u \<Longrightarrow> raises (clear u) ms t e \<Longrightarrow> raises s (msg u # ms) t e"

lemma raises_parse: "raises s ms t e \<Longrightarrow> parse s = parse s' \<Longrightarrow> raises s' ms t e"
  by (erule raises.cases) (auto intro: raises.intros)

lemma raises_unique:
  "raises s ms t e \<Longrightarrow> raises s ms' t' e' \<Longrightarrow> ms' = ms \<and> t' = t \<and> e' = e"
proof (induction arbitrary: ms' rule: raises.induct)
  case (at_once s t e)
  from at_once(2) show ?case
    by cases (simp_all add: at_once(1))
next
  case (behind s u ms t e)
  from behind(5) show ?case
  proof cases
    case at_once
    then show ?thesis using behind(1) by simp
  next
    case (behind u' ms2)
    then show ?thesis
      using \<open>parse s = (u, None)\<close> \<open>\<And>ms'. raises (clear u) ms' t' e' \<Longrightarrow> _ ms'\<close> by simp
  qed
qed

lemma raises_add: "raises s ms t e \<Longrightarrow> \<not> has s \<Longrightarrow> raises (add s y) ms (add t y) e"
proof (induction rule: raises.induct)
  case (at_once s t e)
  then show ?case
    by (intro raises.at_once) (rule parse_error)
next
  case (behind s u ms t e)
  have "raises (clear (add u y)) ms (add t y) e"
    using behind(4) not_has_clear by (simp add: clear_add)
  moreover have "parse (add s y) = (add u y, None)"
    using parse_message behind(1,2,5) by blast
  ultimately show ?case
    using raises.behind [of "add s y" "add u y" ms "add t y" e] behind(2) by (simp add: has_add msg_add)
qed

text \<open>The loop hands on every message in front of the exception, the last one possibly not: the
  loop parses on before it hands a message over.\<close>

lemma pump_raises:
  "\<not> has s \<Longrightarrow> pump s = (ms, t, Some e) \<Longrightarrow>
     \<exists>all. raises s all t e \<and> (ms = all \<or> all \<noteq> [] \<and> ms = butlast all)"
proof (induction "msr s" arbitrary: s ms rule: less_induct)
  case less
  obtain u eu where p: "parse s = (u, eu)" by (cases "parse s")
  show ?case
  proof (cases "eu = None \<and> has u")
    case False
    then have "eu = Some e" "t = u" "ms = []"
      using less.prems p by (auto simp: pump_eq split: option.splits)
    then show ?thesis
      using p by (auto intro: raises.at_once)
  next
    case True
    obtain v ev where q: "parse (clear u) = (v, ev)" by (cases "parse (clear u)")
    show ?thesis
    proof (cases ev)
      case (Some e')
      then have "t = v" "e' = e" "ms = []"
        using less.prems p q True by (auto simp: pump_eq)
      then have "raises s [msg u] t e"
        using p q True Some by (auto intro: raises.intros)
      then show ?thesis
        using \<open>ms = []\<close> by fastforce
    next
      case None
      then obtain ms' where c: "pump (clear u) = (ms', t, Some e)" "ms = msg u # ms'"
        using less.prems p q True by (auto simp: pump_eq [OF less.prems(1)] split: prod.splits)
      moreover have "msr (clear u) < msr s"
        using parse_msr p True less.prems(1) by blast
      ultimately obtain all where all: "raises (clear u) all t e" "ms' = all \<or> all \<noteq> [] \<and> ms' = butlast all"
        using less.hyps not_has_clear by blast
      then have "raises s (msg u # all) t e"
        using p True by (auto intro: raises.behind)
      then show ?thesis
        using all(2) c(2) by fastforce
    qed
  qed
qed

lemma raises_pump: "raises s all t e \<Longrightarrow> \<not> has s \<Longrightarrow> \<exists>ms. pump s = (ms, t, Some e)"
proof (induction rule: raises.induct)
  case (at_once s t e)
  then show ?case by (simp add: pump_eq)
next
  case (behind s u ms t e)
  then obtain ms' where c: "pump (clear u) = (ms', t, Some e)"
    using not_has_clear by blast
  show ?case
  proof (cases "parse (clear u)")
    case (Pair v ev)
    then show ?thesis
      using behind(1,2,5) c not_has_clear [of u]
      by (cases ev) (auto simp: pump_eq [of s] pump_eq [of "clear u"] split: prod.splits if_splits)
  qed
qed

lemma raises_append:
  "\<not> has s \<Longrightarrow> pump s = (ms, t, None) \<Longrightarrow> raises (add t y) all u e \<Longrightarrow> raises (add s y) (ms @ all) u e"
proof (induction "msr s" arbitrary: s ms rule: less_induct)
  case less
  obtain q eq where p: "parse s = (q, eq)" by (cases "parse s")
  show ?case
  proof (cases "eq = None \<and> has q")
    case False
    then have t: "t = q" "ms = []" "\<not> has q" "eq = None"
      using less.prems p by (auto simp: pump_eq split: option.splits)
    then have "parse (add t y) = parse (add s y)"
      using parse_wait [of s q y] p by simp
    then show ?thesis
      using raises_parse [OF less.prems(3)] t by simp
  next
    case True
    obtain ms1 where c: "pump (clear q) = (ms1, t, None)" and ms: "ms = msg q # ms1"
      using less.prems p True by (auto simp: pump_eq split: prod.splits option.splits)
    have "msr (clear q) < msr s"
      using parse_msr p True less.prems(1) by blast
    then have "raises (clear (add q y)) (ms1 @ all) u e"
      using less.hyps [OF _ not_has_clear c less.prems(3)] by (simp add: clear_add)
    moreover have "parse (add s y) = (add q y, None)"
      using parse_message p True less.prems(1) by blast
    ultimately show ?thesis
      using raises.behind [of "add s y" "add q y" "ms1 @ all" u e] True ms by (simp add: has_add msg_add)
  qed
qed

text \<open>
  A run over a stream of pieces: the messages handed on so far and the parser; \<open>Inl\<close> once the
  parser has raised, with what was handed on before (its user drops the connection).
\<close>

definition run :: "('s \<times> 'm list) + ('s \<times> 'm list) \<Rightarrow> char list \<Rightarrow> ('s \<times> 'm list) + ('s \<times> 'm list)" where
  "run r d = (case r of Inl x \<Rightarrow> Inl x | Inr (s, out) \<Rightarrow>
     (case pump (add s d) of (ms, t, None) \<Rightarrow> Inr (t, out @ ms) | (ms, t, Some _) \<Rightarrow> Inl (t, out @ ms)))"

definition going :: "('s \<times> 'm list) + ('s \<times> 'm list) \<Rightarrow> ('s \<times> 'm list) option" where
  "going r = (case r of Inl _ \<Rightarrow> None | Inr x \<Rightarrow> Some x)"

lemma run_Inl [simp]: "foldl run (Inl x) css = Inl x"
  by (induction css) (simp_all add: run_def)

lemma run_go: "pump (add s d) = (ms, t, None) \<Longrightarrow> run (Inr (s, out)) d = Inr (t, out @ ms)"
  and run_stop: "pump (add s d) = (ms, t, Some e) \<Longrightarrow> run (Inr (s, out)) d = Inl (t, out @ ms)"
  by (simp_all add: run_def)

text \<open>The run without what a raising run leaves behind.\<close>

definition feed :: "('s \<times> 'm list) option \<Rightarrow> char list \<Rightarrow> ('s \<times> 'm list) option" where
  "feed r d = (case r of None \<Rightarrow> None | Some (s, out) \<Rightarrow>
     (case pump (add s d) of (ms, t, None) \<Rightarrow> Some (t, out @ ms) | (_, _, Some _) \<Rightarrow> None))"

definition quiet :: "('s \<times> 'm list) option \<Rightarrow> bool" where
  "quiet r \<longleftrightarrow> (case r of None \<Rightarrow> True | Some (s, _) \<Rightarrow> parse s = (s, None) \<and> \<not> has s)"

lemma quiet_feed: "quiet r \<Longrightarrow> quiet (feed r d)"
  by (auto simp: quiet_def feed_def has_add split: option.splits prod.splits dest!: pump_rest [rotated])

lemma feed_append: "quiet r \<Longrightarrow> feed (feed r x) y = feed r (x @ y)"
proof (cases r)
  case None
  then show ?thesis by (simp add: feed_def)
next
  case (Some so)
  assume "quiet r"
  obtain s out where so: "so = (s, out)" by (cases so)
  have ns: "\<not> has (add s x)"
    using \<open>quiet r\<close> Some so by (simp add: quiet_def has_add)
  obtain ms t e where px: "pump (add s x) = (ms, t, e)" by (metis surj_pair)
  show ?thesis
  proof (cases e)
    case (Some e')
    then show ?thesis
      using pump_error [OF ns, of ms t e' y] px \<open>r = Some so\<close> so by (auto simp: feed_def add_add)
  next
    case None
    obtain ms' u e2 where py: "pump (add t y) = (ms', u, e2)" by (metis surj_pair)
    show ?thesis
    proof (cases e2)
      case None
      then show ?thesis
        using pump_append [OF ns, of ms t y ms' u] px py \<open>e = None\<close> \<open>r = Some so\<close> so
        by (simp add: feed_def add_add)
    next
      case (Some e')
      then show ?thesis
        using pump_append_error [OF ns, of ms t y ms' u e'] px py \<open>e = None\<close> \<open>r = Some so\<close> so
        by (auto simp: feed_def add_add)
    qed
  qed
qed

lemma feed_empty: "quiet r \<Longrightarrow> feed r [] = r"
  by (auto simp: quiet_def feed_def add_nil pump_eq split: option.splits)

end

sublocale frame_source \<subseteq> stream: incremental feed "\<lambda>r. r" quiet
  by unfold_locales (simp_all add: quiet_feed feed_append feed_empty)

text \<open>How the bytes were cut does not matter for a stream that does not raise; of one that raises,
  every cut hands on the same messages but possibly the last.\<close>

definition same_but_last :: "'m list \<Rightarrow> 'm list \<Rightarrow> bool" where
  "same_but_last xs ys \<longleftrightarrow> xs = ys \<or> (\<exists>z. xs = ys @ [z] \<or> ys = xs @ [z])"

definition reached :: "('s \<times> 'm list) + ('s \<times> 'm list) \<Rightarrow> 's" where
  "reached r = (case r of Inl x \<Rightarrow> fst x | Inr x \<Rightarrow> fst x)"

lemma same_but_last_common:
  assumes "xs = out @ all \<or> all \<noteq> [] \<and> xs = out @ butlast all"
    and "ys = out @ all \<or> all \<noteq> [] \<and> ys = out @ butlast all"
  shows "same_but_last xs ys"
  using assms append_butlast_last_id [of all] unfolding same_but_last_def by (metis append_assoc)

context frame_source begin

lemma going_run: "going (run r d) = feed (going r) d"
  by (auto simp: going_def run_def feed_def split: sum.split prod.split option.split)

lemma going_runs: "going (foldl run r css) = foldl feed (going r) css"
  by (induction css arbitrary: r) (simp_all add: going_run)

lemma going_Some: "going r = Some x \<longleftrightarrow> r = Inr x"
  by (simp add: going_def split: sum.split)

lemma run_one_piece:
  assumes "quiet (Some x)"
  shows "foldl run (Inr x) css = Inr y \<longleftrightarrow> run (Inr x) (concat css) = Inr y"
  using going_runs [of "Inr x" css] going_runs [of "Inr x" "[concat css]"] stream.chunking [OF assms, of css]
    going_Some [of "foldl run (Inr x) css" y] going_Some [of "run (Inr x) (concat css)" y]
  by (simp add: going_def)

lemma run_quiet:
  assumes "quiet (Some x)" "foldl run (Inr x) css = Inr y"
  shows "quiet (Some y)"
  using stream.inv_feeds [OF assms(1), of css] assms(2) going_runs [of "Inr x" css] by (simp add: going_def)

lemma run_raises:
  assumes "quiet (Some (s, out))" "foldl run (Inr (s, out)) css = Inl (t, ms)"
  shows "\<exists>all u e y. raises (add s (concat css)) all u e \<and> u = add t y \<and>
    (ms = out @ all \<or> all \<noteq> [] \<and> ms = out @ butlast all)"
  using assms
proof (induction css arbitrary: s out)
  case Nil
  then show ?case by simp
next
  case (Cons c css)
  have ns: "\<not> has (add s c)"
    using Cons.prems(1) by (simp add: quiet_def has_add)
  obtain ms1 u e where p: "pump (add s c) = (ms1, u, e)" by (metis surj_pair)
  show ?case
  proof (cases e)
    case None
    have "quiet (Some (u, out @ ms1))"
      using pump_rest [OF ns, of ms1 u] p None by (simp add: quiet_def)
    then obtain all v e' y where a: "raises (add u (concat css)) all v e'" "v = add t y"
        "ms = (out @ ms1) @ all \<or> all \<noteq> [] \<and> ms = (out @ ms1) @ butlast all"
      using Cons.IH [of u "out @ ms1"] Cons.prems(2) p None run_go [of s c ms1 u out] by auto
    have "raises (add s (concat (c # css))) (ms1 @ all) v e'"
      using raises_append [OF ns _ a(1), of ms1] p None by (simp add: add_add)
    then show ?thesis
      using a(2,3) by (intro exI [of _ "ms1 @ all"] exI [of _ v] exI [of _ e'] exI [of _ y])
        (auto simp: butlast_append)
  next
    case (Some e')
    then have t: "t = u" "ms = out @ ms1"
      using Cons.prems(2) p run_stop [of s c ms1 u e' out] by simp_all
    obtain all where all: "raises (add s c) all u e'" "ms1 = all \<or> all \<noteq> [] \<and> ms1 = butlast all"
      using pump_raises [OF ns, of ms1 u e'] p Some by blast
    have "raises (add s (concat (c # css))) all (add u (concat css)) e'"
      using raises_add [OF all(1) ns, of "concat css"] by (simp add: add_add)
    then show ?thesis
      using all(2) t by blast
  qed
qed

lemma run_raising:
  assumes "quiet (Some (s, out))" "raises (add s (concat css)) all u e"
  shows "\<exists>t ms. foldl run (Inr (s, out)) css = Inl (t, ms) \<and> (ms = out @ all \<or> all \<noteq> [] \<and> ms = out @ butlast all)"
proof (cases "foldl run (Inr (s, out)) css")
  case (Inr z)
  then have "run (Inr (s, out)) (concat css) = Inr z"
    using run_one_piece [OF assms(1), of css z] by simp
  moreover have "\<not> has (add s (concat css))"
    using assms(1) by (simp add: quiet_def has_add)
  ultimately show ?thesis
    using raises_pump [OF assms(2)] by (auto simp: run_def)
next
  case (Inl r)
  obtain t ms where r: "r = (t, ms)" by (cases r)
  then show ?thesis
    using run_raises [OF assms(1), of css t ms] raises_unique [OF assms(2)] Inl by blast
qed

lemma run_raised_in_turn:
  assumes "quiet (Some (s, []))" "run (Inr (s, [])) x = Inr (t, ms)" "parse (add t y) = (u, Some e)"
  shows "raises (add s (x @ y)) ms u e"
proof -
  have ns: "\<not> has (add s x)"
    using assms(1) by (simp add: quiet_def has_add)
  obtain ms' t' e' where p: "pump (add s x) = (ms', t', e')" by (metis surj_pair)
  then have "e' = None" "ms' = ms" "t' = t"
    using assms(2) by (auto simp: run_def split: option.splits)
  then show ?thesis
    using raises_append [OF ns, of ms t y "[]" u e] p at_once [OF assms(3)] by (simp add: add_add)
qed

lemma run_cuts:
  assumes "quiet (Some x)" "concat css = concat dss"
  shows "case foldl run (Inr x) css of Inr y \<Rightarrow> foldl run (Inr x) dss = Inr y
    | Inl (t, ms) \<Rightarrow> \<exists>t' ms' y y'. foldl run (Inr x) dss = Inl (t', ms') \<and> same_but_last ms ms' \<and> add t y = add t' y'"
proof (cases "foldl run (Inr x) css")
  case (Inr y)
  then show ?thesis
    using run_one_piece [OF assms(1), of css y] run_one_piece [OF assms(1), of dss y] assms(2) by simp
next
  case (Inl r)
  obtain s out t ms where x: "x = (s, out)" "r = (t, ms)" by (cases x, cases r)
  note q = assms(1) [unfolded x]
  obtain all u e y where a: "raises (add s (concat css)) all u e" "u = add t y"
      "ms = out @ all \<or> all \<noteq> [] \<and> ms = out @ butlast all"
    using run_raises [OF q, of css t ms] Inl x by auto
  have ns: "\<not> has (add s (concat css))"
    using q by (simp add: quiet_def has_add)
  show ?thesis
  proof (cases "foldl run (Inr x) dss")
    case (Inr z)
    then have "run (Inr x) (concat css) = Inr z"
      using run_one_piece [OF assms(1), of dss z] assms(2) by simp
    then show ?thesis
      using raises_pump [OF a(1) ns] by (auto simp: run_def x)
  next
    case (Inl r')
    obtain t' ms' where r': "r' = (t', ms')" by (cases r')
    obtain all' u' e' y' where b: "raises (add s (concat css)) all' u' e'" "u' = add t' y'"
        "ms' = out @ all' \<or> all' \<noteq> [] \<and> ms' = out @ butlast all'"
      using run_raises [OF q, of dss t' ms'] Inl x r' assms(2) by auto
    have "all' = all" "u' = u"
      using raises_unique [OF a(1) b(1)] by simp_all
    then show ?thesis
      using a(2,3) b(2,3) same_but_last_common [of ms out all ms'] \<open>foldl run (Inr x) css = Inl r\<close> x r' Inl
      by (simp, metis)
  qed
qed

end

section \<open>Uninitialised reads\<close>

text \<open>
  A parser that may read an uninitialised variable: \<open>parse junk\<close> for every value such a read can
  give, with the count of those reads in the state. A run whose count stays at zero is the
  same whatever the values are.
\<close>

locale uninit_source =
  fixes parse :: "'o \<Rightarrow> 's \<Rightarrow> 's \<times> 'e option"
    and has :: "'s \<Rightarrow> bool"
    and msg :: "'s \<Rightarrow> 'm"
    and clear :: "'s \<Rightarrow> 's"
    and add :: "'s \<Rightarrow> char list \<Rightarrow> 's"
    and pump :: "'o \<Rightarrow> 's \<Rightarrow> 'm list \<times> 's \<times> 'e option"
    and msr :: "'s \<Rightarrow> nat"
    and uninit :: "'s \<Rightarrow> nat"
  assumes source: "frame_source (parse junk) has msg clear add (pump junk) msr"
    and parse_uninit: "uninit s \<le> uninit (fst (parse junk s))"
    and parse_other: "uninit (fst (parse junk s)) \<le> uninit s \<Longrightarrow> parse junk' s = parse junk s"
    and uninit_clear: "uninit (clear s) = uninit s"
    and uninit_add: "uninit (add s d) = uninit s"

sublocale uninit_source \<subseteq> at: frame_source "parse junk" has msg clear add "pump junk" msr for junk
  by (rule source)

context uninit_source begin

lemma pump_parse_uninit:
  "\<not> has s \<Longrightarrow> pump junk s = (ms, t, e) \<Longrightarrow> uninit (fst (parse junk s)) \<le> uninit t"
proof (induction "msr s" arbitrary: s ms t e rule: less_induct)
  case less
  obtain u eu where p: "parse junk s = (u, eu)" by (cases "parse junk s")
  show ?case
  proof (cases "eu = None \<and> has u")
    case False
    then show ?thesis
      using less.prems p by (auto simp: at.pump_eq split: option.splits)
  next
    case True
    obtain v ev where q: "parse junk (clear u) = (v, ev)" by (cases "parse junk (clear u)")
    have uv: "uninit u \<le> uninit v"
      using parse_uninit [of "clear u" junk] q by (simp add: uninit_clear)
    show ?thesis
    proof (cases ev)
      case (Some e')
      then show ?thesis
        using less.prems p q True uv by (simp add: at.pump_eq)
    next
      case None
      then obtain ms' where c: "pump junk (clear u) = (ms', t, e)"
        using less.prems p q True by (auto simp: at.pump_eq [OF less.prems(1)] split: prod.splits)
      have "msr (clear u) < msr s"
        using at.parse_msr p True less.prems(1) by blast
      then have "uninit v \<le> uninit t"
        using less.hyps [OF _ at.not_has_clear c] q by simp
      then show ?thesis
        using uv p by simp
    qed
  qed
qed

lemma pump_uninit: "\<not> has s \<Longrightarrow> pump junk s = (ms, t, e) \<Longrightarrow> uninit s \<le> uninit t"
  using pump_parse_uninit [of s junk ms t e] parse_uninit [of s junk] by linarith

lemma pump_other:
  "\<not> has s \<Longrightarrow> pump junk s = (ms, t, e) \<Longrightarrow> uninit t \<le> uninit s \<Longrightarrow> pump junk' s = (ms, t, e)"
proof (induction "msr s" arbitrary: s ms t e rule: less_induct)
  case less
  obtain u eu where p: "parse junk s = (u, eu)" by (cases "parse junk s")
  have su: "uninit s \<le> uninit u" "uninit u \<le> uninit t"
    using parse_uninit [of s junk] pump_parse_uninit [OF less.prems(1,2)] p by simp_all
  then have p': "parse junk' s = (u, eu)"
    using parse_other [of junk s junk'] less.prems(3) p by simp
  show ?case
  proof (cases "eu = None \<and> has u")
    case False
    then show ?thesis
      using less.prems p p' by (auto simp: at.pump_eq split: option.splits)
  next
    case True
    obtain v ev where q: "parse junk (clear u) = (v, ev)" by (cases "parse junk (clear u)")
    show ?thesis
    proof (cases ev)
      case (Some e')
      then have t: "t = v" "ms = []" "e = Some e'"
        using less.prems p q True by (simp_all add: at.pump_eq)
      then have "parse junk' (clear u) = (v, ev)"
        using parse_other [of junk "clear u" junk'] q su less.prems(3) by (simp add: uninit_clear)
      then show ?thesis
        using less.prems(1) p' True Some t by (simp add: at.pump_eq)
    next
      case None
      then obtain ms' where c: "pump junk (clear u) = (ms', t, e)" "ms = msg u # ms'"
        using less.prems p q True by (auto simp: at.pump_eq [OF less.prems(1)] split: prod.splits)
      have "uninit v \<le> uninit t"
        using pump_parse_uninit [OF at.not_has_clear c(1)] q by simp
      then have q': "parse junk' (clear u) = (v, ev)"
        using parse_other [of junk "clear u" junk'] q su less.prems(3) by (simp add: uninit_clear)
      have "msr (clear u) < msr s"
        using at.parse_msr p True less.prems(1) by blast
      then have "pump junk' (clear u) = (ms', t, e)"
        using less.hyps [OF _ at.not_has_clear c(1)] su less.prems(3) by (simp add: uninit_clear)
      then show ?thesis
        using p' q' True None c(2) by (simp add: at.pump_eq [OF less.prems(1)])
    qed
  qed
qed

lemma run_uninit: "at.quiet junk (Some x) \<Longrightarrow> uninit (fst x) \<le> uninit (reached (foldl (at.run junk) (Inr x) css))"
proof (induction css arbitrary: x)
  case Nil
  then show ?case by (simp add: reached_def)
next
  case (Cons c css)
  obtain s out where x: "x = (s, out)" by (cases x)
  have ns: "\<not> has (add s c)"
    using Cons.prems x by (simp add: at.quiet_def at.has_add)
  obtain ms u e where p: "pump junk (add s c) = (ms, u, e)" by (metis surj_pair)
  have su: "uninit s \<le> uninit u"
    using pump_uninit [OF ns p] by (simp add: uninit_add)
  show ?case
  proof (cases e)
    case None
    have "at.quiet junk (Some (u, out @ ms))"
      using at.pump_rest [OF ns, of junk ms u] p None by (simp add: at.quiet_def)
    then show ?thesis
      using Cons.IH [of "(u, out @ ms)"] su p None x at.run_go [of junk s c ms u out] by simp
  next
    case (Some e')
    then show ?thesis
      using su p x Some at.run_stop [of junk s c ms u e' out] by (simp add: reached_def)
  qed
qed

lemma run_other:
  "at.quiet junk (Some x) \<Longrightarrow> uninit (reached (foldl (at.run junk) (Inr x) css)) \<le> uninit (fst x) \<Longrightarrow>
     foldl (at.run junk') (Inr x) css = foldl (at.run junk) (Inr x) css"
proof (induction css arbitrary: x)
  case Nil
  then show ?case by simp
next
  case (Cons c css)
  obtain s out where x: "x = (s, out)" by (cases x)
  have ns: "\<not> has (add s c)"
    using Cons.prems(1) x by (simp add: at.quiet_def at.has_add)
  obtain ms u e where p: "pump junk (add s c) = (ms, u, e)" by (metis surj_pair)
  show ?case
  proof (cases e)
    case None
    have q: "at.quiet junk (Some (u, out @ ms))"
      using at.pump_rest [OF ns, of junk ms u] p None by (simp add: at.quiet_def)
    have us: "uninit u \<le> uninit s"
      using run_uninit [OF q, of css] Cons.prems(2) p None x at.run_go [of junk s c ms u out] by simp
    then have "pump junk' (add s c) = (ms, u, e)"
      using pump_other [OF ns p, of junk'] by (simp add: uninit_add)
    moreover have "uninit s \<le> uninit u"
      using pump_uninit [OF ns p] by (simp add: uninit_add)
    ultimately show ?thesis
      using Cons.IH [OF q] Cons.prems(2) p None x at.run_go [of _ s c ms u out] by simp
  next
    case (Some e')
    then have "pump junk' (add s c) = (ms, u, e)"
      using pump_other [OF ns p, of junk'] Cons.prems(2) p x Some at.run_stop [of junk s c ms u e' out]
      by (simp add: uninit_add reached_def)
    then show ?thesis
      using p x Some at.run_stop [of _ s c ms u e' out] by simp
  qed
qed

lemma run_cuts_other:
  assumes "at.quiet junk (Some x)" "concat css = concat dss"
    and "uninit (reached (foldl (at.run junk) (Inr x) css)) \<le> uninit (fst x)"
  shows "case foldl (at.run junk) (Inr x) css of Inr y \<Rightarrow> foldl (at.run junk') (Inr x) dss = Inr y
    | Inl (t, ms) \<Rightarrow> \<exists>t' ms'. foldl (at.run junk') (Inr x) dss = Inl (t', ms') \<and> same_but_last ms ms'"
proof -
  note cut = at.run_cuts [OF assms(1,2)]
  have "uninit (reached (foldl (at.run junk) (Inr x) dss)) = uninit (reached (foldl (at.run junk) (Inr x) css))"
  proof (cases "foldl (at.run junk) (Inr x) css")
    case (Inr y)
    then show ?thesis using cut by simp
  next
    case (Inl r)
    obtain t ms where r: "r = (t, ms)" by (cases r)
    obtain t' ms' y y' where d: "foldl (at.run junk) (Inr x) dss = Inl (t', ms')" "add t y = add t' y'"
      using cut Inl r by auto
    then have "uninit t = uninit t'"
      using uninit_add [of t y] uninit_add [of t' y'] by simp
    then show ?thesis
      using Inl r d(1) by (simp add: reached_def)
  qed
  then have "foldl (at.run junk') (Inr x) dss = foldl (at.run junk) (Inr x) dss"
    using run_other [OF assms(1), of dss junk'] assms(3) by simp
  then show ?thesis
    using cut by (auto split: sum.splits)
qed

end

end
