(* ===== verification/BinServerParser.thy ===== *)
theory BinServerParser
  imports Frames "HOL-Library.Char_ord" "HOL-Library.List_Lexorder"
begin

text \<open>
  \<^verbatim>\<open>HttpApi/BinServer/Parser.cpp\<close> and \<^verbatim>\<open>Request.cpp\<close>: the parser of the stream a
  binary client sends, and the loop of \<^verbatim>\<open>HttpConnection::performRecv\<close> that empties it.
  \<^verbatim>\<open>RequestPb::ParseFromString\<close> is the parameter \<open>pb\<close> (the method and the key/value
  pairs of a dump); \<open>junk\<close> gives the uninitialised results of \<^verbatim>\<open>string_to_uint64\<close>, one for
  each size line that does not start with a number. The parser is an instance of \<open>frame_source\<close>
  and of \<open>uninit_source\<close>.
\<close>

section \<open>The code\<close>

record bin_request =
  rq_method :: string
  rq_params :: "(string, string) omap"
  rq_dump :: string

definition mk_request :: "(string \<Rightarrow> string \<times> (string \<times> string) list) \<Rightarrow> string \<Rightarrow> bin_request" where
  "mk_request pb dump =
     (let (method, ps) = pb dump
      in \<lparr>rq_method = method, rq_params = fold (\<lambda>(k, v) m. om_put k v m) ps [], rq_dump = dump\<rparr>)"

datatype server_state = S_READING_SIZE | S_READING_MESSAGE

datatype request_error = RequestParsingEx

record server_parser =
  sp_state :: server_state
  sp_cur_token :: string
  sp_size :: u64
  sp_cur_request :: "bin_request option"
  sp_got_request :: bool
  sp_uninit :: nat

definition HIAPI_BINREQUEST_MAX_SIZE :: u64 where
  "HIAPI_BINREQUEST_MAX_SIZE = 1024 * 1024 * 3"

text \<open>
  A new parser; \<open>m_size\<close> is uninitialised. \<open>sp_uninit\<close> is not in the code: it counts the size
  lines that gave an uninitialised value, and so picks the next one from \<open>junk\<close>.
\<close>

definition server_parser_init :: "u64 \<Rightarrow> server_parser" where
  "server_parser_init junk = \<lparr>sp_state = S_READING_SIZE, sp_cur_token = '''', sp_size = junk,
     sp_cur_request = None, sp_got_request = False, sp_uninit = 0\<rparr>"

text \<open>The two parts of the loop body: \<open>Inl\<close> leaves \<^verbatim>\<open>parse\<close>, \<open>Inr\<close> falls through.\<close>

definition server_read_size ::
  "(nat \<Rightarrow> u64) \<Rightarrow> server_parser \<Rightarrow> (server_parser \<times> request_error option) + server_parser" where
  "server_read_size junk p =
     (if sp_state p = S_READING_SIZE
      then (case split_line (sp_cur_token p) of
              None \<Rightarrow> Inl (p, None)
            | Some (size_str, rest) \<Rightarrow>
                let p = p\<lparr>sp_cur_token := rest, sp_size := string_to_uint64 (junk (sp_uninit p)) size_str,
                           sp_uninit := uninit_after size_str (sp_uninit p)\<rparr>
                in if sp_size p > HIAPI_BINREQUEST_MAX_SIZE then Inl (p, Some RequestParsingEx)
                   else Inr (p\<lparr>sp_state := S_READING_MESSAGE\<rparr>))
      else Inr p)"

definition server_read_message ::
  "(string \<Rightarrow> string \<times> (string \<times> string) list) \<Rightarrow> server_parser \<Rightarrow> server_parser" where
  "server_read_message pb p =
     (if unat (sp_size p) \<le> length (sp_cur_token p)
      then let cur_req_str = take (unat (sp_size p)) (sp_cur_token p)
           in p\<lparr>sp_cur_request := Some (mk_request pb cur_req_str), sp_got_request := True,
                sp_cur_token := drop (length cur_req_str) (sp_cur_token p), sp_state := S_READING_SIZE\<rparr>
      else p)"

function server_parse ::
  "(nat \<Rightarrow> u64) \<Rightarrow> (string \<Rightarrow> string \<times> (string \<times> string) list) \<Rightarrow> server_parser
    \<Rightarrow> server_parser \<times> request_error option" where
  "server_parse junk pb p =
     (if sp_cur_token p = '''' then (p, None)
      else if sp_state p = S_READING_SIZE \<and> hd (sp_cur_token p) = CHR ''k''
      then if length (sp_cur_token p) = 1 then (p\<lparr>sp_cur_token := ''''\<rparr>, None)
           else server_parse junk pb (p\<lparr>sp_cur_token := drop 1 (sp_cur_token p)\<rparr>)
      else (case server_read_size junk p of
              Inl r \<Rightarrow> r
            | Inr p \<Rightarrow> (server_read_message pb p, None)))"
  by pat_completeness auto
termination by (relation "measure (\<lambda>(_, _, p). length (sp_cur_token p))") auto

declare server_parse.simps [simp del]

definition server_append :: "server_parser \<Rightarrow> string \<Rightarrow> server_parser" where
  "server_append p d = p\<lparr>sp_cur_token := sp_cur_token p @ d\<rparr>"

definition server_execute ::
  "(nat \<Rightarrow> u64) \<Rightarrow> (string \<Rightarrow> string \<times> (string \<times> string) list) \<Rightarrow> server_parser \<Rightarrow> string
    \<Rightarrow> server_parser \<times> request_error option" where
  "server_execute junk pb p d = server_parse junk pb (server_append p d)"

definition server_hasRequest :: "server_parser \<Rightarrow> bool" where
  "server_hasRequest p = sp_got_request p"

definition server_getRequest ::
  "(nat \<Rightarrow> u64) \<Rightarrow> (string \<Rightarrow> string \<times> (string \<times> string) list) \<Rightarrow> server_parser
    \<Rightarrow> bin_request option \<times> server_parser \<times> request_error option" where
  "server_getRequest junk pb p =
     (let p = p\<lparr>sp_got_request := False\<rparr>; req = sp_cur_request p
      in (req, server_parse junk pb p))"

text \<open>Bytes left to read, with one for a size line already read: what each message consumes.\<close>

definition server_msr :: "server_parser \<Rightarrow> nat" where
  "server_msr p = 2 * length (sp_cur_token p) + (if sp_state p = S_READING_MESSAGE then 1 else 0)"

lemma server_read_size_msr:
  "server_read_size junk p = Inl (q, e) \<Longrightarrow> server_msr q \<le> server_msr p \<and> sp_got_request q = sp_got_request p"
  "server_read_size junk p = Inr q \<Longrightarrow> server_msr q \<le> server_msr p \<and> sp_got_request q = sp_got_request p
     \<and> sp_state q = S_READING_MESSAGE"
  by (cases "sp_state p"; force simp: server_read_size_def server_msr_def Let_def
      split: option.splits if_splits dest: split_line_length)+

lemma server_read_message_msr:
  "sp_state p = S_READING_MESSAGE \<Longrightarrow> server_msr (server_read_message pb p) \<le> server_msr p \<and>
     (sp_got_request (server_read_message pb p) \<and> \<not> sp_got_request p \<longrightarrow>
        server_msr (server_read_message pb p) < server_msr p)"
  by (auto simp: server_read_message_def server_msr_def Let_def)

lemma server_parse_msr:
  "server_msr (fst (server_parse junk pb p)) \<le> server_msr p \<and>
   (sp_got_request (fst (server_parse junk pb p)) \<and> \<not> sp_got_request p \<longrightarrow>
      server_msr (fst (server_parse junk pb p)) < server_msr p)"
proof (induction junk pb p rule: server_parse.induct)
  case (1 junk pb p)
  let ?k = "sp_state p = S_READING_SIZE \<and> hd (sp_cur_token p) = CHR ''k''"
  let ?p = "p\<lparr>sp_cur_token := drop 1 (sp_cur_token p)\<rparr>"
  consider "sp_cur_token p = []" | "sp_cur_token p \<noteq> []" "?k" "length (sp_cur_token p) = 1"
    | "sp_cur_token p \<noteq> []" "?k" "length (sp_cur_token p) \<noteq> 1" | "sp_cur_token p \<noteq> []" "\<not> ?k"
    by blast
  then show ?case
  proof cases
    case 3
    have "server_msr ?p < server_msr p"
      using 3(1) by (cases "sp_cur_token p") (auto simp: server_msr_def)
    moreover have "server_parse junk pb p = server_parse junk pb ?p"
      using 3 by (subst server_parse.simps) simp
    ultimately show ?thesis
      using 1 3 by fastforce
  next
    case 4
    then show ?thesis
      by (subst (1 2 3) server_parse.simps)
        (fastforce split: sum.splits dest: server_read_size_msr server_read_message_msr [of _ pb])
  qed (simp_all add: server_parse.simps server_msr_def)
qed

definition drain_msr :: "server_parser \<Rightarrow> nat" where
  "drain_msr p = 2 * server_msr p + (if sp_got_request p then 1 else 0)"

lemma server_getRequest_msr:
  "server_getRequest junk pb p = (req, q, None) \<Longrightarrow> sp_got_request p \<Longrightarrow> drain_msr q < drain_msr p"
  using server_parse_msr [of junk pb "p\<lparr>sp_got_request := False\<rparr>"]
  by (auto simp: server_getRequest_def drain_msr_def server_msr_def Let_def)

function server_drain ::
  "(nat \<Rightarrow> u64) \<Rightarrow> (string \<Rightarrow> string \<times> (string \<times> string) list) \<Rightarrow> server_parser
    \<Rightarrow> bin_request option list \<times> server_parser \<times> request_error option" where
  "server_drain junk pb p =
     (if server_hasRequest p
      then (case server_getRequest junk pb p of
              (req, p, Some e) \<Rightarrow> ([], p, Some e)
            | (req, p, None) \<Rightarrow> (case server_drain junk pb p of (reqs, p, e) \<Rightarrow> (req # reqs, p, e)))
      else ([], p, None))"
  by pat_completeness auto
termination
  by (relation "measure (\<lambda>(_, _, p). drain_msr p)")
    (auto simp: server_hasRequest_def dest: server_getRequest_msr [OF sym])

declare server_drain.simps [simp del]

text \<open>The custom-protocol part of \<^verbatim>\<open>HttpConnection::performRecv\<close>.\<close>

definition server_pump ::
  "(nat \<Rightarrow> u64) \<Rightarrow> (string \<Rightarrow> string \<times> (string \<times> string) list) \<Rightarrow> server_parser
    \<Rightarrow> bin_request option list \<times> server_parser \<times> request_error option" where
  "server_pump junk pb p =
     (case server_parse junk pb p of
        (p, Some e) \<Rightarrow> ([], p, Some e)
      | (p, None) \<Rightarrow> server_drain junk pb p)"

section \<open>The parser is a frame source\<close>

lemma server_append_simps [simp]:
  "sp_cur_token (server_append p d) = sp_cur_token p @ d"
  "sp_state (server_append p d) = sp_state p" "sp_size (server_append p d) = sp_size p"
  "sp_cur_request (server_append p d) = sp_cur_request p"
  "sp_got_request (server_append p d) = sp_got_request p"
  "sp_uninit (server_append p d) = sp_uninit p"
  "server_append (p\<lparr>sp_got_request := g\<rparr>) d = (server_append p d)\<lparr>sp_got_request := g\<rparr>"
  by (simp_all add: server_append_def)

lemma server_read_size_append:
  "server_read_size junk p = Inl (q, Some e) \<Longrightarrow>
     server_read_size junk (server_append p y) = Inl (server_append q y, Some e)"
  "server_read_size junk p = Inl (q, None) \<Longrightarrow> q = p"
  "server_read_size junk p = Inr q \<Longrightarrow> server_read_size junk (server_append p y) = Inr (server_append q y)"
  by (auto simp: server_read_size_def server_append_def Let_def split_line_append split: option.splits if_splits)

lemma server_read_message_append:
  "sp_got_request (server_read_message pb p) \<Longrightarrow> \<not> sp_got_request p \<Longrightarrow>
     server_read_message pb (server_append p y) = server_append (server_read_message pb p) y"
  "\<not> sp_got_request (server_read_message pb p) \<Longrightarrow> server_read_message pb p = p"
  by (auto simp: server_read_message_def server_append_def Let_def split: if_splits)

lemma server_parse_keepalive:
  "sp_state p = S_READING_SIZE \<Longrightarrow> sp_cur_token p = CHR ''k'' # r \<Longrightarrow>
     server_parse junk pb p = server_parse junk pb (p\<lparr>sp_cur_token := r\<rparr>)"
  by (subst server_parse.simps) (simp add: server_parse.simps [of junk pb "p\<lparr>sp_cur_token := []\<rparr>"])

definition at_keepalive :: "server_parser \<Rightarrow> bool" where
  "at_keepalive p \<longleftrightarrow> sp_state p = S_READING_SIZE \<and> hd (sp_cur_token p) = CHR ''k''"

lemma server_parse_frame:
  "sp_cur_token p \<noteq> [] \<Longrightarrow> \<not> at_keepalive p \<Longrightarrow>
     server_parse junk pb p = (case server_read_size junk p of Inl r \<Rightarrow> r
       | Inr p \<Rightarrow> (server_read_message pb p, None))"
  unfolding at_keepalive_def by (subst server_parse.simps) auto

lemma server_parse_cases [case_names empty keepalive frame]:
  assumes "sp_cur_token p = [] \<Longrightarrow> P"
    and "\<And>r. sp_state p = S_READING_SIZE \<Longrightarrow> sp_cur_token p = CHR ''k'' # r \<Longrightarrow> P"
    and "sp_cur_token p \<noteq> [] \<Longrightarrow> \<not> at_keepalive p \<Longrightarrow> P"
  shows P
  using assms by (cases "sp_cur_token p") (auto simp: at_keepalive_def)

lemma server_parse_waiting:
  assumes "sp_state q = S_READING_MESSAGE" "server_read_message pb q = q"
  shows "server_parse junk pb (server_append q y) = (server_read_message pb (server_append q y), None)"
proof (cases "sp_cur_token (server_append q y) = []")
  case True
  then have "server_append q y = q"
    by (simp add: server_append_def)
  then show ?thesis
    using True assms(2) by (simp add: server_parse.simps [of junk pb q])
next
  case False
  moreover have "\<not> at_keepalive (server_append q y)"
    using assms(1) by (simp add: at_keepalive_def)
  ultimately show ?thesis
    using assms(1) by (simp add: server_parse_frame server_read_size_def)
qed

lemma server_parse_append:
  "(snd (server_parse junk pb p) \<noteq> None \<longrightarrow> server_parse junk pb (server_append p y) =
      (server_append (fst (server_parse junk pb p)) y, snd (server_parse junk pb p))) \<and>
   (snd (server_parse junk pb p) = None \<longrightarrow> \<not> sp_got_request (fst (server_parse junk pb p)) \<longrightarrow>
      server_parse junk pb (server_append p y) = server_parse junk pb (server_append (fst (server_parse junk pb p)) y)) \<and>
   (snd (server_parse junk pb p) = None \<longrightarrow> \<not> sp_got_request p \<longrightarrow> sp_got_request (fst (server_parse junk pb p)) \<longrightarrow>
      server_parse junk pb (server_append p y) = (server_append (fst (server_parse junk pb p)) y, None))"
proof (induction "length (sp_cur_token p)" arbitrary: p rule: less_induct)
  case less
  show ?case
  proof (cases p rule: server_parse_cases)
    case empty
    then show ?thesis
      by (simp add: server_parse.simps [of junk pb p])
  next
    case (keepalive r)
    let ?q = "p\<lparr>sp_cur_token := r\<rparr>"
    have "server_parse junk pb (server_append p y) = server_parse junk pb ((server_append p y)\<lparr>sp_cur_token := r @ y\<rparr>)"
      by (rule server_parse_keepalive) (simp_all add: keepalive)
    also have "(server_append p y)\<lparr>sp_cur_token := r @ y\<rparr> = server_append ?q y"
      by (simp add: server_append_def)
    finally show ?thesis
      using less [of ?q] keepalive server_parse_keepalive [OF keepalive] by simp
  next
    case frame
    then have "sp_cur_token (server_append p y) \<noteq> []" "\<not> at_keepalive (server_append p y)"
      by (auto simp: at_keepalive_def)
    note pa = server_parse_frame [OF this, of junk pb] and p = server_parse_frame [OF frame, of junk pb]
    show ?thesis
    proof (cases "server_read_size junk p")
      case (Inl r)
      obtain q e where r: "r = (q, e)" by (cases r)
      then show ?thesis
        using Inl p pa server_read_size_append(1) [of junk p q] server_read_size_append(2) [of junk p q]
        by (cases e) auto
    next
      case (Inr q)
      then have pq: "server_parse junk pb p = (server_read_message pb q, None)"
          "server_parse junk pb (server_append p y) = (server_read_message pb (server_append q y), None)"
        using p pa server_read_size_append(3) [OF Inr, of y] by simp_all
      have q: "sp_state q = S_READING_MESSAGE" "sp_got_request q = sp_got_request p"
        using server_read_size_msr(2) [OF Inr] by simp_all
      show ?thesis
      proof (cases "sp_got_request (server_read_message pb q)")
        case True
        then show ?thesis
          using pq q server_read_message_append(1) [of pb q y] by simp
      next
        case False
        then have "server_read_message pb q = q"
          by (rule server_read_message_append(2))
        then show ?thesis
          using pq False server_parse_waiting [OF q(1), of pb junk y] by simp
      qed
    qed
  qed
qed
lemma server_drain_not: "\<not> sp_got_request p \<Longrightarrow> server_drain junk pb p = ([], p, None)"
  by (simp add: server_drain.simps server_hasRequest_def)

lemma server_drain_has:
  "sp_got_request p \<Longrightarrow> server_drain junk pb p =
    (case server_parse junk pb (p\<lparr>sp_got_request := False\<rparr>) of
       (u, Some e) \<Rightarrow> ([], u, Some e)
     | (u, None) \<Rightarrow> (case server_drain junk pb u of (ms, v, e) \<Rightarrow> (sp_cur_request p # ms, v, e)))"
  by (subst server_drain.simps) (simp add: server_hasRequest_def server_getRequest_def Let_def split: prod.split option.split)

interpretation server: frame_source
  "server_parse junk pb" sp_got_request sp_cur_request "\<lambda>p. p\<lparr>sp_got_request := False\<rparr>"
  server_append "server_pump junk pb" server_msr
  for junk pb
proof unfold_locales
  fix s t e y
  show "server_parse junk pb s = (t, Some e) \<Longrightarrow> server_parse junk pb (server_append s y) = (server_append t y, Some e)"
    "server_parse junk pb s = (t, None) \<Longrightarrow> \<not> sp_got_request t \<Longrightarrow>
       server_parse junk pb (server_append s y) = server_parse junk pb (server_append t y)"
    "server_parse junk pb s = (t, None) \<Longrightarrow> \<not> sp_got_request s \<Longrightarrow> sp_got_request t \<Longrightarrow>
       server_parse junk pb (server_append s y) = (server_append t y, None)"
    using server_parse_append [of junk pb s y] by simp_all
  show "server_parse junk pb s = (t, None) \<Longrightarrow> \<not> sp_got_request s \<Longrightarrow> sp_got_request t \<Longrightarrow>
       server_msr (t\<lparr>sp_got_request := False\<rparr>) < server_msr s"
    using server_parse_msr [of junk pb s] by (simp add: server_msr_def)
  show "\<not> sp_got_request s \<Longrightarrow> server_pump junk pb s = (case server_parse junk pb s of
      (t, Some e) \<Rightarrow> ([], t, Some e)
    | (t, None) \<Rightarrow> if sp_got_request t
        then (case server_parse junk pb (t\<lparr>sp_got_request := False\<rparr>) of
                (u, Some e) \<Rightarrow> ([], u, Some e)
              | (u, None) \<Rightarrow> (case server_pump junk pb (t\<lparr>sp_got_request := False\<rparr>) of
                  (ms, v, e) \<Rightarrow> (sp_cur_request t # ms, v, e)))
        else ([], t, None))"
    by (simp add: server_pump_def server_drain_has server_drain_not split: prod.split option.split)
qed (simp_all add: server_append_def)

lemma server_read_size_uninit:
  "server_read_size junk p = Inl (q, e) \<Longrightarrow> sp_uninit p \<le> sp_uninit q"
  "server_read_size junk p = Inr q \<Longrightarrow> sp_uninit p \<le> sp_uninit q"
  by (auto simp: server_read_size_def Let_def split: option.splits if_splits)

lemma server_read_size_other:
  "(case server_read_size junk p of Inl (q, e) \<Rightarrow> sp_uninit q | Inr q \<Rightarrow> sp_uninit q) \<le> sp_uninit p \<Longrightarrow>
     server_read_size junk' p = server_read_size junk p"
  by (auto simp: server_read_size_def Let_def uninit_after_same [of _ "sp_uninit p" "junk' (sp_uninit p)" "junk (sp_uninit p)"]
      split: option.splits if_splits)

lemma sp_uninit_read_message [simp]: "sp_uninit (server_read_message pb p) = sp_uninit p"
  by (simp add: server_read_message_def Let_def)

lemma server_parse_uninit:
  "sp_uninit p \<le> sp_uninit (fst (server_parse junk pb p)) \<and>
   (sp_uninit (fst (server_parse junk pb p)) \<le> sp_uninit p \<longrightarrow> server_parse junk' pb p = server_parse junk pb p)"
proof (induction "length (sp_cur_token p)" arbitrary: p rule: less_induct)
  case less
  show ?case
  proof (cases p rule: server_parse_cases)
    case empty
    then show ?thesis
      by (simp add: server_parse.simps [of _ pb p])
  next
    case (keepalive r)
    then show ?thesis
      using less [of "p\<lparr>sp_cur_token := r\<rparr>"] by (simp add: server_parse_keepalive [OF keepalive])
  next
    case frame
    then show ?thesis
      using server_read_size_uninit [of junk p] server_read_size_other [of junk p junk']
      by (simp add: server_parse_frame split: sum.splits prod.splits)
  qed
qed

interpretation server_junk: uninit_source
  "\<lambda>junk. server_parse junk pb" sp_got_request sp_cur_request "\<lambda>p. p\<lparr>sp_got_request := False\<rparr>"
  server_append "\<lambda>junk. server_pump junk pb" server_msr sp_uninit
  for pb
proof unfold_locales
  fix s d junk junk'
  show "sp_uninit s \<le> sp_uninit (fst (server_parse junk pb s))"
    "sp_uninit (fst (server_parse junk pb s)) \<le> sp_uninit s \<Longrightarrow> server_parse junk' pb s = server_parse junk pb s"
    using server_parse_uninit [of s junk pb junk'] by simp_all
qed (simp_all add: server.frame_source_axioms)

text \<open>
  The parser inside a connection and the requests queued so far; \<open>Inl\<close> once an exception made
  \<^verbatim>\<open>HttpServer::performRecv\<close> drop the connection, with what had been queued before it.
\<close>

type_synonym server_run =
  "(server_parser \<times> bin_request option list) + (server_parser \<times> bin_request option list)"

definition server_feed ::
  "(nat \<Rightarrow> u64) \<Rightarrow> (string \<Rightarrow> string \<times> (string \<times> string) list) \<Rightarrow> server_run \<Rightarrow> string \<Rightarrow> server_run" where
  "server_feed junk pb r d = (case r of Inl x \<Rightarrow> Inl x | Inr (p, custom_requests) \<Rightarrow>
     (case server_pump junk pb (server_append p d) of
        (reqs, p, None) \<Rightarrow> Inr (p, custom_requests @ reqs)
      | (reqs, p, Some _) \<Rightarrow> Inl (p, custom_requests @ reqs)))"

lemma server_feed_run: "server.run junk pb = server_feed junk pb"
  by (intro ext) (simp add: server.run_def server_feed_def)

definition at_start :: "server_parser \<Rightarrow> bool" where
  "at_start p \<longleftrightarrow> sp_state p = S_READING_SIZE \<and> sp_cur_token p = [] \<and> \<not> sp_got_request p"

lemma at_start_quiet: "at_start p \<Longrightarrow> server.quiet junk pb (Some (p, out))"
  by (simp add: server.quiet_def at_start_def server_parse.simps [of junk pb p])

lemma server_chunks:
  "at_start p \<Longrightarrow> foldl (server_feed junk pb) (Inr (p, out)) css = Inr x \<longleftrightarrow>
     server_feed junk pb (Inr (p, out)) (concat css) = Inr x"
  using server.run_one_piece [OF at_start_quiet, of p junk pb out css x] by (simp add: server_feed_run)

section \<open>What a client sends is what the server gets\<close>

text \<open>The stream of a client: frames of requests, and keep-alive bytes between them.\<close>

datatype client_item = KeepAlive | Message string

fun item_bytes :: "client_item \<Rightarrow> string" where
  "item_bytes KeepAlive = KEEPALIVE_MESSAGE"
| "item_bytes (Message d) = frame d"

fun item_request :: "(string \<Rightarrow> string \<times> (string \<times> string) list) \<Rightarrow> client_item \<Rightarrow> bin_request option list" where
  "item_request pb KeepAlive = []"
| "item_request pb (Message d) = [Some (mk_request pb d)]"

fun item_ok :: "client_item \<Rightarrow> bool" where
  "item_ok KeepAlive = True"
| "item_ok (Message d) = (length d \<le> 3 * 1024 * 1024)"

lemma hd_dec_str: "hd (dec_str n @ r) \<noteq> CHR ''k''"
proof -
  have "hd (dec_str n) \<in> set (dec_str n)"
    by (rule hd_in_set) simp
  then have "is_digit (hd (dec_str n))"
    by (rule dec_str_digit)
  then show ?thesis
    by (simp add: digit_not_special)
qed

lemma server_read_size_frame:
  assumes "sp_state p = S_READING_SIZE" "sp_cur_token p = dec_str n @ newline # r" "n < 2 ^ 64"
  shows "server_parse junk pb p =
    (if n > 3 * 1024 * 1024
     then (p\<lparr>sp_cur_token := r, sp_size := word_of_nat n\<rparr>, Some RequestParsingEx)
     else (server_read_message pb (p\<lparr>sp_cur_token := r, sp_size := word_of_nat n, sp_state := S_READING_MESSAGE\<rparr>), None))"
proof -
  have "unat (word_of_nat n :: u64) = n"
    using assms(3) by (simp add: unat_of_nat)
  then have "HIAPI_BINREQUEST_MAX_SIZE < word_of_nat n \<longleftrightarrow> 3 * 1024 * 1024 < n"
    by (simp add: HIAPI_BINREQUEST_MAX_SIZE_def word_less_nat_alt)
  moreover have "\<not> at_keepalive p" "sp_cur_token p \<noteq> []"
    using assms(2) hd_dec_str [of n] by (simp_all add: at_keepalive_def)
  ultimately show ?thesis
    using assms by (simp add: server_parse_frame server_read_size_def Let_def)
qed

lemma server_feed_item:
  assumes "at_start p" "item_ok i"
  shows "\<exists>q. server_feed junk pb (Inr (p, out)) (item_bytes i) = Inr (q, out @ item_request pb i) \<and> at_start q"
proof (cases i)
  case KeepAlive
  then show ?thesis
    using assms by (simp add: server_feed_def server_pump_def server_drain.simps server_hasRequest_def
        at_start_def KEEPALIVE_MESSAGE_def server_parse.simps [of junk pb "server_append p ''k''"])
next
  case (Message d)
  define n where "n = length d"
  have n: "n \<le> 3 * 1024 * 1024" "n < 2 ^ 64" "unat (word_of_nat n :: u64) = n"
    using assms(2) Message by (simp_all add: n_def unat_of_nat)
  let ?q = "(server_append p (frame d))\<lparr>sp_cur_token := d, sp_size := word_of_nat n, sp_state := S_READING_MESSAGE\<rparr>"
  have "server_parse junk pb (server_append p (frame d)) = (server_read_message pb ?q, None)"
    using assms(1) n by (subst server_read_size_frame [of _ n d]) (simp_all add: at_start_def frame_def n_def)
  moreover have "server_read_message pb ?q = ?q\<lparr>sp_cur_request := Some (mk_request pb d),
      sp_got_request := True, sp_cur_token := [], sp_state := S_READING_SIZE\<rparr>"
    using n by (simp add: server_read_message_def n_def)
  ultimately show ?thesis
    using Message assms(1)
    by (simp add: server_feed_def server_pump_def server_drain.simps server_hasRequest_def
        server_getRequest_def server_parse.simps at_start_def)
qed

lemma server_feed_items:
  "at_start p \<Longrightarrow> list_all item_ok items \<Longrightarrow>
     \<exists>q. foldl (server_feed junk pb) (Inr (p, out)) (map item_bytes items) =
           Inr (q, out @ concat (map (item_request pb) items)) \<and> at_start q"
proof (induction items arbitrary: p out)
  case Nil
  then show ?case by simp
next
  case (Cons i items)
  then obtain q where q: "server_feed junk pb (Inr (p, out)) (item_bytes i) = Inr (q, out @ item_request pb i)"
      "at_start q"
    using server_feed_item [of p i junk pb out] by auto
  then show ?case
    using Cons.IH [OF q(2), of "out @ item_request pb i"] Cons.prems(2) by simp
qed

lemma server_receives:
  assumes "at_start p" "list_all item_ok items"
  shows "\<exists>q. server_feed junk pb (Inr (p, out)) (concat (map item_bytes items)) =
           Inr (q, out @ concat (map (item_request pb) items)) \<and> at_start q"
  using server_feed_items [OF assms, of junk pb out] server_chunks [OF assms(1), of junk pb out "map item_bytes items"]
  by simp

lemma server_receives_cut:
  assumes "at_start p" "list_all item_ok items" "concat css = concat (map item_bytes items)"
  shows "\<exists>q. foldl (server_feed junk pb) (Inr (p, out)) css = Inr (q, out @ concat (map (item_request pb) items)) \<and> at_start q"
  using server_receives [OF assms(1,2), of junk pb out] server_chunks [OF assms(1), of junk pb out css] assms(3) by auto

lemma at_start_init: "at_start (server_parser_init j)"
  by (simp add: at_start_def server_parser_init_def)

text \<open>
  C20: How the network cuts the client's bytes does not matter to the server. Any two ways to
  cut bytes whose size lines all start with a number either both go on, with the same queue of
  requests and the same parser state, or both raise, with queues that differ by the last request
  at most; and no uninitialised value has a part in either.
\<close>

theorem server_cuts_irrelevant:
  assumes "concat css = concat dss"
    and "foldl (server_feed junk pb) (Inr (server_parser_init j, [])) css = r" "sp_uninit (reached r) = 0"
  shows "case r of
      Inr _ \<Rightarrow> foldl (server_feed junk' pb) (Inr (server_parser_init j, [])) dss = r
    | Inl (_, reqs) \<Rightarrow> \<exists>q reqs'. foldl (server_feed junk' pb) (Inr (server_parser_init j, [])) dss = Inl (q, reqs') \<and>
        same_but_last reqs reqs'"
  using server_junk.run_cuts_other [OF at_start_quiet [OF at_start_init] assms(1), of junk pb j "[]" junk'] assms(2,3)
  by (auto simp: server_feed_run split: sum.splits)

theorem server_cuts_irrelevant_witness:
  "\<exists>q reqs. foldl (server_feed (\<lambda>_. 5) (\<lambda>d. (d, []))) (Inr (server_parser_init 7, []))
      [frame ''a'' @ dec_str 4000000, newline # ''b''] = Inl (q, reqs) \<and>
    same_but_last [] reqs"
proof -
  have "foldl (server_feed (\<lambda>_. 0) (\<lambda>d. (d, []))) (Inr (server_parser_init 7, []))
      [frame ''a'' @ dec_str 4000000 @ newline # ''b''] =
    Inl (\<lparr>sp_state = S_READING_SIZE, sp_cur_token = ''b'', sp_size = 4000000,
      sp_cur_request = Some (mk_request (\<lambda>d. (d, [])) ''a''), sp_got_request = False, sp_uninit = 0\<rparr>, [])"
    by (simp add: server_feed_def server_pump_def server_drain_has server_parser_init_def server_append_def frame_def
        server_read_message_def
        server_read_size_frame [of _ 1 "''a'' @ dec_str 4000000 @ newline # ''b''"]
        server_read_size_frame [of _ 4000000 "''b''"])
  from server_cuts_irrelevant [OF _ this, of "[frame ''a'' @ dec_str 4000000, newline # ''b'']" "\<lambda>_. 5"]
  show ?thesis
    by (simp add: reached_def)
qed

text \<open>
  C5: The server queues exactly the requests a client framed, in order, however the bytes are
  cut and wherever keep-alive bytes stand between the frames, and is back at the start of a frame.
\<close>

theorem server_receives_requests:
  assumes "\<forall>i \<in> set items. item_ok i" "concat css = concat (map item_bytes items)"
  shows "\<exists>q. foldl (server_feed junk pb) (Inr (server_parser_init j, [])) css =
      Inr (q, concat (map (item_request pb) items)) \<and> at_start q"
  using server_receives_cut [OF at_start_init, of items css junk pb j "[]"] assms by (simp add: list_all_iff)

theorem server_receives_requests_witness:
  "\<exists>q. foldl (server_feed (\<lambda>_. 0) (\<lambda>d. (d, []))) (Inr (server_parser_init 7, [])) [''k'', ''2'', newline # ''ab0'' @ newline # ''k''] =
      Inr (q, [Some (mk_request (\<lambda>d. (d, [])) ''ab''), Some (mk_request (\<lambda>d. (d, [])) [])]) \<and> at_start q"
  using server_receives_requests [of "[KeepAlive, Message ''ab'', Message [], KeepAlive]"
      "[''k'', ''2'', newline # ''ab0'' @ newline # ''k'']" "\<lambda>_. 0" "\<lambda>d. (d, [])" 7]
  by (simp add: KEEPALIVE_MESSAGE_def frame_def dec_str_def dec_digits.simps digit_chars newline_def flip: numeral_2_eq_2)

text \<open>
  C30: A size line above 3 MB behind any valid stream raises, however the bytes are cut, and the
  connection is dropped; by then every request of the stream is in the queue, except that the last
  one may not be.
\<close>

theorem server_rejects_oversize:
  assumes "\<forall>i \<in> set items. item_ok i" "3 * 1024 * 1024 < n" "n < 2 ^ 64"
    and "concat css = concat (map item_bytes items) @ dec_str n @ newline # r"
  shows "\<exists>q reqs. foldl (server_feed junk pb) (Inr (server_parser_init j, [])) css = Inl (q, reqs) \<and>
    (reqs = concat (map (item_request pb) items) \<or> reqs = butlast (concat (map (item_request pb) items)))"
proof -
  note quiet = at_start_quiet [OF at_start_init, of junk pb j "[]"]
  obtain q where q: "server_feed junk pb (Inr (server_parser_init j, [])) (concat (map item_bytes items)) =
      Inr (q, concat (map (item_request pb) items))" "at_start q"
    using server_receives [OF at_start_init, of items junk pb j "[]"] assms(1) by (auto simp: list_all_iff)
  have "server_parse junk pb (server_append q (dec_str n @ newline # r)) =
      ((server_append q (dec_str n @ newline # r))\<lparr>sp_cur_token := r, sp_size := word_of_nat n\<rparr>, Some RequestParsingEx)"
    using q(2) assms(2,3) by (subst server_read_size_frame [of _ n r]) (simp_all add: at_start_def)
  note raises = server.run_raised_in_turn [OF quiet q(1) [folded server_feed_run] this, folded assms(4)]
  show ?thesis
    using server.run_raising [OF quiet raises] by (auto simp: server_feed_run)
qed

theorem server_rejects_oversize_witness:
  "\<exists>q reqs. foldl (server_feed (\<lambda>_. 0) (\<lambda>d. (d, []))) (Inr (server_parser_init 7, [])) [''k400000'', ''0'' @ [newline]] = Inl (q, reqs)"
  using server_rejects_oversize [of "[KeepAlive]" 4000000 "[''k400000'', ''0'' @ [newline]]" "[]" "\<lambda>_. 0" "\<lambda>d. (d, [])" 7]
  by (auto simp: KEEPALIVE_MESSAGE_def dec_str_def dec_digits.simps digit_chars newline_def simp flip: numeral_2_eq_2)

end
