(* ===== verification/BinClientParser.thy ===== *)
theory BinClientParser
  imports Frames
begin

text \<open>
  \<^verbatim>\<open>HttpApi/BinClient/Parser.cpp\<close>: the parser of the stream a server sends back. It waits
  for the handshake, calls \<^verbatim>\<open>m_onHandshaked\<close> (counted in \<open>cp_handshaked\<close>) and then reads
  frames. \<open>junk\<close> gives the uninitialised results of \<^verbatim>\<open>string_to_uint64\<close>, one for each size
  line that does not start with a number (counted in \<open>cp_uninit\<close>, which is not in the code). The
  parser is an instance of \<open>frame_source\<close> and of \<open>uninit_source\<close>.
\<close>

section \<open>The code\<close>

datatype client_pstate = C_READING_HANDSHAKE | C_READING_SIZE | C_READING_MESSAGE

datatype response_error = CannotHandShakeEx | ResponseParsingEx

record client_parser =
  cp_state :: client_pstate
  cp_cur_token :: string
  cp_size :: u64
  cp_cur_response :: string
  cp_got_response :: bool
  cp_handshaked :: nat
  cp_uninit :: nat

definition MESSAGE_SIZE_LIMIT :: u64 where
  "MESSAGE_SIZE_LIMIT = 1024 * 1024"

definition client_parser_init :: "u64 \<Rightarrow> client_parser" where
  "client_parser_init junk = \<lparr>cp_state = C_READING_HANDSHAKE, cp_cur_token = '''', cp_size = junk,
     cp_cur_response = '''', cp_got_response = False, cp_handshaked = 0, cp_uninit = 0\<rparr>"

text \<open>The three parts of the loop body: \<open>Inl\<close> leaves \<^verbatim>\<open>parse\<close>, \<open>Inr\<close> falls through. The
  last part always returns, so the body runs once.\<close>

definition client_read_handshake ::
  "client_parser \<Rightarrow> (client_parser \<times> response_error option) + client_parser" where
  "client_read_handshake p =
     (if cp_state p = C_READING_HANDSHAKE
      then if length HIAPI_HANDSHAKE \<le> length (cp_cur_token p)
           then let handshake = take (length HIAPI_HANDSHAKE) (cp_cur_token p);
                    p = p\<lparr>cp_cur_token := drop (length HIAPI_HANDSHAKE) (cp_cur_token p)\<rparr>
                in if handshake \<noteq> HIAPI_HANDSHAKE then Inl (p, Some CannotHandShakeEx)
                   else Inr (p\<lparr>cp_state := C_READING_SIZE, cp_handshaked := cp_handshaked p + 1\<rparr>)
           else Inl (p, None)
      else Inr p)"

definition client_read_size ::
  "(nat \<Rightarrow> u64) \<Rightarrow> client_parser \<Rightarrow> (client_parser \<times> response_error option) + client_parser" where
  "client_read_size junk p =
     (if cp_state p = C_READING_SIZE
      then (case split_line (cp_cur_token p) of
              None \<Rightarrow> Inl (p, None)
            | Some (size_str, rest) \<Rightarrow>
                let p = p\<lparr>cp_cur_token := rest, cp_size := string_to_uint64 (junk (cp_uninit p)) size_str,
                           cp_uninit := uninit_after size_str (cp_uninit p)\<rparr>
                in if cp_size p > MESSAGE_SIZE_LIMIT then Inl (p, Some ResponseParsingEx)
                   else Inr (p\<lparr>cp_state := C_READING_MESSAGE\<rparr>))
      else Inr p)"

definition client_read_message :: "client_parser \<Rightarrow> client_parser" where
  "client_read_message p =
     (if unat (cp_size p) \<le> length (cp_cur_token p)
      then let response = take (unat (cp_size p)) (cp_cur_token p)
           in p\<lparr>cp_cur_response := response, cp_got_response := True,
                cp_cur_token := drop (length response) (cp_cur_token p), cp_state := C_READING_SIZE\<rparr>
      else p)"

definition client_parse :: "(nat \<Rightarrow> u64) \<Rightarrow> client_parser \<Rightarrow> client_parser \<times> response_error option" where
  "client_parse junk p =
     (if cp_cur_token p = '''' then (p, None)
      else case client_read_handshake p of
        Inl r \<Rightarrow> r
      | Inr p \<Rightarrow> (case client_read_size junk p of
          Inl r \<Rightarrow> r
        | Inr p \<Rightarrow> (client_read_message p, None)))"

definition client_append :: "client_parser \<Rightarrow> string \<Rightarrow> client_parser" where
  "client_append p d = p\<lparr>cp_cur_token := cp_cur_token p @ d\<rparr>"

definition client_execute :: "(nat \<Rightarrow> u64) \<Rightarrow> client_parser \<Rightarrow> string \<Rightarrow> client_parser \<times> response_error option" where
  "client_execute junk p d = client_parse junk (client_append p d)"

definition client_hasResponse :: "client_parser \<Rightarrow> bool" where
  "client_hasResponse p = cp_got_response p"

definition client_getResponse ::
  "(nat \<Rightarrow> u64) \<Rightarrow> client_parser \<Rightarrow> string \<times> client_parser \<times> response_error option" where
  "client_getResponse junk p =
     (let p = p\<lparr>cp_got_response := False\<rparr> in (cp_cur_response p, client_parse junk p))"

section \<open>Progress\<close>

definition client_msr :: "client_parser \<Rightarrow> nat" where
  "client_msr p = 2 * length (cp_cur_token p) + (if cp_state p = C_READING_MESSAGE then 1 else 0)"

definition client_drain_msr :: "client_parser \<Rightarrow> nat" where
  "client_drain_msr p = 2 * client_msr p + (if cp_got_response p then 1 else 0)"

lemma client_read_handshake_msr:
  "client_read_handshake p = Inl (q, e) \<Longrightarrow> client_msr q \<le> client_msr p \<and> cp_got_response q = cp_got_response p"
  "client_read_handshake p = Inr q \<Longrightarrow> client_msr q \<le> client_msr p \<and> cp_got_response q = cp_got_response p
     \<and> cp_state q \<noteq> C_READING_HANDSHAKE"
  by (auto simp: client_read_handshake_def client_msr_def Let_def split: if_splits)

lemma client_read_size_msr:
  "client_read_size junk p = Inl (q, e) \<Longrightarrow> client_msr q \<le> client_msr p \<and> cp_got_response q = cp_got_response p"
  "client_read_size junk p = Inr q \<Longrightarrow> cp_state p \<noteq> C_READING_HANDSHAKE \<Longrightarrow>
     client_msr q \<le> client_msr p \<and> cp_got_response q = cp_got_response p \<and> cp_state q = C_READING_MESSAGE"
  by (cases "cp_state p"; force simp: client_read_size_def client_msr_def Let_def
      split: option.splits if_splits dest: split_line_length)+

lemma client_read_message_msr:
  "cp_state p = C_READING_MESSAGE \<Longrightarrow> client_msr (client_read_message p) \<le> client_msr p \<and>
     (cp_got_response (client_read_message p) \<and> \<not> cp_got_response p \<longrightarrow>
        client_msr (client_read_message p) < client_msr p)"
  by (auto simp: client_read_message_def client_msr_def Let_def)

lemma client_parse_msr:
  "client_msr (fst (client_parse junk p)) \<le> client_msr p \<and>
   (cp_got_response (fst (client_parse junk p)) \<and> \<not> cp_got_response p \<longrightarrow>
      client_msr (fst (client_parse junk p)) < client_msr p)"
  by (fastforce simp: client_parse_def split: sum.splits
      dest: client_read_handshake_msr client_read_size_msr client_read_message_msr)

lemma client_getResponse_msr:
  "client_getResponse junk p = (r, q, None) \<Longrightarrow> cp_got_response p \<Longrightarrow> client_drain_msr q < client_drain_msr p"
  using client_parse_msr [of junk "p\<lparr>cp_got_response := False\<rparr>"]
  by (auto simp: client_getResponse_def client_drain_msr_def client_msr_def Let_def)

text \<open>The response loop of \<^verbatim>\<open>Connection::performRecv\<close>: the responses it hands to
  \<^verbatim>\<open>onResponse\<close>, in order.\<close>

function client_drain :: "(nat \<Rightarrow> u64) \<Rightarrow> client_parser \<Rightarrow> string list \<times> client_parser \<times> response_error option" where
  "client_drain junk p =
     (if client_hasResponse p
      then (case client_getResponse junk p of
              (resp, p, Some e) \<Rightarrow> ([], p, Some e)
            | (resp, p, None) \<Rightarrow> (case client_drain junk p of (resps, p, e) \<Rightarrow> (resp # resps, p, e)))
      else ([], p, None))"
  by pat_completeness auto
termination
  by (relation "measure (\<lambda>(_, p). client_drain_msr p)")
    (auto simp: client_hasResponse_def dest: client_getResponse_msr [OF sym])

declare client_drain.simps [simp del]

definition client_pump :: "(nat \<Rightarrow> u64) \<Rightarrow> client_parser \<Rightarrow> string list \<times> client_parser \<times> response_error option" where
  "client_pump junk p =
     (case client_parse junk p of
        (p, Some e) \<Rightarrow> ([], p, Some e)
      | (p, None) \<Rightarrow> client_drain junk p)"

section \<open>The parser is a frame source\<close>

lemma client_append_simps [simp]:
  "cp_cur_token (client_append p d) = cp_cur_token p @ d"
  "cp_state (client_append p d) = cp_state p" "cp_size (client_append p d) = cp_size p"
  "cp_cur_response (client_append p d) = cp_cur_response p"
  "cp_got_response (client_append p d) = cp_got_response p"
  "cp_handshaked (client_append p d) = cp_handshaked p"
  "cp_uninit (client_append p d) = cp_uninit p"
  "client_append (p\<lparr>cp_got_response := g\<rparr>) d = (client_append p d)\<lparr>cp_got_response := g\<rparr>"
  by (simp_all add: client_append_def)

lemma client_read_handshake_append:
  "client_read_handshake p = Inl (q, Some e) \<Longrightarrow>
     client_read_handshake (client_append p y) = Inl (client_append q y, Some e)"
  "client_read_handshake p = Inl (q, None) \<Longrightarrow> q = p"
  "client_read_handshake p = Inr q \<Longrightarrow> client_read_handshake (client_append p y) = Inr (client_append q y)"
  by (auto simp: client_read_handshake_def client_append_def Let_def split: if_splits)

lemma client_read_size_append:
  "client_read_size junk p = Inl (q, Some e) \<Longrightarrow>
     client_read_size junk (client_append p y) = Inl (client_append q y, Some e)"
  "client_read_size junk p = Inl (q, None) \<Longrightarrow> q = p \<and> cp_state p = C_READING_SIZE"
  "client_read_size junk p = Inr q \<Longrightarrow> client_read_size junk (client_append p y) = Inr (client_append q y)"
  by (auto simp: client_read_size_def client_append_def Let_def split_line_append split: option.splits if_splits)

lemma client_read_message_append:
  "cp_got_response (client_read_message p) \<Longrightarrow> \<not> cp_got_response p \<Longrightarrow>
     client_read_message (client_append p y) = client_append (client_read_message p) y"
  "\<not> cp_got_response (client_read_message p) \<Longrightarrow> client_read_message p = p"
  by (auto simp: client_read_message_def client_append_def Let_def split: if_splits)

lemma client_parse_past_handshake:
  assumes "cp_state q \<noteq> C_READING_HANDSHAKE" "cp_cur_token q \<noteq> []"
  shows "client_parse junk q = (case client_read_size junk q of Inl r \<Rightarrow> r
    | Inr q \<Rightarrow> (client_read_message q, None))"
  using assms by (simp add: client_parse_def client_read_handshake_def)

lemma client_parse_waiting:
  assumes "cp_state q = C_READING_MESSAGE" "client_read_message q = q"
  shows "client_parse junk (client_append q y) = (client_read_message (client_append q y), None)"
proof (cases "cp_cur_token (client_append q y) = []")
  case True
  then have "client_append q y = q"
    by (simp add: client_append_def)
  then show ?thesis
    using True assms(2) by (simp add: client_parse_def)
next
  case False
  then show ?thesis
    using assms(1) by (simp add: client_parse_past_handshake client_read_size_def)
qed

lemma client_read_size_any:
  "cp_state q = C_READING_SIZE \<Longrightarrow>
    client_parse junk q = (case client_read_size junk q of Inl r \<Rightarrow> r | Inr q \<Rightarrow> (client_read_message q, None))"
  by (cases "cp_cur_token q = []")
    (simp_all add: client_parse_past_handshake, simp add: client_parse_def client_read_size_def split_line_def)

lemma client_parse_append:
  "(snd (client_parse junk p) \<noteq> None \<longrightarrow> client_parse junk (client_append p y) =
      (client_append (fst (client_parse junk p)) y, snd (client_parse junk p))) \<and>
   (snd (client_parse junk p) = None \<longrightarrow> \<not> cp_got_response (fst (client_parse junk p)) \<longrightarrow>
      client_parse junk (client_append p y) = client_parse junk (client_append (fst (client_parse junk p)) y)) \<and>
   (snd (client_parse junk p) = None \<longrightarrow> \<not> cp_got_response p \<longrightarrow> cp_got_response (fst (client_parse junk p)) \<longrightarrow>
      client_parse junk (client_append p y) = (client_append (fst (client_parse junk p)) y, None))"
proof (cases "cp_cur_token p = []")
  case True
  then show ?thesis
    by (simp add: client_parse_def)
next
  case False
  then have na: "cp_cur_token (client_append p y) \<noteq> []"
    by simp
  show ?thesis
  proof (cases "client_read_handshake p")
    case (Inl r)
    obtain q e where r: "r = (q, e)" by (cases r)
    then show ?thesis
      using Inl False na client_read_handshake_append(1) [of p q] client_read_handshake_append(2) [of p q]
      by (cases e) (auto simp: client_parse_def)
  next
    case (Inr q)
    note Inr_a = client_read_handshake_append(3) [OF Inr, of y]
    have q: "cp_state q \<noteq> C_READING_HANDSHAKE" "cp_got_response q = cp_got_response p"
      using client_read_handshake_msr(2) [OF Inr] by simp_all
    show ?thesis
    proof (cases "client_read_size junk q")
      case (Inl r)
      obtain t e where r: "r = (t, e)" by (cases r)
      then have code: "client_parse junk p = (t, e)"
        using False Inr Inl by (simp add: client_parse_def)
      show ?thesis
      proof (cases e)
        case None
        then have t: "t = q" "cp_state q = C_READING_SIZE"
          using client_read_size_append(2) [of junk q t] Inl r by simp_all
        have "client_parse junk (client_append p y) = client_parse junk (client_append q y)"
        proof -
          have "client_parse junk (client_append p y) = (case client_read_size junk (client_append q y) of
              Inl r \<Rightarrow> r | Inr q \<Rightarrow> (client_read_message q, None))"
            using False Inr_a by (simp add: client_parse_def)
          then show ?thesis
            using client_read_size_any [of "client_append q y" junk] t(2) by (simp only: client_append_simps)
        qed
        then show ?thesis
          using code None t q Inl by auto
      next
        case (Some e')
        then show ?thesis
          using code na Inr_a Inl r client_read_size_append(1) [of junk q t e' y] by (simp add: client_parse_def)
      qed
    next
      case (Inr m)
      have m: "cp_state m = C_READING_MESSAGE" "cp_got_response m = cp_got_response p"
        using client_read_size_msr(2) [OF Inr q(1)] q(2) by simp_all
      have code: "client_parse junk p = (client_read_message m, None)"
        "client_parse junk (client_append p y) = (client_read_message (client_append m y), None)"
        using False na \<open>client_read_handshake p = Inr q\<close> Inr_a Inr client_read_size_append(3) [OF Inr, of y]
        by (simp_all add: client_parse_def)
      show ?thesis
      proof (cases "cp_got_response (client_read_message m)")
        case True
        then show ?thesis
          using code m client_read_message_append(1) [of m y] by simp
      next
        case False
        then have "client_read_message m = m"
          by (rule client_read_message_append(2))
        then show ?thesis
          using code False client_parse_waiting [OF m(1), of junk y] by simp
      qed
    qed
  qed
qed

lemma client_drain_not: "\<not> cp_got_response p \<Longrightarrow> client_drain junk p = ([], p, None)"
  by (simp add: client_drain.simps client_hasResponse_def)

lemma client_drain_has:
  "cp_got_response p \<Longrightarrow> client_drain junk p =
    (case client_parse junk (p\<lparr>cp_got_response := False\<rparr>) of
       (u, Some e) \<Rightarrow> ([], u, Some e)
     | (u, None) \<Rightarrow> (case client_drain junk u of (ms, v, e) \<Rightarrow> (cp_cur_response p # ms, v, e)))"
  by (subst client_drain.simps) (simp add: client_hasResponse_def client_getResponse_def Let_def split: prod.split option.split)

interpretation client: frame_source
  "client_parse junk" cp_got_response cp_cur_response "\<lambda>p. p\<lparr>cp_got_response := False\<rparr>"
  client_append "client_pump junk" client_msr
  for junk
proof unfold_locales
  fix s t e y
  show "client_parse junk s = (t, Some e) \<Longrightarrow> client_parse junk (client_append s y) = (client_append t y, Some e)"
    "client_parse junk s = (t, None) \<Longrightarrow> \<not> cp_got_response t \<Longrightarrow>
       client_parse junk (client_append s y) = client_parse junk (client_append t y)"
    "client_parse junk s = (t, None) \<Longrightarrow> \<not> cp_got_response s \<Longrightarrow> cp_got_response t \<Longrightarrow>
       client_parse junk (client_append s y) = (client_append t y, None)"
    using client_parse_append [of junk s y] by simp_all
  show "client_parse junk s = (t, None) \<Longrightarrow> \<not> cp_got_response s \<Longrightarrow> cp_got_response t \<Longrightarrow>
       client_msr (t\<lparr>cp_got_response := False\<rparr>) < client_msr s"
    using client_parse_msr [of junk s] by (simp add: client_msr_def)
  show "\<not> cp_got_response s \<Longrightarrow> client_pump junk s = (case client_parse junk s of
      (t, Some e) \<Rightarrow> ([], t, Some e)
    | (t, None) \<Rightarrow> if cp_got_response t
        then (case client_parse junk (t\<lparr>cp_got_response := False\<rparr>) of
                (u, Some e) \<Rightarrow> ([], u, Some e)
              | (u, None) \<Rightarrow> (case client_pump junk (t\<lparr>cp_got_response := False\<rparr>) of
                  (ms, v, e) \<Rightarrow> (cp_cur_response t # ms, v, e)))
        else ([], t, None))"
    by (simp add: client_pump_def client_drain_has client_drain_not split: prod.split option.split)
qed (simp_all add: client_append_def)

lemma client_read_size_uninit:
  "client_read_size junk p = Inl (q, e) \<Longrightarrow> cp_uninit p \<le> cp_uninit q"
  "client_read_size junk p = Inr q \<Longrightarrow> cp_uninit p \<le> cp_uninit q"
  by (auto simp: client_read_size_def Let_def split: option.splits if_splits)

lemma client_read_size_other:
  "(case client_read_size junk p of Inl (q, e) \<Rightarrow> cp_uninit q | Inr q \<Rightarrow> cp_uninit q) \<le> cp_uninit p \<Longrightarrow>
     client_read_size junk' p = client_read_size junk p"
  by (auto simp: client_read_size_def Let_def uninit_after_same [of _ "cp_uninit p" "junk' (cp_uninit p)" "junk (cp_uninit p)"]
      split: option.splits if_splits)

lemma client_handshake_uninit:
  "client_read_handshake p = Inl (q, e) \<Longrightarrow> cp_uninit q = cp_uninit p"
  "client_read_handshake p = Inr q \<Longrightarrow> cp_uninit q = cp_uninit p"
  by (auto simp: client_read_handshake_def Let_def split: if_splits)

lemma cp_uninit_read_message [simp]: "cp_uninit (client_read_message p) = cp_uninit p"
  by (simp add: client_read_message_def Let_def)

lemma client_parse_uninit:
  "cp_uninit p \<le> cp_uninit (fst (client_parse junk p)) \<and>
   (cp_uninit (fst (client_parse junk p)) \<le> cp_uninit p \<longrightarrow> client_parse junk' p = client_parse junk p)"
proof (cases "client_read_handshake p")
  case (Inl r)
  then show ?thesis
    using client_handshake_uninit(1) [of p "fst r" "snd r"] by (simp add: client_parse_def)
next
  case (Inr q)
  then show ?thesis
    using client_handshake_uninit(2) [OF Inr] client_read_size_uninit [of junk q] client_read_size_other [of junk q junk']
    by (simp add: client_parse_def split: sum.splits prod.splits)
qed

interpretation client_junk: uninit_source
  client_parse cp_got_response cp_cur_response "\<lambda>p. p\<lparr>cp_got_response := False\<rparr>"
  client_append client_pump client_msr cp_uninit
proof unfold_locales
  fix s d junk junk'
  show "cp_uninit s \<le> cp_uninit (fst (client_parse junk s))"
    "cp_uninit (fst (client_parse junk s)) \<le> cp_uninit s \<Longrightarrow> client_parse junk' s = client_parse junk s"
    using client_parse_uninit [of s junk junk'] by simp_all
qed (simp_all add: client.frame_source_axioms)

text \<open>The parser inside a connection and the responses handed on so far; \<open>Inl\<close> once an
  exception reached \<^verbatim>\<open>BinClientA::performRecv\<close>, which drops the connection.\<close>

type_synonym client_run = "(client_parser \<times> string list) + (client_parser \<times> string list)"

definition client_feed :: "(nat \<Rightarrow> u64) \<Rightarrow> client_run \<Rightarrow> string \<Rightarrow> client_run" where
  "client_feed junk r d = (case r of Inl x \<Rightarrow> Inl x | Inr (p, resps) \<Rightarrow>
     (case client_pump junk (client_append p d) of
        (new, p, None) \<Rightarrow> Inr (p, resps @ new)
      | (new, p, Some _) \<Rightarrow> Inl (p, resps @ new)))"

lemma client_feed_run: "client.run junk = client_feed junk"
  by (intro ext) (simp add: client.run_def client_feed_def)

lemma client_quiet: "cp_cur_token p = [] \<Longrightarrow> \<not> cp_got_response p \<Longrightarrow> client.quiet junk (Some (p, out))"
  by (simp add: client.quiet_def client_parse_def)

lemma client_init_quiet: "client.quiet junk (Some (client_parser_init j, []))"
  by (simp add: client_quiet client_parser_init_def)

lemma client_chunks:
  "cp_cur_token p = [] \<Longrightarrow> \<not> cp_got_response p \<Longrightarrow>
     foldl (client_feed junk) (Inr (p, out)) css = Inr x \<longleftrightarrow> client_feed junk (Inr (p, out)) (concat css) = Inr x"
  using client.run_one_piece [OF client_quiet, of p junk out css x] by (simp add: client_feed_run)

section \<open>What a server sends is what the client gets\<close>

definition between :: "client_parser \<Rightarrow> bool" where
  "between p \<longleftrightarrow> cp_state p = C_READING_SIZE \<and> cp_cur_token p = [] \<and> \<not> cp_got_response p \<and> cp_handshaked p = 1"

lemma client_size_line:
  assumes "cp_state p = C_READING_SIZE" "cp_cur_token p = dec_str n @ newline # r" "n < 2 ^ 64"
  shows "client_parse junk p =
    (if n > 1024 * 1024
     then (p\<lparr>cp_cur_token := r, cp_size := word_of_nat n\<rparr>, Some ResponseParsingEx)
     else (client_read_message (p\<lparr>cp_cur_token := r, cp_size := word_of_nat n, cp_state := C_READING_MESSAGE\<rparr>), None))"
proof -
  have "unat (word_of_nat n :: u64) = n"
    using assms(3) by (simp add: unat_of_nat)
  then have "MESSAGE_SIZE_LIMIT < word_of_nat n \<longleftrightarrow> 1024 * 1024 < n"
    by (simp add: MESSAGE_SIZE_LIMIT_def word_less_nat_alt)
  then show ?thesis
    using assms by (simp add: client_read_size_any client_read_size_def Let_def)
qed

lemma client_feed_frame:
  assumes "between p" "length d \<le> 1024 * 1024"
  shows "\<exists>q. client_feed junk (Inr (p, out)) (frame d) = Inr (q, out @ [d]) \<and> between q"
proof -
  define n where "n = length d"
  have n: "n \<le> 1024 * 1024" "n < 2 ^ 64" "unat (word_of_nat n :: u64) = n"
    using assms(2) by (simp_all add: n_def unat_of_nat)
  let ?q = "(client_append p (frame d))\<lparr>cp_cur_token := d, cp_size := word_of_nat n, cp_state := C_READING_MESSAGE\<rparr>"
  have "client_parse junk (client_append p (frame d)) = (client_read_message ?q, None)"
    using assms(1) n by (subst client_size_line [of _ n d]) (simp_all add: between_def frame_def n_def)
  moreover have "client_read_message ?q = ?q\<lparr>cp_cur_response := d,
      cp_got_response := True, cp_cur_token := [], cp_state := C_READING_SIZE\<rparr>"
    using n by (simp add: client_read_message_def n_def)
  ultimately show ?thesis
    using assms(1)
    by (simp add: client_feed_def client_pump_def client_drain_has client_drain_not client_parse_def between_def)
qed

lemma client_feed_frames:
  "between p \<Longrightarrow> \<forall>d \<in> set ds. length d \<le> 1024 * 1024 \<Longrightarrow>
     \<exists>q. foldl (client_feed junk) (Inr (p, out)) (map frame ds) = Inr (q, out @ ds) \<and> between q"
proof (induction ds arbitrary: p out)
  case Nil
  then show ?case by simp
next
  case (Cons d ds)
  then obtain q where q: "client_feed junk (Inr (p, out)) (frame d) = Inr (q, out @ [d])" "between q"
    using client_feed_frame [of p d junk out] by auto
  then show ?case
    using Cons.IH [OF q(2), of "out @ [d]"] Cons.prems(2) by simp
qed

lemma client_feed_handshake:
  "\<exists>q. client_feed junk (Inr (client_parser_init j, [])) HIAPI_HANDSHAKE = Inr (q, []) \<and> between q"
proof -
  let ?p = "client_append (client_parser_init j) HIAPI_HANDSHAKE"
  have "client_parse junk ?p =
      (?p\<lparr>cp_cur_token := [], cp_state := C_READING_SIZE, cp_handshaked := 1\<rparr>, None)"
    by (simp add: client_parse_def client_read_handshake_def client_parser_init_def client_read_size_def
        split_line_def HIAPI_HANDSHAKE_def)
  then show ?thesis
    by (simp add: client_feed_def client_pump_def client_drain_not client_parser_init_def between_def)
qed

lemma client_receives:
  assumes "\<forall>d \<in> set ds. length d \<le> 1024 * 1024" "concat css = HIAPI_HANDSHAKE @ concat (map frame ds)"
  shows "\<exists>q. foldl (client_feed junk) (Inr (client_parser_init j, [])) css = Inr (q, ds) \<and> between q"
proof -
  have i: "cp_cur_token (client_parser_init j) = []" "\<not> cp_got_response (client_parser_init j)"
    by (simp_all add: client_parser_init_def)
  obtain p where p: "client_feed junk (Inr (client_parser_init j, [])) HIAPI_HANDSHAKE = Inr (p, [])" "between p"
    using client_feed_handshake by blast
  then show ?thesis
    using client_feed_frames [OF p(2) assms(1), of junk "[]"] assms(2)
      client_chunks [OF i, of junk "[]" "HIAPI_HANDSHAKE # map frame ds"] client_chunks [OF i, of junk "[]" css]
    by auto
qed



text \<open>
  C31: A peer whose first bytes, as many as the handshake has, are others, or that announces a message above 1 MB,
  makes the client raise, however the bytes are cut; the responses in front are handed on, except
  that the last one may not be.
\<close>

theorem client_rejects:
  assumes "length h = length HIAPI_HANDSHAKE" "h \<noteq> HIAPI_HANDSHAKE" "concat css = h @ r"
    and "\<forall>d \<in> set ds. length d \<le> 1024 * 1024" "1024 * 1024 < n" "n < 2 ^ 64"
      "concat css' = HIAPI_HANDSHAKE @ concat (map frame ds) @ dec_str n @ newline # r"
  shows "(\<exists>q. foldl (client_feed junk) (Inr (client_parser_init j, [])) css = Inl (q, [])) \<and>
    (\<exists>q resps. foldl (client_feed junk) (Inr (client_parser_init j, [])) css' = Inl (q, resps) \<and>
       (resps = ds \<or> resps = butlast ds))"
proof
  note quiet = client_init_quiet [of junk j]
  have ne: "h \<noteq> []"
    using assms(1) by (auto simp: HIAPI_HANDSHAKE_def)
  have "client_parse junk (client_append (client_parser_init j) (h @ r)) =
      ((client_append (client_parser_init j) r), Some CannotHandShakeEx)"
    using assms(1,2) ne
    by (simp add: client_parse_def client_read_handshake_def client_parser_init_def client_append_def)
  from client.at_once [OF this]
  show "\<exists>q. foldl (client_feed junk) (Inr (client_parser_init j, [])) css = Inl (q, [])"
    using client.run_raising [OF quiet, of css "[]"] by (auto simp: assms(3) client_feed_run)
  obtain q where q: "client_feed junk (Inr (client_parser_init j, [])) (HIAPI_HANDSHAKE @ concat (map frame ds)) =
      Inr (q, ds)" "between q"
    using client_receives [OF assms(4), of "[HIAPI_HANDSHAKE @ concat (map frame ds)]" junk j] by auto
  have "client_parse junk (client_append q (dec_str n @ newline # r)) =
      ((client_append q (dec_str n @ newline # r))\<lparr>cp_cur_token := r, cp_size := word_of_nat n\<rparr>, Some ResponseParsingEx)"
    using q(2) assms(5,6) by (subst client_size_line [of _ n r]) (simp_all add: between_def)
  note raises = client.run_raised_in_turn [OF quiet q(1) [folded client_feed_run] this]
  then show "\<exists>q resps. foldl (client_feed junk) (Inr (client_parser_init j, [])) css' = Inl (q, resps) \<and>
      (resps = ds \<or> resps = butlast ds)"
    using client.run_raising [OF quiet, of css' ds] by (force simp: client_feed_run assms(7))
qed

theorem client_rejects_witness:
  "\<exists>q. foldl (client_feed (\<lambda>_. 0)) (Inr (client_parser_init 7, [])) [''HTTP/1.1 404'', ''not'', ''found''] = Inl (q, [])"
  using client_rejects [of "''HTTP/1.1 404not''" "[''HTTP/1.1 404'', ''not'', ''found'']" "''found''" "[]" 2000000
      "[HIAPI_HANDSHAKE, dec_str 2000000 @ newline # ''found'']" "\<lambda>_. 0" 7]
  by (simp add: HIAPI_HANDSHAKE_def)

end
