(* ===== verification/BinConnection.thy ===== *)
theory BinConnection
  imports BinServerParser BinClientParser
begin

text \<open>
  \<^verbatim>\<open>HttpApi/BinClient/Connection.cpp\<close>: one connection of the binary client. The system
  calls are parameters: \<^verbatim>\<open>send\<close> gives a count and whether \<^verbatim>\<open>errno\<close> is \<^verbatim>\<open>EAGAIN\<close>,
  \<^verbatim>\<open>recv\<close> a list of results. A request is its data and the identity of its callback;
  calls of callbacks are a log of completions. The bytes \<^verbatim>\<open>send\<close> took are returned. The
  step relation runs a connection against any partial sends and receives; its invariant joins
  the two parsers and the connection into one statement about what the peers see.
\<close>

section \<open>The code\<close>

record request =
  rq_id :: nat
  rq_data :: string

type_synonym completion = "nat \<times> bool \<times> string"

datatype conn_state = HANDSHAKING | ACTIVE | TERMINATING

text \<open>\<open>OutOfRange\<close> is \<^verbatim>\<open>std::out_of_range\<close> of \<^verbatim>\<open>substr\<close>; \<open>NoRequest\<close> stands for
  \<^verbatim>\<open>front()\<close> of an empty queue, which is undefined.\<close>

datatype conn_error = LostConnectionEx | ParserEx response_error | OutOfRange | NoRequest

record bin_conn =
  bc_parser :: client_parser
  bc_last_activity :: u64
  bc_keepalive_period :: u64
  bc_sent_requests :: "request list"
  bc_sock :: int
  bc_send_buffer :: string
  bc_state :: conn_state

definition crlf :: string where
  "crlf = [CHR 0x0D, CHR 0x0A]"

definition upgrade_request :: string where
  "upgrade_request = ''GET / HTTP/1.0'' @ crlf @ ''Host: hiapi'' @ crlf @ ''Connection: keep-alive'' @ crlf
     @ ''Upgrade: hiapi'' @ crlf @ crlf"

definition performSend :: "int \<Rightarrow> bool \<Rightarrow> bin_conn \<Rightarrow> bin_conn \<times> string \<times> conn_error option" where
  "performSend nsent again c =
     (if bc_send_buffer c = '''' then (c, '''', None)
      else if nsent \<le> 0 \<and> \<not> again then (c, '''', Some LostConnectionEx)
      else if int (length (bc_send_buffer c)) = nsent
      then (c\<lparr>bc_send_buffer := ''''\<rparr>, bc_send_buffer c, None)
      else if nsent < 0 \<or> int (length (bc_send_buffer c)) < nsent then (c, '''', Some OutOfRange)
      else (c\<lparr>bc_send_buffer := drop (nat nsent) (bc_send_buffer c)\<rparr>,
            take (nat nsent) (bc_send_buffer c), None))"

definition Connection_new ::
  "u64 \<Rightarrow> int \<Rightarrow> u64 \<Rightarrow> int \<Rightarrow> bool \<Rightarrow> bin_conn \<times> string \<times> conn_error option" where
  "Connection_new junk sock now nsent again =
     performSend nsent again
       \<lparr>bc_parser = client_parser_init junk, bc_last_activity = now, bc_keepalive_period = 5,
        bc_sent_requests = [], bc_sock = sock, bc_send_buffer = upgrade_request, bc_state = HANDSHAKING\<rparr>"

text \<open>The destructor completes what is outstanding.\<close>

definition Connection_close :: "bin_conn \<Rightarrow> completion list" where
  "Connection_close c = map (\<lambda>r. (rq_id r, False, '''')) (bc_sent_requests c)"

definition addRequest :: "request \<Rightarrow> bin_conn \<Rightarrow> bin_conn" where
  "addRequest req c = c\<lparr>bc_sent_requests := bc_sent_requests c @ [req],
     bc_send_buffer := bc_send_buffer c @ frame (rq_data req)\<rparr>"

definition onResponse :: "string \<Rightarrow> bin_conn \<Rightarrow> bin_conn \<times> completion list \<times> conn_error option" where
  "onResponse str c = (case bc_sent_requests c of
     [] \<Rightarrow> (c, [], Some NoRequest)
   | r # rs \<Rightarrow> (c\<lparr>bc_sent_requests := rs\<rparr>, [(rq_id r, True, str)], None))"

definition checkKeepAlive :: "u64 \<Rightarrow> int \<Rightarrow> bool \<Rightarrow> bin_conn \<Rightarrow> bin_conn \<times> string \<times> conn_error option" where
  "checkKeepAlive now nsent again c =
     (if bc_send_buffer c = '''' \<and> now - bc_last_activity c > bc_keepalive_period c
      then performSend nsent again
        (c\<lparr>bc_last_activity := now, bc_send_buffer := bc_send_buffer c @ KEEPALIVE_MESSAGE\<rparr>)
      else (c, '''', None))"

text \<open>
  The receive loop. On \<^verbatim>\<open>EINTR\<close> the code continues without calling \<^verbatim>\<open>recv\<close> again: the
  same result is examined for ever, which is \<open>None\<close> here. \<open>Some None\<close> is
  \<^verbatim>\<open>LostConnectionEx\<close>. When the script of results ends, the socket has nothing more.
\<close>

datatype recv_result = Bytes string | WouldBlock | Interrupted | RecvError | PeerClosed

partial_function (option) recv_loop ::
  "recv_result \<Rightarrow> recv_result list \<Rightarrow> string \<Rightarrow> string option option" where
  "recv_loop nread script readbf = (case nread of
     Bytes bf \<Rightarrow> (case script of [] \<Rightarrow> Some (Some (readbf @ bf))
                | r # rs \<Rightarrow> recv_loop r rs (readbf @ bf))
   | WouldBlock \<Rightarrow> Some (Some readbf)
   | Interrupted \<Rightarrow> recv_loop nread script readbf
   | RecvError \<Rightarrow> Some None
   | PeerClosed \<Rightarrow> Some None)"

fun handle_responses :: "string list \<Rightarrow> bin_conn \<Rightarrow> bin_conn \<times> completion list \<times> conn_error option" where
  "handle_responses [] c = (c, [], None)"
| "handle_responses (s # ss) c = (case onResponse s c of
     (c, done, Some e) \<Rightarrow> (c, done, Some e)
   | (c, done, None) \<Rightarrow> (case handle_responses ss c of (c, later, e) \<Rightarrow> (c, done @ later, e)))"

text \<open>\<open>set_parser\<close> stores the parser; the handshake callback, when it ran, has set the state.\<close>

definition set_parser :: "client_parser \<Rightarrow> bin_conn \<Rightarrow> bin_conn" where
  "set_parser p c = c\<lparr>bc_parser := p,
     bc_state := (if cp_handshaked (bc_parser c) < cp_handshaked p then ACTIVE else bc_state c)\<rparr>"

definition performRecv ::
  "(nat \<Rightarrow> u64) \<Rightarrow> recv_result \<Rightarrow> recv_result list \<Rightarrow> bin_conn \<Rightarrow> (bin_conn \<times> completion list \<times> conn_error option) option" where
  "performRecv junk nread script c = (case recv_loop nread script '''' of
     None \<Rightarrow> None
   | Some None \<Rightarrow> Some (c, [], Some LostConnectionEx)
   | Some (Some readbf) \<Rightarrow> Some
       (let (p, e) = (if readbf \<noteq> '''' then client_execute junk (bc_parser c) readbf else (bc_parser c, None));
            c = set_parser p c
        in case e of Some e \<Rightarrow> (c, [], Some (ParserEx e))
         | None \<Rightarrow> (let (resps, p, e) = client_drain junk p;
                        (c, done, e') = handle_responses resps (set_parser p c)
                    in (c, done, case e' of Some x \<Rightarrow> Some x | None \<Rightarrow> map_option ParserEx e))))"

section \<open>The receive loop\<close>

fun received :: "recv_result list \<Rightarrow> string option option" where
  "received [] = Some (Some '''')"
| "received (Bytes s # rs) = map_option (map_option ((@) s)) (received rs)"
| "received (WouldBlock # rs) = Some (Some '''')"
| "received (Interrupted # rs) = None"
| "received (RecvError # rs) = Some None"
| "received (PeerClosed # rs) = Some None"

lemma recv_loop_interrupted: "recv_loop Interrupted script buf = None"
proof -
  have "r \<noteq> Interrupted" if "recv_loop r s b = Some y" for r s b y
    by (rule recv_loop.raw_induct [of "\<lambda>r _ _ _. r \<noteq> Interrupted", OF _ that])
      (force split: recv_result.splits)
  then show ?thesis
    by (cases "recv_loop Interrupted script buf") auto
qed

lemma recv_loop_cases:
  "recv_loop (Bytes bf) script buf =
     (case script of [] \<Rightarrow> Some (Some (buf @ bf)) | r # rs \<Rightarrow> recv_loop r rs (buf @ bf))"
  "recv_loop WouldBlock script buf = Some (Some buf)"
  "recv_loop RecvError script buf = Some None" "recv_loop PeerClosed script buf = Some None"
  by (subst recv_loop.simps; simp)+

lemma recv_loop_received: "recv_loop r script buf = map_option (map_option ((@) buf)) (received (r # script))"
proof (induction script arbitrary: r buf)
  case Nil
  then show ?case
    by (cases r) (simp_all add: recv_loop_cases recv_loop_interrupted)
next
  case (Cons q script)
  then show ?case
    by (cases r) (simp_all add: recv_loop_cases recv_loop_interrupted option.map_comp comp_def)
qed

section \<open>A connection and its environment\<close>

text \<open>
  The connection with what happened around it: the bytes the kernel took, the requests
  added, what was appended to the send buffer, the pieces received and the completions. A step
  is one call; an \<open>OutOfRange\<close> exception is caught by the client, which goes on using the
  connection, while the other exceptions end it.
\<close>

record conn_sys =
  cs_conn :: bin_conn
  cs_wire :: string
  cs_added :: "request list"
  cs_items :: "client_item list"
  cs_rcvd :: "string list"
  cs_log :: "completion list"

definition keepalive_due :: "u64 \<Rightarrow> bin_conn \<Rightarrow> bool" where
  "keepalive_due now c \<longleftrightarrow> bc_send_buffer c = [] \<and> now - bc_last_activity c > bc_keepalive_period c"

inductive conn_reach :: "u64 \<Rightarrow> (nat \<Rightarrow> u64) \<Rightarrow> conn_sys \<Rightarrow> bool" for size0 junk where
  Connect: "Connection_new size0 sock now nsent again = (c, w, None) \<Longrightarrow>
    conn_reach size0 junk \<lparr>cs_conn = c, cs_wire = w, cs_added = [], cs_items = [], cs_rcvd = [], cs_log = []\<rparr>"
| Add: "conn_reach size0 junk s \<Longrightarrow>
    conn_reach size0 junk (s\<lparr>cs_conn := addRequest r (cs_conn s), cs_added := cs_added s @ [r],
                      cs_items := cs_items s @ [Message (rq_data r)]\<rparr>)"
| Send: "conn_reach size0 junk s \<Longrightarrow> performSend nsent again (cs_conn s) = (c, w, e) \<Longrightarrow> e \<noteq> Some LostConnectionEx \<Longrightarrow>
    conn_reach size0 junk (s\<lparr>cs_conn := c, cs_wire := cs_wire s @ w\<rparr>)"
| Tick: "conn_reach size0 junk s \<Longrightarrow> checkKeepAlive now nsent again (cs_conn s) = (c, w, e) \<Longrightarrow>
    e \<noteq> Some LostConnectionEx \<Longrightarrow>
    conn_reach size0 junk (s\<lparr>cs_conn := c, cs_wire := cs_wire s @ w,
      cs_items := cs_items s @ (if keepalive_due now (cs_conn s) then [KeepAlive] else [])\<rparr>)"
| Recv: "conn_reach size0 junk s \<Longrightarrow> performRecv junk r script (cs_conn s) = Some (c, done, None) \<Longrightarrow>
    received (r # script) = Some (Some buf) \<Longrightarrow>
    conn_reach size0 junk (s\<lparr>cs_conn := c, cs_rcvd := cs_rcvd s @ [buf], cs_log := cs_log s @ done\<rparr>)"

inductive_cases conn_reach_cases: "conn_reach size0 junk s"

fun item_data :: "client_item \<Rightarrow> string list" where
  "item_data KeepAlive = []"
| "item_data (Message d) = [d]"

lemma performSend_wire:
  "performSend nsent again c = (c', w, e) \<Longrightarrow> w @ bc_send_buffer c' = bc_send_buffer c \<and>
     bc_sent_requests c' = bc_sent_requests c \<and> bc_parser c' = bc_parser c"
  by (auto simp: performSend_def split: if_splits)

lemma checkKeepAlive_wire:
  "checkKeepAlive now nsent again c = (c', w, e) \<Longrightarrow>
     w @ bc_send_buffer c' = bc_send_buffer c @ (if keepalive_due now c then KEEPALIVE_MESSAGE else []) \<and>
     bc_sent_requests c' = bc_sent_requests c \<and> bc_parser c' = bc_parser c"
  by (auto simp: checkKeepAlive_def keepalive_due_def split: if_splits dest: performSend_wire)

lemma handle_responses_fifo:
  "handle_responses ss c = (c', done, None) \<Longrightarrow>
     length ss \<le> length (bc_sent_requests c) \<and>
     done = map2 (\<lambda>r s. (rq_id r, True, s)) (take (length ss) (bc_sent_requests c)) ss \<and>
     c' = c\<lparr>bc_sent_requests := drop (length ss) (bc_sent_requests c)\<rparr>"
proof (induction ss c arbitrary: c' "done" rule: handle_responses.induct)
  case (1 c)
  then show ?case by simp
next
  case (2 s ss c)
  then show ?case
    by (cases "bc_sent_requests c") (auto simp: onResponse_def split: prod.splits)
qed

lemma performRecv_feed:
  assumes "performRecv junk r script c = Some (c', done, None)" "received (r # script) = Some (Some buf)"
    and "client.quiet junk (Some (bc_parser c, out))"
  shows "\<exists>resps. client_feed junk (Inr (bc_parser c, out)) buf = Inr (bc_parser c', out @ resps) \<and>
    length resps \<le> length (bc_sent_requests c) \<and>
    done = map2 (\<lambda>r s. (rq_id r, True, s)) (take (length resps) (bc_sent_requests c)) resps \<and>
    bc_sent_requests c' = drop (length resps) (bc_sent_requests c) \<and> bc_send_buffer c' = bc_send_buffer c"
proof -
  have loop: "recv_loop r script [] = Some (Some buf)"
    by (simp add: recv_loop_received assms(2))
  have quiet: "client_parse junk (bc_parser c) = (bc_parser c, None)" "\<not> cp_got_response (bc_parser c)"
    using assms(3) by (simp_all add: client.quiet_def)
  have app: "client_append p [] = p" for p
    by (simp add: client_append_def)
  obtain p where p: "client_execute junk (bc_parser c) buf = (p, None)"
    using assms(1) loop quiet
    by (cases "buf = []") (auto simp: performRecv_def client_execute_def app Let_def split: prod.splits option.splits)
  then have p': "(if buf \<noteq> [] then client_execute junk (bc_parser c) buf else (bc_parser c, None)) = (p, None)"
    using quiet by (auto simp: client_execute_def app)
  obtain resps q eq where d: "client_drain junk p = (resps, q, eq)"
    by (metis surj_pair)
  have h: "handle_responses resps (set_parser q (set_parser p c)) = (c', done, None)" "eq = None"
    using assms(1) loop p' d
    by (auto simp: performRecv_def Let_def split: prod.splits option.splits if_splits)
  have "client_feed junk (Inr (bc_parser c, out)) buf = Inr (q, out @ resps)"
    using p d h(2) by (simp add: client_feed_def client_pump_def client_execute_def)
  then show ?thesis
    using handle_responses_fifo [OF h(1)] by (auto simp: set_parser_def)
qed

text \<open>The invariant: what was appended is what was sent and what is left to send; the
  completions pair the requests with the responses of the parser, in order; the queue holds the
  other requests.\<close>

definition conn_inv :: "u64 \<Rightarrow> (nat \<Rightarrow> u64) \<Rightarrow> conn_sys \<Rightarrow> bool" where
  "conn_inv size0 junk s \<longleftrightarrow>
     cs_wire s @ bc_send_buffer (cs_conn s) = upgrade_request @ concat (map item_bytes (cs_items s)) \<and>
     concat (map item_data (cs_items s)) = map rq_data (cs_added s) \<and>
     (\<exists>resps. foldl (client_feed junk) (Inr (client_parser_init size0, [])) (cs_rcvd s) =
          Inr (bc_parser (cs_conn s), resps) \<and>
        length resps \<le> length (cs_added s) \<and>
        cs_log s = map2 (\<lambda>r t. (rq_id r, True, t)) (take (length resps) (cs_added s)) resps \<and>
        bc_sent_requests (cs_conn s) = drop (length resps) (cs_added s))"

lemma conn_inv_reach: "conn_reach size0 junk s \<Longrightarrow> conn_inv size0 junk s"
proof (induction rule: conn_reach.induct)
  case (Connect sock now nsent again c w)
  then show ?case
    using performSend_wire [of nsent again _ c w None] by (auto simp: conn_inv_def Connection_new_def)
next
  case (Add s r)
  then show ?case
    by (auto simp: conn_inv_def addRequest_def)
next
  case (Send s nsent again c w e)
  then show ?case
    using performSend_wire [OF Send(2)] by (auto simp: conn_inv_def)
next
  case (Tick s now nsent again c w e)
  have "cs_wire s @ w @ bc_send_buffer c =
      upgrade_request @ concat (map item_bytes (cs_items s)) @ (if keepalive_due now (cs_conn s) then KEEPALIVE_MESSAGE else [])"
    using checkKeepAlive_wire [OF Tick(2)] Tick.IH unfolding conn_inv_def by (metis append_assoc)
  then show ?case
    using checkKeepAlive_wire [OF Tick(2)] Tick.IH by (auto simp: conn_inv_def)
next
  case (Recv s r script c "done" buf)
  obtain resps where fed: "foldl (client_feed junk) (Inr (client_parser_init size0, [])) (cs_rcvd s) =
      Inr (bc_parser (cs_conn s), resps)"
    and inv: "length resps \<le> length (cs_added s)"
      "cs_log s = map2 (\<lambda>r t. (rq_id r, True, t)) (take (length resps) (cs_added s)) resps"
      "bc_sent_requests (cs_conn s) = drop (length resps) (cs_added s)"
    using Recv.IH by (auto simp: conn_inv_def)
  have "client.quiet junk (Some (bc_parser (cs_conn s), resps))"
    using client.run_quiet [OF client_init_quiet, of junk size0 "cs_rcvd s"] fed by (simp add: client_feed_run)
  then obtain new where new: "client_feed junk (Inr (bc_parser (cs_conn s), resps)) buf = Inr (bc_parser c, resps @ new)"
      "length new \<le> length (bc_sent_requests (cs_conn s))"
      "done = map2 (\<lambda>r s. (rq_id r, True, s)) (take (length new) (bc_sent_requests (cs_conn s))) new"
      "bc_sent_requests c = drop (length new) (bc_sent_requests (cs_conn s))"
      "bc_send_buffer c = bc_send_buffer (cs_conn s)"
    using performRecv_feed [OF Recv(2,3)] by blast
  have "take (length (resps @ new)) (cs_added s) =
      take (length resps) (cs_added s) @ take (length new) (drop (length resps) (cs_added s))"
    by (simp add: take_add)
  then show ?case
    using Recv.IH fed inv new by (auto simp: conn_inv_def add.commute)
qed


section \<open>Properties\<close>

lemma conn_log_ids:
  assumes "conn_inv size0 junk s"
  shows "map fst (cs_log s @ Connection_close (cs_conn s)) = map rq_id (cs_added s)"
proof -
  obtain resps where r: "length resps \<le> length (cs_added s)"
      "cs_log s = map2 (\<lambda>r t. (rq_id r, True, t)) (take (length resps) (cs_added s)) resps"
      "bc_sent_requests (cs_conn s) = drop (length resps) (cs_added s)"
    using assms by (auto simp: conn_inv_def)
  have "map fst (cs_log s) = map rq_id (take (length resps) (cs_added s))"
    using r(1,2) by (intro nth_equalityI) simp_all
  then have "map fst (cs_log s @ Connection_close (cs_conn s)) =
      map rq_id (take (length resps) (cs_added s)) @ map rq_id (drop (length resps) (cs_added s))"
    by (simp add: Connection_close_def comp_def r(3))
  then show ?thesis
    by (metis append_take_drop_id map_append)
qed

lemma performSend_part:
  "0 < n \<Longrightarrow> n \<le> length (bc_send_buffer c) \<Longrightarrow> performSend (int n) again c =
     (c\<lparr>bc_send_buffer := drop n (bc_send_buffer c)\<rparr>, take n (bc_send_buffer c), None)"
  by (auto simp: performSend_def)

lemma item_requests:
  "concat (map (item_request pb) items) = map (\<lambda>d. Some (mk_request pb d)) (concat (map item_data items))"
  by (induction items) (auto split: client_item.splits elim: item_data.elims, case_tac a, simp_all)

text \<open>A run used by the witnesses: connect, add two requests, send them in two pieces.\<close>

definition demo_requests :: "request list" where
  "demo_requests = [\<lparr>rq_id = 1, rq_data = ''ab''\<rparr>, \<lparr>rq_id = 2, rq_data = []\<rparr>]"

lemma demo_run:
  "\<exists>s. conn_reach 0 (\<lambda>_. 0) s \<and> cs_added s = demo_requests \<and> bc_send_buffer (cs_conn s) = [] \<and>
     cs_wire s = upgrade_request @ frame ''ab'' @ frame []"
proof -
  let ?u = "upgrade_request" and ?r1 = "\<lparr>rq_id = 1, rq_data = ''ab''\<rparr>" and ?r2 = "\<lparr>rq_id = 2, rq_data = []\<rparr>"
  obtain c where c: "Connection_new 0 5 100 (int (length ?u)) False = (c, ?u, None)" "bc_send_buffer c = []"
    by (simp add: Connection_new_def performSend_def upgrade_request_def)
  define s0 where "s0 = \<lparr>cs_conn = c, cs_wire = ?u, cs_added = [], cs_items = [], cs_rcvd = [], cs_log = []\<rparr>"
  have 0: "conn_reach 0 (\<lambda>_. 0) s0"
    unfolding s0_def by (rule conn_reach.Connect [OF c(1)])
  define s1 where "s1 = s0\<lparr>cs_conn := addRequest ?r1 (cs_conn s0), cs_added := cs_added s0 @ [?r1],
                      cs_items := cs_items s0 @ [Message (rq_data ?r1)]\<rparr>"
  have 1: "conn_reach 0 (\<lambda>_. 0) s1"
    unfolding s1_def by (rule conn_reach.Add [OF 0])
  define s2 where "s2 = s1\<lparr>cs_conn := addRequest ?r2 (cs_conn s1), cs_added := cs_added s1 @ [?r2],
                      cs_items := cs_items s1 @ [Message (rq_data ?r2)]\<rparr>"
  have 2: "conn_reach 0 (\<lambda>_. 0) s2"
    unfolding s2_def by (rule conn_reach.Add [OF 1])
  have buf: "bc_send_buffer (cs_conn s2) = frame ''ab'' @ frame []"
    by (simp add: s2_def s1_def s0_def addRequest_def c(2))
  have frames: "frame ''ab'' = ''2'' @ newline # ''ab''" "frame [] = ''0'' @ [newline]"
    by (simp_all add: frame_def dec_str_def dec_digits.simps digit_chars flip: numeral_2_eq_2)
  obtain c3 where 3: "performSend 3 False (cs_conn s2) = (c3, take 3 (frame ''ab'' @ frame []), None)"
      "bc_send_buffer c3 = drop 3 (frame ''ab'' @ frame [])"
    using performSend_part [of 3 "cs_conn s2" False] by (simp add: buf frames)
  obtain c4 where 4: "performSend 3 False c3 = (c4, bc_send_buffer c3, None)" "bc_send_buffer c4 = []"
    using performSend_part [of 3 c3 False] 3(2) by (simp add: frames)
  define s3 where "s3 = s2\<lparr>cs_conn := c3, cs_wire := cs_wire s2 @ take 3 (frame ''ab'' @ frame [])\<rparr>"
  have r3: "conn_reach 0 (\<lambda>_. 0) s3"
    unfolding s3_def by (rule conn_reach.Send [OF 2 3(1)]) simp
  define s4 where "s4 = s3\<lparr>cs_conn := c4, cs_wire := cs_wire s3 @ bc_send_buffer c3\<rparr>"
  have "performSend 3 False (cs_conn s3) = (c4, bc_send_buffer c3, None)"
    using 4(1) by (simp add: s3_def)
  then have "conn_reach 0 (\<lambda>_. 0) s4"
    unfolding s4_def by (rule conn_reach.Send [OF r3]) simp
  then show ?thesis
    using 3(2) 4(2)
    by (intro exI [of _ s4]) (simp add: s4_def s3_def s2_def s1_def s0_def demo_requests_def frames)
qed

text \<open>
  C2: Over the life of a connection, whatever the partial sends and receives, the callback of
  every request added runs exactly once and in the order of the requests: with success and the
  next response of the parser, or, for those left when the connection is destroyed, with failure.
\<close>

theorem connection_completes_once:
  assumes "conn_reach size0 junk s"
  shows "(\<exists>p resps. foldl (client_feed junk) (Inr (client_parser_init size0, [])) (cs_rcvd s) = Inr (p, resps) \<and>
      cs_log s = map2 (\<lambda>r t. (rq_id r, True, t)) (take (length resps) (cs_added s)) resps) \<and>
    map fst (cs_log s @ Connection_close (cs_conn s)) = map rq_id (cs_added s) \<and>
    (\<forall>x \<in> set (Connection_close (cs_conn s)). snd x = (False, []))"
  using conn_inv_reach [OF assms] conn_log_ids [OF conn_inv_reach [OF assms]]
  by (auto simp: conn_inv_def Connection_close_def)

theorem connection_completes_once_witness:
  "\<exists>s. conn_reach 0 (\<lambda>_. 0) s \<and> map fst (cs_log s @ Connection_close (cs_conn s)) = [1, 2]"
proof -
  obtain s where s: "conn_reach 0 (\<lambda>_. 0) s" "cs_added s = demo_requests"
    using demo_run by blast
  show ?thesis
    using connection_completes_once [OF s(1)] s by (intro exI [of _ s]) (simp add: demo_requests_def)
qed

text \<open>What a server receives from a connection that has sent everything.\<close>

lemma server_receives_added:
  assumes "conn_reach size0 junk s" "bc_send_buffer (cs_conn s) = []"
    and "\<forall>r \<in> set (cs_added s). length (rq_data r) \<le> 3 * 1024 * 1024"
    and "upgrade_request @ concat css = cs_wire s"
  shows "\<exists>q. foldl (server_feed junk' pb) (Inr (server_parser_init j, [])) css =
    Inr (q, map (\<lambda>r. Some (mk_request pb (rq_data r))) (cs_added s)) \<and> at_start q"
proof -
  have inv: "conn_inv size0 junk s"
    by (rule conn_inv_reach [OF assms(1)])
  then have items: "concat css = concat (map item_bytes (cs_items s))"
      "concat (map item_data (cs_items s)) = map rq_data (cs_added s)"
    using assms(2,4) by (auto simp: conn_inv_def)
  have "item_ok i" if "i \<in> set (cs_items s)" for i
  proof (cases i)
    case (Message d)
    then have "d \<in> set (concat (map item_data (cs_items s)))"
      using that by (auto intro!: bexI [of _ i])
    then show ?thesis
      using assms(3) items(2) Message by auto
  qed simp
  then show ?thesis
    using server_receives_cut [OF at_start_init _ items(1), of junk' pb j "[]"] items(2)
    by (auto simp: list_all_iff item_requests comp_def)
qed

text \<open>
  C9: End to end: once the send buffer of a connection is empty, a server that receives the
  bytes behind the upgrade request, in any pieces, has queued exactly the requests added, in order.
\<close>

theorem connection_reaches_server:
  assumes "conn_reach size0 junk s" "bc_send_buffer (cs_conn s) = []"
    and "\<forall>r \<in> set (cs_added s). length (rq_data r) \<le> 3 * 1024 * 1024"
    and "upgrade_request @ concat css = cs_wire s"
  shows "\<exists>q. foldl (server_feed junk' pb) (Inr (server_parser_init j, [])) css =
    Inr (q, map (\<lambda>r. Some (mk_request pb (rq_data r))) (cs_added s)) \<and> at_start q"
  by (rule server_receives_added [OF assms])

theorem connection_reaches_server_witness:
  "\<exists>q. foldl (server_feed (\<lambda>_. 3) (\<lambda>d. (d, []))) (Inr (server_parser_init 7, [])) [frame ''ab'' @ frame []] =
    Inr (q, [Some (mk_request (\<lambda>d. (d, [])) ''ab''), Some (mk_request (\<lambda>d. (d, [])) [])]) \<and> at_start q"
proof -
  obtain s where s: "conn_reach 0 (\<lambda>_. 0) s" "cs_added s = demo_requests" "bc_send_buffer (cs_conn s) = []"
      "cs_wire s = upgrade_request @ frame ''ab'' @ frame []"
    using demo_run by blast
  show ?thesis
    using connection_reaches_server [OF s(1,3), of "[frame ''ab'' @ frame []]" "\<lambda>_. 3" "\<lambda>d. (d, [])" 7] s
    by (simp add: demo_requests_def)
qed

lemma received_diverges: "received rs = None \<longleftrightarrow> (\<exists>bs rest. rs = map Bytes bs @ Interrupted # rest)"
proof (induction rs rule: received.induct)
  case (2 s rs)
  show ?case
  proof
    assume "received (Bytes s # rs) = None"
    then obtain bs rest where "rs = map Bytes bs @ Interrupted # rest"
      using 2 by auto
    then have "Bytes s # rs = map Bytes (s # bs) @ Interrupted # rest"
      by simp
    then show "\<exists>bs rest. Bytes s # rs = map Bytes bs @ Interrupted # rest"
      by blast
  next
    assume "\<exists>bs rest. Bytes s # rs = map Bytes bs @ Interrupted # rest"
    then obtain bs rest where "Bytes s # rs = map Bytes bs @ Interrupted # rest"
      by blast
    then show "received (Bytes s # rs) = None"
      using 2 by (cases bs) auto
  qed
next
  case (4 rs)
  have "Interrupted # rs = map Bytes [] @ Interrupted # rs"
    by simp
  then show ?case
    by (metis received.simps(4))
qed (auto simp: Cons_eq_append_conv)

text \<open>
  The receive loop returns unless a \<^verbatim>\<open>recv\<close> is interrupted by a signal: then it examines
  the same result for ever. Without an interruption \<^verbatim>\<open>performRecv\<close> returns.
\<close>

lemma recv_loop_hangs_on_interrupt:
  "(recv_loop r script buf = None) = (\<exists>bs rest. r # script = map Bytes bs @ Interrupted # rest) \<and>
   (performRecv junk r script c = None) = (\<exists>bs rest. r # script = map Bytes bs @ Interrupted # rest)"
  using received_diverges [of "r # script"]
  by (auto simp: recv_loop_received performRecv_def simp del: received.simps split: option.splits)

text \<open>
  A full socket makes \<^verbatim>\<open>performSend\<close> raise \<^verbatim>\<open>std::out_of_range\<close> with nothing lost:
  \<^verbatim>\<open>send\<close> gives -1 with \<^verbatim>\<open>EAGAIN\<close> and the code takes the substring from -1. Every count the
  kernel can give moves exactly that many bytes from the buffer to the wire.
\<close>

lemma performSend_outcomes:
  assumes "bc_send_buffer c \<noteq> []" "0 < n" "n \<le> length (bc_send_buffer c)"
  shows "performSend (- 1) True c = (c, [], Some OutOfRange) \<and>
    performSend (- 1) False c = (c, [], Some LostConnectionEx) \<and>
    performSend (int n) again c =
      (c\<lparr>bc_send_buffer := drop n (bc_send_buffer c)\<rparr>, take n (bc_send_buffer c), None)"
  using assms by (auto simp: performSend_def performSend_part)

lemma performSend_outcomes_witness:
  "snd (snd (performSend (- 1) True (addRequest \<lparr>rq_id = 1, rq_data = ''x''\<rparr>
     (fst (Connection_new 0 5 100 (int (length upgrade_request)) False))))) = Some OutOfRange"
  using performSend_outcomes [of "addRequest \<lparr>rq_id = 1, rq_data = ''x''\<rparr>
     (fst (Connection_new 0 5 100 (int (length upgrade_request)) False))" 1 False]
  by (simp add: addRequest_def frame_def Suc_le_eq)

end
