(* ===== verification/BinClientA.thy ===== *)
theory BinClientA
  imports BinConnection "HOL-Library.Multiset" "HOL-Library.Sublist"
begin

text \<open>
  \<^verbatim>\<open>HttpApi/BinClient/BinClientA.cpp\<close>: the pool of connections of the binary client. A
  connection object is reached through \<^verbatim>\<open>m_connections\<close> under its socket;
  \<^verbatim>\<open>m_free_connections\<close> holds pointers to objects of that map under the same socket, so it is
  modelled by its sockets. The watcher is the set of watched sockets. The environment of a call (the
  socket \<^verbatim>\<open>connect\<close> returned, what \<^verbatim>\<open>send\<close> and \<^verbatim>\<open>recv\<close> gave, the events of a round)
  is a parameter. What the code leaves undefined is the result \<open>Inl Undefined\<close>.
\<close>

section \<open>The code\<close>

record bin_client =
  cl_conns :: "(int, bin_conn) omap"
  cl_free :: "(int, unit) omap"
  cl_new :: "request list"
  cl_max :: nat
  cl_watched :: "(int, unit) omap"
  cl_log :: "completion list"

datatype client_error = Hang | Undefined

text \<open>What the system does for a new connection: the socket (\<open>None\<close>: \<^verbatim>\<open>CannotConnectEx\<close>),
  the time, and the result of the send in its constructor.\<close>

type_synonym connect_env = "int option \<times> u64 \<times> int \<times> bool"

definition establishNewConnection ::
  "u64 \<Rightarrow> connect_env \<Rightarrow> bin_client \<Rightarrow> bin_client \<times> conn_error option" where
  "establishNewConnection junk env cl = (case env of
     (None, _) \<Rightarrow> (cl, None)
   | (Some sock, now, nsent, again) \<Rightarrow> (case Connection_new junk sock now nsent again of
       (c, w, Some e) \<Rightarrow> (cl, Some e)
     | (c, w, None) \<Rightarrow> (cl\<lparr>cl_conns := om_ins sock c (cl_conns cl),
                           cl_watched := om_put sock () (cl_watched cl)\<rparr>, None)))"

definition removeConnection :: "int \<Rightarrow> bin_client \<Rightarrow> bin_client" where
  "removeConnection sock cl = cl\<lparr>cl_watched := om_erase sock (cl_watched cl),
     cl_conns := om_erase sock (cl_conns cl), cl_free := om_erase sock (cl_free cl)\<rparr>"

text \<open>The lost connection object is destroyed when the last pointer to it goes, behind the
  new connection; exceptions of the latter are swallowed.\<close>

definition onLostConnection :: "u64 \<Rightarrow> connect_env \<Rightarrow> int \<Rightarrow> bin_client \<Rightarrow> bin_client" where
  "onLostConnection junk env sock cl = (case om_find (cl_conns cl) sock of
     None \<Rightarrow> cl
   | Some c \<Rightarrow> (let cl = fst (establishNewConnection junk env (removeConnection sock cl))
                in cl\<lparr>cl_log := cl_log cl @ Connection_close c\<rparr>))"

definition client_performSend ::
  "u64 \<Rightarrow> connect_env \<Rightarrow> int \<Rightarrow> bool \<Rightarrow> int \<Rightarrow> bin_client \<Rightarrow> bin_client" where
  "client_performSend junk env nsent again sock cl = (case om_find (cl_conns cl) sock of
     None \<Rightarrow> cl
   | Some c \<Rightarrow> (let (c, w, e) = performSend nsent again c;
                    cl = cl\<lparr>cl_conns := om_put sock c (cl_conns cl)\<rparr>
                in if e = Some LostConnectionEx then onLostConnection junk env sock cl else cl))"

text \<open>\<open>stack\<close> gives what the uninitialised reads of this call find.\<close>

definition client_onRead ::
  "u64 \<Rightarrow> connect_env \<Rightarrow> (nat \<Rightarrow> u64) \<Rightarrow> recv_result \<Rightarrow> recv_result list \<Rightarrow> int \<Rightarrow> bin_client \<Rightarrow> client_error + bin_client" where
  "client_onRead junk env stack nread script sock cl = (case om_find (cl_conns cl) sock of
     None \<Rightarrow> Inr cl
   | Some c \<Rightarrow> (case performRecv stack nread script c of
       None \<Rightarrow> Inl Hang
     | Some (c, done, e) \<Rightarrow>
         (let cl = cl\<lparr>cl_conns := om_put sock c (cl_conns cl), cl_log := cl_log cl @ done\<rparr>
          in case e of None \<Rightarrow> Inr cl
           | Some NoRequest \<Rightarrow> Inl Undefined
           | Some OutOfRange \<Rightarrow> Inr cl
           | Some LostConnectionEx \<Rightarrow> Inr (onLostConnection junk env sock cl)
           | Some (ParserEx _) \<Rightarrow> Inr (onLostConnection junk env sock cl))))"

definition client_onWrite ::
  "u64 \<Rightarrow> connect_env \<Rightarrow> int \<Rightarrow> bool \<Rightarrow> int \<Rightarrow> bin_client \<Rightarrow> bin_client" where
  "client_onWrite junk env nsent again sock cl = (case om_find (cl_conns cl) sock of
     None \<Rightarrow> cl
   | Some conn \<Rightarrow>
       if bc_state conn = ACTIVE
       then if bc_send_buffer conn = ''''
            then (case cl_new cl of
                    req # reqs \<Rightarrow> client_performSend junk env nsent again sock
                      (cl\<lparr>cl_conns := om_put sock (addRequest req conn) (cl_conns cl), cl_new := reqs\<rparr>)
                  | [] \<Rightarrow> cl\<lparr>cl_free := om_put sock () (cl_free cl)\<rparr>)
            else client_performSend junk env nsent again sock cl
       else client_performSend junk env nsent again sock
              (if bc_send_buffer conn = '''' then cl\<lparr>cl_free := om_put sock () (cl_free cl)\<rparr> else cl))"

definition client_onError :: "u64 \<Rightarrow> connect_env \<Rightarrow> int \<Rightarrow> bin_client \<Rightarrow> bin_client" where
  "client_onError junk env sock cl = (case om_find (cl_conns cl) sock of
     None \<Rightarrow> cl | Some _ \<Rightarrow> onLostConnection junk env sock cl)"

definition client_call :: "request \<Rightarrow> bin_client \<Rightarrow> bin_client" where
  "client_call req cl = cl\<lparr>cl_new := cl_new cl @ [req]\<rparr>"

text \<open>
  \<open>ser\<close> is \<^verbatim>\<open>RequestPb::SerializeAsString\<close> of a message with the method and the parameters, in
  the order of the map. A signed call does nothing: the caller never hears of it.
\<close>

definition buildRequest ::
  "(string \<Rightarrow> (string \<times> string) list \<Rightarrow> string) \<Rightarrow> string \<Rightarrow> (string, string) omap \<Rightarrow> string" where
  "buildRequest ser method params = ser method params"

definition BinClientA_call ::
  "(string \<Rightarrow> (string \<times> string) list \<Rightarrow> string) \<Rightarrow> string \<Rightarrow> (string, string) omap \<Rightarrow> nat \<Rightarrow> bin_client \<Rightarrow> bin_client" where
  "BinClientA_call ser method params onFinished cl =
     client_call \<lparr>rq_id = onFinished, rq_data = buildRequest ser method params\<rparr> cl"

definition BinClientA_callSigned :: "string \<Rightarrow> (string, string) omap \<Rightarrow> nat \<Rightarrow> bin_client \<Rightarrow> bin_client" where
  "BinClientA_callSigned method params onFinished cl = cl"

text \<open>The loop of \<open>putRequestsToFreeConnections\<close> over the free sockets in order. The
  iterator is erased behind \<^verbatim>\<open>performSend\<close>; when that call lost the connection, the element is
  gone already and erasing it again is undefined.\<close>

fun put_loop ::
  "u64 \<Rightarrow> connect_env \<Rightarrow> int \<Rightarrow> bool \<Rightarrow> request \<Rightarrow> (int \<times> unit) list \<Rightarrow> bin_client \<Rightarrow> client_error + bin_client" where
  "put_loop junk env nsent again req [] cl = Inr cl"
| "put_loop junk env nsent again req ((sock, _) # it) cl = (case om_find (cl_conns cl) sock of
     None \<Rightarrow> Inl Undefined
   | Some conn \<Rightarrow>
       if bc_state conn = ACTIVE
       then (let cl = cl\<lparr>cl_new := tl (cl_new cl), cl_conns := om_put sock (addRequest req conn) (cl_conns cl)\<rparr>;
                 cl = client_performSend junk env nsent again sock cl
             in if om_find (cl_free cl) sock = None then Inl Undefined
                else Inr (cl\<lparr>cl_free := om_erase sock (cl_free cl)\<rparr>))
       else put_loop junk env nsent again req it cl)"

definition putRequestsToFreeConnections ::
  "u64 \<Rightarrow> connect_env \<Rightarrow> int \<Rightarrow> bool \<Rightarrow> bin_client \<Rightarrow> client_error + bin_client" where
  "putRequestsToFreeConnections junk env nsent again cl = (case cl_new cl of
     [] \<Rightarrow> Inr cl
   | req # _ \<Rightarrow> if cl_free cl = [] then Inr cl else put_loop junk env nsent again req (cl_free cl) cl)"

text \<open>\<open>checkKeepAlive\<close> walks all connections; an exception leaves the walk (\<open>False\<close>).\<close>

fun keepalive_loop ::
  "u64 \<Rightarrow> (int \<Rightarrow> int \<times> bool) \<Rightarrow> (int \<times> bin_conn) list \<Rightarrow> bin_client \<Rightarrow> bin_client \<times> bool" where
  "keepalive_loop now sent [] cl = (cl, True)"
| "keepalive_loop now sent ((sock, conn) # it) cl =
     (let (c, w, e) = checkKeepAlive now (fst (sent sock)) (snd (sent sock)) conn;
          cl = cl\<lparr>cl_conns := om_put sock c (cl_conns cl)\<rparr>
      in if e = None then keepalive_loop now sent it cl else (cl, False))"

definition client_checkKeepAlive ::
  "u64 \<Rightarrow> (int \<Rightarrow> int \<times> bool) \<Rightarrow> bin_client \<Rightarrow> bin_client \<times> bool" where
  "client_checkKeepAlive now sent cl = keepalive_loop now sent (cl_conns cl) cl"

datatype client_event =
    EvRead int connect_env "nat \<Rightarrow> u64" recv_result "recv_result list"
  | EvWrite int connect_env int bool
  | EvError int connect_env

fun run_event :: "u64 \<Rightarrow> client_event \<Rightarrow> bin_client \<Rightarrow> client_error + bin_client" where
  "run_event junk (EvRead sock env stack nread script) cl = client_onRead junk env stack nread script sock cl"
| "run_event junk (EvWrite sock env nsent again) cl = Inr (client_onWrite junk env nsent again sock cl)"
| "run_event junk (EvError sock env) cl = Inr (client_onError junk env sock cl)"

fun client_events :: "u64 \<Rightarrow> client_event list \<Rightarrow> bin_client \<Rightarrow> client_error + bin_client" where
  "client_events junk [] cl = Inr cl"
| "client_events junk (ev # evs) cl = (case run_event junk ev cl of
     Inl e \<Rightarrow> Inl e | Inr cl \<Rightarrow> client_events junk evs cl)"

record round_env =
  re_connect :: connect_env
  re_reconnect :: connect_env
  re_nsent :: int
  re_again :: bool
  re_now :: u64
  re_keepalive :: "int \<Rightarrow> int \<times> bool"
  re_events :: "client_event list"

text \<open>One round: an exception of the first or the third call skips the rest of it.\<close>

definition client_handleEvents :: "u64 \<Rightarrow> round_env \<Rightarrow> bin_client \<Rightarrow> client_error + bin_client" where
  "client_handleEvents junk env cl =
     (let (cl, e) = (if length (cl_conns cl) < cl_max cl
                     then establishNewConnection junk (re_connect env) cl else (cl, None))
      in if e \<noteq> None then Inr cl
         else case putRequestsToFreeConnections junk (re_reconnect env) (re_nsent env) (re_again env) cl of
           Inl x \<Rightarrow> Inl x
         | Inr cl \<Rightarrow> (let (cl, ok) = client_checkKeepAlive (re_now env) (re_keepalive env) cl
                      in if ok then client_events junk (re_events env) cl else Inr cl))"

text \<open>The constructor: up to \<open>max\<close> connections; an exception or none at all fails.\<close>

fun reinitConnections :: "u64 \<Rightarrow> connect_env list \<Rightarrow> bin_client \<Rightarrow> bin_client \<times> conn_error option" where
  "reinitConnections junk [] cl = (cl, None)"
| "reinitConnections junk (env # envs) cl = (case establishNewConnection junk env cl of
     (cl, Some e) \<Rightarrow> (cl, Some e)
   | (cl, None) \<Rightarrow> reinitConnections junk envs cl)"

definition BinClientA_new :: "u64 \<Rightarrow> connect_env list \<Rightarrow> bin_client option" where
  "BinClientA_new junk envs =
     (case reinitConnections junk envs \<lparr>cl_conns = [], cl_free = [], cl_new = [], cl_max = length envs,
             cl_watched = [], cl_log = []\<rparr> of
        (cl, None) \<Rightarrow> if cl_conns cl = [] then None else Some cl
      | (_, Some _) \<Rightarrow> None)"

section \<open>Conservation of requests\<close>

text \<open>The identities of the requests waiting in the queues of the connections of a map, and
  those anywhere in the client: not yet sent, sent, or completed.\<close>

definition conn_ids :: "bin_conn \<Rightarrow> nat multiset" where
  "conn_ids c = mset (map rq_id (bc_sent_requests c))"

definition conns_ids :: "(int, bin_conn) omap \<Rightarrow> nat multiset" where
  "conns_ids m = sum_list (map (\<lambda>e. conn_ids (snd e)) m)"

definition held :: "bin_client \<Rightarrow> nat multiset" where
  "held cl = mset (map rq_id (cl_new cl)) + conns_ids (cl_conns cl) + mset (map fst (cl_log cl))"

lemma conns_ids_put:
  "om_inv m \<Longrightarrow> om_find m s = Some c \<Longrightarrow> conns_ids (om_put s c' m) + conn_ids c = conns_ids m + conn_ids c'"
proof (induction m)
  case Nil
  then show ?case by simp
next
  case (Cons e m)
  obtain k v where e: "e = (k, v)" by (cases e)
  show ?case
  proof (cases "s = k")
    case True
    then show ?thesis
      using Cons.prems e by (simp add: conns_ids_def om_find_def)
  next
    case False
    then have f: "om_find m s = Some c" "om_inv m"
      using Cons.prems e by (simp_all add: om_find_def om_inv_def)
    then have "s \<in> fst ` set m"
      by (auto simp: om_find_def dest: map_of_SomeD intro: rev_image_eqI)
    then have "\<not> s < k"
      using Cons.prems(1) e by (auto simp: om_inv_def)
    then show ?thesis
      using Cons.IH [OF f(2,1)] False e by (simp add: conns_ids_def ac_simps)
  qed
qed

lemma om_erase_absent: "om_find m s = None \<Longrightarrow> om_erase s m = m"
  by (auto simp: om_find_def om_erase_def map_of_eq_None_iff intro!: filter_True)

lemma conns_ids_erase:
  "om_inv m \<Longrightarrow> om_find m s = Some c \<Longrightarrow> conns_ids (om_erase s m) + conn_ids c = conns_ids m"
proof (induction m)
  case Nil
  then show ?case by simp
next
  case (Cons e m)
  obtain k v where e: "e = (k, v)" by (cases e)
  have "om_inv m"
    using Cons.prems(1) by (simp add: om_inv_def)
  show ?case
  proof (cases "s = k")
    case True
    then have "s \<notin> fst ` set m"
      using Cons.prems(1) e by (auto simp: om_inv_def)
    then have "om_erase s m = m"
      by (intro om_erase_absent) (simp add: om_find_def map_of_eq_None_iff)
    then show ?thesis
      using True Cons.prems e by (simp add: conns_ids_def om_find_def om_erase_def)
  next
    case False
    then have "om_find m s = Some c"
      using Cons.prems e by (simp add: om_find_def)
    then show ?thesis
      using Cons.IH [OF \<open>om_inv m\<close>] False e by (simp add: conns_ids_def om_erase_def ac_simps)
  qed
qed

lemma conns_ids_put_new: "om_find m s = None \<Longrightarrow> conns_ids (om_put s c m) = conns_ids m + conn_ids c"
  by (induction s c m rule: om_put.induct) (auto simp: conns_ids_def om_find_def ac_simps split: if_splits)

lemma conns_ids_ins: "conn_ids c = {#} \<Longrightarrow> conns_ids (om_ins s c m) = conns_ids m"
  by (auto simp: om_ins_def conns_ids_put_new split: option.splits)

text \<open>What an operation keeps: the maps are maps, every free socket has a connection (so that
  its pointer is the one of the map), and no request is lost or doubled.\<close>

definition client_ok :: "bin_client \<Rightarrow> bool" where
  "client_ok cl \<longleftrightarrow> om_inv (cl_conns cl) \<and> om_inv (cl_free cl) \<and>
     (\<forall>s. om_find (cl_free cl) s \<noteq> None \<longrightarrow> om_find (cl_conns cl) s \<noteq> None)"

definition keeps :: "bin_client \<Rightarrow> bin_client \<Rightarrow> bool" where
  "keeps cl cl' \<longleftrightarrow> (client_ok cl \<longrightarrow> client_ok cl' \<and> held cl' = held cl)"

lemma keeps_refl [simp]: "keeps cl cl"
  by (simp add: keeps_def)

lemma keeps_trans: "keeps a b \<Longrightarrow> keeps b c \<Longrightarrow> keeps a c"
  by (auto simp: keeps_def)

lemma new_conn_ids: "Connection_new junk s now n again = (c, w, None) \<Longrightarrow> conn_ids c = {#}"
  using performSend_wire [of n again _ c w None] by (auto simp: Connection_new_def conn_ids_def)

lemma establish_keeps: "establishNewConnection junk env cl = (cl', e) \<Longrightarrow> keeps cl cl'"
  by (auto simp: establishNewConnection_def keeps_def held_def client_ok_def conns_ids_ins new_conn_ids
      split: prod.splits option.splits if_splits)

lemma close_ids: "image_mset fst (mset (Connection_close c)) = conn_ids c"
  by (simp add: Connection_close_def conn_ids_def image_mset.compositionality comp_def)

lemma lost_keeps: "keeps cl (onLostConnection junk env sock cl)"
proof (cases "om_find (cl_conns cl) sock")
  case None
  then show ?thesis by (simp add: onLostConnection_def)
next
  case (Some c)
  let ?r = "removeConnection sock cl"
  obtain cl2 e where e: "establishNewConnection junk env ?r = (cl2, e)"
    by (metis surj_pair)
  have "client_ok cl2 \<and> held cl2 + conn_ids c = held cl" if ok: "client_ok cl"
  proof -
    have "client_ok ?r"
      using ok by (simp add: removeConnection_def client_ok_def)
    then have "held cl2 = held ?r" "client_ok cl2"
      using establish_keeps [OF e] by (simp_all add: keeps_def)
    moreover have "om_inv (cl_conns cl)"
      using ok by (simp add: client_ok_def)
    ultimately show ?thesis
      using conns_ids_erase [OF _ Some] by (simp add: held_def removeConnection_def ac_simps)
  qed
  then show ?thesis
    using Some e by (auto simp: onLostConnection_def keeps_def held_def close_ids client_ok_def ac_simps)
qed

lemma put_keeps:
  assumes "om_find (cl_conns cl) sock = Some c" "conn_ids c' = conn_ids c"
  shows "keeps cl (cl\<lparr>cl_conns := om_put sock c' (cl_conns cl)\<rparr>)"
  using assms conns_ids_put [of "cl_conns cl" sock c c'] by (auto simp: keeps_def held_def client_ok_def)

lemma performSend_ids: "performSend n again c = (c', w, e) \<Longrightarrow> conn_ids c' = conn_ids c"
  using performSend_wire by (auto simp: conn_ids_def)

lemma checkKeepAlive_ids: "checkKeepAlive now n again c = (c', w, e) \<Longrightarrow> conn_ids c' = conn_ids c"
  using checkKeepAlive_wire by (auto simp: conn_ids_def)

lemma client_performSend_keeps: "keeps cl (client_performSend junk env nsent again sock cl)"
  by (auto simp: client_performSend_def Let_def split: option.split prod.split
      intro!: put_keeps keeps_trans [OF put_keeps lost_keeps] dest: performSend_ids)

lemma add_keeps:
  assumes "om_find (cl_conns cl) sock = Some c" "cl_new cl = req # reqs"
  shows "keeps cl (cl\<lparr>cl_conns := om_put sock (addRequest req c) (cl_conns cl), cl_new := reqs\<rparr>)"
proof -
  have "conn_ids (addRequest req c) = add_mset (rq_id req) (conn_ids c)"
    by (simp add: conn_ids_def addRequest_def)
  then show ?thesis
    using conns_ids_put [of "cl_conns cl" sock c "addRequest req c"] assms
    by (auto simp: keeps_def held_def client_ok_def)
qed

lemma free_keeps: "om_find (cl_conns cl) sock \<noteq> None \<Longrightarrow> keeps cl (cl\<lparr>cl_free := om_put sock () (cl_free cl)\<rparr>)"
  by (auto simp: keeps_def held_def client_ok_def)

lemma client_onWrite_keeps: "keeps cl (client_onWrite junk env nsent again sock cl)"
  by (auto simp: client_onWrite_def split: option.split list.split
      intro!: free_keeps keeps_trans [OF add_keeps client_performSend_keeps]
        keeps_trans [OF free_keeps client_performSend_keeps] client_performSend_keeps)

lemma handle_responses_ids:
  "handle_responses ss c = (c', done, e) \<Longrightarrow> conn_ids c' + mset (map fst done) = conn_ids c"
proof (induction ss c arbitrary: c' "done" e rule: handle_responses.induct)
  case (1 c)
  then show ?case by simp
next
  case (2 s ss c)
  then show ?case
    by (cases "bc_sent_requests c") (auto simp: onResponse_def conn_ids_def split: prod.splits)
qed

lemma performRecv_ids:
  "performRecv junk r script c = Some (c', done, e) \<Longrightarrow> conn_ids c' + mset (map fst done) = conn_ids c"
  by (auto simp: performRecv_def Let_def split: option.splits prod.splits if_splits
      dest!: handle_responses_ids) (auto simp: conn_ids_def set_parser_def)

lemma recv_put_keeps:
  assumes "om_find (cl_conns cl) sock = Some c" "conn_ids c' + mset (map fst done) = conn_ids c"
  shows "keeps cl (cl\<lparr>cl_conns := om_put sock c' (cl_conns cl), cl_log := cl_log cl @ done\<rparr>)"
proof -
  have "om_inv (cl_conns cl) \<Longrightarrow> conns_ids (om_put sock c' (cl_conns cl)) + mset (map fst done) = conns_ids (cl_conns cl)"
  proof -
    assume "om_inv (cl_conns cl)"
    from conns_ids_put [OF this assms(1), of c']
    have "(conns_ids (om_put sock c' (cl_conns cl)) + mset (map fst done)) + conn_ids c' = conns_ids (cl_conns cl) + conn_ids c'"
      by (simp add: ac_simps flip: assms(2))
    then show ?thesis
      by simp
  qed
  then show ?thesis
    using assms by (auto simp: keeps_def held_def client_ok_def ac_simps)
qed

lemma client_onRead_keeps: "client_onRead junk env stack r script sock cl = Inr cl' \<Longrightarrow> keeps cl cl'"
  by (auto simp: client_onRead_def Let_def split: option.splits prod.splits conn_error.splits
      intro!: recv_put_keeps keeps_trans [OF recv_put_keeps lost_keeps] dest: performRecv_ids)

lemma free_erase_keeps: "keeps cl (cl\<lparr>cl_free := om_erase sock (cl_free cl)\<rparr>)"
  by (auto simp: keeps_def held_def client_ok_def)

lemma put_loop_keeps:
  "put_loop junk env nsent again req it cl = Inr cl' \<Longrightarrow> cl_new cl = req # reqs \<Longrightarrow> keeps cl cl'"
proof (induction junk env nsent again req it cl rule: put_loop.induct)
  case (1 junk env nsent again req cl)
  then show ?case by simp
next
  case (2 junk env nsent again req sock u it cl)
  obtain conn where conn: "om_find (cl_conns cl) sock = Some conn"
    using 2(2) by (auto split: option.splits)
  show ?case
  proof (cases "bc_state conn = ACTIVE")
    case True
    let ?a = "cl\<lparr>cl_conns := om_put sock (addRequest req conn) (cl_conns cl), cl_new := reqs\<rparr>"
    let ?b = "client_performSend junk env nsent again sock ?a"
    have "cl\<lparr>cl_new := tl (cl_new cl), cl_conns := om_put sock (addRequest req conn) (cl_conns cl)\<rparr> = ?a"
      using 2(3) by simp
    then have "cl' = ?b\<lparr>cl_free := om_erase sock (cl_free ?b)\<rparr>"
      using 2(2) conn True by (simp add: Let_def split: if_splits)
    moreover have "keeps cl ?a"
      by (rule add_keeps [OF conn 2(3)])
    ultimately show ?thesis
      using keeps_trans [OF _ keeps_trans [OF client_performSend_keeps free_erase_keeps]] by simp
  next
    case False
    then show ?thesis
      using 2 conn by simp
  qed
qed

lemma putRequests_keeps: "putRequestsToFreeConnections junk env nsent again cl = Inr cl' \<Longrightarrow> keeps cl cl'"
  by (auto simp: putRequestsToFreeConnections_def split: list.splits if_splits dest: put_loop_keeps)

lemma keepalive_keeps:
  "distinct (map fst it) \<Longrightarrow> \<forall>(s, c) \<in> set it. om_find (cl_conns cl) s = Some c \<Longrightarrow> om_inv (cl_conns cl) \<Longrightarrow>
     keepalive_loop now sent it cl = (cl', ok) \<Longrightarrow> keeps cl cl'"
proof (induction now sent it cl rule: keepalive_loop.induct)
  case (1 now sent cl)
  then show ?case by simp
next
  case (2 now sent sock conn it cl)
  obtain c w e where k: "checkKeepAlive now (fst (sent sock)) (snd (sent sock)) conn = (c, w, e)"
    by (metis surj_pair)
  let ?cl = "cl\<lparr>cl_conns := om_put sock c (cl_conns cl)\<rparr>"
  have keep: "keeps cl ?cl"
    using 2(3) k by (intro put_keeps [of _ _ conn]) (auto dest: checkKeepAlive_ids)
  show ?case
  proof (cases "e = None")
    case True
    have "\<forall>(s, d) \<in> set it. om_find (cl_conns ?cl) s = Some d"
      using 2(2,3,4) by (auto simp: rev_image_eqI)
    then have "keeps ?cl cl'"
      using 2 k True by (intro 2(1) [OF k [symmetric]]) (auto simp: rev_image_eqI)
    then show ?thesis
      by (rule keeps_trans [OF keep])
  next
    case False
    then show ?thesis
      using 2(5) k keep by (auto simp: Let_def)
  qed
qed

lemma client_checkKeepAlive_keeps: "client_checkKeepAlive now sent cl = (cl', ok) \<Longrightarrow> keeps cl cl'"
proof -
  assume k: "client_checkKeepAlive now sent cl = (cl', ok)"
  have "keeps cl cl'" if inv: "om_inv (cl_conns cl)"
    using k om.entries_distinct [OF inv] om.entries_find [OF inv] inv
    by (intro keepalive_keeps [of "cl_conns cl"]) (auto simp: client_checkKeepAlive_def)
  then show ?thesis
    by (auto simp: keeps_def client_ok_def)
qed

lemma client_events_keeps: "client_events junk evs cl = Inr cl' \<Longrightarrow> keeps cl cl'"
proof (induction evs arbitrary: cl)
  case Nil
  then show ?case by simp
next
  case (Cons ev evs)
  then obtain cl1 where cl1: "run_event junk ev cl = Inr cl1" "client_events junk evs cl1 = Inr cl'"
    by (auto split: sum.splits)
  have "keeps cl cl1"
    using cl1(1) by (cases ev)
      (auto intro: client_onRead_keeps client_onWrite_keeps lost_keeps simp: client_onError_def split: option.splits)
  then show ?case
    using Cons.IH [OF cl1(2)] keeps_trans by blast
qed

lemma handleEvents_keeps: "client_handleEvents junk env cl = Inr cl' \<Longrightarrow> keeps cl cl'"
proof -
  assume h: "client_handleEvents junk env cl = Inr cl'"
  obtain cl1 e where 1: "(if length (cl_conns cl) < cl_max cl then establishNewConnection junk (re_connect env) cl
      else (cl, None)) = (cl1, e)"
    by (metis surj_pair)
  then have k1: "keeps cl cl1"
    by (auto split: if_splits intro: establish_keeps)
  show ?thesis
  proof (cases e)
    case (Some x)
    then show ?thesis
      using h 1 k1 by (simp add: client_handleEvents_def)
  next
    case None
    then obtain cl2 where 2: "putRequestsToFreeConnections junk (re_reconnect env) (re_nsent env) (re_again env) cl1 = Inr cl2"
      using h 1 by (auto simp: client_handleEvents_def split: sum.splits)
    obtain cl3 ok where 3: "client_checkKeepAlive (re_now env) (re_keepalive env) cl2 = (cl3, ok)"
      by (metis surj_pair)
    have "keeps cl3 cl'"
      using h 1 2 3 None by (auto simp: client_handleEvents_def split: if_splits intro: client_events_keeps)
    then show ?thesis
      using k1 putRequests_keeps [OF 2] client_checkKeepAlive_keeps [OF 3] keeps_trans by blast
  qed
qed

section \<open>Properties\<close>

text \<open>The client under any sequence of calls and rounds, with the requests called so far.\<close>

inductive client_reach :: "u64 \<Rightarrow> request list \<Rightarrow> bin_client \<Rightarrow> bool" for junk where
  Create: "BinClientA_new junk envs = Some cl \<Longrightarrow> client_reach junk [] cl"
| Call: "client_reach junk rs cl \<Longrightarrow> client_reach junk (rs @ [r]) (client_call r cl)"
| Round: "client_reach junk rs cl \<Longrightarrow> client_handleEvents junk env cl = Inr cl' \<Longrightarrow> client_reach junk rs cl'"

lemma reinit_keeps: "reinitConnections junk envs cl = (cl', e) \<Longrightarrow> keeps cl cl'"
proof (induction envs arbitrary: cl)
  case Nil
  then show ?case by simp
next
  case (Cons env envs)
  obtain c1 e1 where 1: "establishNewConnection junk env cl = (c1, e1)"
    by (metis surj_pair)
  have "keeps c1 cl'"
    using Cons 1 by (cases e1) auto
  then show ?case
    using establish_keeps [OF 1] keeps_trans by blast
qed

lemma client_reach_held: "client_reach junk rs cl \<Longrightarrow> client_ok cl \<and> held cl = mset (map rq_id rs)"
proof (induction rule: client_reach.induct)
  case (Create envs cl)
  then have "\<exists>n. keeps \<lparr>cl_conns = [], cl_free = [], cl_new = [], cl_max = n, cl_watched = [], cl_log = []\<rparr> cl"
    by (auto simp: BinClientA_new_def split: prod.splits option.splits if_splits dest: reinit_keeps)
  then show ?case
    by (auto simp: keeps_def held_def client_ok_def conns_ids_def)
next
  case (Call rs cl r)
  then show ?case
    by (auto simp: client_call_def held_def client_ok_def)
next
  case (Round rs cl env cl')
  then show ?case
    using handleEvents_keeps [OF Round(2)] by (auto simp: keeps_def)
qed

text \<open>
  C3: Whatever the network does, every request given to \<^verbatim>\<open>call\<close> is in exactly one place: still
  queued, waiting on one connection, or completed; so with distinct requests no callback runs twice.
\<close>

theorem client_conserves_requests:
  assumes "client_reach junk rs cl"
  shows "mset (map rq_id (cl_new cl)) + conns_ids (cl_conns cl) + mset (map fst (cl_log cl)) = mset (map rq_id rs) \<and>
    (distinct (map rq_id rs) \<longrightarrow> distinct (map fst (cl_log cl)))"
proof -
  have held: "held cl = mset (map rq_id rs)"
    using client_reach_held [OF assms] by simp
  have "distinct (map fst (cl_log cl))" if "distinct (map rq_id rs)"
  proof -
    obtain ys where "mset ys = mset (map rq_id (cl_new cl)) + conns_ids (cl_conns cl)"
      using ex_mset by blast
    then have "mset (ys @ map fst (cl_log cl)) = mset (map rq_id rs)"
      using held by (simp add: held_def)
    then have "distinct (ys @ map fst (cl_log cl))"
      using that mset_eq_imp_distinct_iff by blast
    then show ?thesis
      by simp
  qed
  then show ?thesis
    using held by (simp add: held_def)
qed

theorem client_conserves_requests_witness:
  "\<exists>cl. client_reach 0 [\<lparr>rq_id = 4, rq_data = ''x''\<rparr>] cl \<and> held cl = {#4#}"
proof -
  let ?env = "[(Some 5, 100, int (length upgrade_request), False)]"
  obtain cl where "BinClientA_new 0 ?env = Some cl"
    by (simp add: BinClientA_new_def establishNewConnection_def Connection_new_def performSend_def upgrade_request_def om_ins_def)
  then have "client_reach 0 [\<lparr>rq_id = 4, rq_data = ''x''\<rparr>] (client_call \<lparr>rq_id = 4, rq_data = ''x''\<rparr> cl)"
    using client_reach.Call [OF client_reach.Create] by fastforce
  then show ?thesis
    using client_conserves_requests [of 0 "[\<lparr>rq_id = 4, rq_data = ''x''\<rparr>]" "client_call \<lparr>rq_id = 4, rq_data = ''x''\<rparr> cl"]
    by (auto simp: held_def)
qed

lemma onLost_free: "om_find (cl_conns cl) sock \<noteq> None \<Longrightarrow> om_find (cl_free (onLostConnection junk env sock cl)) sock = None"
  by (auto simp: onLostConnection_def establishNewConnection_def removeConnection_def Let_def
      split: option.splits prod.splits)

text \<open>
  \<^verbatim>\<open>putRequestsToFreeConnections\<close> on an active free connection: a send that does not
  fail hands the request to the connection and takes it from the free ones; a send that loses the
  connection erases the iterator twice, which is undefined behaviour.
\<close>

lemma putRequests_double_erase:
  assumes "cl_new cl = req # reqs" "cl_free cl = (sock, ()) # it" "om_inv (cl_conns cl)"
    and "om_find (cl_conns cl) sock = Some conn" "bc_state conn = ACTIVE"
  shows "(if nsent \<le> 0 \<and> \<not> again
    then putRequestsToFreeConnections junk env nsent again cl = Inl Undefined
    else \<exists>cl' c. putRequestsToFreeConnections junk env nsent again cl = Inr cl' \<and> cl_new cl' = reqs \<and>
      om_find (cl_conns cl') sock = Some c \<and> bc_sent_requests c = bc_sent_requests conn @ [req] \<and>
      om_find (cl_free cl') sock = None)"
proof -
  let ?a = "cl\<lparr>cl_new := reqs, cl_conns := om_put sock (addRequest req conn) (cl_conns cl)\<rparr>"
  let ?b = "client_performSend junk env nsent again sock ?a"
  have put: "putRequestsToFreeConnections junk env nsent again cl =
      (if om_find (cl_free ?b) sock = None then Inl Undefined else Inr (?b\<lparr>cl_free := om_erase sock (cl_free ?b)\<rparr>))"
    using assms by (simp add: putRequestsToFreeConnections_def Let_def)
  obtain c w e where p: "performSend nsent again (addRequest req conn) = (c, w, e)"
    by (metis surj_pair)
  have find: "om_find (cl_conns ?a) sock = Some (addRequest req conn)"
    using assms(3) by simp
  have ne: "bc_send_buffer (addRequest req conn) \<noteq> []"
    by (simp add: addRequest_def frame_def)
  then have lost: "e = Some LostConnectionEx \<longleftrightarrow> nsent \<le> 0 \<and> \<not> again"
    using p by (auto simp: performSend_def split: if_splits)
  show ?thesis
  proof (cases "nsent \<le> 0 \<and> \<not> again")
    case True
    then have "?b = onLostConnection junk env sock (?a\<lparr>cl_conns := om_put sock c (cl_conns ?a)\<rparr>)"
      using lost find p by (simp add: client_performSend_def)
    then have "om_find (cl_free ?b) sock = None"
      using assms(3) onLost_free [of "?a\<lparr>cl_conns := om_put sock c (cl_conns ?a)\<rparr>" sock junk env] by simp
    then show ?thesis
      using True put by simp
  next
    case False
    then have "?b = ?a\<lparr>cl_conns := om_put sock c (cl_conns ?a)\<rparr>"
      using lost find p by (auto simp: client_performSend_def)
    moreover have "bc_sent_requests c = bc_sent_requests conn @ [req]"
      using performSend_wire [OF p] by (simp add: addRequest_def)
    moreover have "om_find (cl_free cl) sock = Some ()"
      using assms(2) by (simp add: om_find_def)
    ultimately show ?thesis
      using put assms(3) by (subst if_not_P [OF False]) simp
  qed
qed

lemma putRequests_double_erase_witness:
  "\<exists>cl. client_ok cl \<and> putRequestsToFreeConnections 0 (None, 0, 0, False) (- 1) False cl = Inl Undefined"
proof -
  let ?c = "\<lparr>bc_parser = client_parser_init 0, bc_last_activity = 0, bc_keepalive_period = 5,
    bc_sent_requests = [], bc_sock = 5, bc_send_buffer = [], bc_state = ACTIVE\<rparr>"
  let ?cl = "\<lparr>cl_conns = [(5, ?c)], cl_free = [(5, ())], cl_new = [\<lparr>rq_id = 4, rq_data = []\<rparr>], cl_max = 1,
    cl_watched = [(5, ())], cl_log = []\<rparr>"
  have "putRequestsToFreeConnections 0 (None, 0, 0, False) (- 1) False ?cl = Inl Undefined"
    using putRequests_double_erase [of ?cl "\<lparr>rq_id = 4, rq_data = []\<rparr>" "[]" 5 "[]" ?c "- 1" False 0 "(None, 0, 0, False)"]
    by (simp add: om_inv_def om_find_def)
  moreover have "client_ok ?cl"
    by (simp add: client_ok_def om_inv_def om_find_def)
  ultimately show ?thesis
    by blast
qed

section \<open>The handshake comes first\<close>

text \<open>
  A connection that is not active yet: nothing was asked on it, and what it has to send is the
  rest of the upgrade, or a keep-alive byte.
\<close>

definition hs_ok :: "bin_conn \<Rightarrow> bool" where
  "hs_ok c \<longleftrightarrow> bc_state c = ACTIVE \<or>
     bc_sent_requests c = [] \<and> (suffix (bc_send_buffer c) upgrade_request \<or> bc_send_buffer c = KEEPALIVE_MESSAGE)"

definition conns_hs :: "bin_client \<Rightarrow> bool" where
  "conns_hs cl \<longleftrightarrow> om_inv (cl_conns cl) \<and> (\<forall>s c. om_find (cl_conns cl) s = Some c \<longrightarrow> hs_ok c)"

lemma performSend_state: "performSend nsent again c = (c', w, e) \<Longrightarrow> bc_state c' = bc_state c"
  by (auto simp: performSend_def split: if_splits)

lemma performSend_hs:
  assumes "performSend nsent again c = (c', w, e)" "hs_ok c"
  shows "hs_ok c'"
proof -
  have w: "w @ bc_send_buffer c' = bc_send_buffer c" "bc_sent_requests c' = bc_sent_requests c"
    using performSend_wire [OF assms(1)] by simp_all
  have "suffix (bc_send_buffer c') upgrade_request \<or> bc_send_buffer c' = KEEPALIVE_MESSAGE"
    if "suffix (bc_send_buffer c) upgrade_request \<or> bc_send_buffer c = KEEPALIVE_MESSAGE"
    using that
  proof
    assume "suffix (bc_send_buffer c) upgrade_request"
    then show ?thesis
      using w(1) suffix_order.trans by (metis suffixI)
  next
    assume "bc_send_buffer c = KEEPALIVE_MESSAGE"
    then have "bc_send_buffer c' = [] \<or> bc_send_buffer c' = KEEPALIVE_MESSAGE"
      using w(1) by (cases w) (auto simp: KEEPALIVE_MESSAGE_def)
    then show ?thesis
      by auto
  qed
  then show ?thesis
    using assms(2) w(2) performSend_state [OF assms(1)] by (auto simp: hs_ok_def)
qed

lemma new_hs: "Connection_new junk s now nsent again = (c, w, e) \<Longrightarrow> hs_ok c"
  unfolding Connection_new_def by (erule performSend_hs) (simp add: hs_ok_def)

lemma checkKeepAlive_hs: "checkKeepAlive now nsent again c = (c', w, e) \<Longrightarrow> hs_ok c \<Longrightarrow> hs_ok c'"
  by (auto simp: checkKeepAlive_def hs_ok_def split: if_splits elim!: performSend_hs [unfolded hs_ok_def])

lemma handle_responses_hs: "handle_responses ss c = (c', done, e) \<Longrightarrow> bc_state c' = bc_state c \<and> bc_send_buffer c' = bc_send_buffer c \<and>
    (bc_sent_requests c = [] \<longrightarrow> bc_sent_requests c' = [])"
proof (induction ss arbitrary: c c' "done" e)
  case (Cons s ss)
  then show ?case
    by (cases "bc_sent_requests c") (fastforce simp: onResponse_def split: prod.splits)+
qed simp

lemma set_parser_hs: "hs_ok c \<Longrightarrow> hs_ok (set_parser p c)"
  by (auto simp: hs_ok_def set_parser_def)

lemma performRecv_hs:
  assumes "performRecv junk r script c = Some (c', done, e)" "hs_ok c"
  shows "hs_ok c'"
proof -
  have resps: "hs_ok d'" if "handle_responses ss d = (d', x, y)" "hs_ok d" for ss d d' x y
    using handle_responses_hs [OF that(1)] that(2) by (auto simp: hs_ok_def)
  show ?thesis
    using assms by (auto simp: performRecv_def Let_def set_parser_hs split: option.splits prod.splits if_splits dest!: resps)
qed

lemma conns_hs_put: "conns_hs cl \<Longrightarrow> hs_ok c \<Longrightarrow> conns_hs (cl\<lparr>cl_conns := om_put s c (cl_conns cl)\<rparr>)"
  by (auto simp: conns_hs_def)

lemma establish_hs: "establishNewConnection junk env cl = (cl', e) \<Longrightarrow> conns_hs cl \<Longrightarrow> conns_hs cl'"
  by (auto simp: establishNewConnection_def conns_hs_def dest: new_hs split: prod.splits option.splits if_splits)

lemma lost_hs: "conns_hs cl \<Longrightarrow> conns_hs (onLostConnection junk env sock cl)"
proof (cases "om_find (cl_conns cl) sock")
  case (Some c)
  assume "conns_hs cl"
  then have "conns_hs (removeConnection sock cl)"
    by (auto simp: conns_hs_def removeConnection_def)
  then have "conns_hs (fst (establishNewConnection junk env (removeConnection sock cl)))"
    by (metis establish_hs prod.collapse)
  then show ?thesis
    using Some by (simp add: onLostConnection_def conns_hs_def Let_def)
qed (simp add: onLostConnection_def)

lemma send_hs: "conns_hs cl \<Longrightarrow> conns_hs (client_performSend junk env nsent again sock cl)"
proof (cases "om_find (cl_conns cl) sock")
  case (Some c)
  assume ok: "conns_hs cl"
  obtain c' w e where s: "performSend nsent again c = (c', w, e)"
    by (metis surj_pair)
  then have "conns_hs (cl\<lparr>cl_conns := om_put sock c' (cl_conns cl)\<rparr>)"
    using ok Some by (intro conns_hs_put) (auto simp: conns_hs_def elim: performSend_hs)
  then show ?thesis
    using Some s by (simp add: client_performSend_def lost_hs Let_def)
qed (simp add: client_performSend_def)

lemma read_hs:
  assumes "client_onRead junk env stack nread script sock cl = Inr cl'" "conns_hs cl"
  shows "conns_hs cl'"
proof (cases "om_find (cl_conns cl) sock")
  case (Some c)
  then obtain c' "done" e where r: "performRecv stack nread script c = Some (c', done, e)"
    using assms(1) by (cases "performRecv stack nread script c") (auto simp: client_onRead_def)
  let ?cl = "cl\<lparr>cl_conns := om_put sock c' (cl_conns cl), cl_log := cl_log cl @ done\<rparr>"
  have "hs_ok c'"
    using performRecv_hs [OF r] assms(2) Some by (simp add: conns_hs_def)
  then have "conns_hs ?cl"
    using assms(2) by (auto simp: conns_hs_def)
  then show ?thesis
    using assms(1) Some r lost_hs [of ?cl junk env sock] by (auto simp: client_onRead_def Let_def split: option.splits conn_error.splits)
qed (use assms in \<open>simp add: client_onRead_def\<close>)

lemma add_hs: "bc_state c = ACTIVE \<Longrightarrow> hs_ok (addRequest r c)"
  by (simp add: hs_ok_def addRequest_def)

lemma write_hs:
  assumes "conns_hs cl"
  shows "conns_hs (client_onWrite junk env nsent again sock cl)"
proof (cases "om_find (cl_conns cl) sock")
  case (Some conn)
  have "conns_hs (cl\<lparr>cl_conns := om_put sock (addRequest q conn) (cl_conns cl), cl_new := qs\<rparr>)" if "bc_state conn = ACTIVE" for q qs
    using conns_hs_put [OF assms add_hs [OF that], of sock q] by (simp add: conns_hs_def)
  moreover have "conns_hs (cl\<lparr>cl_free := fs\<rparr>)" for fs
    using assms by (simp add: conns_hs_def)
  ultimately show ?thesis
    using Some assms by (simp add: client_onWrite_def send_hs split: list.split)
qed (simp add: client_onWrite_def assms)

lemma put_hs: "put_loop junk env nsent again req it cl = Inr cl' \<Longrightarrow> conns_hs cl \<Longrightarrow> conns_hs cl'"
proof (induction junk env nsent again req it cl rule: put_loop.induct)
  case (2 junk env nsent again req sock u it cl)
  obtain conn where conn: "om_find (cl_conns cl) sock = Some conn"
    using 2(2) by (auto split: option.splits)
  show ?case
  proof (cases "bc_state conn = ACTIVE")
    case True
    let ?a = "cl\<lparr>cl_new := tl (cl_new cl), cl_conns := om_put sock (addRequest req conn) (cl_conns cl)\<rparr>"
    have "conns_hs ?a"
      using 2(3) True by (auto simp: conns_hs_def add_hs)
    then have sent: "conns_hs (client_performSend junk env nsent again sock ?a)"
      by (rule send_hs)
    have "cl' = (client_performSend junk env nsent again sock ?a)
        \<lparr>cl_free := om_erase sock (cl_free (client_performSend junk env nsent again sock ?a))\<rparr>"
      using 2(2) conn True by (simp add: Let_def split: if_splits)
    then show ?thesis
      using sent by (simp add: conns_hs_def)
  next
    case False
    then show ?thesis
      using 2 conn by simp
  qed
qed simp

lemma keepalive_hs:
  "keepalive_loop now sent it cl = (cl', ok) \<Longrightarrow> \<forall>(s, c) \<in> set it. hs_ok c \<Longrightarrow> conns_hs cl \<Longrightarrow> conns_hs cl'"
proof (induction now sent it cl rule: keepalive_loop.induct)
  case (2 now sent sock conn it cl)
  obtain c w e where k: "checkKeepAlive now (fst (sent sock)) (snd (sent sock)) conn = (c, w, e)"
    by (metis surj_pair)
  then have "conns_hs (cl\<lparr>cl_conns := om_put sock c (cl_conns cl)\<rparr>)"
    using 2(3,4) by (intro conns_hs_put) (auto elim: checkKeepAlive_hs)
  then show ?case
    using 2 k by (auto simp: Let_def split: if_splits)
qed simp

lemma checkKeepAlive_client_hs: "client_checkKeepAlive now sent cl = (cl', ok) \<Longrightarrow> conns_hs cl \<Longrightarrow> conns_hs cl'"
  using om.entries_find [of "cl_conns cl"] by (auto simp: client_checkKeepAlive_def conns_hs_def [of cl] intro: keepalive_hs)

lemma events_hs: "client_events junk evs cl = Inr cl' \<Longrightarrow> conns_hs cl \<Longrightarrow> conns_hs cl'"
proof (induction evs arbitrary: cl)
  case (Cons ev evs)
  then obtain cl1 where cl1: "run_event junk ev cl = Inr cl1" "client_events junk evs cl1 = Inr cl'"
    by (auto split: sum.splits)
  have "conns_hs cl1"
    using cl1(1) Cons.prems(2) by (cases ev) (auto intro: read_hs write_hs lost_hs simp: client_onError_def split: option.splits)
  then show ?case
    using Cons.IH [OF cl1(2)] by blast
qed simp

lemma round_hs:
  assumes "client_handleEvents junk env cl = Inr cl'" "conns_hs cl"
  shows "conns_hs cl'"
proof -
  obtain cl1 e where 1: "(if length (cl_conns cl) < cl_max cl then establishNewConnection junk (re_connect env) cl
      else (cl, None)) = (cl1, e)"
    by (metis surj_pair)
  then have k1: "conns_hs cl1"
    using assms(2) by (auto split: if_splits intro: establish_hs)
  show ?thesis
  proof (cases e)
    case None
    then obtain cl2 where 2: "putRequestsToFreeConnections junk (re_reconnect env) (re_nsent env) (re_again env) cl1 = Inr cl2"
      using assms(1) 1 by (auto simp: client_handleEvents_def split: sum.splits)
    obtain cl3 ok where 3: "client_checkKeepAlive (re_now env) (re_keepalive env) cl2 = (cl3, ok)"
      by (metis surj_pair)
    have "conns_hs cl2"
      using 2 k1 by (auto simp: putRequestsToFreeConnections_def split: list.splits if_splits dest: put_hs)
    then have "conns_hs cl3"
      by (rule checkKeepAlive_client_hs [OF 3])
    then show ?thesis
      using assms(1) 1 2 3 None by (auto simp: client_handleEvents_def split: if_splits intro: events_hs)
  qed (use assms(1) 1 k1 in \<open>simp add: client_handleEvents_def\<close>)
qed

lemma client_reach_hs: "client_reach junk rs cl \<Longrightarrow> conns_hs cl"
proof (induction rule: client_reach.induct)
  case (Create envs cl)
  have "conns_hs cl'" if "reinitConnections junk envs cl = (cl', e)" "conns_hs cl" for envs cl cl' e
    using that
  proof (induction envs arbitrary: cl)
    case (Cons env envs)
    then show ?case
      by (auto split: prod.splits option.splits dest: establish_hs)
  qed simp
  then show ?case
    using Create by (fastforce simp: BinClientA_new_def conns_hs_def om_inv_def om_find_def split: prod.splits option.splits if_splits)
next
  case (Call rs cl r)
  then show ?case
    by (simp add: client_call_def conns_hs_def)
qed (rule round_hs)

text \<open>
  C23: no frame is sent before the server has changed the protocol: in every run of the client, a
  connection whose handshake is not complete has no request, and what is left to send on it is
  the end of the upgrade request, or one keep-alive byte. So the frames of the client never get
  into the HTTP parser of the server, and no request is answered on a connection where it was
  not asked.
\<close>

theorem client_waits_for_handshake:
  assumes "client_reach junk rs cl" "om_find (cl_conns cl) sock = Some c" "bc_state c \<noteq> ACTIVE"
  shows "bc_sent_requests c = [] \<and> (suffix (bc_send_buffer c) upgrade_request \<or> bc_send_buffer c = KEEPALIVE_MESSAGE)"
  using client_reach_hs [OF assms(1)] assms(2,3) by (auto simp: conns_hs_def hs_ok_def)

theorem client_waits_for_handshake_witness:
  "\<exists>cl c. client_reach 0 [] cl \<and> om_find (cl_conns cl) 5 = Some c \<and> suffix (bc_send_buffer c) upgrade_request"
proof -
  let ?env = "[(Some 5, 100, int (length upgrade_request) - 2, False)]"
  obtain cl c where cl: "BinClientA_new 0 ?env = Some cl" "om_find (cl_conns cl) 5 = Some c" "bc_state c = HANDSHAKING"
      "bc_send_buffer c \<noteq> KEEPALIVE_MESSAGE"
    by (simp add: BinClientA_new_def establishNewConnection_def Connection_new_def performSend_def upgrade_request_def om_ins_def
        crlf_def om_find_def KEEPALIVE_MESSAGE_def)
  then show ?thesis
    using client_reach.Create client_waits_for_handshake [of 0 "[]" cl 5 c] by auto
qed

end
