(* ===== verification/AhoCorasick.thy ===== *)
theory AhoCorasick
  imports Hi_Prelude "HOL-Library.Multiset" "HOL-Library.Sublist"
begin

text \<open>
  \<^verbatim>\<open>strings/AhoCorasick.cpp\<close>: the nodes live in a store (a list; the address of a node
  is its place), so that the fail links and the in-place updates of the breadth-first
  construction are those of the code. The recursion of \<^verbatim>\<open>getFallNode\<close> and the two loops follow
  links of the store: they are partial functions, and returning is part of what is proved.
  Every node has a label, the string that leads to it from the root; the lemmas speak of
  labels.
\<close>

section \<open>The code\<close>

text \<open>A \<^verbatim>\<open>char\<close> as a key of \<^verbatim>\<open>std::map\<close>: ordered by its signed value.\<close>

datatype map_char = MapChar (map_key: char)

instantiation map_char :: linorder
begin

definition less_eq_map_char :: "map_char \<Rightarrow> map_char \<Rightarrow> bool" where
  "less_eq_map_char a b \<longleftrightarrow> schar (map_key a) \<le> schar (map_key b)"

definition less_map_char :: "map_char \<Rightarrow> map_char \<Rightarrow> bool" where
  "less_map_char a b \<longleftrightarrow> schar (map_key a) < schar (map_key b)"

instance
  by standard (auto simp: less_eq_map_char_def less_map_char_def map_char.expand)

end

record bor_node =
  bn_matches :: "string list"
  bn_children :: "(map_char, nat) omap"
  bn_fail :: "nat option"

type_synonym bor = "bor_node list"

definition new_node :: bor_node where
  "new_node = \<lparr>bn_matches = [], bn_children = [], bn_fail = None\<rparr>"

definition bn_child :: "bor \<Rightarrow> nat \<Rightarrow> char \<Rightarrow> nat option" where
  "bn_child st a c = om_find (bn_children (st ! a)) (MapChar c)"

fun addWord :: "string \<Rightarrow> string \<Rightarrow> nat \<Rightarrow> bor \<Rightarrow> bor" where
  "addWord word [] a st = st[a := (st ! a)\<lparr>bn_matches := bn_matches (st ! a) @ [word]\<rparr>]"
| "addWord word (c # suff) a st =
     (let st = (case bn_child st a c of
                  None \<Rightarrow> st[a := (st ! a)\<lparr>bn_children := om_ins (MapChar c) (length st) (bn_children (st ! a))\<rparr>] @ [new_node]
                | Some _ \<Rightarrow> st)
      in addWord word suff (the (bn_child st a c)) st)"

definition setFailNode :: "nat \<Rightarrow> nat \<Rightarrow> bor \<Rightarrow> bor" where
  "setFailNode a f st = st[a := (st ! a)\<lparr>bn_fail := Some f\<rparr>]"

definition children_of :: "bor \<Rightarrow> nat \<Rightarrow> nat list" where
  "children_of st a = map snd (bn_children (st ! a))"

text \<open>\<open>None\<close>: the recursion does not end, or a fail link is \<^verbatim>\<open>NULL\<close>.\<close>

partial_function (option) getFallNode :: "bor \<Rightarrow> nat \<Rightarrow> char \<Rightarrow> nat option" where
  "getFallNode st a c = (case bn_fail (st ! a) of
     None \<Rightarrow> None
   | Some f \<Rightarrow> (case bn_child st f c of
       Some b \<Rightarrow> Some b
     | None \<Rightarrow> if a \<noteq> f then getFallNode st f c else Some a))"

fun link_children :: "nat \<Rightarrow> (map_char \<times> nat) list \<Rightarrow> bor \<Rightarrow> bor option" where
  "link_children cur [] st = Some st"
| "link_children cur ((k, b) # it) st = (case getFallNode st cur (map_key k) of
     None \<Rightarrow> None
   | Some fall_node \<Rightarrow>
       (let st = setFailNode b fall_node st;
            st = st[b := (st ! b)\<lparr>bn_matches := bn_matches (st ! b) @ bn_matches (st ! fall_node)\<rparr>]
        in link_children cur it st))"

partial_function (option) fall_loop :: "nat list \<Rightarrow> bor \<Rightarrow> bor option" where
  "fall_loop fall_q st = (case fall_q of
     [] \<Rightarrow> Some st
   | cur_node # q \<Rightarrow> (case link_children cur_node (bn_children (st ! cur_node)) st of
       None \<Rightarrow> None
     | Some st \<Rightarrow> fall_loop (q @ children_of st cur_node) st))"

definition build_trie :: "string list \<Rightarrow> bor" where
  "build_trie dict = fold (\<lambda>w st. addWord w w 0 st) dict (setFailNode 0 0 [new_node])"

definition AhoCorasick_new :: "string list \<Rightarrow> bor option" where
  "AhoCorasick_new dict =
     (let st = build_trie dict;
          fall_q = children_of st 0;
          st = fold (\<lambda>b st. setFailNode b 0 st) (children_of st 0) st
      in fall_loop fall_q st)"

text \<open>The loop of \<open>findMatches\<close>: \<open>text\<close> is what is left of the text at position \<open>i\<close>.\<close>

partial_function (option) find_loop ::
  "bor \<Rightarrow> nat \<Rightarrow> nat \<Rightarrow> string \<Rightarrow> (string \<times> nat) list \<Rightarrow> (string \<times> nat) list option" where
  "find_loop st cur i text ms = (case text of
     [] \<Rightarrow> Some ms
   | c # rest \<Rightarrow> (case bn_child st cur c of
       Some b \<Rightarrow> find_loop st b (i + 1) rest (ms @ map (\<lambda>w. (w, i + 1 - length w)) (bn_matches (st ! b)))
     | None \<Rightarrow> (case bn_fail (st ! cur) of
         None \<Rightarrow> None
       | Some f \<Rightarrow> if cur = f then find_loop st f (i + 1) rest ms else find_loop st f i text ms)))"

definition findMatches :: "bor \<Rightarrow> string \<Rightarrow> (string \<times> nat) list option" where
  "findMatches st text = find_loop st 0 0 text []"

section \<open>The trie and its labels\<close>

definition labelled :: "bor \<Rightarrow> string list \<Rightarrow> bool" where
  "labelled st L \<longleftrightarrow> length L = length st \<and> L \<noteq> [] \<and> L ! 0 = [] \<and> distinct L \<and>
     (\<forall>u c. u @ [c] \<in> set L \<longrightarrow> u \<in> set L) \<and>
     (\<forall>a < length st. om_inv (bn_children (st ! a)) \<and>
        (\<forall>c b. bn_child st a c = Some b \<longleftrightarrow> b < length st \<and> L ! b = L ! a @ [c]))"

lemma labelled_child:
  "labelled st L \<Longrightarrow> a < length st \<Longrightarrow> bn_child st a c = Some b \<longleftrightarrow> b < length st \<and> L ! b = L ! a @ [c]"
  by (simp add: labelled_def)

lemma labelled_no_child:
  "labelled st L \<Longrightarrow> a < length st \<Longrightarrow> bn_child st a c = None \<longleftrightarrow> L ! a @ [c] \<notin> set L"
proof -
  assume lab: "labelled st L" "a < length st"
  then have "length L = length st"
    by (simp add: labelled_def)
  then have "L ! a @ [c] \<in> set L \<longleftrightarrow> (\<exists>b. b < length st \<and> L ! b = L ! a @ [c])"
    by (auto simp: in_set_conv_nth)
  then show ?thesis
    unfolding labelled_child [OF lab, symmetric] by auto
qed

text \<open>\<open>addWord\<close> adds the labels on its way and the word to the matches of the last node.\<close>

definition grow :: "nat \<Rightarrow> char \<Rightarrow> bor \<Rightarrow> bor" where
  "grow a c st = st[a := (st ! a)\<lparr>bn_children := om_ins (MapChar c) (length st) (bn_children (st ! a))\<rparr>] @ [new_node]"

lemma grow_labelled:
  assumes "labelled st L" "a < length st" "L ! a @ [c] \<notin> set L"
  shows "labelled (grow a c st) (L @ [L ! a @ [c]])" "bn_child (grow a c st) a c = Some (length st)"
    "length (grow a c st) = Suc (length st)"
    "\<And>b. b < length st \<Longrightarrow> bn_matches (grow a c st ! b) = bn_matches (st ! b)"
    "bn_matches (grow a c st ! length st) = []"
proof -
  let ?st = "grow a c st" and ?L = "L @ [L ! a @ [c]]"
  have len: "length L = length st" and inv: "om_inv (bn_children (st ! a))"
    using assms(1,2) by (auto simp: labelled_def)
  have old: "?st ! b = (if b = a then (st ! a)\<lparr>bn_children := om_ins (MapChar c) (length st) (bn_children (st ! a))\<rparr> else st ! b)"
    if "b < length st" for b
    using that by (simp add: grow_def nth_append nth_list_update)
  have new: "?st ! length st = new_node"
    by (simp add: grow_def nth_append)
  have none: "om_find (bn_children (st ! a)) (MapChar c) = None"
    using labelled_no_child [OF assms(1,2)] assms(3) by (simp add: bn_child_def)
  have child: "bn_child ?st b d = (if b = length st then None
      else if b = a \<and> d = c then Some (length st) else bn_child st b d)" if "b < Suc (length st)" for b d
    using that new old [of b] none inv
    by (auto simp: bn_child_def new_node_def less_Suc_eq)
  show "length ?st = Suc (length st)"
    by (simp add: grow_def)
  show "bn_child ?st a c = Some (length st)"
    using assms(2) child by simp
  show "bn_matches (?st ! b) = bn_matches (st ! b)" if "b < length st" for b
    using old that by simp
  show "bn_matches (?st ! length st) = []"
    by (simp add: new new_node_def)
  have maps: "om_inv (bn_children (?st ! b))" if "b < Suc (length st)" for b
    using that new old [of b] inv assms(1) by (auto simp: new_node_def labelled_def less_Suc_eq)
  have fresh: "L ! x \<noteq> L ! a @ [c]" if "x < length st" for x
    using assms(3) len that by (metis nth_mem)
  have closed: "u @ [d] \<in> set L \<Longrightarrow> u \<in> set L" for u d
    using assms(1) by (auto simp: labelled_def)
  have no_below: "L ! x \<noteq> (L ! a @ [c]) @ [d]" if "x < length st" for x d
    using closed [of "L ! a @ [c]" d] assms(3) len that by (metis nth_mem)
  have "bn_child ?st b d = Some x \<longleftrightarrow> x < Suc (length st) \<and> ?L ! x = ?L ! b @ [d]"
    if "b < Suc (length st)" for b d x
  proof (cases "b = length st")
    case True
    then show ?thesis
      using child [OF that, of d] no_below [of x d] len by (auto simp: nth_append less_Suc_eq)
  next
    case False
    then have b: "b < length st"
      using that by simp
    show ?thesis
    proof (cases "x = length st")
      case True
      have "bn_child st b d \<noteq> Some (length st)"
        using labelled_child [OF assms(1) b] by simp
      moreover have "L ! b = L ! a \<longleftrightarrow> b = a"
        using assms(1,2) b len by (simp add: labelled_def nth_eq_iff_index_eq)
      ultimately show ?thesis
        using child [OF that, of d] True b len by (auto simp: nth_append)
    next
      case False
      then have "?L ! x = ?L ! b @ [d] \<longleftrightarrow> L ! x = L ! b @ [d]" if "x < Suc (length st)"
        using that b len by (auto simp: nth_append)
      moreover have "\<not> (b = a \<and> d = c \<and> x < length st \<and> L ! x = L ! b @ [d])"
        using fresh by auto
      ultimately show ?thesis
        using child [OF that, of d] False b labelled_child [OF assms(1) b, of d x] by auto
    qed
  qed
  moreover have "u @ [d] \<in> set ?L \<Longrightarrow> u \<in> set ?L" for u d
    using closed assms(2) len by (auto intro: nth_mem)
  ultimately show "labelled ?st ?L"
    using assms(1) assms(3) len maps by (auto simp: labelled_def \<open>length ?st = Suc (length st)\<close> nth_append)
qed

lemma addWord_Cons:
  "addWord word (c # suff) a st = (case bn_child st a c of
     None \<Rightarrow> addWord word suff (the (bn_child (grow a c st) a c)) (grow a c st)
   | Some b \<Rightarrow> addWord word suff b st)"
  by (simp add: grow_def Let_def split: option.split)

lemma addWord_labelled:
  "labelled st L \<Longrightarrow> a < length st \<Longrightarrow> \<exists>M. labelled (addWord word suff a st) M \<and>
     length st \<le> length (addWord word suff a st) \<and> (\<forall>b < length st. M ! b = L ! b) \<and>
     set M = set L \<union> {L ! a @ p | p. prefix p suff} \<and>
     (\<forall>b < length (addWord word suff a st). bn_matches (addWord word suff a st ! b) =
        (if b < length st then bn_matches (st ! b) else []) @ (if M ! b = L ! a @ suff then [word] else []))"
proof (induction suff arbitrary: a st L)
  case Nil
  have lab: "labelled (st[a := (st ! a)\<lparr>bn_matches := bn_matches (st ! a) @ [word]\<rparr>]) L"
    using Nil by (auto simp: labelled_def bn_child_def nth_list_update)
  have "L ! b = L ! a \<longleftrightarrow> b = a" if "b < length st" for b
    using that Nil by (simp add: labelled_def nth_eq_iff_index_eq)
  moreover have "L ! a \<in> set L"
    using Nil by (auto simp: labelled_def)
  ultimately show ?case
    using lab Nil by (intro exI [of _ L]) (auto simp: nth_list_update)
next
  case (Cons c suff)
  show ?case
  proof (cases "bn_child st a c")
    case (Some b)
    then have b: "b < length st" "L ! b = L ! a @ [c]"
      using labelled_child [OF Cons.prems] by auto
    have "{L ! a @ p | p. prefix p (c # suff)} = insert (L ! a) {L ! b @ p | p. prefix p suff}"
      using b(2) by (auto simp: prefix_Cons)
    moreover have "L ! a \<in> set L"
      using Cons.prems by (auto simp: labelled_def)
    ultimately show ?thesis
      using Cons.IH [OF Cons.prems(1) b(1)] Some b(2) by (simp add: addWord_Cons insert_absorb del: addWord.simps)
  next
    case None
    let ?st = "grow a c st" and ?L = "L @ [L ! a @ [c]]" and ?n = "length st"
    have fresh: "L ! a @ [c] \<notin> set L"
      using None labelled_no_child [OF Cons.prems] by simp
    note g = grow_labelled [OF Cons.prems fresh]
    have len: "length L = ?n"
      using Cons.prems(1) by (simp add: labelled_def)
    obtain M where M: "labelled (addWord word suff ?n ?st) M" "length ?st \<le> length (addWord word suff ?n ?st)"
        "\<forall>b < length ?st. M ! b = ?L ! b" "set M = set ?L \<union> {?L ! ?n @ p | p. prefix p suff}"
        "\<forall>b < length (addWord word suff ?n ?st). bn_matches (addWord word suff ?n ?st ! b) =
          (if b < length ?st then bn_matches (?st ! b) else []) @ (if M ! b = ?L ! ?n @ suff then [word] else [])"
      using Cons.IH [OF g(1), of ?n] g(3) by auto
    have code: "addWord word (c # suff) a st = addWord word suff ?n ?st"
      using None g(2) by (simp add: addWord_Cons del: addWord.simps)
    have "{L ! a @ p | p. prefix p (c # suff)} = insert (L ! a) {?L ! ?n @ p | p. prefix p suff}"
      using len by (auto simp: prefix_Cons nth_append)
    moreover have "L ! a \<in> set L"
      using Cons.prems by (auto simp: labelled_def)
    moreover have "?L ! ?n = L ! a @ [c]"
      using len by (simp add: nth_append)
    moreover have "L ! a @ [c] \<in> {(L ! a @ [c]) @ p | p. prefix p suff}"
      by auto
    moreover have "bn_matches (?st ! b) = (if b < ?n then bn_matches (st ! b) else [])" if "b < Suc ?n" for b
      using that g(4,5) by (auto simp: less_Suc_eq)
    ultimately show ?thesis
      unfolding code using M g(3) len
      by (intro exI [of _ M]) (auto simp: nth_append)
  qed
qed

section \<open>The longest suffix in the trie\<close>

fun longest :: "string set \<Rightarrow> string \<Rightarrow> string" where
  "longest T [] = []"
| "longest T (c # s) = (if c # s \<in> T then c # s else longest T s)"

definition closed :: "string set \<Rightarrow> bool" where
  "closed T \<longleftrightarrow> [] \<in> T \<and> (\<forall>u c. u @ [c] \<in> T \<longrightarrow> u \<in> T)"

lemma longest_in: "closed T \<Longrightarrow> longest T s \<in> T"
  by (induction s) (auto simp: closed_def)

lemma longest_suffix: "suffix (longest T s) s"
  by (induction s) (auto simp: suffix_Cons)

lemma length_longest: "length (longest T s) \<le> length s"
  using longest_suffix [of T s] by (rule suffix_length_le)

lemma longest_max: "suffix v s \<Longrightarrow> v \<in> T \<Longrightarrow> suffix v (longest T s)"
  by (induction s) (auto simp: suffix_Cons)

lemma longest_self [simp]: "u \<in> T \<Longrightarrow> longest T u = u"
  by (cases u) auto

lemma suffix_antisym: "suffix u v \<Longrightarrow> suffix v u \<Longrightarrow> u = v"
  by (auto simp: suffix_def)

lemma longest_eqI:
  "closed T \<Longrightarrow> suffix v s \<Longrightarrow> v \<in> T \<Longrightarrow> (\<And>w. w \<in> T \<Longrightarrow> suffix w s \<Longrightarrow> suffix w v) \<Longrightarrow> longest T s = v"
  by (meson suffix_antisym longest_in longest_max longest_suffix)

lemma longest_snoc: "closed T \<Longrightarrow> longest T (s @ [c]) = longest T (longest T s @ [c])"
proof (rule longest_eqI)
  assume closed: "closed T"
  show "suffix (longest T (longest T s @ [c])) (s @ [c])"
    using longest_suffix [of T "longest T s @ [c]"] longest_suffix [of T s]
    by (metis same_suffix_suffix snoc_suffix_snoc suffix_order.trans)
  show "longest T (longest T s @ [c]) \<in> T"
    by (rule longest_in [OF closed])
  fix w
  assume w: "w \<in> T" "suffix w (s @ [c])"
  then have "suffix w (longest T s @ [c])"
    using closed longest_max [of _ s T] by (cases w rule: rev_cases) (auto simp: closed_def)
  then show "suffix w (longest T (longest T s @ [c]))"
    using w(1) longest_max by blast
qed

lemma longest_fall:
  "closed T \<Longrightarrow> v @ [c] \<notin> T \<Longrightarrow> longest T (v @ [c]) = longest T (longest T (tl v) @ [c])"
proof (cases v)
  case Nil
  then show "closed T \<Longrightarrow> v @ [c] \<notin> T \<Longrightarrow> longest T (v @ [c]) = longest T (longest T (tl v) @ [c])"
    by simp
next
  case (Cons d u)
  then show "closed T \<Longrightarrow> v @ [c] \<notin> T \<Longrightarrow> longest T (v @ [c]) = longest T (longest T (tl v) @ [c])"
    by (simp add: longest_snoc [of T u c])
qed

text \<open>The words that end with a label, longest first.\<close>

function hits :: "string list \<Rightarrow> string set \<Rightarrow> string \<Rightarrow> string list" where
  "hits dict T u = filter (\<lambda>w. w = u) dict @ (if u = [] then [] else hits dict T (longest T (tl u)))"
  by pat_completeness auto
termination
proof (relation "measure (\<lambda>(_, _, u). length u)")
  fix dict :: "string list" and T and u :: string
  assume "u \<noteq> []"
  then show "((dict, T, longest T (tl u)), (dict, T, u)) \<in> measure (\<lambda>(_, _, u). length u)"
    using length_longest [of T "tl u"] by (cases u) auto
qed simp

declare hits.simps [simp del]

lemma count_filter_eq: "count (mset (filter (\<lambda>w. w = u) dict)) x = (if x = u then count (mset dict) x else 0)"
  by (induction dict) auto

lemma count_hits:
  "closed T \<Longrightarrow> x \<in> T \<Longrightarrow> count (mset (hits dict T u)) x = (if suffix x u then count (mset dict) x else 0)"
proof (induction dict T u rule: hits.induct)
  case (1 dict T u)
  show ?case
  proof (cases u)
    case Nil
    then show ?thesis
      by (simp add: hits.simps [of dict T "[]"] count_filter_eq)
  next
    case (Cons c s)
    have "suffix x s \<longleftrightarrow> suffix x (longest T s)"
      using longest_max [OF _ 1(3)] longest_suffix [of T s] by (meson suffix_order.trans)
    moreover have "\<not> suffix (c # s) s"
      by (auto dest: suffix_length_le)
    ultimately show ?thesis
      using 1 Cons by (auto simp: hits.simps [of dict T "c # s"] count_filter_eq suffix_Cons)
  qed
qed

section \<open>Fail links\<close>

definition fail_ok :: "bor \<Rightarrow> string list \<Rightarrow> nat \<Rightarrow> bool" where
  "fail_ok st L a \<longleftrightarrow> (\<exists>f. bn_fail (st ! a) = Some f \<and> f < length st \<and> L ! f = longest (set L) (tl (L ! a)))"

lemma labelled_closed: "labelled st L \<Longrightarrow> closed (set L)"
  by (auto simp: labelled_def closed_def) (metis length_greater_0_conv nth_mem)

lemma labelled_same: "labelled st L \<Longrightarrow> a < length st \<Longrightarrow> b < length st \<Longrightarrow> L ! a = L ! b \<longleftrightarrow> a = b"
  by (simp add: labelled_def nth_eq_iff_index_eq)

lemma labelled_in: "labelled st L \<Longrightarrow> a < length st \<Longrightarrow> L ! a \<in> set L"
  by (simp add: labelled_def)

lemma child_cases:
  assumes "labelled st L" "f < length st"
  obtains (child) b where "bn_child st f c = Some b" "b < length st" "L ! b = L ! f @ [c]" "L ! f @ [c] \<in> set L"
  | (none) "bn_child st f c = None" "L ! f @ [c] \<notin> set L"
proof (cases "bn_child st f c")
  case None
  then show ?thesis
    using none labelled_no_child [OF assms] by simp
next
  case (Some b)
  then have "b < length st" "L ! b = L ! f @ [c]"
    using labelled_child [OF assms] by auto
  then show ?thesis
    using child Some labelled_in [OF assms(1)] by metis
qed

lemma getFallNode_label:
  assumes lab: "labelled st L" and ok: "\<And>a. a < length st \<Longrightarrow> length (L ! a) \<le> d \<Longrightarrow> fail_ok st L a"
    and a: "a < length st" "length (L ! a) \<le> d"
  shows "\<exists>b. getFallNode st a c = Some b \<and> b < length st \<and> L ! b = longest (set L) (tl (L ! a) @ [c])"
  using a
proof (induction "length (L ! a)" arbitrary: a rule: less_induct)
  case less
  note cl = labelled_closed [OF lab]
  obtain f where f: "bn_fail (st ! a) = Some f" "f < length st" "L ! f = longest (set L) (tl (L ! a))"
    using ok [OF less.prems] by (auto simp: fail_ok_def)
  have goal: "longest (set L) (tl (L ! a) @ [c]) = longest (set L) (L ! f @ [c])"
    using longest_snoc [OF cl] f(3) by metis
  consider (child) b where "bn_child st f c = Some b" "b < length st" "L ! b = L ! f @ [c]" "L ! f @ [c] \<in> set L"
    | (none) "bn_child st f c = None" "L ! f @ [c] \<notin> set L"
    by (rule child_cases [OF lab f(2)])
  then show ?case
  proof cases
    case (child b)
    then show ?thesis
      using f goal by (subst getFallNode.simps) simp
  next
    case none
    have fall: "longest (set L) (L ! f @ [c]) = longest (set L) (tl (L ! f) @ [c])"
      using longest_fall [OF cl none(2)] longest_snoc [OF cl, of "tl (L ! f)" c] by simp
    have shorter: "length (L ! f) < length (L ! a)" if "L ! a \<noteq> []"
    proof -
      have "length (tl (L ! a)) < length (L ! a)"
        using that by simp
      then show ?thesis
        unfolding f(3) using length_longest [of "set L" "tl (L ! a)"] by linarith
    qed
    show ?thesis
    proof (cases "a = f")
      case True
      then have "L ! a = []"
        using shorter by blast
      then have "longest (set L) (tl (L ! a) @ [c]) = L ! a"
        using none(2) True by simp
      then show ?thesis
        using True none(1) f(1,2) by (subst getFallNode.simps) simp
    next
      case False
      then have "L ! a \<noteq> L ! f"
        using labelled_same [OF lab less.prems(1) f(2)] by simp
      then have "L ! a \<noteq> []"
        using f(3) by fastforce
      then have "length (L ! f) < length (L ! a)"
        by (rule shorter)
      then obtain b where "getFallNode st f c = Some b" "b < length st" "L ! b = longest (set L) (tl (L ! f) @ [c])"
        using less.hyps [of f] f(2) less.prems(2) by auto
      then show ?thesis
        using False none(1) f(1) by (subst getFallNode.simps) (simp add: goal fall)
    qed
  qed
qed

section \<open>The breadth-first construction\<close>

definition fixed :: "bor \<Rightarrow> string list \<Rightarrow> string list \<Rightarrow> nat \<Rightarrow> bool" where
  "fixed st L dict a \<longleftrightarrow> fail_ok st L a \<and> bn_matches (st ! a) = hits dict (set L) (L ! a)"

definition level_inv :: "bor \<Rightarrow> string list \<Rightarrow> string list \<Rightarrow> nat set \<Rightarrow> nat \<Rightarrow> bool" where
  "level_inv st L dict M d \<longleftrightarrow> labelled st L \<and>
     (\<forall>a < length st. if length (L ! a) \<le> d \<or> a \<in> M then fixed st L dict a
                      else bn_matches (st ! a) = filter (\<lambda>w. w = L ! a) dict)"

definition same_tree :: "bor \<Rightarrow> bor \<Rightarrow> bool" where
  "same_tree st st' \<longleftrightarrow> length st' = length st \<and> (\<forall>a < length st. bn_children (st' ! a) = bn_children (st ! a))"

lemma same_tree_trans: "same_tree st st' \<Longrightarrow> same_tree st' st'' \<Longrightarrow> same_tree st st''"
  by (simp add: same_tree_def)

lemma same_tree_labelled: "same_tree st st' \<Longrightarrow> labelled st L \<Longrightarrow> labelled st' L"
  by (simp add: same_tree_def labelled_def bn_child_def)

lemma children_iff:
  assumes "labelled st L" "a < length st"
  shows "(k, b) \<in> set (bn_children (st ! a)) \<longleftrightarrow> b < length st \<and> L ! b = L ! a @ [map_key k]"
proof -
  have "om_inv (bn_children (st ! a))"
    using assms by (simp add: labelled_def)
  then have "(k, b) \<in> set (bn_children (st ! a)) \<longleftrightarrow> bn_child st a (map_key k) = Some b"
    using om.entries_find by (simp add: bn_child_def)
  then show ?thesis
    using labelled_child [OF assms] by simp
qed

lemma children_set:
  assumes "labelled st L" "a < length st"
  shows "set (children_of st a) = {b. b < length st \<and> (\<exists>c. L ! b = L ! a @ [c])}"
proof -
  have "b \<in> set (children_of st a) \<longleftrightarrow> (\<exists>k. (k, b) \<in> set (bn_children (st ! a)))" for b
    by (force simp: children_of_def)
  moreover have "(\<exists>k. L ! b = L ! a @ [map_key k]) \<longleftrightarrow> (\<exists>c. L ! b = L ! a @ [c])" for b
    by (metis map_char.sel)
  ultimately show ?thesis
    using children_iff [OF assms] by blast
qed

lemma children_distinct:
  assumes "labelled st L" "a < length st"
  shows "distinct (children_of st a)"
proof -
  have "distinct (map fst (bn_children (st ! a)))"
    using assms by (simp add: labelled_def om_inv_def strict_sorted_iff)
  moreover have "inj_on snd (set (bn_children (st ! a)))"
    using children_iff [OF assms] by (auto intro!: inj_onI map_char.expand)
  ultimately show ?thesis
    by (simp add: children_of_def distinct_map)
qed

definition fix_child :: "nat \<Rightarrow> nat \<Rightarrow> bor \<Rightarrow> bor" where
  "fix_child b f st = (let st = setFailNode b f st
     in st[b := (st ! b)\<lparr>bn_matches := bn_matches (st ! b) @ bn_matches (st ! f)\<rparr>])"

lemma link_children_Cons:
  "link_children cur ((k, b) # it) st = (case getFallNode st cur (map_key k) of
     None \<Rightarrow> None | Some f \<Rightarrow> link_children cur it (fix_child b f st))"
  by (simp add: fix_child_def Let_def split: option.split)

lemma fix_child:
  assumes "b < length st" "f < length st" "b \<noteq> f"
  shows "same_tree st (fix_child b f st)"
    "bn_fail (fix_child b f st ! b) = Some f"
    "bn_matches (fix_child b f st ! b) = bn_matches (st ! b) @ bn_matches (st ! f)"
    "a \<noteq> b \<Longrightarrow> fix_child b f st ! a = st ! a"
  using assms by (auto simp: fix_child_def setFailNode_def Let_def same_tree_def nth_list_update)

lemma level_step:
  assumes inv: "level_inv st L dict M d" and cur: "cur < length st" "length (L ! cur) = d" "0 < d"
    and b: "b < length st" "L ! b = L ! cur @ [c]" "b \<notin> M"
  shows "\<exists>f. getFallNode st cur c = Some f \<and> level_inv (fix_child b f st) L dict (insert b M) d \<and>
    same_tree st (fix_child b f st)"
proof -
  have lab: "labelled st L"
    and ok: "\<And>a. a < length st \<Longrightarrow> length (L ! a) \<le> d \<Longrightarrow> fixed st L dict a"
    using inv by (auto simp: level_inv_def)
  obtain f where f: "getFallNode st cur c = Some f" "f < length st" "L ! f = longest (set L) (tl (L ! cur) @ [c])"
    using getFallNode_label [OF lab, of d cur c] ok cur(1,2) by (auto simp: fixed_def)
  have ne: "L ! cur \<noteq> []"
    using cur(2,3) by auto
  then have tail: "tl (L ! b) = tl (L ! cur) @ [c]"
    using b(2) by simp
  then have short: "length (L ! f) \<le> d"
    using length_longest [of "set L" "tl (L ! b)"] f(3) b(2) cur(2,3) by simp
  then have bf: "b \<noteq> f"
    using b(2) cur(2) by auto
  note fixc = fix_child [OF b(1) f(2) bf]
  have len: "length (fix_child b f st) = length st"
    using fixc(1) by (simp add: same_tree_def)
  have raw: "bn_matches (st ! b) = filter (\<lambda>w. w = L ! b) dict"
    using inv b cur(2) by (simp add: level_inv_def split: if_splits)
  have "bn_matches (st ! f) = hits dict (set L) (longest (set L) (tl (L ! b)))"
    using ok [OF f(2) short] f(3) tail by (simp add: fixed_def)
  moreover have "L ! b \<noteq> []"
    using b(2) by simp
  ultimately have new: "fixed (fix_child b f st) L dict b"
    using fixc(2,3) raw f(2,3) tail len
    by (auto simp: fixed_def fail_ok_def hits.simps [of dict "set L" "L ! b"])
  have old: "fixed (fix_child b f st) L dict a \<longleftrightarrow> fixed st L dict a" if "a \<noteq> b" for a
    using fixc(4) [OF that] len by (simp add: fixed_def fail_ok_def)
  have "level_inv (fix_child b f st) L dict (insert b M) d"
    using inv new same_tree_labelled [OF fixc(1) lab] old fixc(4) len
    by (simp add: level_inv_def) metis
  then show ?thesis
    using f(1) fixc(1) by blast
qed

lemma link_children_inv:
  "level_inv st L dict M d \<Longrightarrow> cur < length st \<Longrightarrow> length (L ! cur) = d \<Longrightarrow> 0 < d \<Longrightarrow>
   \<forall>(k, b) \<in> set it. b < length st \<and> L ! b = L ! cur @ [map_key k] \<Longrightarrow>
   distinct (map snd it) \<Longrightarrow> snd ` set it \<inter> M = {} \<Longrightarrow>
   \<exists>st'. link_children cur it st = Some st' \<and> level_inv st' L dict (M \<union> snd ` set it) d \<and> same_tree st st'"
proof (induction it arbitrary: st M)
  case Nil
  then show ?case
    by (simp add: same_tree_def)
next
  case (Cons e it)
  obtain k b where e: "e = (k, b)"
    by (cases e)
  have b: "b < length st" "L ! b = L ! cur @ [map_key k]" "b \<notin> M"
    using Cons.prems(5,7) e by auto
  obtain f where f: "getFallNode st cur (map_key k) = Some f"
      "level_inv (fix_child b f st) L dict (insert b M) d" "same_tree st (fix_child b f st)"
    using level_step [OF Cons.prems(1-4) b] by blast
  then have len: "length (fix_child b f st) = length st"
    by (simp add: same_tree_def)
  have "\<exists>st'. link_children cur it (fix_child b f st) = Some st' \<and>
      level_inv st' L dict (insert b M \<union> snd ` set it) d \<and> same_tree (fix_child b f st) st'"
    using Cons.prems e len by (intro Cons.IH [OF f(2)]) auto
  then show ?case
    unfolding e link_children_Cons f(1) using same_tree_trans [OF f(3)] by (auto simp: insert_commute)
qed

lemma same_tree_children: "same_tree st st' \<Longrightarrow> a < length st \<Longrightarrow> children_of st' a = children_of st a"
  by (simp add: same_tree_def children_of_def)

lemma children_disjoint:
  "labelled st L \<Longrightarrow> a < length st \<Longrightarrow> b < length st \<Longrightarrow> a \<noteq> b \<Longrightarrow> set (children_of st a) \<inter> set (children_of st b) = {}"
  using labelled_same [of st L a b] by (auto simp: children_set)

text \<open>A whole level of the queue: what is processed is a list of nodes of one depth.\<close>

lemma fall_level:
  "level_inv st L dict M d \<Longrightarrow> 0 < d \<Longrightarrow> distinct qs \<Longrightarrow> \<forall>q \<in> set qs. q < length st \<and> length (L ! q) = d \<Longrightarrow>
   \<forall>q \<in> set qs. set (children_of st q) \<inter> M = {} \<Longrightarrow>
   \<exists>st'. fall_loop (qs @ ys) st = fall_loop (ys @ concat (map (children_of st) qs)) st' \<and>
     level_inv st' L dict (M \<union> set (concat (map (children_of st) qs))) d \<and> same_tree st st'"
proof (induction qs arbitrary: st M ys)
  case Nil
  then show ?case
    by (auto simp: same_tree_def)
next
  case (Cons q qs)
  have q: "q < length st" "length (L ! q) = d" and lab: "labelled st L"
    using Cons.prems by (auto simp: level_inv_def)
  have "\<exists>st'. link_children q (bn_children (st ! q)) st = Some st' \<and>
      level_inv st' L dict (M \<union> snd ` set (bn_children (st ! q))) d \<and> same_tree st st'"
    using Cons.prems(2,5) children_iff [OF lab q(1)] children_distinct [OF lab q(1)]
    by (intro link_children_inv [OF Cons.prems(1) q]) (auto simp: children_of_def)
  then obtain st1 where st1: "link_children q (bn_children (st ! q)) st = Some st1"
      "level_inv st1 L dict (M \<union> set (children_of st q)) d" "same_tree st st1"
    by (auto simp: children_of_def)
  have len: "length st1 = length st"
    using st1(3) by (simp add: same_tree_def)
  have same: "children_of st1 x = children_of st x" if "x < length st" for x
    using same_tree_children [OF st1(3) that] .
  have step: "fall_loop ((q # qs) @ ys) st = fall_loop (qs @ (ys @ children_of st q)) st1"
    using same [OF q(1)] by (subst fall_loop.simps) (simp add: st1(1))
  have disj: "set (children_of st x) \<inter> (M \<union> set (children_of st q)) = {}" if "x \<in> set qs" for x
    using Cons.prems(3-5) that children_disjoint [OF lab _ q(1), of x] by auto
  have "\<exists>st'. fall_loop (qs @ (ys @ children_of st q)) st1 =
        fall_loop ((ys @ children_of st q) @ concat (map (children_of st1) qs)) st' \<and>
      level_inv st' L dict ((M \<union> set (children_of st q)) \<union> set (concat (map (children_of st1) qs))) d \<and> same_tree st1 st'"
    using Cons.prems(2-4) same len disj by (intro Cons.IH [OF st1(2)]) auto
  moreover have "map (children_of st1) qs = map (children_of st) qs"
    using same Cons.prems(4) by auto
  ultimately show ?case
    unfolding step using same_tree_trans [OF st1(3)] by (auto simp: Un_assoc)
qed

definition is_level :: "bor \<Rightarrow> string list \<Rightarrow> nat \<Rightarrow> nat list \<Rightarrow> bool" where
  "is_level st L d qs \<longleftrightarrow> distinct qs \<and> set qs = {a. a < length st \<and> length (L ! a) = d}"

lemma next_level:
  assumes "labelled st L" "is_level st L d qs"
  shows "is_level st L (Suc d) (concat (map (children_of st) qs))"
proof -
  have q: "q < length st" "length (L ! q) = d" if "q \<in> set qs" for q
    using assms(2) that by (auto simp: is_level_def)
  have sub: "distinct (concat (map (children_of st) qs'))" if "distinct qs'" "set qs' \<subseteq> set qs" for qs'
    using that
  proof (induction qs')
    case (Cons x xs)
    then have "set (children_of st x) \<inter> set (children_of st y) = {}" if "y \<in> set xs" for y
      using that q by (intro children_disjoint [OF assms(1)]) auto
    moreover have "distinct (children_of st x)"
      using Cons.prems q by (intro children_distinct [OF assms(1)]) auto
    ultimately show ?case
      using Cons by auto
  qed simp
  have "set (concat (map (children_of st) qs)) = {a. a < length st \<and> length (L ! a) = Suc d}"
  proof (intro set_eqI iffI)
    fix b
    assume "b \<in> set (concat (map (children_of st) qs))"
    then show "b \<in> {a. a < length st \<and> length (L ! a) = Suc d}"
      using q children_set [OF assms(1)] by auto
  next
    fix b
    assume "b \<in> {a. a < length st \<and> length (L ! a) = Suc d}"
    then have b: "b < length st" "length (L ! b) = Suc d"
      by auto
    then obtain u c where u: "L ! b = u @ [c]"
      by (cases "L ! b" rule: rev_cases) auto
    then have "u \<in> set L"
      using labelled_closed [OF assms(1)] labelled_in [OF assms(1) b(1)] by (auto simp: closed_def)
    then obtain a where a: "a < length st" "L ! a = u"
      using assms(1) by (auto simp: labelled_def in_set_conv_nth)
    then have "a \<in> set qs"
      using assms(2) u b(2) by (simp add: is_level_def)
    moreover have "b \<in> set (children_of st a)"
      using children_set [OF assms(1) a(1)] b u a by auto
    ultimately show "b \<in> set (concat (map (children_of st) qs))"
      by auto
  qed
  then show ?thesis
    using assms(2) sub [of qs] by (simp add: is_level_def)
qed

lemma level_inv_next:
  "level_inv st L dict {a. a < length st \<and> length (L ! a) = Suc d} d \<Longrightarrow> level_inv st L dict {} (Suc d)"
  by (auto simp: level_inv_def le_Suc_eq)

lemma same_tree_level: "same_tree st st' \<Longrightarrow> is_level st' L d qs = is_level st L d qs"
  by (simp add: same_tree_def is_level_def)

lemma fall_loop_fixes:
  assumes "\<And>a. a < length st \<Longrightarrow> length (L ! a) \<le> n"
  shows "level_inv st L dict {} d \<Longrightarrow> 0 < d \<Longrightarrow> is_level st L d qs \<Longrightarrow>
    \<exists>st'. fall_loop qs st = Some st' \<and> same_tree st st' \<and> labelled st' L \<and> (\<forall>a < length st'. fixed st' L dict a)"
  using assms
proof (induction "Suc n - d" arbitrary: st d qs)
  case 0
  then have "\<not> length (L ! a) = d" if "a < length st" for a
    using that by fastforce
  moreover have "q < length st \<and> length (L ! q) = d" if "q \<in> set qs" for q
    using 0(4) that by (simp add: is_level_def)
  ultimately have "qs = []"
    by (metis last_in_set)
  moreover have "length (L ! a) \<le> d" if "a < length st" for a
    using 0(1) 0(5) [OF that] by linarith
  ultimately show ?case
    using 0 by (auto simp: level_inv_def same_tree_def fall_loop.simps)
next
  case (Suc m)
  have lab: "labelled st L"
    using Suc.prems by (simp add: level_inv_def)
  let ?next = "concat (map (children_of st) qs)"
  obtain st1 where st1: "fall_loop qs st = fall_loop ?next st1"
      "level_inv st1 L dict (set ?next) d" "same_tree st st1"
    using fall_level [OF Suc.prems(1,2), of qs "[]"] Suc.prems(3) by (auto simp: is_level_def)
  have next_st: "is_level st L (Suc d) ?next"
    by (rule next_level [OF lab Suc.prems(3)])
  have len: "length st1 = length st"
    using st1(3) by (simp add: same_tree_def)
  have "level_inv st1 L dict {} (Suc d)"
    using st1(2) next_st len by (intro level_inv_next) (simp add: is_level_def)
  then have "\<exists>st'. fall_loop ?next st1 = Some st' \<and> same_tree st1 st' \<and> labelled st' L \<and> (\<forall>a < length st'. fixed st' L dict a)"
    using Suc.hyps(2) Suc.prems(4) next_st len same_tree_level [OF st1(3)] by (intro Suc.hyps(1) [of "Suc d"]) auto
  then show ?case
    using st1(1) same_tree_trans [OF st1(3)] by metis
qed


section \<open>The constructor\<close>

lemma nth_upd: "j < length xs \<Longrightarrow> xs[i := x] ! j = (if i = j then x else xs ! j)"
  by (auto simp: nth_list_update)

lemma addWord_fail: "b < length st \<Longrightarrow> bn_fail (addWord word suff a st ! b) = bn_fail (st ! b)"
proof (induction suff arbitrary: a st)
  case Nil
  then show ?case
    by (simp add: nth_upd)
next
  case (Cons c suff)
  have "bn_fail (grow a c st ! b) = bn_fail (st ! b)" "b < length (grow a c st)"
    using Cons.prems by (simp_all add: grow_def nth_append nth_upd)
  then show ?case
    using Cons by (simp add: addWord_Cons del: addWord.simps split: option.split)
qed

lemma build_trie_aux:
  assumes "labelled st L" "\<forall>a < length st. bn_matches (st ! a) = filter (\<lambda>w. w = L ! a) ds"
    "\<forall>w \<in> set ds. w \<in> set L" "bn_fail (st ! 0) = Some 0"
  shows "\<exists>M. labelled (fold (\<lambda>w st. addWord w w 0 st) ws st) M \<and>
    (\<forall>a < length (fold (\<lambda>w st. addWord w w 0 st) ws st). bn_matches (fold (\<lambda>w st. addWord w w 0 st) ws st ! a) = filter (\<lambda>w. w = M ! a) (ds @ ws)) \<and>
    (\<forall>w \<in> set (ds @ ws). w \<in> set M) \<and> bn_fail (fold (\<lambda>w st. addWord w w 0 st) ws st ! 0) = Some 0"
  using assms
proof (induction ws arbitrary: st L ds)
  case Nil
  then show ?case
    by auto
next
  case (Cons w ws)
  have len: "length L = length st" "L ! 0 = []" "0 < length st" "distinct L"
    using Cons.prems(1) by (auto simp: labelled_def)
  let ?st = "addWord w w 0 st"
  obtain M where M: "labelled ?st M" "length st \<le> length ?st" "\<forall>b < length st. M ! b = L ! b"
      "set M = set L \<union> {p. prefix p w}"
      "\<forall>b < length ?st. bn_matches (?st ! b) = (if b < length st then bn_matches (st ! b) else []) @ (if M ! b = w then [w] else [])"
    using addWord_labelled [OF Cons.prems(1) len(3), of w w] len(2) by auto
  have lenM: "length M = length ?st" "distinct M"
    using M(1) by (auto simp: labelled_def)
  have fresh: "M ! b \<notin> set L" if "b < length ?st" "\<not> b < length st" for b
  proof
    assume "M ! b \<in> set L"
    then obtain x where "x < length st" "M ! b = M ! x"
      using M(3) len(1) by (metis in_set_conv_nth)
    then show False
      using that M(2) lenM nth_eq_iff_index_eq [of M b x] by auto
  qed
  have none: "filter (\<lambda>w. w = M ! b) ds = []" if "b < length ?st" "\<not> b < length st" for b
    using fresh [OF that] Cons.prems(3) by (auto simp: filter_empty_conv)
  have "\<forall>a < length ?st. bn_matches (?st ! a) = filter (\<lambda>w. w = M ! a) (ds @ [w])"
    using M(3,5) Cons.prems(2) none by auto
  moreover have "\<forall>x \<in> set (ds @ [w]). x \<in> set M"
    using Cons.prems(3) M(4) by auto
  moreover have "bn_fail (?st ! 0) = Some 0"
    using addWord_fail [OF len(3)] Cons.prems(4) by simp
  ultimately show ?case
    using Cons.IH [OF M(1), of "ds @ [w]"] by simp
qed

lemma build_trie_labelled:
  "\<exists>L. labelled (build_trie dict) L \<and>
    (\<forall>a < length (build_trie dict). bn_matches (build_trie dict ! a) = filter (\<lambda>w. w = L ! a) dict) \<and>
    (\<forall>w \<in> set dict. w \<in> set L) \<and> bn_fail (build_trie dict ! 0) = Some 0"
proof -
  have "labelled (setFailNode 0 0 [new_node]) [[]]"
    by (auto simp: labelled_def setFailNode_def new_node_def bn_child_def)
  from build_trie_aux [OF this, of "[]" dict] show ?thesis
    by (simp add: build_trie_def setFailNode_def new_node_def)
qed

lemma set_fail_fold:
  "same_tree st (fold (\<lambda>b st. setFailNode b f st) bs st) \<and>
   (\<forall>a < length st. bn_matches (fold (\<lambda>b st. setFailNode b f st) bs st ! a) = bn_matches (st ! a) \<and>
      bn_fail (fold (\<lambda>b st. setFailNode b f st) bs st ! a) = (if a \<in> set bs then Some f else bn_fail (st ! a)))"
proof (induction bs arbitrary: st)
  case (Cons b bs)
  then show ?case
    using Cons.IH [of "setFailNode b f st"]
    by (auto simp: same_tree_def setFailNode_def nth_upd simp del: Cons.IH)
qed (simp add: same_tree_def)

lemma hits_short: "[] \<notin> set dict \<Longrightarrow> length u \<le> 1 \<Longrightarrow> hits dict T u = filter (\<lambda>w. w = u) dict"
proof -
  assume no: "[] \<notin> set dict" and u: "length u \<le> 1"
  have "filter (\<lambda>w. w = []) dict = []"
    using no by (auto simp: filter_empty_conv)
  moreover have "u = [] \<or> (\<exists>c. u = [c])"
    using u by (cases u) auto
  ultimately show ?thesis
    by (auto simp: hits.simps [of dict T "[]"] hits.simps [of dict T "[_]"])
qed

lemma AhoCorasick_new_fixed:
  assumes "[] \<notin> set dict"
  shows "\<exists>st L. AhoCorasick_new dict = Some st \<and> labelled st L \<and> (\<forall>a < length st. fixed st L dict a) \<and> set dict \<subseteq> set L"
proof -
  obtain L where L: "labelled (build_trie dict) L"
      "\<forall>a < length (build_trie dict). bn_matches (build_trie dict ! a) = filter (\<lambda>w. w = L ! a) dict"
      "\<forall>w \<in> set dict. w \<in> set L" "bn_fail (build_trie dict ! 0) = Some 0"
    using build_trie_labelled by blast
  let ?st = "build_trie dict"
  let ?st1 = "fold (\<lambda>b st. setFailNode b 0 st) (children_of ?st 0) ?st"
  have root: "0 < length ?st" "L ! 0 = []" "length L = length ?st"
    using L(1) by (auto simp: labelled_def)
  note st1 = set_fail_fold [of ?st 0 "children_of ?st 0"]
  have len: "length ?st1 = length ?st"
    using st1 by (simp add: same_tree_def)
  have lab1: "labelled ?st1 L"
    using same_tree_labelled L(1) st1 by blast
  have level: "is_level ?st L 1 (children_of ?st 0)"
    using children_set [OF L(1) root(1)] children_distinct [OF L(1) root(1)] root(2)
    by (auto simp: is_level_def length_Suc_conv)
  have "fixed ?st1 L dict a" if a: "a < length ?st" "length (L ! a) \<le> 1" for a
  proof -
    have "bn_fail (?st1 ! a) = Some 0"
    proof (cases "L ! a = []")
      case True
      then have "a = 0"
        using labelled_same [OF L(1) a(1) root(1)] root(2) by simp
      then show ?thesis
        using st1 L(4) root(1) by auto
    next
      case False
      then have "a \<in> set (children_of ?st 0)"
        using level a by (cases "L ! a") (auto simp: is_level_def)
      then show ?thesis
        using st1 a(1) by auto
    qed
    moreover have "tl (L ! a) = []"
      using a(2) by (cases "L ! a") auto
    ultimately show ?thesis
      using st1 L(2) a root len hits_short [OF assms a(2)] by (simp add: fixed_def fail_ok_def)
  qed
  then have inv: "level_inv ?st1 L dict {} 1"
    using lab1 st1 L(2) len by (simp add: level_inv_def)
  have "\<exists>n. \<forall>a < length ?st1. length (L ! a) \<le> n"
    using len root(3) by (intro exI [of _ "sum_list (map length L)"]) (auto intro!: member_le_sum_list)
  then obtain n where "\<And>a. a < length ?st1 \<Longrightarrow> length (L ! a) \<le> n"
    by blast
  moreover have "is_level ?st1 L 1 (children_of ?st 0)"
    using level same_tree_level st1 by blast
  ultimately obtain st' where "fall_loop (children_of ?st 0) ?st1 = Some st'" "labelled st' L"
      "\<forall>a < length st'. fixed st' L dict a"
    using fall_loop_fixes [of ?st1 L n dict 1 "children_of ?st 0"] inv by auto
  then show ?thesis
    using L(3) by (auto simp: AhoCorasick_new_def Let_def)
qed

section \<open>The search\<close>

definition report :: "string list \<Rightarrow> nat \<Rightarrow> (string \<times> nat) list" where
  "report ws i = map (\<lambda>w. (w, i + 1 - length w)) ws"

lemma hits_subset: "set (hits dict T u) \<subseteq> set dict"
proof (induction dict T u rule: hits.induct)
  case (1 dict T u)
  then show ?case
    by (auto simp: hits.simps [of dict T u] split: if_splits)
qed

lemma find_char:
  assumes lab: "labelled st L" and all: "\<forall>a < length st. fixed st L dict a" and no: "[] \<notin> set dict"
  shows "cur < length st \<Longrightarrow> \<exists>b. find_loop st cur i (c # r) ms = find_loop st b (i + 1) r (ms @ report (bn_matches (st ! b)) i) \<and>
    b < length st \<and> L ! b = longest (set L) (L ! cur @ [c])"
proof (induction "length (L ! cur)" arbitrary: cur rule: less_induct)
  case less
  note cl = labelled_closed [OF lab]
  obtain f where f: "bn_fail (st ! cur) = Some f" "f < length st" "L ! f = longest (set L) (tl (L ! cur))"
    using all less.prems by (auto simp: fixed_def fail_ok_def)
  consider (child) b where "bn_child st cur c = Some b" "b < length st" "L ! b = L ! cur @ [c]" "L ! cur @ [c] \<in> set L"
    | (none) "bn_child st cur c = None" "L ! cur @ [c] \<notin> set L"
    by (rule child_cases [OF lab less.prems])
  then show ?case
  proof cases
    case (child b)
    then show ?thesis
      by (intro exI [of _ b]) (subst find_loop.simps, simp add: report_def)
  next
    case none
    show ?thesis
    proof (cases "L ! cur = []")
      case True
      then have "f = cur"
        using f(2,3) labelled_same [OF lab f(2) less.prems] by simp
      moreover have "hits dict (set L) (L ! cur) = []"
        using True no hits_short [OF no, of "L ! cur" "set L"] by (auto simp: filter_empty_conv)
      moreover have "longest (set L) (L ! cur @ [c]) = L ! cur"
        using True none(2) by simp
      ultimately show ?thesis
        using none(1) f(1) all less.prems
        by (intro exI [of _ cur]) (subst find_loop.simps, simp add: report_def fixed_def)
    next
      case False
      have "length (tl (L ! cur)) < length (L ! cur)"
        using False by simp
      then have shorter: "length (L ! f) < length (L ! cur)"
        unfolding f(3) using length_longest [of "set L" "tl (L ! cur)"] by linarith
      then have "cur \<noteq> f"
        by auto
      then have "find_loop st cur i (c # r) ms = find_loop st f i (c # r) ms"
        using none(1) f(1) by (subst find_loop.simps) simp
      moreover have "longest (set L) (L ! cur @ [c]) = longest (set L) (L ! f @ [c])"
        unfolding f(3) by (rule longest_fall [OF cl none(2)])
      ultimately show ?thesis
        using less.hyps [OF shorter f(2)] by simp
    qed
  qed
qed

fun found :: "string list \<Rightarrow> string set \<Rightarrow> string \<Rightarrow> string \<Rightarrow> (string \<times> nat) list" where
  "found dict T s [] = []"
| "found dict T s (c # r) = report (hits dict T (longest T (s @ [c]))) (length s) @ found dict T (s @ [c]) r"

lemma found_subset: "x \<in> set (found dict T s r) \<Longrightarrow> fst x \<in> set dict"
  by (induction dict T s r rule: found.induct) (auto simp: report_def dest: subsetD [OF hits_subset])

lemma find_loop_found:
  assumes lab: "labelled st L" and all: "\<forall>a < length st. fixed st L dict a" and no: "[] \<notin> set dict"
  shows "cur < length st \<Longrightarrow> L ! cur = longest (set L) s \<Longrightarrow>
    find_loop st cur (length s) r ms = Some (ms @ found dict (set L) s r)"
proof (induction r arbitrary: cur s ms)
  case Nil
  then show ?case
    by (subst find_loop.simps) simp
next
  case (Cons c r)
  obtain b where b: "find_loop st cur (length s) (c # r) ms =
        find_loop st b (length s + 1) r (ms @ report (bn_matches (st ! b)) (length s))"
      "b < length st" "L ! b = longest (set L) (L ! cur @ [c])"
    using find_char [OF lab all no Cons.prems(1)] by blast
  have "L ! b = longest (set L) (s @ [c])"
    unfolding b(3) Cons.prems(2) by (rule longest_snoc [OF labelled_closed [OF lab], symmetric])
  moreover have "bn_matches (st ! b) = hits dict (set L) (L ! b)"
    using all b(2) by (simp add: fixed_def)
  ultimately show ?case
    using Cons.IH [OF b(2), of "s @ [c]"] b(1) by simp
qed

lemma count_report:
  "\<forall>w \<in> set ws. length w \<le> i + 1 \<Longrightarrow>
   count (mset (report ws i)) (w, k) = (if k + length w = i + 1 then count (mset ws) w else 0)"
  by (induction ws) (auto simp: report_def)

lemma hits_suffix: "closed T \<Longrightarrow> set dict \<subseteq> T \<Longrightarrow> w \<in> set (hits dict T u) \<Longrightarrow> suffix w u"
  using count_hits [of T w dict u] hits_subset [of dict T u] count_eq_zero_iff
  by (metis set_mset_mset subset_iff)

lemma suffix_longest_iff: "w \<in> T \<Longrightarrow> suffix w (longest T s) \<longleftrightarrow> suffix w s"
  using longest_max [of w s T] longest_suffix [of T s] by (meson suffix_order.trans)

lemma occurs_snoc:
  "k + length w = Suc (length s) \<and> suffix w (s @ [c]) \<longleftrightarrow>
   k + length w = Suc (length s) \<and> take (length w) (drop k (s @ c # r)) = w"
proof -
  have "suffix w (s @ [c]) \<longleftrightarrow> drop k (s @ [c]) = w" if k: "k + length w = Suc (length s)"
  proof -
    have "length (s @ [c]) - length w = k"
      using k by simp
    then show ?thesis
      by (metis suffix_drop suffix_take append_take_drop_id suffixI same_append_eq suffix_def
          length_append add_diff_cancel_right' append_eq_conv_conj)
  qed
  moreover have "take (length w) (drop k (s @ c # r)) = drop k (s @ [c])" if k: "k + length w = Suc (length s)"
  proof -
    have "take (length w) (drop k ((s @ [c]) @ r)) = drop k (s @ [c])"
      using k by (simp del: append_assoc add: drop_append take_append)
    then show ?thesis
      by simp
  qed
  ultimately show ?thesis
    by metis
qed

lemma count_found:
  assumes cl: "closed T" and dict: "set dict \<subseteq> T"
  shows "w \<in> T \<Longrightarrow> count (mset (found dict T s r)) (w, k) =
    (if length s < k + length w \<and> k + length w \<le> length s + length r \<and> take (length w) (drop k (s @ r)) = w
     then count (mset dict) w else 0)"
proof (induction r arbitrary: s)
  case Nil
  then show ?case
    by auto
next
  case (Cons c r)
  have "length x \<le> length s + 1" if "x \<in> set (hits dict T (longest T (s @ [c])))" for x
    using hits_suffix [OF cl dict that] longest_suffix [of T "s @ [c]"] by (auto dest!: suffix_length_le)
  then have "count (mset (report (hits dict T (longest T (s @ [c]))) (length s))) (w, k) =
      (if k + length w = Suc (length s) \<and> suffix w (s @ [c]) then count (mset dict) w else 0)"
    using count_hits [OF cl Cons.prems] suffix_longest_iff [OF Cons.prems] by (subst count_report) auto
  then have "count (mset (report (hits dict T (longest T (s @ [c]))) (length s))) (w, k) =
      (if k + length w = Suc (length s) \<and> take (length w) (drop k (s @ c # r)) = w then count (mset dict) w else 0)"
    using occurs_snoc [of k w s c r] by presburger
  then show ?case
    using Cons.IH [OF Cons.prems, of "s @ [c]"] by auto
qed

section \<open>Properties\<close>

text \<open>
  C15: for every dictionary without the empty word the construction of the automaton returns,
  the search of any text returns, and the matches it collects are exactly the occurrences:
  a word is reported at a position as often as the dictionary holds it, when it stands in the
  text at that position, and is not reported there otherwise. So following the fail links
  loses no overlapping or nested match and reports none twice.
\<close>

theorem findMatches_found:
  assumes "[] \<notin> set dict"
  shows "\<exists>st ms. AhoCorasick_new dict = Some st \<and> findMatches st txt = Some ms \<and>
    (\<forall>w k. count (mset ms) (w, k) = (if take (length w) (drop k txt) = w then count (mset dict) w else 0))"
proof -
  obtain st L where st: "AhoCorasick_new dict = Some st" "labelled st L" "\<forall>a < length st. fixed st L dict a"
      "set dict \<subseteq> set L"
    using AhoCorasick_new_fixed [OF assms] by blast
  have cl: "closed (set L)"
    by (rule labelled_closed [OF st(2)])
  have root: "0 < length st" "L ! 0 = []"
    using st(2) by (auto simp: labelled_def)
  have ms: "findMatches st txt = Some (found dict (set L) [] txt)"
    using find_loop_found [OF st(2,3) assms root(1), of "[]" "txt" "[]"] root(2) by (simp add: findMatches_def)
  have "count (mset (found dict (set L) [] txt)) (w, k) = (if take (length w) (drop k txt) = w then count (mset dict) w else 0)"
    for w k
  proof (cases "w \<in> set dict")
    case True
    then have w: "w \<in> set L" "0 < length w"
      using st(4) assms by auto
    have "k + length w \<le> length txt" if "take (length w) (drop k txt) = w"
    proof -
      have "length (take (length w) (drop k txt)) = length w"
        by (simp only: that)
      then have "length w \<le> length txt - k"
        by (simp add: min_def split: if_splits)
      then show ?thesis
        using w(2) by linarith
    qed
    then show ?thesis
      using count_found [OF cl st(4) w(1), of "[]" "txt" k] w(2) by auto
  next
    case False
    then have "(w, k) \<notin> set (found dict (set L) [] txt)"
      using found_subset by fastforce
    then have "count (mset (found dict (set L) [] txt)) (w, k) = 0"
      by (simp add: count_eq_zero_iff)
    moreover have "count (mset dict) w = 0"
      using False by (simp add: count_eq_zero_iff)
    ultimately show ?thesis
      by presburger
  qed
  then show ?thesis
    using st(1) ms by blast
qed

theorem findMatches_found_witness:
  "(\<exists>st ms. AhoCorasick_new [''he'', ''she'', ''hers''] = Some st \<and> findMatches st ''ushers'' = Some ms \<and>
    (''she'', 1) \<in> set ms \<and> (''he'', 2) \<in> set ms \<and> (''hers'', 2) \<in> set ms)"
proof -
  have "[] \<notin> set [''he'', ''she'', ''hers'']"
    by simp
  then obtain st ms where ms: "AhoCorasick_new [''he'', ''she'', ''hers''] = Some st"
      "findMatches st ''ushers'' = Some ms"
      "\<forall>w k. count (mset ms) (w, k) = (if take (length w) (drop k ''ushers'') = w then count (mset [''he'', ''she'', ''hers'']) w else 0)"
    using findMatches_found by blast
  have "count (mset ms) (''she'', 1) = 1" "count (mset ms) (''he'', 2) = 1" "count (mset ms) (''hers'', 2) = 1"
    unfolding ms(3) [rule_format] by simp_all
  then show ?thesis
    using ms(1,2) by (metis count_mset_0_iff zero_neq_one)
qed

end
