(* ===== verification/Utf8.thy ===== *)
theory Utf8
  imports Hi_Prelude
begin

text \<open>
  The UTF-8 routines that the string functions are built on, \<^verbatim>\<open>core.h\<close> and \<^verbatim>\<open>checked.h\<close>
  of \<^verbatim>\<open>thirdparty/utf8_v2_3_4\<close>. An iterator with its end is the list of the bytes from
  the one to the other; what is written to an output iterator is a list of bytes. An
  exception is the left part of a sum.
\<close>

unbundle bit_operations_syntax

section \<open>core.h\<close>

definition CODE_POINT_MAX :: u32 where "CODE_POINT_MAX = 0x0010ffff"
definition LEAD_SURROGATE_MIN :: u32 where "LEAD_SURROGATE_MIN = 0xd800"
definition LEAD_SURROGATE_MAX :: u32 where "LEAD_SURROGATE_MAX = 0xdbff"
definition TRAIL_SURROGATE_MIN :: u32 where "TRAIL_SURROGATE_MIN = 0xdc00"
definition TRAIL_SURROGATE_MAX :: u32 where "TRAIL_SURROGATE_MAX = 0xdfff"
definition LEAD_OFFSET :: u32 where "LEAD_OFFSET = LEAD_SURROGATE_MIN - drop_bit 10 0x10000"
definition SURROGATE_OFFSET :: u32 where
  "SURROGATE_OFFSET = 0x10000 - push_bit 10 LEAD_SURROGATE_MIN - TRAIL_SURROGATE_MIN"

lemmas surrogate_defs = LEAD_SURROGATE_MIN_def LEAD_SURROGATE_MAX_def TRAIL_SURROGATE_MIN_def
  TRAIL_SURROGATE_MAX_def

definition is_trail :: "byte \<Rightarrow> bool" where
  "is_trail oc \<longleftrightarrow> drop_bit 6 oc = 0x2"

definition is_lead_surrogate :: "u32 \<Rightarrow> bool" where
  "is_lead_surrogate cp \<longleftrightarrow> LEAD_SURROGATE_MIN \<le> cp \<and> cp \<le> LEAD_SURROGATE_MAX"

definition is_trail_surrogate :: "u32 \<Rightarrow> bool" where
  "is_trail_surrogate cp \<longleftrightarrow> TRAIL_SURROGATE_MIN \<le> cp \<and> cp \<le> TRAIL_SURROGATE_MAX"

definition is_surrogate :: "u32 \<Rightarrow> bool" where
  "is_surrogate cp \<longleftrightarrow> LEAD_SURROGATE_MIN \<le> cp \<and> cp \<le> TRAIL_SURROGATE_MAX"

definition is_code_point_valid :: "u32 \<Rightarrow> bool" where
  "is_code_point_valid cp \<longleftrightarrow> cp \<le> CODE_POINT_MAX \<and> \<not> is_surrogate cp"

definition sequence_length :: "byte \<Rightarrow> nat" where
  "sequence_length lead =
     (if lead < 0x80 then 1
      else if drop_bit 5 lead = 0x6 then 2
      else if drop_bit 4 lead = 0xe then 3
      else if drop_bit 3 lead = 0x1e then 4
      else 0)"

definition is_overlong_sequence :: "u32 \<Rightarrow> nat \<Rightarrow> bool" where
  "is_overlong_sequence cp len =
     (if cp < 0x80 then len \<noteq> 1
      else if cp < 0x800 then len \<noteq> 2
      else if cp < 0x10000 then len \<noteq> 3
      else False)"

datatype utf_error = UTF8_OK | NOT_ENOUGH_ROOM | INVALID_LEAD | INCOMPLETE_SEQUENCE
  | OVERLONG_SEQUENCE | INVALID_CODE_POINT

definition increase_safely :: "byte list \<Rightarrow> utf_error \<times> byte list" where
  "increase_safely it =
     (let it = tl it
      in if it = [] then (NOT_ENOUGH_ROOM, it)
         else if \<not> is_trail (hd it) then (INCOMPLETE_SEQUENCE, it)
         else (UTF8_OK, it))"

definition get_sequence_1 :: "byte list \<Rightarrow> utf_error \<times> byte list \<times> u32" where
  "get_sequence_1 it = (if it = [] then (NOT_ENOUGH_ROOM, it, 0) else (UTF8_OK, it, ucast (hd it)))"

definition get_sequence_2 :: "byte list \<Rightarrow> utf_error \<times> byte list \<times> u32" where
  "get_sequence_2 it = (if it = [] then (NOT_ENOUGH_ROOM, it, 0) else
     (let cp = ucast (hd it); (ret, it) = increase_safely it in
      if ret \<noteq> UTF8_OK then (ret, it, cp)
      else (UTF8_OK, it, (push_bit 6 cp AND 0x7ff) + (ucast (hd it) AND 0x3f))))"

definition get_sequence_3 :: "byte list \<Rightarrow> utf_error \<times> byte list \<times> u32" where
  "get_sequence_3 it = (if it = [] then (NOT_ENOUGH_ROOM, it, 0) else
     (let cp = ucast (hd it); (ret, it) = increase_safely it in
      if ret \<noteq> UTF8_OK then (ret, it, cp)
      else let cp = (push_bit 12 cp AND 0xffff) + (push_bit 6 (ucast (hd it)) AND 0xfff);
               (ret, it) = increase_safely it in
        if ret \<noteq> UTF8_OK then (ret, it, cp)
        else (UTF8_OK, it, cp + (ucast (hd it) AND 0x3f))))"

definition get_sequence_4 :: "byte list \<Rightarrow> utf_error \<times> byte list \<times> u32" where
  "get_sequence_4 it = (if it = [] then (NOT_ENOUGH_ROOM, it, 0) else
     (let cp = ucast (hd it); (ret, it) = increase_safely it in
      if ret \<noteq> UTF8_OK then (ret, it, cp)
      else let cp = (push_bit 18 cp AND 0x1fffff) + (push_bit 12 (ucast (hd it)) AND 0x3ffff);
               (ret, it) = increase_safely it in
        if ret \<noteq> UTF8_OK then (ret, it, cp)
        else let cp = cp + (push_bit 6 (ucast (hd it)) AND 0xfff);
                 (ret, it) = increase_safely it in
          if ret \<noteq> UTF8_OK then (ret, it, cp)
          else (UTF8_OK, it, cp + (ucast (hd it) AND 0x3f))))"

text \<open>
  The lead octet is read before the end is tested: at the end of a \<^verbatim>\<open>std::string\<close> that
  octet is the terminating NUL. \<open>code_point\<close> is the caller's variable, assigned on
  success only.
\<close>

definition lead_octet :: "byte list \<Rightarrow> byte" where
  "lead_octet it = (case it of [] \<Rightarrow> 0 | b # _ \<Rightarrow> b)"

definition get_sequence :: "nat \<Rightarrow> byte list \<Rightarrow> utf_error \<times> byte list \<times> u32" where
  "get_sequence len it =
     (if len = 1 then get_sequence_1 it else if len = 2 then get_sequence_2 it
      else if len = 3 then get_sequence_3 it else get_sequence_4 it)"

definition validate_next :: "byte list \<Rightarrow> u32 \<Rightarrow> utf_error \<times> byte list \<times> u32" where
  "validate_next original_it code_point =
     (let len = sequence_length (lead_octet original_it)
      in if len = 0 then (INVALID_LEAD, original_it, code_point)
         else let (err, it, cp) = get_sequence len original_it in
           if err = UTF8_OK then
             (if is_code_point_valid cp then
                (if \<not> is_overlong_sequence cp len then (UTF8_OK, tl it, cp)
                 else (OVERLONG_SEQUENCE, original_it, code_point))
              else (INVALID_CODE_POINT, original_it, code_point))
           else (err, original_it, code_point))"

section \<open>What a successful decoding step reads\<close>

lemmas seq_defs = get_sequence_1_def get_sequence_2_def get_sequence_3_def get_sequence_4_def

lemma sequence_length_cases: "sequence_length b \<in> {0, 1, 2, 3, 4}"
  by (simp add: sequence_length_def)

definition dec2 :: "byte \<Rightarrow> byte \<Rightarrow> u32" where
  "dec2 a b = (push_bit 6 (ucast a) AND 0x7ff) + (ucast b AND 0x3f)"

definition dec3 :: "byte \<Rightarrow> byte \<Rightarrow> byte \<Rightarrow> u32" where
  "dec3 a b c = (push_bit 12 (ucast a) AND 0xffff) + (push_bit 6 (ucast b) AND 0xfff) + (ucast c AND 0x3f)"

definition dec4 :: "byte \<Rightarrow> byte \<Rightarrow> byte \<Rightarrow> byte \<Rightarrow> u32" where
  "dec4 a b c d = (push_bit 18 (ucast a) AND 0x1fffff) + (push_bit 12 (ucast b) AND 0x3ffff) +
     (push_bit 6 (ucast c) AND 0xfff) + (ucast d AND 0x3f)"

lemma increase_Cons:
  "increase_safely (a # r) = (case r of [] \<Rightarrow> (NOT_ENOUGH_ROOM, [])
     | b # _ \<Rightarrow> if is_trail b then (UTF8_OK, r) else (INCOMPLETE_SEQUENCE, r))"
  by (simp add: increase_safely_def split: list.split)

lemma get_sequence_2_ok:
  "get_sequence_2 it = (UTF8_OK, it', cp) \<longleftrightarrow>
   (\<exists>a b r. it = a # b # r \<and> is_trail b \<and> it' = b # r \<and> cp = dec2 a b)"
  by (cases it; cases "tl it") (auto simp: get_sequence_2_def increase_Cons dec2_def)

lemma get_sequence_3_ok:
  "get_sequence_3 it = (UTF8_OK, it', cp) \<longleftrightarrow>
   (\<exists>a b c r. it = a # b # c # r \<and> is_trail b \<and> is_trail c \<and> it' = c # r \<and> cp = dec3 a b c)"
  by (cases it; cases "tl it"; cases "tl (tl it)") (auto simp: get_sequence_3_def increase_Cons dec3_def Let_def)

lemma get_sequence_4_ok:
  "get_sequence_4 it = (UTF8_OK, it', cp) \<longleftrightarrow>
   (\<exists>a b c d r. it = a # b # c # d # r \<and> is_trail b \<and> is_trail c \<and> is_trail d \<and> it' = d # r \<and> cp = dec4 a b c d)"
  by (cases it; cases "tl it"; cases "tl (tl it)"; cases "tl (tl (tl it))")
    (auto simp: get_sequence_4_def increase_Cons dec4_def Let_def)

lemma get_sequence_1_ok:
  "get_sequence_1 it = (UTF8_OK, it', cp) \<longleftrightarrow> (\<exists>a r. it = a # r \<and> it' = it \<and> cp = ucast a)"
  by (cases it) (auto simp: get_sequence_1_def)

section \<open>checked.h\<close>

datatype utf8_exn = Invalid_code_point u32 | Invalid_utf8 byte | Invalid_utf16 "16 word" | Not_enough_room

definition append_utf8 :: "u32 \<Rightarrow> utf8_exn + byte list" where
  "append_utf8 cp =
     (if \<not> is_code_point_valid cp then Inl (Invalid_code_point cp)
      else if cp < 0x80 then Inr [ucast cp]
      else if cp < 0x800 then
        Inr [ucast (drop_bit 6 cp OR 0xc0), ucast ((cp AND 0x3f) OR 0x80)]
      else if cp < 0x10000 then
        Inr [ucast (drop_bit 12 cp OR 0xe0), ucast ((drop_bit 6 cp AND 0x3f) OR 0x80), ucast ((cp AND 0x3f) OR 0x80)]
      else
        Inr [ucast (drop_bit 18 cp OR 0xf0), ucast ((drop_bit 12 cp AND 0x3f) OR 0x80),
             ucast ((drop_bit 6 cp AND 0x3f) OR 0x80), ucast ((cp AND 0x3f) OR 0x80)])"

definition next_utf8 :: "byte list \<Rightarrow> utf8_exn + u32 \<times> byte list" where
  "next_utf8 it =
     (let (err_code, it, cp) = validate_next it 0
      in case err_code of
           UTF8_OK \<Rightarrow> Inr (cp, it)
         | NOT_ENOUGH_ROOM \<Rightarrow> Inl Not_enough_room
         | INVALID_LEAD \<Rightarrow> Inl (Invalid_utf8 (lead_octet it))
         | INCOMPLETE_SEQUENCE \<Rightarrow> Inl (Invalid_utf8 (lead_octet it))
         | OVERLONG_SEQUENCE \<Rightarrow> Inl (Invalid_utf8 (lead_octet it))
         | INVALID_CODE_POINT \<Rightarrow> Inl (Invalid_code_point cp))"

section \<open>The bits of an encoded code point\<close>

lemma u32_eqI:
  fixes a b :: u32
  assumes "\<And>n. n < 32 \<Longrightarrow> bit a n = bit b n"
  shows "a = b"
  by (rule bit_word_eqI) (use assms in simp)

lemma high_bits: "k < 32 \<Longrightarrow> (cp :: u32) < 2 ^ k \<Longrightarrow> bit cp n \<Longrightarrow> n < k"
proof -
  assume "k < 32" "cp < 2 ^ k" and b: "bit cp n"
  moreover have "unat (2 ^ k :: u32) = 2 ^ k"
    using power_strict_increasing [OF \<open>k < 32\<close>, of "2 :: nat"] unat_of_nat [of "2 ^ k", where 'a = 32] by simp
  ultimately have "unat cp < 2 ^ k"
    by (simp add: word_less_nat_alt)
  then have "bit (take_bit k (unat cp)) n"
    using b by (simp add: bit_unsigned_iff take_bit_nat_eq_self)
  then show "n < k"
    by (simp add: bit_take_bit_iff)
qed

lemma u32_masks:
  "(w :: u32) AND 0x3f = take_bit 6 w" "w AND 0x7ff = take_bit 11 w" "w AND 0xfff = take_bit 12 w"
  "w AND 0xffff = take_bit 16 w" "w AND 0x3ffff = take_bit 18 w" "w AND 0x1fffff = take_bit 21 w"
  by (simp_all add: take_bit_eq_mask mask_eq_exp_minus_1)

lemma u32_markers:
  "bit (0x80 :: u32) n \<longleftrightarrow> n = 7" "bit (0xc0 :: u32) n \<longleftrightarrow> 6 \<le> n \<and> n < 8"
  "bit (0xe0 :: u32) n \<longleftrightarrow> 5 \<le> n \<and> n < 8" "bit (0xf0 :: u32) n \<longleftrightarrow> 4 \<le> n \<and> n < 8"
proof -
  have m: "(0x80 :: u32) = push_bit 7 (mask 1)" "(0xc0 :: u32) = push_bit 6 (mask 2)"
    "(0xe0 :: u32) = push_bit 5 (mask 3)" "(0xf0 :: u32) = push_bit 4 (mask 4)"
    by (simp_all add: mask_eq_exp_minus_1 push_bit_eq_mult)
  show "bit (0x80 :: u32) n \<longleftrightarrow> n = 7" "bit (0xc0 :: u32) n \<longleftrightarrow> 6 \<le> n \<and> n < 8"
    "bit (0xe0 :: u32) n \<longleftrightarrow> 5 \<le> n \<and> n < 8" "bit (0xf0 :: u32) n \<longleftrightarrow> 4 \<le> n \<and> n < 8"
    unfolding m bit_push_bit_iff bit_mask_iff by auto
qed

lemma byte_high: "8 \<le> n \<Longrightarrow> \<not> bit (b :: byte) n"
  by (auto dest: bit_imp_le_length)

lemma bit_dec2: "bit (dec2 a b) n \<longleftrightarrow> (if n < 6 then bit b n else n < 11 \<and> bit a (n - 6))"
  unfolding dec2_def u32_masks
  by (subst bit_disjunctive_add_iff) (auto simp: bit_simps byte_high)

lemma bit_dec3:
  "bit (dec3 a b c) n \<longleftrightarrow> (if n < 6 then bit c n else if n < 12 then bit b (n - 6) else n < 16 \<and> bit a (n - 12))"
proof -
  have *: "bit (take_bit 16 (push_bit 12 (ucast a)) + take_bit 12 (push_bit 6 (ucast b)) :: u32) n \<longleftrightarrow>
      (if n < 6 then False else if n < 12 then bit b (n - 6) else n < 16 \<and> bit a (n - 12))" for n
    by (subst bit_disjunctive_add_iff) (auto simp: bit_simps byte_high)
  show ?thesis
    unfolding dec3_def u32_masks
    by (subst bit_disjunctive_add_iff) (auto simp: * bit_simps byte_high)
qed

lemma bit_dec4:
  "bit (dec4 a b c d) n \<longleftrightarrow> (if n < 6 then bit d n else if n < 12 then bit c (n - 6)
     else if n < 18 then bit b (n - 12) else n < 21 \<and> bit a (n - 18))"
proof -
  have 1: "bit (take_bit 21 (push_bit 18 (ucast a)) + take_bit 18 (push_bit 12 (ucast b)) :: u32) n \<longleftrightarrow>
      (if n < 12 then False else if n < 18 then bit b (n - 12) else n < 21 \<and> bit a (n - 18))" for n
    by (subst bit_disjunctive_add_iff) (auto simp: bit_simps byte_high)
  have 2: "bit (take_bit 21 (push_bit 18 (ucast a)) + take_bit 18 (push_bit 12 (ucast b)) +
        take_bit 12 (push_bit 6 (ucast c)) :: u32) n \<longleftrightarrow>
      (if n < 6 then False else if n < 12 then bit c (n - 6)
       else if n < 18 then bit b (n - 12) else n < 21 \<and> bit a (n - 18))" for n
    by (subst bit_disjunctive_add_iff) (auto simp: 1 bit_simps byte_high)
  show ?thesis
    unfolding dec4_def u32_masks
    by (subst bit_disjunctive_add_iff) (auto simp: 2 bit_simps byte_high)
qed

lemma bits_eq:
  fixes b c :: byte
  shows "b = c \<longleftrightarrow> (\<forall>n < 8. bit b n = bit c n)"
  by (auto intro: bit_word_eqI)

lemma ex_8: "(\<forall>n < 8. P n) \<longleftrightarrow> P 0 \<and> P 1 \<and> P 2 \<and> P 3 \<and> P 4 \<and> P 5 \<and> P 6 \<and> P (7 :: nat)"
  unfolding less_8_cases by blast

lemma trail_bits: "is_trail b \<longleftrightarrow> bit b 7 \<and> \<not> bit b 6"
  unfolding is_trail_def bits_eq ex_8 by (auto simp: bit_simps byte_high)

lemma ascii_bits: "(b :: byte) < 0x80 \<longleftrightarrow> \<not> bit b 7"
proof -
  have "b < 0x80 \<longleftrightarrow> drop_bit 7 b = 0"
    by (simp add: word_less_nat_alt word_unat_eq_iff unat_shifts div_eq_0_iff del: drop_bit_eq_div)
  also have "\<dots> \<longleftrightarrow> \<not> bit b 7"
    unfolding bits_eq ex_8 by (auto simp: bit_simps byte_high)
  finally show ?thesis .
qed

lemma lead_bits:
  "sequence_length b = 1 \<longleftrightarrow> \<not> bit b 7"
  "sequence_length b = 2 \<longleftrightarrow> bit b 7 \<and> bit b 6 \<and> \<not> bit b 5"
  "sequence_length b = 3 \<longleftrightarrow> bit b 7 \<and> bit b 6 \<and> bit b 5 \<and> \<not> bit b 4"
  "sequence_length b = 4 \<longleftrightarrow> bit b 7 \<and> bit b 6 \<and> bit b 5 \<and> bit b 4 \<and> \<not> bit b 3"
proof -
  have "drop_bit 5 b = 6 \<longleftrightarrow> bit b 7 \<and> bit b 6 \<and> \<not> bit b 5"
    unfolding bits_eq ex_8 by (auto simp: bit_simps byte_high)
  moreover have "drop_bit 4 b = 0xe \<longleftrightarrow> bit b 7 \<and> bit b 6 \<and> bit b 5 \<and> \<not> bit b 4"
    unfolding bits_eq ex_8 by (auto simp: bit_simps byte_high)
  moreover have "drop_bit 3 b = 0x1e \<longleftrightarrow> bit b 7 \<and> bit b 6 \<and> bit b 5 \<and> bit b 4 \<and> \<not> bit b 3"
    unfolding bits_eq ex_8 by (auto simp: bit_simps byte_high)
  ultimately show
    "sequence_length b = 1 \<longleftrightarrow> \<not> bit b 7"
    "sequence_length b = 2 \<longleftrightarrow> bit b 7 \<and> bit b 6 \<and> \<not> bit b 5"
    "sequence_length b = 3 \<longleftrightarrow> bit b 7 \<and> bit b 6 \<and> bit b 5 \<and> \<not> bit b 4"
    "sequence_length b = 4 \<longleftrightarrow> bit b 7 \<and> bit b 6 \<and> bit b 5 \<and> bit b 4 \<and> \<not> bit b 3"
    by (auto simp: sequence_length_def ascii_bits)
qed

section \<open>Encoding and decoding are inverse\<close>

definition enc :: "u32 \<Rightarrow> byte list" where
  "enc cp = projr (append_utf8 cp)"

lemma append_enc: "append_utf8 cp = (if is_code_point_valid cp then Inr (enc cp) else Inl (Invalid_code_point cp))"
  by (simp add: enc_def append_utf8_def)

definition trail :: "nat \<Rightarrow> u32 \<Rightarrow> byte" where
  "trail s cp = ucast ((drop_bit s cp AND 0x3f) OR 0x80)"

lemma bit_trail: "bit (trail s cp) n \<longleftrightarrow> n < 6 \<and> bit cp (s + n) \<or> n = 7"
  unfolding trail_def u32_masks
  by (simp only: bit_unsigned_iff bit_or_iff u32_markers bit_take_bit_iff bit_drop_bit_eq comp_def possible_bit_word) auto

lemma is_trail_trail: "is_trail (trail s cp)"
  by (simp add: trail_bits bit_trail)

lemma enc_cases:
  assumes "is_code_point_valid cp"
  obtains (one) "cp < 0x80" "enc cp = [ucast cp]"
  | (two) "\<not> cp < 0x80" "cp < 0x800" "enc cp = [ucast (drop_bit 6 cp OR 0xc0), trail 0 cp]"
  | (three) "\<not> cp < 0x800" "cp < 0x10000" "enc cp = [ucast (drop_bit 12 cp OR 0xe0), trail 6 cp, trail 0 cp]"
  | (four) "\<not> cp < 0x10000" "cp < 0x200000" "enc cp = [ucast (drop_bit 18 cp OR 0xf0), trail 12 cp, trail 6 cp, trail 0 cp]"
proof -
  have "cp < 0x200000"
    using assms by (simp add: is_code_point_valid_def CODE_POINT_MAX_def word_less_nat_alt word_le_nat_alt)
  then show thesis
    using assms one two three four
    by (cases "cp < 0x80"; cases "cp < 0x800"; cases "cp < 0x10000")
      (simp_all add: enc_def append_utf8_def trail_def)
qed

lemma low_bits: "k < 32 \<Longrightarrow> (\<And>n. bit (cp :: u32) n \<Longrightarrow> n < k) \<Longrightarrow> cp < 2 ^ k"
proof -
  assume k: "k < 32" and "\<And>n. bit cp n \<Longrightarrow> n < k"
  then have "take_bit k cp = cp"
    by (intro bit_word_eqI) (auto simp: bit_simps)
  then have "take_bit k (unat cp) = unat cp"
    by (metis unsigned_take_bit_eq)
  then have "unat cp < 2 ^ k"
    by (metis take_bit_nat_eq_self_iff)
  moreover have "unat (2 ^ k :: u32) = 2 ^ k"
    using power_strict_increasing [OF k, of "2 :: nat"] unat_of_nat [of "2 ^ k", where 'a = 32] by simp
  ultimately show ?thesis
    by (simp add: word_less_nat_alt)
qed

lemma get_sequence_bound:
  assumes "get_sequence k bs = (UTF8_OK, it, cp)" "k = sequence_length (lead_octet bs)" "k \<noteq> 0"
  shows "k = 1 \<Longrightarrow> cp < 0x80" "k = 2 \<Longrightarrow> cp < 0x800" "k = 3 \<Longrightarrow> cp < 0x10000"
proof -
  assume k: "k = 1"
  then obtain a where "bs = [a] @ tl bs" "cp = ucast a"
    using assms(1) by (auto simp: get_sequence_def get_sequence_1_ok)
  then have a: "sequence_length a = 1"
    using assms(2) k by (cases bs) (auto simp: lead_octet_def)
  have "n < 7" if "bit cp n" for n
  proof -
    have b: "bit a n"
      using that \<open>cp = ucast a\<close> by (simp add: bit_simps)
    then have "n < 8"
      using byte_high [of n a] not_less by blast
    moreover have "n \<noteq> 7"
      using a b by (auto simp: lead_bits simp del: One_nat_def)
    ultimately show ?thesis
      by simp
  qed
  then show "cp < 0x80"
    using low_bits [of 7 cp] by simp
next
  assume "k = 2"
  then show "cp < 0x800"
    using assms(1) low_bits [of 11 cp] by (auto simp: get_sequence_def get_sequence_2_ok bit_dec2 split: if_splits)
next
  assume "k = 3"
  then show "cp < 0x10000"
    using assms(1) low_bits [of 16 cp] by (auto simp: get_sequence_def get_sequence_3_ok bit_dec3 split: if_splits)
qed

lemma not_overlong:
  assumes "\<not> is_overlong_sequence cp k" "k \<in> {1, 2, 3, 4}"
    "k = 1 \<Longrightarrow> cp < 0x80" "k = 2 \<Longrightarrow> cp < 0x800" "k = 3 \<Longrightarrow> cp < 0x10000"
  shows "cp < 0x80 \<Longrightarrow> k = 1" "\<not> cp < 0x80 \<Longrightarrow> cp < 0x800 \<Longrightarrow> k = 2"
    "\<not> cp < 0x800 \<Longrightarrow> cp < 0x10000 \<Longrightarrow> k = 3" "\<not> cp < 0x10000 \<Longrightarrow> k = 4"
proof -
  have mono: "cp < 0x80 \<Longrightarrow> cp < 0x800" "cp < 0x800 \<Longrightarrow> cp < 0x10000"
    by (simp_all add: word_less_nat_alt)
  show "cp < 0x80 \<Longrightarrow> k = 1" "\<not> cp < 0x80 \<Longrightarrow> cp < 0x800 \<Longrightarrow> k = 2"
    "\<not> cp < 0x800 \<Longrightarrow> cp < 0x10000 \<Longrightarrow> k = 3" "\<not> cp < 0x10000 \<Longrightarrow> k = 4"
    using assms mono by (auto simp: is_overlong_sequence_def split: if_splits)
qed

lemma bit_ucast_or:
  fixes cp :: u32
  shows "bit (ucast (drop_bit s cp OR 0xc0) :: byte) n \<longleftrightarrow> n < 8 \<and> (bit cp (s + n) \<or> 6 \<le> n)"
  "bit (ucast (drop_bit s cp OR 0xe0) :: byte) n \<longleftrightarrow> n < 8 \<and> (bit cp (s + n) \<or> 5 \<le> n)"
  "bit (ucast (drop_bit s cp OR 0xf0) :: byte) n \<longleftrightarrow> n < 8 \<and> (bit cp (s + n) \<or> 4 \<le> n)"
  by (simp_all only: bit_unsigned_iff bit_or_iff u32_markers bit_drop_bit_eq comp_def possible_bit_word) auto

lemma validate_enc:
  assumes v: "is_code_point_valid cp"
  shows "validate_next (enc cp @ r) x = (UTF8_OK, r, cp)"
proof -
  consider (one) "cp < 0x80" "enc cp = [ucast cp]"
  | (two) "\<not> cp < 0x80" "cp < 0x800" "enc cp = [ucast (drop_bit 6 cp OR 0xc0), trail 0 cp]"
  | (three) "\<not> cp < 0x800" "cp < 0x10000" "enc cp = [ucast (drop_bit 12 cp OR 0xe0), trail 6 cp, trail 0 cp]"
  | (four) "\<not> cp < 0x10000" "cp < 0x200000" "enc cp = [ucast (drop_bit 18 cp OR 0xf0), trail 12 cp, trail 6 cp, trail 0 cp]"
    by (rule enc_cases [OF v])
  then show ?thesis
  proof cases
  case one
  then have hb: "bit cp n \<Longrightarrow> n < 7" for n
    using high_bits [of 7 cp n] by simp
  have "(ucast (ucast cp :: byte) :: u32) = cp"
    by (rule bit_word_eqI) (auto simp: bit_simps dest: hb)
  moreover have "sequence_length (ucast cp) = 1"
    using hb [of 7] by (auto simp: lead_bits bit_simps simp del: One_nat_def)
  ultimately show ?thesis
    using v one by (simp add: validate_next_def lead_octet_def get_sequence_def get_sequence_1_def
        is_overlong_sequence_def)
next
  case two
  then have hb: "bit cp n \<Longrightarrow> n < 11" for n
    using high_bits [of 11 cp n] by simp
  let ?a = "ucast (drop_bit 6 cp OR 0xc0) :: byte"
  have "dec2 ?a (trail 0 cp) = cp"
    by (rule bit_word_eqI) (auto simp: bit_dec2 bit_trail bit_ucast_or dest: hb)
  moreover have "sequence_length ?a = 2"
    using hb [of 11] by (auto simp: lead_bits bit_ucast_or)
  ultimately have "get_sequence (sequence_length ?a) (enc cp @ r) = (UTF8_OK, trail 0 cp # r, cp)" "sequence_length ?a = 2"
    using two by (simp_all add: get_sequence_def get_sequence_2_ok is_trail_trail)
  then show ?thesis
    using v two by (simp add: validate_next_def lead_octet_def is_overlong_sequence_def)
next
  case three
  then have hb: "bit cp n \<Longrightarrow> n < 16" for n
    using high_bits [of 16 cp n] by simp
  let ?a = "ucast (drop_bit 12 cp OR 0xe0) :: byte"
  have "dec3 ?a (trail 6 cp) (trail 0 cp) = cp"
    by (rule bit_word_eqI) (auto simp: bit_dec3 bit_trail bit_ucast_or dest: hb)
  moreover have "sequence_length ?a = 3"
    using hb [of 16] by (auto simp: lead_bits bit_ucast_or)
  ultimately have "get_sequence (sequence_length ?a) (enc cp @ r) = (UTF8_OK, trail 0 cp # r, cp)" "sequence_length ?a = 3"
    using three by (simp_all add: get_sequence_def get_sequence_3_ok is_trail_trail)
  moreover have "\<not> cp < 0x80"
    using three(1) by (simp add: word_less_nat_alt)
  ultimately show ?thesis
    using v three by (simp add: validate_next_def lead_octet_def is_overlong_sequence_def)
next
  case four
  then have hb: "bit cp n \<Longrightarrow> n < 21" for n
    using high_bits [of 21 cp n] by simp
  let ?a = "ucast (drop_bit 18 cp OR 0xf0) :: byte"
  have "dec4 ?a (trail 12 cp) (trail 6 cp) (trail 0 cp) = cp"
    by (rule bit_word_eqI) (auto simp: bit_dec4 bit_trail bit_ucast_or dest: hb)
  moreover have "sequence_length ?a = 4"
    using hb [of 21] by (auto simp: lead_bits bit_ucast_or)
  ultimately have "get_sequence (sequence_length ?a) (enc cp @ r) = (UTF8_OK, trail 0 cp # r, cp)" "sequence_length ?a = 4"
    using four by (simp_all add: get_sequence_def get_sequence_4_ok is_trail_trail)
  moreover have "\<not> cp < 0x80" "\<not> cp < 0x800"
    using four(1) by (simp_all add: word_less_nat_alt)
  ultimately show ?thesis
    using v four by (simp add: validate_next_def lead_octet_def is_overlong_sequence_def)
qed
qed

lemma validate_ok:
  assumes "validate_next bs x = (UTF8_OK, r, cp)"
  shows "is_code_point_valid cp \<and> bs = enc cp @ r"
proof -
  let ?k = "sequence_length (lead_octet bs)"
  obtain it where it: "get_sequence ?k bs = (UTF8_OK, it, cp)" "is_code_point_valid cp"
      "\<not> is_overlong_sequence cp ?k" "?k \<noteq> 0" "r = tl it"
    using assms by (auto simp: validate_next_def Let_def split: prod.splits if_splits)
  have k: "?k \<in> {1, 2, 3, 4}"
    using sequence_length_cases [of "lead_octet bs"] it(4) by auto
  note len = not_overlong [OF it(3) k get_sequence_bound [OF it(1) refl it(4)]]
  consider (one) "cp < 0x80" "enc cp = [ucast cp]"
  | (two) "\<not> cp < 0x80" "cp < 0x800" "enc cp = [ucast (drop_bit 6 cp OR 0xc0), trail 0 cp]"
  | (three) "\<not> cp < 0x800" "cp < 0x10000" "enc cp = [ucast (drop_bit 12 cp OR 0xe0), trail 6 cp, trail 0 cp]"
  | (four) "\<not> cp < 0x10000" "cp < 0x200000" "enc cp = [ucast (drop_bit 18 cp OR 0xf0), trail 12 cp, trail 6 cp, trail 0 cp]"
    by (rule enc_cases [OF it(2)])
  then have "bs = enc cp @ r"
  proof cases
    case one
    then have "?k = 1"
      using len by simp
    then obtain a where a: "bs = a # r" "cp = ucast a"
      using it(1,5) by (auto simp: get_sequence_def get_sequence_1_ok)
    have "(ucast (ucast a :: u32) :: byte) = a"
      by (rule bit_word_eqI) (auto simp: bit_simps)
    then show ?thesis
      using a one by simp
  next
    case two
    then have k: "?k = 2"
      using len by simp
    then obtain a b where a: "bs = a # b # r" "is_trail b" "cp = dec2 a b"
      using it(1,5) by (auto simp: get_sequence_def get_sequence_2_ok)
    have lead: "bit a 7" "bit a 6" "\<not> bit a 5"
      using k a(1) by (simp_all add: lead_octet_def lead_bits)
    have "a = ucast (drop_bit 6 cp OR 0xc0)"
      unfolding bits_eq ex_8 a(3) using lead by (simp add: bit_ucast_or bit_dec2)
    moreover have "b = trail 0 cp"
      unfolding bits_eq ex_8 a(3) using a(2) by (simp add: bit_trail bit_dec2 trail_bits numeral_2_eq_2)
    ultimately show ?thesis
      using two a(1) by simp
  next
    case three
    then have k: "?k = 3"
      using len by simp
    then obtain a b c where a: "bs = a # b # c # r" "is_trail b" "is_trail c" "cp = dec3 a b c"
      using it(1,5) by (auto simp: get_sequence_def get_sequence_3_ok)
    have lead: "bit a 7" "bit a 6" "bit a 5" "\<not> bit a 4"
      using k a(1) by (simp_all add: lead_octet_def lead_bits)
    have "a = ucast (drop_bit 12 cp OR 0xe0)"
      unfolding bits_eq ex_8 a(4) using lead by (simp add: bit_ucast_or bit_dec3)
    moreover have "b = trail 6 cp" "c = trail 0 cp"
      unfolding bits_eq ex_8 a(4) using a(2,3) by (simp_all add: bit_trail bit_dec3 trail_bits numeral_2_eq_2)
    ultimately show ?thesis
      using three a(1) by simp
  next
    case four
    then have "?k = 4"
      using len by simp
    then obtain a b c d where a: "bs = a # b # c # d # r" "is_trail b" "is_trail c" "is_trail d" "cp = dec4 a b c d"
      using it(1,5) by (auto simp: get_sequence_def get_sequence_4_ok)
    have lead: "bit a 7" "bit a 6" "bit a 5" "bit a 4" "\<not> bit a 3"
      using \<open>?k = 4\<close> a(1) by (simp_all add: lead_octet_def lead_bits)
    have "a = ucast (drop_bit 18 cp OR 0xf0)"
      unfolding bits_eq ex_8 a(5) using lead by (simp add: bit_ucast_or bit_dec4)
    moreover have "b = trail 12 cp" "c = trail 6 cp" "d = trail 0 cp"
      unfolding bits_eq ex_8 a(5) using a(2,3,4) by (simp_all add: bit_trail bit_dec4 trail_bits numeral_2_eq_2)
    ultimately show ?thesis
      using four a(1) by simp
  qed
  then show ?thesis
    using it(2) by simp
qed

section \<open>The loops over a byte range\<close>

lemma enc_not_Nil [simp]: "is_code_point_valid cp \<Longrightarrow> enc cp \<noteq> []"
  by (erule enc_cases) auto

lemma validate_ok_iff: "validate_next bs x = (UTF8_OK, r, cp) \<longleftrightarrow> is_code_point_valid cp \<and> bs = enc cp @ r"
  using validate_ok validate_enc by metis

lemma next_ok_iff: "next_utf8 bs = Inr (cp, r) \<longleftrightarrow> is_code_point_valid cp \<and> bs = enc cp @ r"
proof -
  have "next_utf8 bs = Inr (cp, r) \<longleftrightarrow> validate_next bs 0 = (UTF8_OK, r, cp)"
    by (auto simp: next_utf8_def split: prod.splits utf_error.splits)
  then show ?thesis
    by (simp add: validate_ok_iff)
qed

lemma validate_shorter: "validate_next bs x = (UTF8_OK, r, cp) \<Longrightarrow> length r < length bs"
  by (auto simp: validate_ok_iff)

lemma next_shorter: "next_utf8 bs = Inr (cp, r) \<Longrightarrow> length r < length bs"
  by (auto simp: next_ok_iff)

text \<open>The place of the first invalid sequence: what is left of the range there.\<close>

function find_invalid :: "byte list \<Rightarrow> byte list" where
  "find_invalid result = (if result = [] then result
     else case validate_next result 0 of (err_code, it, _) \<Rightarrow>
       if err_code \<noteq> UTF8_OK then result else find_invalid it)"
  by pat_completeness auto
termination by (relation "measure length") (auto dest: validate_shorter [OF sym])

definition is_valid :: "byte list \<Rightarrow> bool" where
  "is_valid bs \<longleftrightarrow> find_invalid bs = []"

definition starts_with_bom :: "byte list \<Rightarrow> bool" where
  "starts_with_bom it \<longleftrightarrow> it \<noteq> [] \<and> hd it = 0xef \<and> (let it = tl it in it \<noteq> [] \<and> hd it = 0xbb \<and>
     (let it = tl it in it \<noteq> [] \<and> hd it = 0xbf))"

function replace_invalid :: "byte list \<Rightarrow> u32 \<Rightarrow> byte list \<Rightarrow> utf8_exn + byte list" where
  "replace_invalid start replacement out =
     (if start = [] then Inr out
      else case validate_next start 0 of (err_code, it, _) \<Rightarrow>
        if err_code = UTF8_OK then
          replace_invalid it replacement (out @ take (length start - length it) start)
        else if err_code = NOT_ENOUGH_ROOM then Inl Not_enough_room
        else case append_utf8 replacement of
            Inl e \<Rightarrow> Inl e
          | Inr m \<Rightarrow>
              if err_code = INVALID_LEAD then replace_invalid (tl start) replacement (out @ m)
              else replace_invalid (dropWhile is_trail (tl start)) replacement (out @ m))"
  by pat_completeness auto
termination
proof (relation "measure (\<lambda>(start, _, _). length start)", goal_cases)
  case (4 start replacement out)
  have "length (dropWhile is_trail (tl start)) < length start" if "start \<noteq> []"
    using length_dropWhile_le [of is_trail "tl start"] that by (simp add: le_less_trans)
  then show ?case
    using 4 by simp
qed (auto dest: validate_shorter [OF sym])

definition REPLACEMENT_MARKER :: u32 where "REPLACEMENT_MARKER = 0xfffd"

definition peek_next :: "byte list \<Rightarrow> utf8_exn + u32" where
  "peek_next it = map_sum id fst (next_utf8 it)"

text \<open>
  \<open>prior\<close>: the bytes before the iterator in reverse, and those from it up to where it
  stood at first.
\<close>

fun prior_back :: "byte list \<Rightarrow> byte list \<Rightarrow> utf8_exn + u32 \<times> byte list" where
  "prior_back [] it = Inl Not_enough_room"
| "prior_back (b # before) it =
     (if is_trail b then
        (if before = [] then Inl (Invalid_utf8 b) else prior_back before (b # it))
      else map_sum id (\<lambda>cp. (cp, before)) (peek_next (b # it)))"

definition prior :: "byte list \<Rightarrow> utf8_exn + u32 \<times> byte list" where
  "prior before = (if before = [] then Inl Not_enough_room else prior_back before [])"

primrec advance :: "nat \<Rightarrow> byte list \<Rightarrow> utf8_exn + byte list" where
  "advance 0 it = Inr it"
| "advance (Suc n) it = (case next_utf8 it of Inl e \<Rightarrow> Inl e | Inr (_, it) \<Rightarrow> advance n it)"

function distance :: "byte list \<Rightarrow> utf8_exn + nat" where
  "distance first = (if first = [] then Inr 0
     else case next_utf8 first of Inl e \<Rightarrow> Inl e | Inr (_, first) \<Rightarrow> map_sum id Suc (distance first))"
  by pat_completeness auto
termination by (relation "measure length") (auto dest: next_shorter)

fun utf32to8 :: "u32 list \<Rightarrow> utf8_exn + byte list" where
  "utf32to8 [] = Inr []"
| "utf32to8 (cp # start) = (case append_utf8 cp of Inl e \<Rightarrow> Inl e
     | Inr bs \<Rightarrow> map_sum id (\<lambda>r. bs @ r) (utf32to8 start))"

function utf8to32 :: "byte list \<Rightarrow> utf8_exn + u32 list" where
  "utf8to32 start = (if start = [] then Inr []
     else case next_utf8 start of Inl e \<Rightarrow> Inl e | Inr (cp, start) \<Rightarrow> map_sum id (\<lambda>r. cp # r) (utf8to32 start))"
  by pat_completeness auto
termination by (relation "measure length") (auto dest: next_shorter)

text \<open>\<open>mask16\<close> of an element of the UTF-16 range is its value; a surrogate pair is two elements.\<close>

fun utf16to8 :: "16 word list \<Rightarrow> utf8_exn + byte list" where
  "utf16to8 [] = Inr []"
| "utf16to8 (w # start) =
     (let cp = ucast w :: u32 in
      if is_lead_surrogate cp then
        (case start of
           [] \<Rightarrow> Inl (Invalid_utf16 (ucast cp))
         | v # start' \<Rightarrow>
             let trail_surrogate = ucast v :: u32 in
             if is_trail_surrogate trail_surrogate then
               (case append_utf8 (push_bit 10 cp + trail_surrogate + SURROGATE_OFFSET) of Inl e \<Rightarrow> Inl e
                | Inr bs \<Rightarrow> map_sum id (\<lambda>r. bs @ r) (utf16to8 start'))
             else Inl (Invalid_utf16 (ucast trail_surrogate)))
      else if is_trail_surrogate cp then Inl (Invalid_utf16 (ucast cp))
      else (case append_utf8 cp of Inl e \<Rightarrow> Inl e
            | Inr bs \<Rightarrow> map_sum id (\<lambda>r. bs @ r) (utf16to8 start)))"

function utf8to16 :: "byte list \<Rightarrow> utf8_exn + 16 word list" where
  "utf8to16 start = (if start = [] then Inr []
     else case next_utf8 start of Inl e \<Rightarrow> Inl e | Inr (cp, start) \<Rightarrow>
       map_sum id (\<lambda>r. (if 0xffff < cp
           then [ucast (drop_bit 10 cp + LEAD_OFFSET), ucast ((cp AND 0x3ff) + TRAIL_SURROGATE_MIN)]
           else [ucast cp]) @ r) (utf8to16 start))"
  by pat_completeness auto
termination by (relation "measure length") (auto dest: next_shorter)

declare find_invalid.simps [simp del] replace_invalid.simps [simp del] distance.simps [simp del]
  utf8to32.simps [simp del] utf8to16.simps [simp del]

section \<open>What the loops compute\<close>

definition enc_all :: "u32 list \<Rightarrow> byte list" where
  "enc_all cps = concat (map enc cps)"

lemma enc_all_simps [simp]: "enc_all [] = []" "enc_all (cp # cps) = enc cp @ enc_all cps"
    "enc_all (xs @ ys) = enc_all xs @ enc_all ys"
  by (simp_all add: enc_all_def)

lemma map_sum_Inr_iff [simp]: "map_sum id f s = Inr y \<longleftrightarrow> (\<exists>x. s = Inr x \<and> y = f x)"
  by (cases s) auto

lemma utf32to8_iff: "utf32to8 cps = Inr bs \<longleftrightarrow> list_all is_code_point_valid cps \<and> bs = enc_all cps"
proof (induction cps arbitrary: bs)
  case (Cons cp cps)
  show ?case
    by (simp add: append_enc Cons.IH)
qed auto

lemma next_enc: "is_code_point_valid cp \<Longrightarrow> next_utf8 (enc cp @ r) = Inr (cp, r)"
  by (simp add: next_ok_iff)

text \<open>One encoded code point at the front of the range.\<close>

lemma loop_Nil [simp]:
  "find_invalid [] = []" "replace_invalid [] m out = Inr out" "distance [] = Inr 0" "utf8to32 [] = Inr []" "utf8to16 [] = Inr []"
  by (simp_all add: find_invalid.simps replace_invalid.simps distance.simps utf8to32.simps utf8to16.simps)

lemma loop_enc:
  assumes "is_code_point_valid cp"
  shows "find_invalid (enc cp @ r) = find_invalid r"
    "replace_invalid (enc cp @ r) m out = replace_invalid r m (out @ enc cp)"
    "distance (enc cp @ r) = map_sum id Suc (distance r)"
    "utf8to32 (enc cp @ r) = map_sum id (\<lambda>r. cp # r) (utf8to32 r)"
    "utf8to16 (enc cp @ r) = map_sum id (\<lambda>r. (if 0xffff < cp
           then [ucast (drop_bit 10 cp + LEAD_OFFSET), ucast ((cp AND 0x3ff) + TRAIL_SURROGATE_MIN)]
           else [ucast cp]) @ r) (utf8to16 r)"
  using assms
  by (simp_all add: find_invalid.simps [of "enc cp @ r"] replace_invalid.simps [of "enc cp @ r"]
      distance.simps [of "enc cp @ r"] utf8to32.simps [of "enc cp @ r"] utf8to16.simps [of "enc cp @ r"] validate_enc next_enc)

lemma utf8to32_enc: "list_all is_code_point_valid cps \<Longrightarrow> utf8to32 (enc_all cps) = Inr cps"
  by (induction cps) (simp_all add: loop_enc)

lemma utf8to32_sound: "utf8to32 bs = Inr cps \<Longrightarrow> list_all is_code_point_valid cps \<and> bs = enc_all cps"
proof (induction bs arbitrary: cps rule: utf8to32.induct)
  case (1 bs)
  show ?case
  proof (cases "bs = []")
    case True
    then show ?thesis
      using 1(2) by (simp add: utf8to32.simps)
  next
    case False
    then obtain cp r where n: "next_utf8 bs = Inr (cp, r)"
      using 1(2) by (auto simp: utf8to32.simps [of bs] split: sum.splits)
    then have bs: "is_code_point_valid cp" "bs = enc cp @ r"
      by (simp_all add: next_ok_iff)
    then obtain cps' where "utf8to32 r = Inr cps'" "cps = cp # cps'"
      using 1(2) by (cases "utf8to32 r") (auto simp: loop_enc)
    then show ?thesis
      using 1(1) [OF False n refl] bs by simp
  qed
qed

lemma find_invalid_enc: "list_all is_code_point_valid cps \<Longrightarrow> find_invalid (enc_all cps @ r) = find_invalid r"
  by (induction cps) (simp_all add: loop_enc)

lemma find_invalid_split: "\<exists>cps. list_all is_code_point_valid cps \<and> bs = enc_all cps @ find_invalid bs"
proof (induction bs rule: find_invalid.induct)
  case (1 bs)
  obtain e r cp where v: "validate_next bs 0 = (e, r, cp)"
    by (metis prod_cases3)
  show ?case
  proof (cases "bs = [] \<or> e \<noteq> UTF8_OK")
    case True
    then have "find_invalid bs = bs"
      using v by (subst find_invalid.simps) auto
    then show ?thesis
      by (intro exI [of _ "[]"]) simp
  next
    case False
    then have "find_invalid bs = find_invalid r" "bs = enc cp @ r" "is_code_point_valid cp"
      using v False validate_ok_iff [of bs 0 r cp] by (auto simp: loop_enc)
    moreover obtain cps where "list_all is_code_point_valid cps" "r = enc_all cps @ find_invalid r"
      using 1 [OF _ v [symmetric] refl] False by auto
    ultimately show ?thesis
      by (intro exI [of _ "cp # cps"]) auto
  qed
qed

lemma is_valid_iff: "is_valid bs \<longleftrightarrow> (\<exists>cps. list_all is_code_point_valid cps \<and> bs = enc_all cps)"
proof
  show "is_valid bs \<Longrightarrow> \<exists>cps. list_all is_code_point_valid cps \<and> bs = enc_all cps"
    using find_invalid_split [of bs] by (auto simp: is_valid_def)
  show "\<exists>cps. list_all is_code_point_valid cps \<and> bs = enc_all cps \<Longrightarrow> is_valid bs"
    using find_invalid_enc [of _ "[]"] by (auto simp: is_valid_def)
qed

section \<open>Replacement of invalid sequences\<close>

lemma replace_invalid_enc:
  "list_all is_code_point_valid cps \<Longrightarrow> replace_invalid (enc_all cps) m out = Inr (out @ enc_all cps)"
  by (induction cps arbitrary: out) (simp_all add: loop_enc)

lemma replace_invalid_sound:
  "is_code_point_valid m \<Longrightarrow> list_all is_code_point_valid cps \<Longrightarrow>
   (case replace_invalid bs m (enc_all cps) of Inl e \<Rightarrow> e = Not_enough_room
    | Inr out \<Rightarrow> \<exists>ds. list_all is_code_point_valid ds \<and> out = enc_all ds)"
proof (induction bs m "enc_all cps" arbitrary: cps rule: replace_invalid.induct)
  case (1 bs m)
  obtain e r cp where v: "validate_next bs 0 = (e, r, cp)"
    by (metis prod_cases3)
  consider "bs = []" | "bs \<noteq> []" "e = UTF8_OK" | "bs \<noteq> []" "e = NOT_ENOUGH_ROOM"
    | "bs \<noteq> []" "e = INVALID_LEAD"
    | "bs \<noteq> []" "e \<notin> {UTF8_OK, NOT_ENOUGH_ROOM, INVALID_LEAD}"
    by blast
  then show ?case
  proof cases
    case 1
    then show ?thesis
      using \<open>list_all is_code_point_valid cps\<close> by auto
  next
    case 2
    then have "is_code_point_valid cp" "bs = enc cp @ r"
      using v validate_ok_iff by blast+
    then show ?thesis
      using 1(1) [OF 2(1) v [symmetric] refl 2(2), of "cps @ [cp]"] 1(4,5) by (simp add: loop_enc)
  next
    case 3
    then show ?thesis
      using v by (simp add: replace_invalid.simps [of bs])
  next
    case 4
    then show ?thesis
      using v 1(2) [OF 4(1) v [symmetric] refl _ _ _ 4(2), of "enc m" "cps @ [m]"] 1(4,5)
      by (simp add: replace_invalid.simps [of bs] append_enc)
  next
    case 5
    then show ?thesis
      using v 1(3) [OF 5(1) v [symmetric] refl, of "enc m" "cps @ [m]"] 1(4,5)
      by (simp add: replace_invalid.simps [of bs] append_enc)
  qed
qed

section \<open>Going back\<close>

lemma enc_lead_trails:
  assumes "is_code_point_valid cp"
  shows "\<exists>l ts. enc cp = l # ts \<and> \<not> is_trail l \<and> list_all is_trail ts"
proof -
  have v: "validate_next (enc cp) 0 = (UTF8_OK, [], cp)"
    using validate_enc [OF assms, of "[]"] by simp
  obtain l ts where e: "enc cp = l # ts"
    using enc_not_Nil [OF assms] by (cases "enc cp") auto
  have "sequence_length l \<noteq> 0"
    using v by (auto simp: e validate_next_def lead_octet_def Let_def split: if_splits)
  then have "\<not> is_trail l"
    using lead_bits [of l] sequence_length_cases [of l] trail_bits [of l] by auto
  moreover have "list_all is_trail ts"
    using assms e by (elim enc_cases) (auto simp: is_trail_trail)
  ultimately show ?thesis
    using e by blast
qed

lemma prior_back_trails:
  "list_all is_trail ts \<Longrightarrow> \<not> is_trail l \<Longrightarrow>
   prior_back (rev ts @ l # before) it = map_sum id (\<lambda>cp. (cp, before)) (peek_next (l # ts @ it))"
  by (induction ts arbitrary: it rule: rev_induct) auto

lemma prior_enc: "is_code_point_valid cp \<Longrightarrow> prior (rev (enc cp) @ before) = Inr (cp, before)"
proof -
  assume v: "is_code_point_valid cp"
  obtain l ts where e: "enc cp = l # ts" "\<not> is_trail l" "list_all is_trail ts"
    using enc_lead_trails [OF v] by blast
  have "prior (rev (enc cp) @ before) = map_sum id (\<lambda>cp. (cp, before)) (peek_next (enc cp))"
    using prior_back_trails [OF e(3,2), of before "[]"] e(1) by (simp add: prior_def)
  then show ?thesis
    using next_enc [OF v, of "[]"] by (simp add: peek_next_def)
qed

section \<open>Surrogate pairs\<close>

definition u16 :: "u32 \<Rightarrow> 16 word list" where
  "u16 cp = (if 0xffff < cp
     then [ucast (drop_bit 10 cp + LEAD_OFFSET), ucast ((cp AND 0x3ff) + TRAIL_SURROGATE_MIN)]
     else [ucast cp])"

lemma SURROGATE_OFFSET_eq: "SURROGATE_OFFSET = - word_of_nat 0x35fdc00"
  by (simp add: SURROGATE_OFFSET_def surrogate_defs)

lemma LEAD_OFFSET_eq: "LEAD_OFFSET = word_of_nat 0xd7c0"
  by (simp add: LEAD_OFFSET_def surrogate_defs)

lemma unat_u32_of_nat: "n < 2 ^ 32 \<Longrightarrow> unat (word_of_nat n :: u32) = n"
  by (simp add: unat_of_nat)

lemma unat_up: "unat (ucast (w :: 16 word) :: u32) = unat w"
proof -
  have "unat w < 2 ^ 16"
    using unsigned_less [of w] by simp
  then show ?thesis
    by (simp add: unsigned_ucast_eq take_bit_nat_eq_self)
qed

lemma pair_code_point:
  assumes "is_lead_surrogate (ucast (w :: 16 word))" "is_trail_surrogate (ucast (v :: 16 word))"
  shows "unat (push_bit 10 (ucast w) + ucast v + SURROGATE_OFFSET :: u32) =
     (unat w - 0xd800) * 1024 + (unat v - 0xdc00) + 0x10000"
    "0xd800 \<le> unat w" "unat w \<le> 0xdbff" "0xdc00 \<le> unat v" "unat v \<le> 0xdfff"
proof -
  show b: "0xd800 \<le> unat w" "unat w \<le> 0xdbff" "0xdc00 \<le> unat v" "unat v \<le> 0xdfff"
    using assms by (simp_all add: is_lead_surrogate_def is_trail_surrogate_def surrogate_defs word_le_nat_alt
        unat_up)
  have "(ucast w :: u32) = word_of_nat (unat w)" "(ucast v :: u32) = word_of_nat (unat v)"
    by simp_all
  then have "push_bit 10 (ucast w) + ucast v + SURROGATE_OFFSET =
      (word_of_nat (unat w * 1024 + unat v - 0x35fdc00) :: u32)"
    using b by (simp add: SURROGATE_OFFSET_eq push_bit_eq_mult of_nat_diff)
  moreover have "unat w * 1024 + unat v - 0x35fdc00 = (unat w - 0xd800) * 1024 + (unat v - 0xdc00) + 0x10000"
    using b by simp
  moreover have "(unat w - 0xd800) * 1024 + (unat v - 0xdc00) + 0x10000 < 2 ^ 32"
    using b by simp
  ultimately show "unat (push_bit 10 (ucast w) + ucast v + SURROGATE_OFFSET :: u32) =
     (unat w - 0xd800) * 1024 + (unat v - 0xdc00) + 0x10000"
    by (metis unat_u32_of_nat)
qed

lemma unat_down: "unat x < 65536 \<Longrightarrow> unat (ucast (x :: u32) :: 16 word) = unat x"
  by (simp add: unsigned_ucast_eq take_bit_nat_eq_self)

lemma down_up: "unat (x :: u32) < 65536 \<Longrightarrow> (ucast (ucast x :: 16 word) :: u32) = x"
  by (rule word_unat_eq_iff [THEN iffD2]) (simp only: unat_up unat_down)

lemma up_down: "(ucast (ucast (w :: 16 word) :: u32) :: 16 word) = w"
proof -
  have "unat w < 65536"
    using unsigned_less [of w] by simp
  then show ?thesis
    by (intro word_unat_eq_iff [THEN iffD2]) (simp add: unat_down unat_up)
qed

lemmas surrogate_bounds = is_lead_surrogate_def is_trail_surrogate_def is_surrogate_def is_code_point_valid_def
  CODE_POINT_MAX_def surrogate_defs word_le_nat_alt word_less_nat_alt

lemma low_ten: "unat ((cp :: u32) AND 0x3ff) = unat cp mod 1024"
proof -
  have "cp AND 0x3ff = take_bit 10 cp"
    by (simp add: take_bit_eq_mask mask_eq_exp_minus_1)
  then show ?thesis
    by (simp add: unsigned_take_bit_eq take_bit_eq_mod unat_mod_distrib)
qed

lemma u16_pair:
  assumes v: "is_code_point_valid cp" and big: "0xffff < cp"
  defines "l \<equiv> drop_bit 10 cp + LEAD_OFFSET" and "t \<equiv> (cp AND 0x3ff) + TRAIL_SURROGATE_MIN"
  shows "unat l = unat cp div 1024 + 0xd7c0" "unat t = unat cp mod 1024 + 0xdc00"
    "is_lead_surrogate (ucast (ucast l :: 16 word))" "is_trail_surrogate (ucast (ucast t :: 16 word))"
    "push_bit 10 (ucast (ucast l :: 16 word)) + ucast (ucast t :: 16 word) + SURROGATE_OFFSET = cp"
proof -
  have cp: "0x10000 \<le> unat cp" "unat cp \<le> 0x10ffff"
    using v big by (simp_all add: surrogate_bounds)
  have d: "drop_bit 10 cp = word_of_nat (unat cp div 1024)"
    by (rule word_unat_eq_iff [THEN iffD2]) (use cp in \<open>simp add: drop_bit_eq_div unat_div_distrib unat_of_nat\<close>)
  have "l = word_of_nat (unat cp div 1024 + 0xd7c0)"
    by (simp add: l_def d LEAD_OFFSET_eq)
  moreover have "unat cp div 1024 + 0xd7c0 < 2 ^ 32"
    using cp by simp
  ultimately show l: "unat l = unat cp div 1024 + 0xd7c0"
    by (metis unat_u32_of_nat)
  have "cp AND 0x3ff = word_of_nat (unat cp mod 1024)"
    by (rule word_unat_eq_iff [THEN iffD2]) (simp add: low_ten unat_of_nat)
  then have "t = word_of_nat (unat cp mod 1024 + 0xdc00)"
    by (simp add: t_def surrogate_defs)
  moreover have "unat cp mod 1024 + 0xdc00 < 2 ^ 32"
    using mod_less_divisor [of 1024 "unat cp"] by simp
  ultimately show t: "unat t = unat cp mod 1024 + 0xdc00"
    by (metis unat_u32_of_nat)
  have b: "unat l < 65536" "unat t < 65536" "0xd800 \<le> unat l" "unat l \<le> 0xdbff" "0xdc00 \<le> unat t" "unat t \<le> 0xdfff"
    using cp l t by auto
  show s: "is_lead_surrogate (ucast (ucast l :: 16 word))" "is_trail_surrogate (ucast (ucast t :: 16 word))"
    using b by (simp_all add: down_up surrogate_bounds)
  have "unat (push_bit 10 (ucast (ucast l :: 16 word)) + ucast (ucast t :: 16 word) + SURROGATE_OFFSET :: u32) =
      (unat l - 0xd800) * 1024 + (unat t - 0xdc00) + 0x10000"
    using pair_code_point(1) [OF s] b by (simp only: unat_down)
  also have "\<dots> = unat cp"
  proof -
    have "64 \<le> unat cp div 1024"
      using cp by simp
    then obtain q where "unat cp div 1024 = 64 + q"
      using le_Suc_ex by blast
    then show ?thesis
      using l t div_mult_mod_eq [of "unat cp" 1024] by simp
  qed
  finally show "push_bit 10 (ucast (ucast l :: 16 word)) + ucast (ucast t :: 16 word) + SURROGATE_OFFSET = cp"
    by (rule word_unat_eq_iff [THEN iffD2])
qed

lemma u16_single:
  assumes "is_code_point_valid cp" "\<not> 0xffff < cp"
  shows "ucast (ucast cp :: 16 word) = cp" "\<not> is_lead_surrogate cp" "\<not> is_trail_surrogate cp"
  using assms by (auto simp: down_up surrogate_bounds)

lemma pair_u16:
  assumes s: "is_lead_surrogate (ucast w)" "is_trail_surrogate (ucast v)"
  defines "cp \<equiv> push_bit 10 (ucast w) + ucast v + SURROGATE_OFFSET"
  shows "is_code_point_valid cp" "u16 cp = [w, v]"
proof -
  note p = pair_code_point [OF s, folded cp_def]
  show valid: "is_code_point_valid cp"
    using p by (simp add: surrogate_bounds)
  have big: "0xffff < cp"
    using p by (simp add: surrogate_bounds)
  note q = u16_pair(1,2) [OF valid big]
  define x where "x = unat w - 0xd800 + 64"
  define y where "y = unat v - 0xdc00"
  have "unat cp = x * 1024 + y" "y < 1024"
    using p by (auto simp: x_def y_def)
  then have "unat cp div 1024 = x" "unat cp mod 1024 = y"
    by simp_all
  then have "unat cp div 1024 + 0xd7c0 = unat w" "unat cp mod 1024 + 0xdc00 = unat v"
    using p by (simp_all add: x_def y_def)
  then have "unat (drop_bit 10 cp + LEAD_OFFSET) = unat w" "unat ((cp AND 0x3ff) + TRAIL_SURROGATE_MIN) = unat v"
    using q by simp_all
  then have "drop_bit 10 cp + LEAD_OFFSET = ucast w" "(cp AND 0x3ff) + TRAIL_SURROGATE_MIN = ucast v"
    by (metis unat_up word_unat_eq_iff)+
  then show "u16 cp = [w, v]"
    using big by (simp add: u16_def up_down)
qed

lemma single_u16:
  assumes "\<not> is_lead_surrogate (ucast w)" "\<not> is_trail_surrogate (ucast (w :: 16 word))"
  shows "is_code_point_valid (ucast w)" "u16 (ucast w) = [w]"
proof -
  have "unat w < 65536"
    using unsigned_less [of w] by simp
  then show "is_code_point_valid (ucast w)" "u16 (ucast w) = [w]"
    using assms by (auto simp: surrogate_bounds unat_up u16_def up_down)
qed

lemma utf16to8_enc: "list_all is_code_point_valid cps \<Longrightarrow> utf16to8 (concat (map u16 cps)) = Inr (enc_all cps)"
proof (induction cps)
  case (Cons cp cps)
  then have v: "is_code_point_valid cp"
    by simp
  show ?case
  proof (cases "0xffff < cp")
    case True
    then show ?thesis
      using u16_pair(3-5) [OF v True] Cons v by (simp add: u16_def append_enc Let_def)
  next
    case False
    then show ?thesis
      using u16_single [OF v False] Cons v by (simp add: u16_def append_enc Let_def)
  qed
qed simp

lemma utf16to8_sound:
  "utf16to8 ws = Inr bs \<Longrightarrow> \<exists>cps. list_all is_code_point_valid cps \<and> bs = enc_all cps \<and> ws = concat (map u16 cps)"
proof (induction ws arbitrary: bs rule: utf16to8.induct)
  case 1
  then show ?case
    by (intro exI [of _ "[]"]) simp
next
  case (2 w ws)
  consider (pair) v ws' where "ws = v # ws'" "is_lead_surrogate (ucast w)" "is_trail_surrogate (ucast v)"
    | (single) "\<not> is_lead_surrogate (ucast w)" "\<not> is_trail_surrogate (ucast w)"
    using 2(3) by (auto simp: Let_def split: if_splits list.splits)
  then show ?case
  proof cases
    case pair
    note p = pair_u16 [OF pair(2,3)]
    obtain r where r: "utf16to8 ws' = Inr r" "bs = enc (push_bit 10 (ucast w) + ucast v + SURROGATE_OFFSET) @ r"
      using 2(3) pair p(1) by (auto simp: append_enc Let_def)
    then obtain cps where "list_all is_code_point_valid cps" "r = enc_all cps" "ws' = concat (map u16 cps)"
      using 2(1) [OF refl pair(2) pair(1) refl pair(3)] append_enc p(1) by metis
    then show ?thesis
      using p r(2) pair(1) by (intro exI [of _ "(push_bit 10 (ucast w) + ucast v + SURROGATE_OFFSET) # cps"]) simp
  next
    case single
    note p = single_u16 [OF single]
    obtain r where r: "utf16to8 ws = Inr r" "bs = enc (ucast w) @ r"
      using 2(3) single p(1) by (auto simp: append_enc Let_def)
    then obtain cps where "list_all is_code_point_valid cps" "r = enc_all cps" "ws = concat (map u16 cps)"
      using 2(2) [OF refl single] append_enc p(1) by metis
    then show ?thesis
      using p r(2) by (intro exI [of _ "ucast w # cps"]) simp
  qed
qed

lemma utf8to16_utf8to32: "utf8to16 bs = map_sum id (\<lambda>cps. concat (map u16 cps)) (utf8to32 bs)"
proof (induction bs rule: utf8to16.induct)
  case (1 bs)
  show ?case
  proof (cases "bs = []")
    case False
    show ?thesis
    proof (cases "next_utf8 bs")
      case (Inr p)
      obtain cp r where "p = (cp, r)"
        by (cases p)
      then show ?thesis
        using 1 [OF False Inr] Inr False
        by (simp add: utf8to16.simps [of bs] utf8to32.simps [of bs] u16_def sum.map_comp comp_def)
    qed (simp add: False utf8to16.simps [of bs] utf8to32.simps [of bs])
  qed simp
qed

lemma utf8to16_iff:
  "utf8to16 bs = Inr ws \<longleftrightarrow> (\<exists>cps. list_all is_code_point_valid cps \<and> bs = enc_all cps \<and> ws = concat (map u16 cps))"
  using utf8to32_enc utf8to32_sound by (auto simp: utf8to16_utf8to32)

section \<open>Properties\<close>

text \<open>
  C26: the decoder and the encoder are inverse: a byte range decodes to a sequence of code
  points exactly when that sequence encodes to the range. So overlong forms, surrogates,
  truncated sequences and values past U+10FFFF are rejected, nothing else is, and the
  validator and the count of code points agree with it.
\<close>

theorem utf8_codec:
  "(utf8to32 bs = Inr cps \<longleftrightarrow> utf32to8 cps = Inr bs) \<and>
   (is_valid bs \<longleftrightarrow> (\<exists>cps. utf8to32 bs = Inr cps)) \<and>
   (distance bs = Inr n \<longleftrightarrow> (\<exists>cps. utf8to32 bs = Inr cps \<and> length cps = n))"
proof -
  have "distance bs = map_sum id length (utf8to32 bs)" for bs
  proof (induction bs rule: distance.induct)
    case (1 bs)
    show ?case
    proof (cases "bs = []")
      case False
      show ?thesis
      proof (cases "next_utf8 bs")
        case (Inr p)
        obtain cp r where "p = (cp, r)"
          by (cases p)
        then show ?thesis
          using 1 [OF False Inr] Inr False
          by (simp add: distance.simps [of bs] utf8to32.simps [of bs] sum.map_comp comp_def)
      qed (simp add: False distance.simps [of bs] utf8to32.simps [of bs])
    qed simp
  qed
  moreover have "utf8to32 bs = Inr cps \<longleftrightarrow> utf32to8 cps = Inr bs" for cps
    using utf8to32_enc utf8to32_sound utf32to8_iff by metis
  ultimately show ?thesis
    by (auto simp: is_valid_iff utf32to8_iff)
qed

text \<open>
  Going back over a code point is the inverse of going forward: from the end of an
  encoded code point, whatever stands before it, \<open>prior\<close> finds its start and returns it,
  and \<open>next\<close> returns it from there.
\<close>

lemma utf8_prior_next:
  assumes "append_utf8 cp = Inr s"
  shows "prior (rev s @ before) = Inr (cp, before) \<and> next_utf8 (s @ rest) = Inr (cp, rest)"
  using assms prior_enc next_enc by (auto simp: append_enc split: if_splits)

theorem utf8_prior_next_witness:
  "append_utf8 0x410 = Inr [0xd0, 0x90] \<and> prior [0x90, 0xd0, 0x21] = Inr (0x410, [0x21])"
proof -
  have a: "append_utf8 0x410 = Inr [0xd0, 0x90]"
    by code_simp
  show ?thesis
    using utf8_prior_next [OF a, of "[0x21]" "[]"] a by simp
qed

text \<open>
  replacing invalid sequences by a code point that can be encoded gives valid UTF-8,
  and leaves valid UTF-8 as it is. The only exception is \<open>not_enough_room\<close>, raised when the
  range ends inside a sequence; then nothing is repaired.
\<close>

lemma replace_invalid_repairs:
  assumes "append_utf8 m = Inr s"
  shows "case replace_invalid bs m [] of
      Inl e \<Rightarrow> e = Not_enough_room \<and> \<not> is_valid bs
    | Inr out \<Rightarrow> is_valid out \<and> (out = bs \<or> \<not> is_valid bs)"
proof -
  have m: "is_code_point_valid m"
    using assms by (simp add: append_enc split: if_splits)
  have id: "replace_invalid bs m [] = Inr bs" if "is_valid bs"
    using that replace_invalid_enc [of _ m "[]"] by (auto simp: is_valid_iff)
  show ?thesis
    using replace_invalid_sound [OF m, of "[]" bs] id
    by (cases "is_valid bs") (auto simp: is_valid_iff split: sum.splits)
qed

lemma replace_invalid_repairs_witness:
  "append_utf8 0x3f = Inr [0x3f] \<and> is_valid [0x61, 0x3f, 0x62] \<and>
   replace_invalid [0x61, 0xff, 0x62] 0x3f [] = Inr [0x61, 0x3f, 0x62]"
proof -
  have a: "append_utf8 0x3f = Inr [0x3f]"
    by code_simp
  have r: "replace_invalid [0x61, 0xff, 0x62] 0x3f [] = Inr [0x61, 0x3f, 0x62]"
    by code_simp
  show ?thesis
    using replace_invalid_repairs [OF a, of "[0x61, 0xff, 0x62]"] a r by simp
qed

text \<open>
  the conversions between UTF-8 and UTF-16 are inverse, surrogate pairs included: a
  byte range converts to a sequence of 16-bit units exactly when that sequence converts to
  the range, so lone and swapped surrogates are rejected.
\<close>

lemma utf16_codec: "utf8to16 bs = Inr ws \<longleftrightarrow> utf16to8 ws = Inr bs"
  unfolding utf8to16_iff using utf16to8_enc utf16to8_sound by metis

text \<open>
  The exception that \<open>next\<close> raises for a code point that is out of range or a surrogate
  always carries the code point 0: the failing decoder does not hand its value out.
\<close>

lemma next_reports_zero:
  "next_utf8 bs = Inl (Invalid_code_point cp) \<Longrightarrow> cp = 0"
  by (auto simp: next_utf8_def validate_next_def Let_def split: prod.splits if_splits utf_error.splits)

theorem next_reports_zero_witness:
  "next_utf8 [0xed, 0xa0, 0x80] = Inl (Invalid_code_point 0)"
proof -
  have n: "\<exists>cp. next_utf8 [0xed, 0xa0, 0x80] = Inl (Invalid_code_point cp)"
    by (rule exI [of _ 0]) code_simp
  then obtain cp where "next_utf8 [0xed, 0xa0, 0x80] = Inl (Invalid_code_point cp)"
    by blast
  with next_reports_zero [OF this] show ?thesis
    by simp
qed

end
