(* ===== verification/StringUtf8.thy ===== *)
theory StringUtf8
  imports Utf8
begin

text \<open>
  The functions of \<^verbatim>\<open>strings/string_utils.cpp\<close> that walk a string code point by code
  point. They collect their result in a character array and read it back as a C string
  (\<open>c_str\<close>). An array that is too small is undefined behaviour, \<open>None\<close>; an exception is the
  left part of a sum.
\<close>

section \<open>The code\<close>

definition c_str :: "byte list \<Rightarrow> byte list" where
  "c_str s = takeWhile (\<lambda>b. b \<noteq> 0) s"

definition fix_utf8_string :: "byte list \<Rightarrow> utf8_exn + byte list" where
  "fix_utf8_string str = (case replace_invalid str REPLACEMENT_MARKER [] of
     Inr temp \<Rightarrow> Inr temp
   | Inl e \<Rightarrow> if e = Not_enough_room then Inr str else Inl e)"

definition push_elem :: "byte list \<Rightarrow> byte list list \<Rightarrow> byte list list" where
  "push_elem elem elems = (if elem \<noteq> [] then elems @ [c_str elem] else elems)"

function split_utf8_loop ::
  "byte list \<Rightarrow> u32 set \<Rightarrow> byte list \<Rightarrow> byte list list \<Rightarrow> utf8_exn + byte list list" where
  "split_utf8_loop it delims elem elems =
     (case next_utf8 it of
        Inl e \<Rightarrow> Inl e
      | Inr (symbol, it) \<Rightarrow>
          if symbol \<in> delims then
            (if it = [] then Inr (push_elem elem elems)
             else split_utf8_loop it delims [] (push_elem elem elems))
          else (case append_utf8 symbol of
              Inl e \<Rightarrow> Inl e
            | Inr bs \<Rightarrow>
                if it = [] then Inr (push_elem (elem @ bs) elems)
                else split_utf8_loop it delims (elem @ bs) elems))"
  by pat_completeness auto
termination by (relation "measure (\<lambda>(it, _). length it)") (auto dest: next_shorter)

definition splitUtf8 :: "byte list \<Rightarrow> u32 set \<Rightarrow> byte list list \<Rightarrow> utf8_exn + byte list list" where
  "splitUtf8 s delims elems = (if s = [] then Inr elems else split_utf8_loop s delims [] elems)"

text \<open>The two arrays of \<open>splitIntoTwoUtf8\<close>; an exception ends the loop.\<close>

function two_loop :: "byte list \<Rightarrow> u32 \<Rightarrow> bool \<Rightarrow> byte list \<Rightarrow> byte list \<Rightarrow> byte list \<times> byte list" where
  "two_loop it delim first f s =
     (case next_utf8 it of
        Inl e \<Rightarrow> (f, s)
      | Inr (symbol, it) \<Rightarrow>
          if first \<and> symbol = delim then
            (if it = [] then (f, s) else two_loop it delim False f s)
          else (case append_utf8 symbol of
              Inl e \<Rightarrow> (f, s)
            | Inr bs \<Rightarrow>
                let f' = (if first then f @ bs else f); s' = (if first then s else s @ bs) in
                if it = [] then (f', s') else two_loop it delim first f' s'))"
  by pat_completeness auto
termination by (relation "measure (\<lambda>(it, _). length it)") (auto dest: next_shorter)

definition splitIntoTwoUtf8 :: "byte list \<Rightarrow> u32 \<Rightarrow> byte list \<times> byte list \<Rightarrow> byte list \<times> byte list" where
  "splitIntoTwoUtf8 v delim out = (if v = [] then out
     else let (f, s) = two_loop v delim True [] [] in (c_str f, c_str s))"

definition isUtf8Char :: "u32 \<Rightarrow> bool" where
  "isUtf8Char c \<longleftrightarrow> 0x41 \<le> c \<and> c \<le> 0x5a \<or> 0x61 \<le> c \<and> c \<le> 0x7a \<or>
     0x410 \<le> c \<and> c \<le> 0x42F \<or> 0x430 \<le> c \<and> c \<le> 0x44f"

definition toLowerCharUtf8 :: "u32 \<Rightarrow> u32" where
  "toLowerCharUtf8 c =
     (if 0x41 \<le> c \<and> c \<le> 0x5a then c + 0x61 - 0x41
      else if 0x410 \<le> c \<and> c \<le> 0x42F then c + 0x430 - 0x410
      else c)"

text \<open>
  The loop of \<open>eraseNonCharsUtf8\<close>, \<open>toLowerUtf8\<close>, \<open>replaceCharUtf8\<close> and
  \<open>getPrefixesUtf8\<close>: \<open>put\<close> is what the body writes for a symbol. The result lists what the
  array holds after each round.
\<close>

function utf8_loop :: "(u32 \<Rightarrow> utf8_exn + byte list) \<Rightarrow> byte list \<Rightarrow> byte list \<Rightarrow> byte list list" where
  "utf8_loop put it res =
     (case next_utf8 it of
        Inl e \<Rightarrow> []
      | Inr (symbol, it) \<Rightarrow> (case put symbol of
            Inl e \<Rightarrow> []
          | Inr bs \<Rightarrow> (res @ bs) # (if it = [] then [] else utf8_loop put it (res @ bs))))"
  by pat_completeness auto
termination by (relation "measure (\<lambda>(_, it, _). length it)") (auto dest: next_shorter)

text \<open>The array has room for the bytes of the string and the NUL that ends it.\<close>

definition utf8_result :: "(u32 \<Rightarrow> utf8_exn + byte list) \<Rightarrow> byte list \<Rightarrow> byte list option" where
  "utf8_result put s =
     (let res = last ([] # utf8_loop put s [])
      in if length res \<le> length s then Some (c_str res) else None)"

definition eraseNonCharsUtf8 :: "byte list \<Rightarrow> byte list option" where
  "eraseNonCharsUtf8 s = (if s = [] then Some s
     else utf8_result (\<lambda>symbol. if isUtf8Char symbol then append_utf8 symbol else Inr []) s)"

definition toLowerUtf8 :: "byte list \<Rightarrow> byte list option" where
  "toLowerUtf8 s = (if s = [] then Some s else utf8_result (\<lambda>symbol. append_utf8 (toLowerCharUtf8 symbol)) s)"

definition replaceCharUtf8 :: "byte list \<Rightarrow> u32 \<Rightarrow> u32 \<Rightarrow> byte list option" where
  "replaceCharUtf8 value what to = (if value = [] then Some value
     else utf8_result (\<lambda>symbol. if symbol = what then append_utf8 to else append_utf8 symbol) value)"

definition getPrefixesUtf8 :: "byte list \<Rightarrow> byte list list \<Rightarrow> byte list list" where
  "getPrefixesUtf8 word prefixes = (if word = [] then prefixes
     else prefixes @ map c_str (utf8_loop append_utf8 word []))"

text \<open>
  \<open>words.size()-1\<close> wraps at 0, so without words the first access is out of range: \<open>None\<close>.
\<close>

definition getBigrams :: "byte list \<Rightarrow> byte list list \<Rightarrow> (utf8_exn + byte list list) option" where
  "getBigrams q bigrams = (case splitUtf8 q {0x20} [] of
     Inl e \<Rightarrow> Some (Inl e)
   | Inr words \<Rightarrow> if words = [] then None
       else Some (Inr (bigrams @ map (\<lambda>i. words ! i @ [0x20] @ words ! (i + 1)) [0..<length words - 1])))"

declare split_utf8_loop.simps [simp del] two_loop.simps [simp del] utf8_loop.simps [simp del]

section \<open>Lemmas\<close>

text \<open>The maximal pieces without a delimiter that are not empty.\<close>

function tokens :: "('a \<Rightarrow> bool) \<Rightarrow> 'a list \<Rightarrow> 'a list list" where
  "tokens D s = (case dropWhile D s of
     [] \<Rightarrow> []
   | c # r \<Rightarrow> takeWhile (\<lambda>c. \<not> D c) (c # r) # tokens D (dropWhile (\<lambda>c. \<not> D c) (c # r)))"
  by pat_completeness auto
termination
proof (relation "measure (\<lambda>(_, s). length s)", goal_cases)
  case (2 D s c r)
  have d: "\<not> D c"
    using 2 hd_dropWhile [of D s] by auto
  have "length (c # r) \<le> length s"
    using length_dropWhile_le [of D s] 2 by simp
  then show ?case
    using d length_dropWhile_le [of "\<lambda>c. \<not> D c" r] by simp
qed simp

declare tokens.simps [simp del]

lemma tokens_Nil [simp]: "tokens D [] = []"
  by (simp add: tokens.simps)

lemma tokens_delim [simp]: "D c \<Longrightarrow> tokens D (c # s) = tokens D s"
  by (simp add: tokens.simps [of D "c # s"] tokens.simps [of D s])

lemma tokens_end: "list_all (\<lambda>c. \<not> D c) w \<Longrightarrow> tokens D w = (if w = [] then [] else [w])"
proof (cases w)
  case (Cons c r)
  assume "list_all (\<lambda>c. \<not> D c) w"
  then have w: "takeWhile (\<lambda>c. \<not> D c) r = r" "dropWhile (\<lambda>c. \<not> D c) r = []" "\<not> D c"
    using Cons by (auto simp: list_all_iff takeWhile_eq_all_conv dropWhile_eq_Nil_conv)
  show ?thesis
    using Cons by (simp add: tokens.simps [of D "c # r"] w)
qed simp

lemma tokens_word: "list_all (\<lambda>c. \<not> D c) w \<Longrightarrow> D d \<Longrightarrow> tokens D (w @ d # s) = (if w = [] then [] else [w]) @ tokens D s"
proof (cases w)
  case (Cons c r)
  assume w: "list_all (\<lambda>c. \<not> D c) w" and d: "D d"
  have "takeWhile (\<lambda>c. \<not> D c) (w @ d # s) = w" "dropWhile (\<lambda>c. \<not> D c) (w @ d # s) = d # s"
    using w d by (auto simp: list_all_iff takeWhile_append dropWhile_append takeWhile_eq_all_conv dropWhile_eq_Nil_conv)
  then show ?thesis
    using w d Cons by (simp add: tokens.simps [of D "c # r @ d # s"])
qed simp

lemma bit7_nonzero: "bit (b :: byte) 7 \<Longrightarrow> b \<noteq> 0"
  by auto

lemma enc_pos: "is_code_point_valid cp \<Longrightarrow> cp \<noteq> 0 \<Longrightarrow> 0 \<notin> set (enc cp)"
proof -
  assume v: "is_code_point_valid cp" and n: "cp \<noteq> 0"
  have t: "0 \<noteq> trail k cp" for k
    using bit7_nonzero [of "trail k cp"] by (simp add: bit_trail)
  have l: "0 \<noteq> (ucast (drop_bit 6 cp OR 0xc0) :: byte)" "0 \<noteq> (ucast (drop_bit 12 cp OR 0xe0) :: byte)"
      "0 \<noteq> (ucast (drop_bit 18 cp OR 0xf0) :: byte)"
    using bit7_nonzero [of "ucast (drop_bit 6 cp OR 0xc0)"] bit7_nonzero [of "ucast (drop_bit 12 cp OR 0xe0)"]
      bit7_nonzero [of "ucast (drop_bit 18 cp OR 0xf0)"]
    unfolding bit_ucast_or by auto
  have "enc cp \<noteq> [0]"
  proof
    assume "enc cp = [0]"
    then have "validate_next [0] 0 = (UTF8_OK, [], cp)"
      using validate_enc [OF v, of "[]" 0] by simp
    moreover have "validate_next [0] 0 = (UTF8_OK, [], 0)"
      by code_simp
    ultimately show False
      using n by simp
  qed
  then show ?thesis
    using v t l by (elim enc_cases) auto
qed

lemma enc_zero: "enc 0 = [0]"
  by code_simp

lemma c_str_enc: "list_all is_code_point_valid cps \<Longrightarrow> c_str (enc_all cps) = enc_all (takeWhile (\<lambda>c. c \<noteq> 0) cps)"
proof (induction cps)
  case (Cons cp cps)
  show ?case
  proof (cases "cp = 0")
    case True
    then show ?thesis
      by (simp add: c_str_def enc_zero)
  next
    case False
    then have "\<forall>b \<in> set (enc cp). b \<noteq> 0"
      using enc_pos [of cp] Cons.prems by auto
    then show ?thesis
      using Cons False by (simp add: c_str_def)
  qed
qed (simp add: c_str_def)

text \<open>What the loops do on an encoded code point, and at the first invalid sequence.\<close>

lemma utf8_loop_enc:
  assumes "is_code_point_valid cp"
  shows "utf8_loop put (enc cp @ r) res = (case put cp of Inl e \<Rightarrow> []
     | Inr bs \<Rightarrow> (res @ bs) # (if r = [] then [] else utf8_loop put r (res @ bs)))"
  using assms by (subst utf8_loop.simps) (simp add: next_enc)

lemma invalid_front: "find_invalid bs \<noteq> [] \<Longrightarrow> \<exists>e. next_utf8 (find_invalid bs) = Inl e"
proof (induction bs rule: find_invalid.induct)
  case (1 bs)
  show ?case
  proof (cases "next_utf8 bs")
    case (Inl e)
    then have "fst (validate_next bs 0) \<noteq> UTF8_OK"
      by (auto simp: next_utf8_def split: prod.splits)
    then have "find_invalid bs = bs"
      by (subst find_invalid.simps) (auto split: prod.split)
    then show ?thesis
      using Inl by simp
  next
    case (Inr p)
    then obtain cp r where p: "is_code_point_valid cp" "bs = enc cp @ r"
      using next_ok_iff by (metis surj_pair)
    then have "find_invalid r \<noteq> []"
      using 1(2) by (simp add: loop_enc)
    then have "\<exists>e. next_utf8 (find_invalid r) = Inl e"
      using 1(1) [OF _ validate_enc [OF p(1), of r 0, folded p(2), symmetric] refl] p by simp
    then show ?thesis
      using p by (simp add: loop_enc)
  qed
qed

lemma utf8_loop_bad: "next_utf8 bs = Inl e \<Longrightarrow> utf8_loop put bs res = []"
  by (subst utf8_loop.simps) simp

lemma utf8_loop_all:
  assumes "\<And>cp. cp \<in> set cps \<Longrightarrow> put cp = Inr (f cp)" "r = [] \<or> (\<exists>e. next_utf8 r = Inl e)"
  shows "list_all is_code_point_valid cps \<Longrightarrow> cps \<noteq> [] \<Longrightarrow>
    utf8_loop put (enc_all cps @ r) res = map (\<lambda>n. res @ concat (map f (take n cps))) [1..<Suc (length cps)]"
  using assms(1)
proof (induction cps arbitrary: res)
  case (Cons cp cps)
  have step: "utf8_loop put (enc_all (cp # cps) @ r) res =
      (res @ f cp) # (if enc_all cps @ r = [] then [] else utf8_loop put (enc_all cps @ r) (res @ f cp))"
    using Cons.prems by (simp add: utf8_loop_enc)
  have "[1..<Suc (length (cp # cps))] = 1 # [Suc 1..<Suc (length (cp # cps))]"
    by (rule upt_conv_Cons) simp
  then have idx: "[1..<Suc (length (cp # cps))] = 1 # map Suc [1..<Suc (length cps)]"
    by (simp only: map_Suc_upt list.size add_Suc_right add_0_right)
  show ?case
  proof (cases "cps = []")
    case True
    then have "enc_all cps @ r = [] \<or> utf8_loop put (enc_all cps @ r) (res @ f cp) = []"
      using assms(2) utf8_loop_bad by auto
    then show ?thesis
      unfolding step idx using True by auto
  next
    case False
    then have "enc_all cps \<noteq> []"
      using Cons.prems by (cases cps) auto
    then show ?thesis
      unfolding step idx using Cons False by simp
  qed
qed simp

lemma utf8_result_all:
  assumes "list_all is_code_point_valid cps" "r = [] \<or> (\<exists>e. next_utf8 r = Inl e)"
    "\<And>cp. cp \<in> set cps \<Longrightarrow> put cp = Inr (f cp)" "enc_all cps @ r \<noteq> []"
  shows "utf8_result put (enc_all cps @ r) =
    (if length (concat (map f cps)) \<le> length (enc_all cps @ r) then Some (c_str (concat (map f cps))) else None)"
proof (cases "cps = []")
  case True
  then show ?thesis
    using assms(2,4) utf8_loop_bad by (auto simp: utf8_result_def)
next
  case False
  then have "last ([] # utf8_loop put (enc_all cps @ r) []) = concat (map f cps)"
    by (simp add: utf8_loop_all [OF assms(3,2,1)] Suc_le_eq)
  then show ?thesis
    by (simp add: utf8_result_def Let_def)
qed

lemma valid_chars: "isUtf8Char c \<Longrightarrow> c \<noteq> 0"
  by (auto simp: isUtf8Char_def)

lemma toLower_valid: "is_code_point_valid c \<Longrightarrow> is_code_point_valid (toLowerCharUtf8 c)"
  by (auto simp: toLowerCharUtf8_def is_code_point_valid_def is_surrogate_def surrogate_defs CODE_POINT_MAX_def
      word_le_nat_alt word_less_nat_alt unat_word_ariths)

lemma enc_length: "is_code_point_valid cp \<Longrightarrow>
   length (enc cp) = (if cp < 0x80 then 1 else if cp < 0x800 then 2 else if cp < 0x10000 then 3 else 4)"
  by (erule enc_cases) (auto simp: word_less_nat_alt)

lemma toLower_length: "is_code_point_valid c \<Longrightarrow> length (enc (toLowerCharUtf8 c)) = length (enc c)"
  using toLower_valid [of c]
  by (auto simp: enc_length toLowerCharUtf8_def word_le_nat_alt word_less_nat_alt unat_word_ariths)

lemma length_concat_le: "(\<And>c. c \<in> set cs \<Longrightarrow> length (f c) \<le> length (g c)) \<Longrightarrow> length (concat (map f cs)) \<le> length (concat (map g cs))"
  by (induction cs) (auto simp: add_mono)

lemma utf32to8_dest: "utf32to8 cps = Inr s \<Longrightarrow> list_all is_code_point_valid cps \<and> s = enc_all cps"
  by (simp add: utf32to8_iff)

lemma invalid_tail: "find_invalid (s @ r) = r \<Longrightarrow> r = [] \<or> (\<exists>e. next_utf8 r = Inl e)"
  using invalid_front [of "s @ r"] by auto

lemma split_utf8_loop_enc:
  "list_all is_code_point_valid cps \<Longrightarrow> list_all (\<lambda>c. c \<noteq> 0) cps \<Longrightarrow> cps \<noteq> [] \<Longrightarrow>
   list_all is_code_point_valid w \<Longrightarrow> list_all (\<lambda>c. c \<noteq> 0) w \<Longrightarrow> list_all (\<lambda>c. c \<notin> D) w \<Longrightarrow>
   split_utf8_loop (enc_all cps) D (enc_all w) elems = Inr (elems @ map enc_all (tokens (\<lambda>c. c \<in> D) (w @ cps)))"
proof (induction cps arbitrary: w elems)
  case (Cons cp cps)
  have rest: "enc_all cps = [] \<longleftrightarrow> cps = []"
    using Cons.prems(1) by (cases cps) auto
  have full: "c_str (enc_all w) = enc_all w" if "list_all is_code_point_valid w" "list_all (\<lambda>c. c \<noteq> 0) w" for w
  proof -
    have "takeWhile (\<lambda>c. c \<noteq> 0) w = w"
      using that(2) by (simp add: list_all_iff takeWhile_eq_all_conv)
    from c_str_enc [OF that(1), unfolded this] show ?thesis .
  qed
  have "enc_all w = [] \<longleftrightarrow> w = []"
    using Cons.prems(4) by (cases w) auto
  then have push: "push_elem (enc_all w) elems = elems @ map enc_all (if w = [] then [] else [w])"
    using Cons.prems(4,5) by (simp add: push_elem_def full)
  show ?case
  proof (cases "cp \<in> D")
    case True
    have "tokens (\<lambda>c. c \<in> D) (w @ cp # cps) = (if w = [] then [] else [w]) @ tokens (\<lambda>c. c \<in> D) cps"
      using tokens_word [of "\<lambda>c. c \<in> D" w cp cps] Cons.prems(6) True by simp
    then show ?thesis
      using Cons.IH [of "[]"] Cons.prems True push rest
      by (subst split_utf8_loop.simps) (simp add: next_enc)
  next
    case False
    have more: "enc_all w @ enc cp = enc_all (w @ [cp])"
      by simp
    have "enc_all (w @ [cp]) \<noteq> []"
      using Cons.prems by simp
    then have "push_elem (enc_all (w @ [cp])) elems = elems @ [enc_all (w @ [cp])]"
      using Cons.prems by (simp add: push_elem_def full del: enc_all_simps)
    moreover have "tokens (\<lambda>c. c \<in> D) (w @ [cp]) = [w @ [cp]]"
      using Cons.prems False by (simp add: tokens_end)
    ultimately show ?thesis
      using Cons.IH [of "w @ [cp]"] Cons.prems False rest
      by (subst split_utf8_loop.simps) (simp add: next_enc append_enc more del: enc_all_simps(3))
  qed
qed simp

lemma two_loop_rest:
  "list_all is_code_point_valid cps \<Longrightarrow> cps \<noteq> [] \<Longrightarrow> two_loop (enc_all cps) d False f s = (f, s @ enc_all cps)"
proof (induction cps arbitrary: s)
  case (Cons cp cps)
  have "enc_all cps = [] \<longleftrightarrow> cps = []"
    using Cons.prems(1) by (cases cps) auto
  then show ?case
    using Cons by (subst two_loop.simps) (simp add: next_enc append_enc Let_def)
qed simp

lemma two_loop_enc:
  "list_all is_code_point_valid cps \<Longrightarrow> cps \<noteq> [] \<Longrightarrow> two_loop (enc_all cps) d True f [] =
    (f @ enc_all (takeWhile (\<lambda>c. c \<noteq> d) cps), enc_all (tl (dropWhile (\<lambda>c. c \<noteq> d) cps)))"
proof (induction cps arbitrary: f)
  case (Cons cp cps)
  have "enc_all cps = [] \<longleftrightarrow> cps = []"
    using Cons.prems(1) by (cases cps) auto
  then show ?case
    using Cons two_loop_rest [of cps d f "[]"] by (subst two_loop.simps) (simp add: next_enc append_enc Let_def)
qed simp

lemma projr_utf32to8: "list_all is_code_point_valid cps \<Longrightarrow> utf32to8 cps = Inr (enc_all cps)"
  by (simp add: utf32to8_iff)

lemma utf8_result_whole:
  assumes "utf32to8 cps = Inr s" "find_invalid (s @ r) = r" "s @ r \<noteq> []"
    "\<And>cp. cp \<in> set cps \<Longrightarrow> put cp = Inr (f cp)"
  shows "utf8_result put (s @ r) =
    (if length (concat (map f cps)) \<le> length (s @ r) then Some (c_str (concat (map f cps))) else None)"
  using utf8_result_all [OF _ invalid_tail [OF assms(2)] assms(4), of cps] utf32to8_dest [OF assms(1)] assms(3) by simp

lemma valid_subset: "list_all is_code_point_valid cps \<Longrightarrow> cp \<in> set cps \<Longrightarrow> is_code_point_valid cp"
  by (simp add: list_all_iff)

section \<open>Properties\<close>

text \<open>
  lowering the case and erasing what is not a letter work code point by code point on
  every input: with \<open>s\<close> the longest valid beginning of the text, which encodes \<open>cps\<close>, the
  result encodes the lowered code points (cut at a NUL) or the letters among them; nothing
  is written out of bounds, and what stands behind the first invalid sequence is lost.
\<close>

lemma utf8_lower_and_erase:
  assumes "utf32to8 cps = Inr s" "find_invalid (s @ r) = r"
  shows "toLowerUtf8 (s @ r) = Some (c_str (projr (utf32to8 (map toLowerCharUtf8 cps)))) \<and>
    eraseNonCharsUtf8 (s @ r) = Some (projr (utf32to8 (filter isUtf8Char cps)))"
proof (cases "s @ r = []")
  case True
  then have "cps = []"
    using utf32to8_dest [OF assms(1)] by (cases cps) auto
  then show ?thesis
    using True by (simp add: toLowerUtf8_def eraseNonCharsUtf8_def c_str_def)
next
  case False
  have v: "list_all is_code_point_valid cps" "s = enc_all cps"
    using utf32to8_dest [OF assms(1)] by auto
  note vc = valid_subset [OF v(1)]
  have lower: "toLowerUtf8 (s @ r) = utf8_result (\<lambda>c. append_utf8 (toLowerCharUtf8 c)) (s @ r)"
    and erase: "eraseNonCharsUtf8 (s @ r) = utf8_result (\<lambda>c. if isUtf8Char c then append_utf8 c else Inr []) (s @ r)"
    using False by (simp_all add: toLowerUtf8_def eraseNonCharsUtf8_def del: append_is_Nil_conv)
  have low: "enc_all (map toLowerCharUtf8 cps) = concat (map (\<lambda>c. enc (toLowerCharUtf8 c)) cps)"
    by (simp add: enc_all_def comp_def)
  have "list_all is_code_point_valid (map toLowerCharUtf8 cps)"
    using vc toLower_valid by (auto simp: list_all_iff)
  moreover have "length (concat (map (\<lambda>c. enc (toLowerCharUtf8 c)) cps)) \<le> length s"
    unfolding v(2) enc_all_def by (rule length_concat_le) (simp add: toLower_length vc)
  ultimately have "toLowerUtf8 (s @ r) = Some (c_str (projr (utf32to8 (map toLowerCharUtf8 cps))))"
    using utf8_result_whole [OF assms False, of "\<lambda>c. append_utf8 (toLowerCharUtf8 c)" "\<lambda>c. enc (toLowerCharUtf8 c)"]
      toLower_valid vc unfolding lower by (simp add: append_enc projr_utf32to8 low)
  moreover
  have filt: "concat (map (\<lambda>c. if isUtf8Char c then enc c else []) cps) = enc_all (filter isUtf8Char cps)"
    by (induction cps) (simp_all add: enc_all_def)
  have "length (concat (map (\<lambda>c. if isUtf8Char c then enc c else []) cps)) \<le> length s"
    unfolding v(2) enc_all_def by (rule length_concat_le) simp
  moreover have fv: "list_all is_code_point_valid (filter isUtf8Char cps)"
    using vc by (auto simp: list_all_iff)
  moreover have "c_str (enc_all (filter isUtf8Char cps)) = enc_all (filter isUtf8Char cps)"
  proof -
    have "takeWhile (\<lambda>c. c \<noteq> 0) (filter isUtf8Char cps) = filter isUtf8Char cps"
      using valid_chars by (auto simp: takeWhile_eq_all_conv)
    from c_str_enc [OF fv, unfolded this] show ?thesis .
  qed
  ultimately show ?thesis
    using utf8_result_whole [OF assms False, of "\<lambda>c. if isUtf8Char c then append_utf8 c else Inr []" "\<lambda>c. if isUtf8Char c then enc c else []"]
      vc unfolding erase by (simp add: append_enc projr_utf32to8 filt)
qed

lemma utf8_lower_and_erase_witness:
  "utf32to8 [0x41, 0x2e, 0x410] = Inr [0x41, 0x2e, 0xd0, 0x90] \<and>
   toLowerUtf8 [0x41, 0x2e, 0xd0, 0x90, 0xff, 0x42] = Some [0x61, 0x2e, 0xd0, 0xb0] \<and>
   eraseNonCharsUtf8 [0x41, 0x2e, 0xd0, 0x90, 0xff, 0x42] = Some [0x41, 0xd0, 0x90]"
proof -
  have a: "utf32to8 [0x41, 0x2e, 0x410] = Inr [0x41, 0x2e, 0xd0, 0x90]"
    by code_simp
  have b: "find_invalid ([0x41, 0x2e, 0xd0, 0x90] @ [0xff, 0x42]) = [0xff, 0x42]"
    by code_simp
  have c: "c_str (projr (utf32to8 (map toLowerCharUtf8 [0x41, 0x2e, 0x410]))) = [0x61, 0x2e, 0xd0, 0xb0]"
    by code_simp
  have d: "projr (utf32to8 (filter isUtf8Char [0x41, 0x2e, 0x410])) = [0x41, 0xd0, 0x90]"
    by code_simp
  show ?thesis
    using utf8_lower_and_erase [OF a b] a unfolding c d by simp
qed

text \<open>
  On valid UTF-8 without NUL \<open>splitUtf8\<close> returns the encodings of the maximal runs
  of code points that are not delimiters, in order.
\<close>

lemma splitUtf8_tokens:
  assumes "utf32to8 cps = Inr s" "0 \<notin> set cps"
  shows "map_sum id (map Inr) (splitUtf8 s D elems) =
    Inr (map Inr elems @ map utf32to8 (tokens (\<lambda>c. c \<in> D) cps))"
proof (cases "cps = []")
  case True
  then show ?thesis
    using assms(1) by (simp add: splitUtf8_def)
next
  case False
  have v: "list_all is_code_point_valid cps" "s = enc_all cps"
    using utf32to8_dest [OF assms(1)] by auto
  have nz: "list_all (\<lambda>c. c \<noteq> 0) cps"
    using assms(2) by (auto simp: list_all_iff)
  have "s \<noteq> []"
    using v False by (cases cps) auto
  then have "splitUtf8 s D elems = Inr (elems @ map enc_all (tokens (\<lambda>c. c \<in> D) cps))"
    using split_utf8_loop_enc [OF v(1) nz False, of "[]" D elems] v(2) by (simp add: splitUtf8_def)
  moreover have "w \<in> set (tokens P cps) \<Longrightarrow> set w \<subseteq> set cps" for w P
  proof (induction P cps rule: tokens.induct)
    case (1 P cps)
    show ?case
    proof (cases "dropWhile P cps")
      case (Cons c r)
      have "set (c # r) \<subseteq> set cps"
        unfolding Cons [symmetric] by (auto dest: set_dropWhileD)
      then show ?thesis
        using 1 Cons by (subst (asm) (2) tokens.simps)
          (auto dest!: set_takeWhileD dest: set_dropWhileD subsetD split: if_splits)
    next
      case Nil
      have "tokens P cps = []"
        by (subst tokens.simps) (simp only: Nil list.case)
      then show ?thesis
        using 1 by simp
    qed
  qed
  then have "w \<in> set (tokens (\<lambda>c. c \<in> D) cps) \<Longrightarrow> utf32to8 w = Inr (enc_all w)" for w
    using v(1) by (intro projr_utf32to8) (auto simp: list_all_iff)
  ultimately show ?thesis
    by simp
qed

theorem splitUtf8_tokens_witness:
  "utf32to8 [0x20, 0x430, 0x62, 0x20, 0x63] = Inr [0x20, 0xd0, 0xb0, 0x62, 0x20, 0x63] \<and>
   splitUtf8 [0x20, 0xd0, 0xb0, 0x62, 0x20, 0x63] {0x20} [] = Inr [[0xd0, 0xb0, 0x62], [0x63]]"
proof -
  have a: "utf32to8 [0x20, 0x430, 0x62, 0x20, 0x63] = Inr [0x20, 0xd0, 0xb0, 0x62, 0x20, 0x63]"
    by code_simp
  have b: "map utf32to8 (tokens (\<lambda>c. c \<in> {0x20}) [0x20, 0x430, 0x62, 0x20, 0x63]) = map Inr [[0xd0, 0xb0, 0x62], [0x63]]"
    by code_simp
  have "0 \<notin> set [0x20, 0x430, 0x62, 0x20, 0x63 :: u32]"
    by simp
  from splitUtf8_tokens [OF a this, of "{0x20}" "[]", unfolded b] a show ?thesis
    by (cases "splitUtf8 [0x20, 0xd0, 0xb0, 0x62, 0x20, 0x63] {0x20} []") (auto simp: map_eq_Cons_conv)
qed

text \<open>
  on valid UTF-8 \<open>replaceCharUtf8\<close> replaces every occurrence of a code point when the
  result is not longer than the text; when it is longer, because the new code point has a
  longer encoding, the code writes past the end of its array.
\<close>

lemma replaceCharUtf8_bounds:
  assumes "utf32to8 cps = Inr s" "append_utf8 to = Inr t"
  shows "\<exists>out. utf32to8 (map (\<lambda>c. if c = what then to else c) cps) = Inr out \<and>
    replaceCharUtf8 s what to = (if length out \<le> length s then Some (c_str out) else None)"
proof -
  let ?f = "\<lambda>c. if c = what then to else c"
  have v: "list_all is_code_point_valid cps" "s = enc_all cps"
    using utf32to8_dest [OF assms(1)] by auto
  have to: "is_code_point_valid to"
    using assms(2) by (simp add: append_enc split: if_splits)
  have "list_all is_code_point_valid (map ?f cps)"
    using v(1) to by (auto simp: list_all_iff)
  then have out: "utf32to8 (map ?f cps) = Inr (enc_all (map ?f cps))"
    by (rule projr_utf32to8)
  have "replaceCharUtf8 s what to = (if length (enc_all (map ?f cps)) \<le> length s then Some (c_str (enc_all (map ?f cps))) else None)"
  proof (cases "s = []")
    case True
    then have "cps = []"
      using v by (cases cps) auto
    then show ?thesis
      using True by (simp add: replaceCharUtf8_def c_str_def)
  next
    case False
    have "find_invalid (s @ []) = []"
      using find_invalid_enc [OF v(1), of "[]"] v(2) by simp
    moreover have "concat (map (\<lambda>c. enc (?f c)) cps) = enc_all (map ?f cps)"
      by (simp add: enc_all_def comp_def)
    ultimately show ?thesis
      using utf8_result_whole [OF assms(1), of "[]" "\<lambda>c. if c = what then append_utf8 to else append_utf8 c" "\<lambda>c. enc (?f c)"]
        False valid_subset [OF v(1)] to by (simp add: replaceCharUtf8_def append_enc)
  qed
  then show ?thesis
    using out by blast
qed

lemma replaceCharUtf8_bounds_witness:
  "utf32to8 [0x61, 0x20] = Inr [0x61, 0x20] \<and> append_utf8 0x20ac = Inr [0xe2, 0x82, 0xac] \<and>
   replaceCharUtf8 [0x61, 0x20] 0x20 0x20ac = None"
proof -
  have a: "utf32to8 [0x61, 0x20] = Inr [0x61, 0x20]" "append_utf8 0x20ac = Inr [0xe2, 0x82, 0xac]"
    "utf32to8 (map (\<lambda>c. if c = 0x20 then 0x20ac else c) [0x61, 0x20]) = Inr [0x61, 0xe2, 0x82, 0xac]"
    by code_simp+
  from replaceCharUtf8_bounds [OF a(1,2), of "0x20"] show ?thesis
    using a by simp
qed

text \<open>
  C26: \<open>splitIntoTwoUtf8\<close> cuts valid UTF-8 without NUL at the first occurrence of the
  delimiter, which it drops; without one everything is in the first part.
\<close>

lemma splitIntoTwoUtf8_cuts:
  assumes "utf32to8 cps = Inr s" "0 \<notin> set cps" "cps \<noteq> []"
  shows "utf32to8 (takeWhile (\<lambda>c. c \<noteq> d) cps) = Inr (fst (splitIntoTwoUtf8 s d out)) \<and>
    utf32to8 (tl (dropWhile (\<lambda>c. c \<noteq> d) cps)) = Inr (snd (splitIntoTwoUtf8 s d out))"
proof -
  have v: "list_all is_code_point_valid cps" "s = enc_all cps"
    using utf32to8_dest [OF assms(1)] by auto
  have "s \<noteq> []"
    using v assms(3) by (cases cps) auto
  then have code: "splitIntoTwoUtf8 s d out =
      (c_str (enc_all (takeWhile (\<lambda>c. c \<noteq> d) cps)), c_str (enc_all (tl (dropWhile (\<lambda>c. c \<noteq> d) cps))))"
    using two_loop_enc [OF v(1) assms(3), of d "[]"] v(2) by (simp add: splitIntoTwoUtf8_def)
  have full: "utf32to8 w = Inr (c_str (enc_all w))" if "set w \<subseteq> set cps" for w
  proof -
    have w: "list_all is_code_point_valid w" "takeWhile (\<lambda>c. c \<noteq> 0) w = w"
      using that v(1) assms(2) by (auto simp: list_all_iff takeWhile_eq_all_conv)
    then have "c_str (enc_all w) = enc_all w"
      using c_str_enc [OF w(1), unfolded w(2)] by simp
    then show ?thesis
      using w(1) by (simp add: projr_utf32to8)
  qed
  have "set (takeWhile (\<lambda>c. c \<noteq> d) cps) \<subseteq> set cps" "set (tl (dropWhile (\<lambda>c. c \<noteq> d) cps)) \<subseteq> set cps"
    by (auto dest: set_takeWhileD) (metis list.sel(2) list.set_sel(2) set_dropWhileD)
  then show ?thesis
    unfolding code by (simp add: full)
qed

theorem splitIntoTwoUtf8_cuts_witness:
  "splitIntoTwoUtf8 [0x61, 0x3d, 0x62, 0x3d] 0x3d ([], []) = ([0x61], [0x62, 0x3d])"
proof -
  have a: "utf32to8 [0x61, 0x3d, 0x62, 0x3d] = Inr [0x61, 0x3d, 0x62, 0x3d]"
    "utf32to8 (takeWhile (\<lambda>c. c \<noteq> 0x3d) [0x61, 0x3d, 0x62, 0x3d]) = Inr [0x61]"
    "utf32to8 (tl (dropWhile (\<lambda>c. c \<noteq> 0x3d) [0x61, 0x3d, 0x62, 0x3d])) = Inr [0x62, 0x3d]"
    by code_simp+
  have "0 \<notin> set [0x61, 0x3d, 0x62, 0x3d :: u32]"
    by simp
  from splitIntoTwoUtf8_cuts [OF a(1) this, of "0x3d" "([], [])"] show ?thesis
    unfolding a(2,3) by (cases "splitIntoTwoUtf8 [0x61, 0x3d, 0x62, 0x3d] 0x3d ([], [])") simp
qed

text \<open>
  C27: \<open>fix_utf8_string\<close> never raises: it leaves valid UTF-8 in the string, or, when the
  string ends inside a sequence, the string it was given.
\<close>

lemma fix_utf8_string_total:
  "\<exists>t. fix_utf8_string s = Inr t \<and> (is_valid t \<or> t = s)"
proof -
  have "is_code_point_valid REPLACEMENT_MARKER"
    by code_simp
  from replace_invalid_sound [OF this, of "[]" s] show ?thesis
    by (auto simp: fix_utf8_string_def is_valid_iff split: sum.splits)
qed

text \<open>
  C28: \<open>getBigrams\<close> of valid UTF-8 without NUL returns the pairs of consecutive words, and
  reads out of bounds when the text has no word.
\<close>

lemma getBigrams_pairs:
  assumes "utf32to8 cps = Inr s" "0 \<notin> set cps"
  shows "\<exists>words. splitUtf8 s {0x20} [] = Inr words \<and> length words = length (tokens (\<lambda>c. c \<in> {0x20}) cps) \<and>
    getBigrams s bigrams = (if words = [] then None
      else Some (Inr (bigrams @ map (\<lambda>(a, b). a @ 0x20 # b) (zip words (tl words)))))"
proof -
  obtain words where w: "splitUtf8 s {0x20} [] = Inr words" "length words = length (tokens (\<lambda>c. c \<in> {0x20}) cps)"
  proof (cases "cps = []")
    case True
    then show thesis
      using that [of "[]"] assms(1) by (simp add: splitUtf8_def)
  next
    case False
    have v: "list_all is_code_point_valid cps" "s = enc_all cps" "list_all (\<lambda>c. c \<noteq> 0) cps"
      using utf32to8_dest [OF assms(1)] assms(2) by (auto simp: list_all_iff)
    then have "s \<noteq> []"
      using False by (cases cps) auto
    then show thesis
      using that split_utf8_loop_enc [OF v(1,3) False, of "[]" "{0x20}" "[]"] v(2) by (simp add: splitUtf8_def)
  qed
  have "map (\<lambda>i. words ! i @ [0x20] @ words ! (i + 1)) [0..<length words - 1] = map (\<lambda>(a, b). a @ 0x20 # b) (zip words (tl words))"
    by (rule nth_equalityI) (auto simp: nth_tl)
  then show ?thesis
    using w by (auto simp: getBigrams_def)
qed

theorem getBigrams_pairs_witness:
  "getBigrams [0x61, 0x20, 0x62, 0x20, 0x63] [] = Some (Inr [[0x61, 0x20, 0x62], [0x62, 0x20, 0x63]]) \<and>
   getBigrams [0x20] [] = None"
proof -
  have a: "utf32to8 [0x61, 0x20, 0x62, 0x20, 0x63] = Inr [0x61, 0x20, 0x62, 0x20, 0x63]" "utf32to8 [0x20] = Inr [0x20]"
    "splitUtf8 [0x61, 0x20, 0x62, 0x20, 0x63] {0x20} [] = Inr [[0x61], [0x62], [0x63]]"
    "splitUtf8 [0x20] {0x20} [] = Inr []"
    by code_simp+
  have n: "0 \<notin> set [0x61, 0x20, 0x62, 0x20, 0x63 :: u32]" "0 \<notin> set [0x20 :: u32]"
    by simp_all
  show ?thesis
    using getBigrams_pairs [OF a(1) n(1), of "[]"] getBigrams_pairs [OF a(2) n(2), of "[]"] a by auto
qed

end
