(* ===== verification/StringUtils.thy ===== *)
theory StringUtils
  imports Frames StringUtf8 "HOL-Library.List_Lexorder" "HOL-Library.Char_ord" "HOL-Library.Sublist"
begin

text \<open>
  The byte functions of \<^verbatim>\<open>strings/string_utils.cpp\<close>: splitting, trimming, query strings and
  cookies, escaping, replacing, file names and domains. \<open>None\<close> is undefined behaviour (an
  access outside a string, a null \<^verbatim>\<open>char*\<close>) where a definition says so; the \<^verbatim>\<open>int\<close>
  positions of the code are those of strings shorter than \<open>2^31\<close>.
\<close>

text \<open>
  Strings are the keys of \<^verbatim>\<open>std::map\<close> in their lexicographic order by unsigned bytes, the
  order of \<open>List_Lexorder\<close> over \<open>Char_ord\<close>.
\<close>

section \<open>Splitting\<close>

text \<open>\<open>getline\<close> does not return an empty rest after the last delimiter.\<close>

function split_char :: "string \<Rightarrow> char \<Rightarrow> string list" where
  "split_char s delim = (if s = [] then []
     else takeWhile (\<lambda>c. c \<noteq> delim) s # split_char (tl (dropWhile (\<lambda>c. c \<noteq> delim) s)) delim)"
  by pat_completeness auto
termination
proof (relation "measure (\<lambda>(s, _). length s)", goal_cases)
  case (2 s delim)
  have "length (dropWhile (\<lambda>c. c \<noteq> delim) s) \<le> length s"
    by (rule length_dropWhile_le)
  then show ?case
    using 2 by (cases s) auto
qed simp

declare split_char.simps [simp del]

definition split_round :: "char \<Rightarrow> string list \<Rightarrow> string list" where
  "split_round delim in_tokens = concat (map (\<lambda>t. split_char t delim) (filter (\<lambda>t. t \<noteq> []) in_tokens))"

definition split_delims :: "string \<Rightarrow> char list \<Rightarrow> string list \<Rightarrow> string list" where
  "split_delims s delims elems = elems @ filter (\<lambda>t. t \<noteq> []) (fold split_round delims [s])"

section \<open>Trimming\<close>

definition removeLeadingSpaces :: "string \<Rightarrow> string" where
  "removeLeadingSpaces s = dropWhile (\<lambda>c. c = CHR '' '') s"

text \<open>
  The loop stops at the last character that is not a space, or at position 0, and the string is
  cut before that position. Without characters \<^verbatim>\<open>s[s.size()-1]\<close> is out of bounds.
\<close>

fun last_nonspace :: "string \<Rightarrow> nat \<Rightarrow> nat" where
  "last_nonspace s 0 = 0"
| "last_nonspace s (Suc p) = (if s ! Suc p = CHR '' '' then last_nonspace s p else Suc p)"

definition removeEndingSpaces :: "string \<Rightarrow> string option" where
  "removeEndingSpaces s =
     (if s = [] then None
      else if s ! (length s - 1) \<noteq> CHR '' '' then Some s
      else Some (take (last_nonspace s (length s - 1)) s))"

definition removeLeadingAndEndingSpaces :: "string \<Rightarrow> string option" where
  "removeLeadingAndEndingSpaces s = removeEndingSpaces (removeLeadingSpaces s)"

section \<open>Query strings\<close>

text \<open>
  \<open>unescape\<close> is \<^verbatim>\<open>curl_easy_unescape\<close> read back as a C string, \<open>None\<close> its null result.
\<close>

definition unescapeUrl :: "(string \<Rightarrow> string option) \<Rightarrow> string \<Rightarrow> string option" where
  "unescapeUrl unescape value = unescape value"

definition getPairGET ::
  "(string \<Rightarrow> string option) \<Rightarrow> string \<Rightarrow> string \<times> string \<Rightarrow> (bool \<times> string \<times> string) option" where
  "getPairGET unescape s kv =
     (case str_find CHR ''='' s of
        None \<Rightarrow> Some (False, kv)
      | Some eq_sym_pos \<Rightarrow>
          (case (removeLeadingAndEndingSpaces (take eq_sym_pos s),
                 removeLeadingAndEndingSpaces (drop (eq_sym_pos + 1) s)) of
             (Some key, Some value) \<Rightarrow>
               (case unescape key of
                  None \<Rightarrow> Some (False, kv)
                | Some key_c \<Rightarrow>
                    let kv = (key_c, snd kv) in
                    (case unescape value of
                       None \<Rightarrow> Some (False, kv)
                     | Some value_c \<Rightarrow> Some (True, fst kv, value_c)))
           | _ \<Rightarrow> None))"

datatype get_state = OUTSIDE | KEY | VALUE

record get_parser =
  gp_state :: get_state
  gp_sbeg :: nat
  gp_key :: string
  gp_values :: "(string, string) omap"

definition next_sbeg :: "string \<Rightarrow> nat \<Rightarrow> nat" where
  "next_sbeg data i = (if i + 1 \<noteq> length data then i + 1 else i)"

definition substr :: "string \<Rightarrow> nat \<Rightarrow> nat \<Rightarrow> string" where
  "substr s pos n = take n (drop pos s)"

definition put_value :: "(string \<Rightarrow> string option) \<Rightarrow> string \<Rightarrow> string \<Rightarrow> (string, string) omap \<Rightarrow> (string, string) omap option" where
  "put_value unescape key value values =
     (case unescapeUrl unescape value of
        None \<Rightarrow> None
      | Some v \<Rightarrow> map_option (\<lambda>v. om_put key v values) (unescapeUrl unescape v))"

definition get_step :: "(string \<Rightarrow> string option) \<Rightarrow> string \<Rightarrow> nat \<Rightarrow> get_parser \<Rightarrow> get_parser option" where
  "get_step unescape data i p =
     (if data ! i = CHR ''?'' then Some (p\<lparr>gp_state := KEY, gp_sbeg := next_sbeg data i\<rparr>)
      else if data ! i = CHR ''='' then
        Some (p\<lparr>gp_state := VALUE, gp_key := substr data (gp_sbeg p) (i - gp_sbeg p), gp_sbeg := next_sbeg data i\<rparr>)
      else if data ! i = CHR ''&'' then
        map_option (\<lambda>values. p\<lparr>gp_state := KEY, gp_values := values, gp_sbeg := next_sbeg data i\<rparr>)
          (put_value unescape (gp_key p) (substr data (gp_sbeg p) (i - gp_sbeg p)) (gp_values p))
      else Some p)"

fun get_loop :: "(string \<Rightarrow> string option) \<Rightarrow> string \<Rightarrow> nat list \<Rightarrow> get_parser \<Rightarrow> get_parser option" where
  "get_loop unescape data [] p = Some p"
| "get_loop unescape data (i # is) p = (case get_step unescape data i p of
     None \<Rightarrow> None | Some p \<Rightarrow> get_loop unescape data is p)"

definition get_end :: "(string \<Rightarrow> string option) \<Rightarrow> string \<Rightarrow> get_parser \<Rightarrow> (string, string) omap option" where
  "get_end unescape data p =
     (let rest = substr data (gp_sbeg p) (length data - gp_sbeg p)
      in case gp_state p of
           VALUE \<Rightarrow> put_value unescape (gp_key p) rest (gp_values p)
         | KEY \<Rightarrow> put_value unescape rest [] (gp_values p)
         | OUTSIDE \<Rightarrow> put_value unescape (gp_key p) [] (gp_values p))"

text \<open>\<open>i\<close> and \<open>sbeg\<close> are of type \<^verbatim>\<open>int\<close>: on a string of \<open>2^31\<close> characters or more \<open>i++\<close> overflows, \<open>None\<close>.\<close>

definition parseGET :: "(string \<Rightarrow> string option) \<Rightarrow> string \<Rightarrow> (string, string) omap \<Rightarrow> (string, string) omap option" where
  "parseGET unescape data values =
     (if int (length data) \<ge> 2 ^ 31 then None
      else
        (case get_loop unescape data [0..<length data] \<lparr>gp_state = OUTSIDE, gp_sbeg = 0, gp_key = [], gp_values = values\<rparr> of
           None \<Rightarrow> None
         | Some p \<Rightarrow> get_end unescape data p))"

section \<open>Delimiters, numbers, searches\<close>

definition isDelimeter :: "char \<Rightarrow> bool" where
  "isDelimeter c \<longleftrightarrow> c = CHR 0x09 \<or> c = CHR 0x0A"

text \<open>
  After \<^verbatim>\<open>s.erase(it)\<close> the iterator stands on the next character, which \<^verbatim>\<open>it++\<close> then
  skips; an erased last character leaves it at the end, and \<^verbatim>\<open>it++\<close> moves past it: \<open>None\<close>.
\<close>

fun delims_loop :: "bool \<Rightarrow> string \<Rightarrow> string option" where
  "delims_loop prev_delim [] = Some []"
| "delims_loop prev_delim (c # it) =
     (if isDelimeter c then
        (if prev_delim then
           (case it of [] \<Rightarrow> None | d # it' \<Rightarrow> map_option (\<lambda>s. d # s) (delims_loop prev_delim it'))
         else map_option (\<lambda>s. c # s) (delims_loop True it))
      else map_option (\<lambda>s. c # s) (delims_loop False it))"

definition removeRedundantDelimeters :: "string \<Rightarrow> string option" where
  "removeRedundantDelimeters s = delims_loop False s"

definition uint64_to_string :: "u64 \<Rightarrow> string" where
  "uint64_to_string i = dec_str (unat i)"

definition inttostr :: "32 word \<Rightarrow> string" where
  "inttostr i = (if sint i < 0 then CHR ''-'' # dec_str (nat (- sint i)) else dec_str (nat (sint i)))"

text \<open>\<^verbatim>\<open>sscanf("%d")\<close>: \<open>None\<close> is a matching failure; the value is not bounded yet.\<close>

definition scan_dec :: "string \<Rightarrow> int option" where
  "scan_dec s =
     (let (neg, u) = scan_sign (dropWhile is_space s); ds = takeWhile is_digit u
      in if ds = [] then None else Some (if neg then - int (digits_val ds) else int (digits_val ds)))"

text \<open>What does not fit an \<^verbatim>\<open>int\<close> is undefined (\<open>None\<close>); \<open>junk\<close> is what the variable held.\<close>

definition strtoint :: "32 word \<Rightarrow> string \<Rightarrow> 32 word option" where
  "strtoint junk s =
     (case scan_dec s of
        None \<Rightarrow> Some junk
      | Some v \<Rightarrow> if - (2 ^ 31) \<le> v \<and> v < 2 ^ 31 then Some (word_of_int v) else None)"

text \<open>
  \<^verbatim>\<open>printf("%f")\<close> of a single precision number, given by its bits: the value in millionths, rounded
  to the nearest, to even in the middle. \<open>None\<close>: the text does not fit its array.
\<close>

definition round_even :: "nat \<Rightarrow> nat \<Rightarrow> nat" where
  "round_even a b =
     (let q = a div b; r = a mod b in if 2 * r < b \<or> (2 * r = b \<and> even q) then q else q + 1)"

definition float_micros :: "nat \<Rightarrow> nat \<Rightarrow> nat" where
  "float_micros ex frac =
     (let m = (if ex = 0 then frac else frac + 2 ^ 23); e = (if ex = 0 then 1 else ex)
      in if e \<ge> 150 then m * 2 ^ (e - 150) * 10 ^ 6 else round_even (m * 10 ^ 6) (2 ^ (150 - e)))"

definition printf_float :: "32 word \<Rightarrow> string" where
  "printf_float f =
     (let ex = unat (take_bit 8 (drop_bit 23 f)); frac = unat (take_bit 23 f);
          s = (if ex = 255 then (if frac = 0 then ''inf'' else ''nan'')
               else let n = float_micros ex frac; d = dec_str (n mod 10 ^ 6)
                    in dec_str (n div 10 ^ 6) @ ''.'' @ replicate (6 - length d) CHR ''0'' @ d)
      in if bit f 31 then CHR ''-'' # s else s)"

definition float_to_string :: "32 word \<Rightarrow> string option" where
  "float_to_string f = (if length (printf_float f) + 1 \<le> 50 then Some (printf_float f) else None)"

text \<open>curl is a parameter; its \<^verbatim>\<open>NULL\<close> is \<open>None\<close>, which makes the string undefined.\<close>

definition escapeUrl :: "(string \<Rightarrow> string option) \<Rightarrow> string \<Rightarrow> string option" where
  "escapeUrl escape url = map_option cstr (escape url)"

definition getUrlPath :: "string \<Rightarrow> string" where
  "getUrlPath url = (case str_find CHR ''?'' url of None \<Rightarrow> url | Some qpos \<Rightarrow> take qpos url)"

fun isStringInVec :: "string \<Rightarrow> string list \<Rightarrow> bool" where
  "isStringInVec str [] = False"
| "isStringInVec str (x # v) = (if str = x then True else isStringInVec str v)"

definition cookie_step :: "string \<Rightarrow> (string, string) omap \<Rightarrow> (string, string) omap" where
  "cookie_step elem cookies = (case str_find CHR ''='' elem of
     None \<Rightarrow> cookies
   | Some eq_pos \<Rightarrow>
       if elem ! 0 = CHR '' '' then om_put (substr elem 1 (eq_pos - 1)) (drop (eq_pos + 1) elem) cookies
       else om_put (take eq_pos elem) (drop (eq_pos + 1) elem) cookies)"

definition parseCookies :: "string \<Rightarrow> (string, string) omap \<Rightarrow> (string, string) omap" where
  "parseCookies header cookies =
     fold (\<lambda>elem cookies. if elem \<noteq> [] then cookie_step elem cookies else cookies)
       (split_delims header [CHR '';''] []) cookies"

fun find_str :: "string \<Rightarrow> string \<Rightarrow> nat option" where
  "find_str what [] = (if what = [] then Some 0 else None)"
| "find_str what (c # s) = (if take (length what) (c # s) = what then Some 0 else map_option Suc (find_str what s))"

definition replace_at :: "string \<Rightarrow> nat \<Rightarrow> nat \<Rightarrow> string \<Rightarrow> string" where
  "replace_at str index n to = take index str @ to @ drop (index + n) str"

definition replaceSubstring :: "string \<Rightarrow> string \<Rightarrow> string \<Rightarrow> string" where
  "replaceSubstring str from to = (case find_str from str of
     None \<Rightarrow> str | Some index \<Rightarrow> replace_at str index (length from) to)"

definition booltostr :: "bool \<Rightarrow> string" where
  "booltostr a = (if a then ''true'' else ''false'')"

text \<open>\<open>replaceString\<close> searches from the beginning after every replacement and may not return.\<close>

partial_function (option) replaceString :: "string \<Rightarrow> string \<Rightarrow> string \<Rightarrow> string option" where
  "replaceString str what to = (case find_str what str of
     None \<Rightarrow> Some str
   | Some p \<Rightarrow> replaceString (replace_at str p (length what) to) what to)"

section \<open>Escaping, times, names\<close>

fun escape_loop :: "string \<Rightarrow> char \<Rightarrow> string" where
  "escape_loop [] sy = []"
| "escape_loop (c # str) sy = (if c = sy then CHR 0x5C # sy # escape_loop str sy else c # escape_loop str sy)"

text \<open>The array is read back as a C string.\<close>

definition escape_symbol :: "string \<Rightarrow> char \<Rightarrow> string" where
  "escape_symbol str sy = takeWhile (\<lambda>c. c \<noteq> CHR 0x00) (escape_loop str sy)"

definition escape_quote :: "string \<Rightarrow> string" where
  "escape_quote str = escape_symbol str CHR 0x27"

definition add_newline_backslash :: "string \<Rightarrow> string" where
  "add_newline_backslash str = escape_symbol str CHR 0x0A"

definition getBeginningOfDayTs :: "u64 \<Rightarrow> u64" where
  "getBeginningOfDayTs ts = (ts div (3600 * 24)) * (3600 * 24)"

text \<open>\<^verbatim>\<open>find_last_of\<close> as an \<^verbatim>\<open>int\<close>, \<open>- 1\<close> for \<^verbatim>\<open>npos\<close>.\<close>

definition last_pos :: "char \<Rightarrow> string \<Rightarrow> int" where
  "last_pos c s = (case str_find c (rev s) of None \<Rightarrow> - 1 | Some i \<Rightarrow> int (length s - 1 - i))"

definition removeFilenameExt :: "string \<Rightarrow> string" where
  "removeFilenameExt s =
     (let dot_pos = last_pos CHR ''.'' s; slash_pos = last_pos CHR ''/'' s
      in if dot_pos = - 1 then s
         else if slash_pos \<noteq> - 1 \<and> slash_pos > dot_pos then s
         else take (nat dot_pos) s)"

definition changeFilenameExt :: "string \<Rightarrow> string \<Rightarrow> string" where
  "changeFilenameExt s ext =
     (let dot_pos = last_pos CHR ''.'' s
      in if dot_pos = - 1 then s @ ''.'' @ ext else take (nat dot_pos) s @ ''.'' @ ext)"

fun invert_loop :: "string list \<Rightarrow> nat \<Rightarrow> string \<Rightarrow> string" where
  "invert_loop toks 0 ret = ret"
| "invert_loop toks (Suc i) ret =
     invert_loop toks i
       (if length (toks ! i) \<noteq> 0 then ret @ toks ! i @ (if i \<noteq> 0 then ''.'' else []) else ret)"

definition invertDomain :: "string \<Rightarrow> string" where
  "invertDomain domain = (let toks = split_char domain CHR ''.'' in invert_loop toks (length toks) [])"

section \<open>Lemmas on pieces\<close>

lemma tokens_step: "tokens D s = (if takeWhile (\<lambda>c. \<not> D c) s = [] then [] else [takeWhile (\<lambda>c. \<not> D c) s]) @
    tokens D (tl (dropWhile (\<lambda>c. \<not> D c) s))"
proof -
  let ?w = "takeWhile (\<lambda>c. \<not> D c) s" and ?r = "dropWhile (\<lambda>c. \<not> D c) s"
  have s: "s = ?w @ ?r"
    by simp
  have w: "list_all (\<lambda>c. \<not> D c) ?w"
    by (auto simp: list_all_iff dest: set_takeWhileD)
  show ?thesis
  proof (cases ?r)
    case Nil
    have "tokens D s = tokens D ?w"
      using s unfolding Nil by simp
    then show ?thesis
      using tokens_end [OF w] by (simp add: Nil)
  next
    case (Cons d r)
    then have "D d"
      using hd_dropWhile [of "\<lambda>c. \<not> D c" s] by simp
    from tokens_word [OF w this, of r] show ?thesis
      using s unfolding Cons by (metis list.sel(3))
  qed
qed

lemma split_char_tokens: "filter (\<lambda>t. t \<noteq> []) (split_char s d) = tokens (\<lambda>c. c = d) s"
proof (induction s d rule: split_char.induct)
  case (1 s d)
  then show ?case
    by (cases "s = []")
      (simp_all add: split_char.simps [of "[]" d] split_char.simps [of s d] tokens_step [of "\<lambda>c. c = d" s])
qed

lemma shorter_rest: "s \<noteq> [] \<Longrightarrow> length (tl (dropWhile P s)) < length s"
  using length_dropWhile_le [of P s] by (cases s) auto

lemma tokens_cong_set: "\<forall>c \<in> set s. P c = Q c \<Longrightarrow> tokens P s = tokens Q s"
proof (induction s rule: length_induct)
  case (1 s)
  show ?case
  proof (cases "s = []")
    case False
    have sub: "set (tl (dropWhile (\<lambda>c. \<not> P c) s)) \<subseteq> set s"
      by (metis list.sel(2) list.set_sel(2) set_dropWhileD subsetI)
    have eq: "takeWhile (\<lambda>c. \<not> P c) s = takeWhile (\<lambda>c. \<not> Q c) s" "dropWhile (\<lambda>c. \<not> P c) s = dropWhile (\<lambda>c. \<not> Q c) s"
      using 1(2) by (auto intro: takeWhile_cong dropWhile_cong)
    have "tokens P (tl (dropWhile (\<lambda>c. \<not> P c) s)) = tokens Q (tl (dropWhile (\<lambda>c. \<not> P c) s))"
      using 1 sub shorter_rest [OF False] by blast
    then show ?thesis
      unfolding tokens_step [of P s] tokens_step [of Q s] eq by simp
  qed simp
qed

lemma tokens_append: "D d \<Longrightarrow> tokens D (w @ d # s) = tokens D w @ tokens D s"
proof (induction w rule: length_induct)
  case (1 w)
  show ?case
  proof (cases "list_all (\<lambda>c. \<not> D c) w")
    case True
    then show ?thesis
      using tokens_word [OF True 1(2)] tokens_end [OF True] by simp
  next
    case False
    then obtain a r where a: "takeWhile (\<lambda>c. \<not> D c) w = a" "dropWhile (\<lambda>c. \<not> D c) w = r" "r \<noteq> []"
      by (auto simp: dropWhile_eq_Nil_conv list_all_iff)
    have ex: "\<exists>x \<in> set w. \<not> \<not> D x"
      using False by (auto simp: list_all_iff)
    have "w \<noteq> []"
      using False by auto
    then have "tokens D (tl r @ d # s) = tokens D (tl r) @ tokens D s"
      using 1 shorter_rest [of w "\<lambda>c. \<not> D c"] a(2) by blast
    moreover have "takeWhile (\<lambda>c. \<not> D c) (w @ d # s) = a" "dropWhile (\<lambda>c. \<not> D c) (w @ d # s) = r @ d # s"
      using ex a(1,2) takeWhile_append1 dropWhile_append1 by fastforce+
    ultimately show ?thesis
      using a by (simp add: tokens_step [of D "w @ d # s"] tokens_step [of D w])
  qed
qed

lemma tokens_or: "tokens (\<lambda>c. P c \<or> Q c) s = concat (map (tokens Q) (tokens P s))"
proof (induction s rule: length_induct)
  case (1 s)
  let ?w = "takeWhile (\<lambda>c. \<not> P c) s" and ?r = "dropWhile (\<lambda>c. \<not> P c) s"
  have s: "s = ?w @ ?r"
    by simp
  have w: "tokens (\<lambda>c. P c \<or> Q c) ?w = tokens Q ?w"
    by (rule tokens_cong_set) (auto dest: set_takeWhileD)
  show ?case
  proof (cases ?r)
    case Nil
    then have ws: "?w = s"
      using s by (metis append_Nil2)
    have "tokens P s = (if s = [] then [] else [s])"
      by (subst tokens_step) (simp only: ws Nil list.sel tokens_Nil append_Nil2)
    then show ?thesis
      using w unfolding ws by simp
  next
    case (Cons d r)
    then have d: "P d"
      using hd_dropWhile [of "\<lambda>c. \<not> P c" s] by simp
    have "length r < length s"
      using shorter_rest [of s "\<lambda>c. \<not> P c"] Cons by (cases s) auto
    then have "tokens (\<lambda>c. P c \<or> Q c) r = concat (map (tokens Q) (tokens P r))"
      using 1 by blast
    moreover have "tokens (\<lambda>c. P c \<or> Q c) s = tokens (\<lambda>c. P c \<or> Q c) ?w @ tokens (\<lambda>c. P c \<or> Q c) r"
      using tokens_append [of "\<lambda>c. P c \<or> Q c" d ?w r] d s Cons by metis
    ultimately show ?thesis
      using w tokens_step [of P s] Cons by simp
  qed
qed

lemma tokens_not_Nil: "t \<in> set (tokens D s) \<Longrightarrow> t \<noteq> []"
proof (induction s rule: length_induct)
  case (1 s)
  then show ?case
    using shorter_rest [of s "\<lambda>c. \<not> D c"] tokens_step [of D s]
    by (cases "s = []") (auto split: if_splits)
qed

lemma split_round_tokens:
  "filter (\<lambda>t. t \<noteq> []) (split_round d ts) = concat (map (tokens (\<lambda>c. c = d)) (filter (\<lambda>t. t \<noteq> []) ts))"
  unfolding split_round_def by (induction ts) (simp_all add: split_char_tokens)

lemma fold_split_round:
  "filter (\<lambda>t. t \<noteq> []) (fold split_round ds ts) = concat (map (tokens (\<lambda>c. c \<in> set ds)) (filter (\<lambda>t. t \<noteq> []) ts))"
proof (induction ds arbitrary: ts)
  case Nil
  have "tokens (\<lambda>_. False) t = [t]" if "t \<noteq> []" for t :: string
    using tokens_end [of "\<lambda>_. False" t] that by (simp add: list_all_iff)
  then have "concat (map (tokens (\<lambda>_. False)) (filter (\<lambda>t. t \<noteq> []) ts)) = filter (\<lambda>t. t \<noteq> []) ts"
    by (induction ts) auto
  then show ?case
    by simp
next
  case (Cons d ds)
  have "tokens (\<lambda>c. c \<in> set (d # ds)) t = concat (map (tokens (\<lambda>c. c \<in> set ds)) (tokens (\<lambda>c. c = d) t))" for t
    using tokens_or [of "\<lambda>c. c = d" "\<lambda>c. c \<in> set ds" t] by simp
  then have "concat (map (tokens (\<lambda>c. c \<in> set (d # ds))) ts') =
      concat (map (tokens (\<lambda>c. c \<in> set ds)) (concat (map (tokens (\<lambda>c. c = d)) ts')))" for ts'
    by (induction ts') simp_all
  then show ?case
    using Cons [of "split_round d ts"] by (simp only: fold_Cons comp_apply split_round_tokens)
qed

lemma last_nonspace_stop: "s ! p \<noteq> CHR '' '' \<Longrightarrow> last_nonspace s p = p"
  by (cases p) simp_all

lemma last_nonspace_spaces:
  "last_nonspace (t @ c # replicate n CHR '' '') (length t + n) = (if c = CHR '' '' then last_nonspace (t @ c # replicate n CHR '' '') (length t) else length t)"
proof -
  have "k \<le> n \<Longrightarrow> last_nonspace (t @ c # replicate n CHR '' '') (length t + k) = last_nonspace (t @ c # replicate n CHR '' '') (length t)" for k
  proof (induction k)
    case (Suc k)
    have "(t @ c # replicate n CHR '' '') ! Suc (length t + k) = CHR '' ''"
      using Suc.prems by (simp add: nth_append Suc_diff_le)
    then show ?case
      using Suc by simp
  qed simp
  moreover have "c \<noteq> CHR '' '' \<Longrightarrow> last_nonspace (t @ c # replicate n CHR '' '') (length t) = length t"
    by (rule last_nonspace_stop) simp
  ultimately show ?thesis
    by simp
qed

section \<open>Lemmas on substring search\<close>

lemma find_str_iff: "find_str what s = None \<longleftrightarrow> \<not> sublist what s"
proof (induction s)
  case (Cons c s)
  have "take (length what) (c # s) = what \<longleftrightarrow> prefix what (c # s)"
    by (metis append_eq_conv_conj prefix_def take_is_prefix)
  then show ?case
    using Cons by (simp add: sublist_Cons_right)
qed simp

lemma find_str_Some: "find_str what s = Some p \<Longrightarrow> \<exists>u v. s = u @ what @ v \<and> length u = p"
proof (induction s arbitrary: p)
  case Nil
  then show ?case
    by (auto split: if_splits)
next
  case (Cons c s)
  show ?case
  proof (cases "take (length what) (c # s) = what")
    case True
    then have "c # s = [] @ what @ drop (length what) (c # s)" "p = 0"
      using Cons.prems append_take_drop_id [of "length what" "c # s"] by auto
    then show ?thesis
      by (metis list.size(3))
  next
    case False
    then obtain q where q: "find_str what s = Some q" "p = Suc q"
      using Cons.prems by auto
    then obtain u v where "s = u @ what @ v" "length u = q"
      using Cons.IH by blast
    then show ?thesis
      using q(2) by (intro exI [of _ "c # u"] exI [of _ v]) simp
  qed
qed

lemma replace_at_found: "replace_at (u @ what @ v) (length u) (length what) to = u @ to @ v"
  by (simp add: replace_at_def)

lemma replaceString_None_left:
  assumes "replaceString str what to = Some y"
  shows "\<not> sublist what y \<and> (sublist what to \<longrightarrow> y = str)"
  using assms
proof (induction str what to y rule: replaceString.raw_induct)
  case (1 replaceString str what to y)
  show ?case
  proof (cases "find_str what str")
    case None
    have "y = str"
      using 1(2) by (simp add: None)
    then show ?thesis
      using None by (simp add: find_str_iff)
  next
    case (Some p)
    then obtain u v where uv: "str = u @ what @ v" "length u = p"
      using find_str_Some by blast
    then have "replace_at str p (length what) to = u @ to @ v"
      using replace_at_found by blast
    moreover have "StringUtils.replaceString (replace_at str p (length what) to) what to = Some y"
      using 1(3) Some by (subst (asm) replaceString.simps) simp
    ultimately have IH: "\<not> sublist what y \<and> (sublist what to \<longrightarrow> y = u @ to @ v)"
      using 1(1) [of "u @ to @ v"] 1(2) Some by simp
    moreover have "sublist what to \<Longrightarrow> sublist what (u @ to @ v)"
      by (metis append.assoc sublist_def)
    ultimately show ?thesis
      by blast
  qed
qed (rule assms)

lemma replaceString_returns: "length to < length what \<Longrightarrow> \<exists>y. replaceString str what to = Some y"
proof (induction "length str" arbitrary: str rule: less_induct)
  case less
  show ?case
  proof (cases "find_str what str")
    case None
    then show ?thesis
      by (subst replaceString.simps) simp
  next
    case (Some p)
    then obtain u v where uv: "str = u @ what @ v" "length u = p"
      using find_str_Some by blast
    then have r: "replace_at str p (length what) to = u @ to @ v"
      using replace_at_found by blast
    have "length (u @ to @ v) < length str"
      using uv less.prems by simp
    then show ?thesis
      using less.hyps [OF _ less.prems, of "u @ to @ v"] Some r by (subst replaceString.simps) simp
  qed
qed

section \<open>Lemmas on query strings\<close>

definition plain :: "string \<Rightarrow> bool" where
  "plain w \<longleftrightarrow> CHR ''?'' \<notin> set w \<and> CHR ''='' \<notin> set w \<and> CHR ''&'' \<notin> set w"

fun query :: "(string \<times> string) list \<Rightarrow> string" where
  "query [] = []"
| "query ((k, v) # kvs) = k @ ''='' @ v @ (if kvs = [] then [] else ''&'' @ query kvs)"

lemma get_loop_append:
  "get_loop un data (is @ js) p = (case get_loop un data is p of None \<Rightarrow> None | Some p \<Rightarrow> get_loop un data js p)"
  by (induction "is" arbitrary: p) (auto split: option.split)

lemma get_loop_split:
  assumes "i \<le> j" "j \<le> k"
  shows "get_loop un data [i..<k] p = (case get_loop un data [i..<j] p of None \<Rightarrow> None | Some p \<Rightarrow> get_loop un data [j..<k] p)"
proof -
  have "[i..<k] = [i..<j] @ [j..<k]"
    using assms by (metis le_Suc_ex upt_add_eq_append)
  then show ?thesis
    by (simp only: get_loop_append)
qed

lemma get_loop_idle:
  "\<forall>i \<in> set is. data ! i \<notin> {CHR ''?'', CHR ''='', CHR ''&''} \<Longrightarrow> get_loop un data is p = Some p"
  by (induction "is") (auto simp: get_step_def)

lemma get_loop_plain:
  assumes "plain w" "data = pre @ w @ post" "n = length pre + length w"
  shows "get_loop un data [length pre..<n] p = Some p"
proof (rule get_loop_idle)
  show "\<forall>i \<in> set [length pre..<n]. data ! i \<notin> {CHR ''?'', CHR ''='', CHR ''&''}"
  proof
    fix i
    assume "i \<in> set [length pre..<n]"
    then have "data ! i \<in> set w"
      using assms(2,3) by (auto simp: nth_append)
    then show "data ! i \<notin> {CHR ''?'', CHR ''='', CHR ''&''}"
      using assms(1) by (auto simp: plain_def)
  qed
qed

lemma substr_mid: "substr (pre @ w @ post) (length pre) (length pre + length w - length pre) = w"
  by (simp add: substr_def)

lemma get_loop_field:
  assumes "plain w" "data = pre @ w @ c # post" "gp_sbeg p = length pre"
  shows "get_loop un data [length pre..<length (pre @ w @ [c])] p =
    get_step un data (length pre + length w) p \<and> substr data (gp_sbeg p) (length pre + length w - gp_sbeg p) = w \<and>
    data ! (length pre + length w) = c \<and> (post \<noteq> [] \<longrightarrow> next_sbeg data (length pre + length w) = length (pre @ w @ [c]))"
proof -
  let ?n = "length pre + length w"
  have "get_loop un data [length pre..<?n] p = Some p"
    by (rule get_loop_plain [OF assms(1,2) refl])
  then have "get_loop un data [length pre..<Suc ?n] p = get_step un data ?n p"
    using get_loop_split [of "length pre" ?n "Suc ?n" un data p] by (simp split: option.split)
  moreover have "data ! ?n = c"
    using assms(2) by (metis append_assoc length_append nth_append_length)
  ultimately show ?thesis
    using assms(2,3) substr_mid [of pre w "c # post"] by (auto simp: next_sbeg_def)
qed

lemma get_loop_query:
  assumes un: "\<And>x. un x = Some (dec x)"
  shows "kvs \<noteq> [] \<Longrightarrow> list_all (\<lambda>(k, v). plain k \<and> plain v) kvs \<Longrightarrow> snd (last kvs) \<noteq> [] \<Longrightarrow>
    data = pre @ query kvs \<Longrightarrow> gp_state p = KEY \<Longrightarrow> gp_sbeg p = length pre \<Longrightarrow>
    \<exists>q. get_loop un data [length pre..<length data] p = Some q \<and>
      get_end un data q = Some (fold (\<lambda>(k, v). om_put k (dec (dec v))) kvs (gp_values p))"
proof (induction kvs arbitrary: pre p)
  case (Cons kv kvs)
  obtain k v where kv: "kv = (k, v)"
    by (cases kv)
  let ?tail = "if kvs = [] then [] else ''&'' @ query kvs"
  have plain: "plain k" "plain v"
    using Cons.prems(2) kv by auto
  have d1: "data = pre @ k @ CHR ''='' # (v @ ?tail)"
    using Cons.prems(4) kv by simp
  have ne: "v @ ?tail \<noteq> []"
    using Cons.prems(3) kv by auto
  define pre1 where "pre1 = pre @ k @ ''=''"
  define p1 where "p1 = p\<lparr>gp_state := VALUE, gp_key := k, gp_sbeg := length pre1\<rparr>"
  note f1 = get_loop_field [OF plain(1) d1 Cons.prems(6), of un]
  have s1: "get_loop un data [length pre..<length pre1] p = Some p1"
    using f1 ne by (simp add: get_step_def pre1_def p1_def)
  have p1: "gp_sbeg p1 = length pre1" "gp_key p1 = k" "gp_state p1 = VALUE" "gp_values p1 = gp_values p"
    by (simp_all add: p1_def)
  show ?case
  proof (cases kvs)
    case Nil
    have d2: "data = pre1 @ v @ []"
      using d1 Nil by (simp add: pre1_def)
    then have "get_loop un data [length pre1..<length data] p1 = Some p1"
      by (intro get_loop_plain [OF plain(2)]) auto
    then have "get_loop un data [length pre..<length data] p = Some p1"
      using s1 d2 by (subst get_loop_split [of _ "length pre1"]) (simp_all add: pre1_def)
    moreover have "get_end un data p1 = Some (om_put k (dec (dec v)) (gp_values p))"
      using substr_mid [of pre1 v "[]"] d2 p1 by (simp add: get_end_def put_value_def unescapeUrl_def un)
    ultimately show ?thesis
      using kv Nil by simp
  next
    case (Cons kv' kvs')
    then have ne': "kvs \<noteq> []"
      by simp
    have d2: "data = pre1 @ v @ CHR ''&'' # query kvs"
      using d1 ne' by (simp add: pre1_def)
    define pre2 where "pre2 = pre1 @ v @ ''&''"
    define p2 where "p2 = p1\<lparr>gp_state := KEY, gp_values := om_put k (dec (dec v)) (gp_values p), gp_sbeg := length pre2\<rparr>"
    have "query kvs \<noteq> []"
      using Cons by (cases kv') auto
    then have s2: "get_loop un data [length pre1..<length pre2] p1 = Some p2"
      using get_loop_field [OF plain(2) d2 p1(1), of un] p1
      by (simp add: get_step_def pre2_def p2_def put_value_def unescapeUrl_def un)
    have "\<exists>q. get_loop un data [length pre2..<length data] p2 = Some q \<and>
        get_end un data q = Some (fold (\<lambda>(k, v). om_put k (dec (dec v))) kvs (gp_values p2))"
      using Cons.prems(2,3) kv ne' d2 by (intro Cons.IH) (auto simp: pre2_def p2_def)
    then obtain q where q: "get_loop un data [length pre2..<length data] p2 = Some q"
        "get_end un data q = Some (fold (\<lambda>(k, v). om_put k (dec (dec v))) kvs (gp_values p2))"
      by blast
    have "get_loop un data [length pre..<length data] p = Some q"
      using s1 s2 q(1) d2 get_loop_split [of "length pre" "length pre1" "length data" un data p]
        get_loop_split [of "length pre1" "length pre2" "length data" un data p1]
      by (simp add: pre1_def pre2_def)
    then show ?thesis
      using q(2) kv by (simp add: p2_def)
  qed
qed simp

text \<open>
  Splitting by several delimiters, one after the other and without the empty pieces, is the
  single pass that cuts the string at every delimiter, whatever the order of the delimiters.
\<close>

lemma split_delims_eq: "split_delims s delims elems = elems @ tokens (\<lambda>c. c \<in> set delims) s"
  using fold_split_round [of delims "[s]"] by (simp add: split_delims_def)

section \<open>Lemmas on numbers\<close>

lemma scan_dec_str: "scan_dec (dec_str n) = Some (int n) \<and> scan_dec (CHR ''-'' # dec_str n) = Some (- int n)"
proof -
  obtain c r where s: "dec_str n = c # r"
    by (cases "dec_str n") auto
  have c: "is_digit c"
    using dec_str_digit [of c n] s by simp
  have skip: "dropWhile is_space (dec_str n) = dec_str n" and sign: "scan_sign (dec_str n) = (False, dec_str n)"
    using c by (simp_all add: s digit_not_space scan_sign_def digit_not_special)
  have digits: "takeWhile is_digit (dec_str n) = dec_str n" and val: "digits_val (dec_str n) = n"
    by (simp add: takeWhile_eq_all_conv dec_str_digit, simp add: dec_str_def digits_val_dec)
  have minus: "scan_sign (CHR ''-'' # dec_str n) = (True, dec_str n)" "\<not> is_space CHR ''-''"
    by (simp_all add: scan_sign_def is_space_def)
  show ?thesis
    by (simp add: scan_dec_def skip sign digits val minus)
qed

text \<open>Numbers can be read back.\<close>

lemma strtoint_inttostr: "strtoint junk (inttostr i) = Some i"
proof -
  have "- (2 ^ 31) \<le> sint i" "sint i < 2 ^ 31"
    using sint_greater_eq [of i] sint_less [of i] by simp_all
  then show ?thesis
    by (auto simp: strtoint_def inttostr_def scan_dec_str)
qed

lemma length_dec_str: "n < 10 ^ k \<Longrightarrow> 0 < k \<Longrightarrow> length (dec_str n) \<le> k"
proof (induction n arbitrary: k rule: dec_digits.induct)
  case (1 n)
  show ?case
  proof (cases "n < 10")
    case False
    obtain k' where k: "k = Suc k'"
      using 1(3) by (cases k) auto
    then have "0 < k'"
      using 1(2) False by (cases k') auto
    moreover have "n div 10 < 10 ^ k'"
      using 1(2) k by (simp add: div_less_iff_less_mult mult.commute)
    ultimately show ?thesis
      using 1(1) [OF False, of k'] k False by (simp add: dec_str_def dec_digits.simps [of n])
  qed (use 1 in \<open>simp add: dec_str_def dec_digits.simps [of n]\<close>)
qed

lemma round_even_le: "0 < b \<Longrightarrow> round_even a b \<le> a div b + 1"
  by (simp add: round_even_def Let_def)

lemma float_micros_less:
  assumes "ex < 255" "frac < 2 ^ 23"
  shows "float_micros ex frac < 10 ^ 45"
proof -
  define m where "m = (if ex = 0 then frac else frac + 2 ^ 23)"
  define e where "e = (if ex = 0 then 1 else ex)"
  have m: "m \<le> 2 ^ 24" and e: "e < 255"
    using assms by (simp_all add: m_def e_def)
  have eq: "float_micros ex frac = (if e \<ge> 150 then m * 2 ^ (e - 150) * 10 ^ 6 else round_even (m * 10 ^ 6) (2 ^ (150 - e)))"
    by (simp add: float_micros_def m_def e_def Let_def)
  show ?thesis
  proof (cases "e \<ge> 150")
    case True
    have "m * 2 ^ (e - 150) \<le> 2 ^ 24 * 2 ^ 104"
      using m e by (intro mult_mono power_increasing) auto
    then have "m * 2 ^ (e - 150) * 10 ^ 6 \<le> 2 ^ 24 * 2 ^ 104 * 10 ^ 6"
      by simp
    then show ?thesis
      using True by (simp add: eq)
  next
    case False
    have "m * 10 ^ 6 div 2 ^ (150 - e) \<le> m * 10 ^ 6"
      by (rule div_le_dividend)
    then have "round_even (m * 10 ^ 6) (2 ^ (150 - e)) \<le> 2 ^ 24 * 10 ^ 6 + 1"
      using round_even_le [of "2 ^ (150 - e)" "m * 10 ^ 6"] mult_le_mono1 [OF m, of "10 ^ 6"]
      by (meson add_mono le_trans order_refl zero_less_numeral zero_less_power)
    then show ?thesis
      using False by (simp add: eq)
  qed
qed

text \<open>Every number fits the array of fifty.\<close>

lemma float_to_string_fits: "float_to_string f = Some (printf_float f) \<and> length (printf_float f) \<le> 47"
proof -
  define ex where "ex = unat (take_bit 8 (drop_bit 23 f))"
  define frac where "frac = unat (take_bit 23 f)"
  have frac: "frac < 2 ^ 23" and ex: "ex < 256"
    using take_bit_nat_less_exp [of 23 "unat f"] take_bit_nat_less_exp [of 8 "unat (drop_bit 23 f)"]
    by (simp_all add: frac_def ex_def unsigned_take_bit_eq)
  let ?n = "float_micros ex frac"
  have "length (printf_float f) \<le> 47"
  proof (cases "ex = 255")
    case True
    then show ?thesis
      by (simp add: printf_float_def Let_def flip: ex_def frac_def)
  next
    case False
    have "?n < 10 ^ 45"
      using float_micros_less [of ex frac] frac ex False by linarith
    then have "length (dec_str (?n div 10 ^ 6)) \<le> 39"
      by (intro length_dec_str) (simp_all add: div_less_iff_less_mult)
    moreover have "length (dec_str (?n mod 10 ^ 6)) \<le> 6"
      by (intro length_dec_str) simp_all
    ultimately show ?thesis
      using False by (simp add: printf_float_def Let_def flip: ex_def frac_def)
  qed
  then show ?thesis
    by (simp add: float_to_string_def)
qed

section \<open>Properties\<close>

text \<open>
  What \<open>removeEndingSpaces\<close> does on every string: it reads out of bounds on the empty
  string, keeps a string that does not end with a space, and otherwise removes the spaces
  at the end together with the character before them.
\<close>

lemma removeEndingSpaces_cases:
  assumes "c \<noteq> CHR '' ''"
  shows "removeEndingSpaces [] = None \<and> removeEndingSpaces (t @ [c]) = Some (t @ [c]) \<and>
    removeEndingSpaces (t @ c # replicate (Suc n) CHR '' '') = Some t \<and>
    removeEndingSpaces (replicate (Suc n) CHR '' '') = Some []"
proof -
  have "last_nonspace (replicate (Suc n) CHR '' '') k = 0" if "k \<le> n" for k
    using that by (induction k) (simp_all add: nth_Cons')
  then have "removeEndingSpaces (replicate (Suc n) CHR '' '') = Some []"
    by (simp add: removeEndingSpaces_def nth_Cons')
  moreover have "removeEndingSpaces (t @ c # replicate (Suc n) CHR '' '') = Some t"
  proof -
    have "(t @ c # replicate (Suc n) CHR '' '') ! (length (t @ c # replicate (Suc n) CHR '' '') - 1) = CHR '' ''"
      by (simp add: nth_append nth_Cons')
    then show ?thesis
      using last_nonspace_spaces [of t c "Suc n"] assms by (simp add: removeEndingSpaces_def)
  qed
  ultimately show ?thesis
    using assms by (simp add: removeEndingSpaces_def)
qed

lemma removeEndingSpaces_cases_witness:
  "removeEndingSpaces ''key  '' = Some ''ke'' \<and> removeEndingSpaces ''key'' = Some ''key''"
proof -
  have "CHR ''y'' \<noteq> CHR '' ''"
    by simp
  from removeEndingSpaces_cases [OF this, of "''ke''" 1] show ?thesis
    by (simp add: replicate_Suc)
qed

lemma parseGET_pairs:
  assumes "\<And>x. unescape x = Some (dec x)" "plain path" "kvs \<noteq> []"
    "list_all (\<lambda>(k, v). plain k \<and> plain v) kvs" "snd (last kvs) \<noteq> []"
    "length (path @ ''?'' @ query kvs) < 2 ^ 31"
  shows "parseGET unescape (path @ ''?'' @ query kvs) values =
    Some (fold (\<lambda>(k, v). om_put k (dec (dec v))) kvs values)"
proof -
  let ?data = "path @ CHR ''?'' # query kvs"
  let ?p = "\<lparr>gp_state = OUTSIDE, gp_sbeg = 0, gp_key = [], gp_values = values\<rparr>"
  let ?p1 = "?p\<lparr>gp_state := KEY, gp_sbeg := length (path @ ''?'')\<rparr>"
  have "query kvs \<noteq> []"
    using assms(3) by (cases kvs) auto
  then have first: "get_loop unescape ?data [0..<length (path @ ''?'')] ?p = Some ?p1"
    using get_loop_field [OF assms(2), of ?data "[]" "CHR ''?''" "query kvs" ?p unescape] by (simp add: get_step_def)
  obtain q where q: "get_loop unescape ?data [length (path @ ''?'')..<length ?data] ?p1 = Some q"
      "get_end unescape ?data q = Some (fold (\<lambda>(k, v). om_put k (dec (dec v))) kvs values)"
    using get_loop_query [of unescape dec kvs ?data "path @ ''?''" ?p1, OF assms(1,3-5)]
    by (auto simp del: upt_Suc)
  have "get_loop unescape ?data [0..<length ?data] ?p = Some q"
    using first q(1) get_loop_split [of 0 "length (path @ ''?'')" "length ?data" unescape ?data ?p]
    by (simp del: upt_Suc)
  moreover have "\<not> int (length ?data) \<ge> 2 ^ 31"
    using assms(6) by simp
  ultimately show ?thesis
    using q(2) by (simp add: parseGET_def del: of_nat_add length_append list.size)
qed

text \<open>
  C35: \<open>parseGET\<close> of a URL of less than \<open>2^31\<close> characters with a well-formed query (the fields
  free of \<open>?\<close>, \<open>=\<close> and \<open>&\<close>, the last value not empty) puts its keys into the map, in order, each
  with its value unescaped twice, and nothing else; a later key replaces an earlier one.
  \<open>unescape\<close> stands for curl, which is taken to return a string.
\<close>

theorem parseGET_query:
  assumes "\<And>x. unescape x = Some (dec x)" "plain path" "kvs \<noteq> []"
    "list_all (\<lambda>(k, v). plain k \<and> plain v) kvs" "snd (last kvs) \<noteq> []"
    "length (path @ ''?'' @ query kvs) < 2 ^ 31"
  shows "parseGET unescape (path @ ''?'' @ query kvs) values =
    Some (fold (\<lambda>(k, v). om_put k (dec (dec v))) kvs values)"
  by (rule parseGET_pairs [OF assms])

theorem parseGET_query_witness:
  "parseGET Some ''/s?q=ab&n=5'' [] = Some [(''n'', ''5''), (''q'', ''ab'')]"
proof -
  have "plain ''/s''" "list_all (\<lambda>(k, v). plain k \<and> plain v) [(''q'', ''ab''), (''n'', ''5'')]"
    by (simp_all add: plain_def)
  moreover have "length (''/s'' @ ''?'' @ query [(''q'', ''ab''), (''n'', ''5'')]) < 2 ^ 31"
    by simp
  ultimately have "parseGET Some (''/s'' @ ''?'' @ query [(''q'', ''ab''), (''n'', ''5'')]) [] =
      Some (fold (\<lambda>(k, v). om_put k v) [(''q'', ''ab''), (''n'', ''5'')] [])"
    using parseGET_query [of Some "\<lambda>x. x" "''/s''" "[(''q'', ''ab''), (''n'', ''5'')]" "[]"] by simp
  moreover have "fold (\<lambda>(k, v). om_put k v) [(''q'', ''ab''), (''n'', ''5'')] [] = [(''n'', ''5''), (''q'', ''ab'')]"
    by (simp add: list_less_def)
  ultimately show ?thesis
    by simp
qed

text \<open>A separator at the end of the URL is read as the value: the empty value of \<open>?a=\<close> is \<open>=\<close>.\<close>

lemma parseGET_empty_value: "parseGET Some ''?a='' [] = Some [(''a'', ''='')]"
  by (simp add: parseGET_def upt_conv_Cons get_step_def next_sbeg_def get_end_def substr_def put_value_def unescapeUrl_def)

definition cookie :: "string \<times> string \<Rightarrow> string" where
  "cookie kv = fst kv @ ''='' @ snd kv"

definition cookie_ok :: "string \<times> string \<Rightarrow> bool" where
  "cookie_ok kv \<longleftrightarrow> CHR '';'' \<notin> set (fst kv) \<and> CHR ''='' \<notin> set (fst kv) \<and> CHR '';'' \<notin> set (snd kv) \<and>
     (case fst kv of [] \<Rightarrow> True | c # _ \<Rightarrow> c \<noteq> CHR '' '')"

definition cookie_header :: "(string \<times> string) list \<Rightarrow> string" where
  "cookie_header kvs = (case kvs of [] \<Rightarrow> [] | kv # kvs \<Rightarrow> cookie kv @ concat (map (\<lambda>kv. ''; '' @ cookie kv) kvs))"

lemma str_find_key: "CHR ''='' \<notin> set k \<Longrightarrow> str_find CHR ''='' (k @ CHR ''='' # v) = Some (length k)"
  by (simp add: str_find_Some_iff)

lemma cookie_step_cookie:
  assumes "cookie_ok kv"
  shows "cookie_step (cookie kv) m = om_put (fst kv) (snd kv) m" "cookie_step (CHR '' '' # cookie kv) m = om_put (fst kv) (snd kv) m"
proof -
  obtain k v where kv: "kv = (k, v)"
    by (cases kv)
  have k: "CHR ''='' \<notin> set k" "k = [] \<or> hd k \<noteq> CHR '' ''"
    using assms kv by (auto simp: cookie_ok_def split: list.splits)
  have "(k @ CHR ''='' # v) ! 0 \<noteq> CHR '' ''"
    using k(2) by (cases k) auto
  then show "cookie_step (cookie kv) m = om_put (fst kv) (snd kv) m"
    using str_find_key [OF k(1)] kv by (simp add: cookie_step_def cookie_def)
  show "cookie_step (CHR '' '' # cookie kv) m = om_put (fst kv) (snd kv) m"
    using str_find_key [OF k(1)] kv by (simp add: cookie_step_def cookie_def substr_def)
qed

lemma tokens_cookies:
  assumes "list_all cookie_ok kvs"
  shows "tokens (\<lambda>c. c \<in> set [CHR '';'']) (w @ concat (map (\<lambda>kv. ''; '' @ cookie kv) kvs)) =
    tokens (\<lambda>c. c \<in> set [CHR '';'']) w @ map (\<lambda>kv. CHR '' '' # cookie kv) kvs"
  using assms
proof (induction kvs arbitrary: w)
  case (Cons kv kvs)
  let ?D = "\<lambda>c. c \<in> set [CHR '';'']"
  let ?rest = "concat (map (\<lambda>kv. ''; '' @ cookie kv) kvs)"
  have "list_all (\<lambda>c. \<not> ?D c) (CHR '' '' # cookie kv)"
    using Cons.prems by (auto simp: cookie_ok_def cookie_def list_all_iff)
  then have "tokens ?D (CHR '' '' # cookie kv) = [CHR '' '' # cookie kv]"
    by (simp add: tokens_end)
  then have "tokens ?D ((CHR '' '' # cookie kv) @ ?rest) = (CHR '' '' # cookie kv) # map (\<lambda>kv. CHR '' '' # cookie kv) kvs"
    using Cons.IH [of "CHR '' '' # cookie kv"] Cons.prems by simp
  moreover have "tokens ?D (w @ CHR '';'' # ((CHR '' '' # cookie kv) @ ?rest)) =
      tokens ?D w @ tokens ?D ((CHR '' '' # cookie kv) @ ?rest)"
    by (rule tokens_append) simp
  ultimately show ?case
    by simp
qed simp

text \<open>
  parsing a cookie header reads back the cookies it was printed from, for names
  without \<open>;\<close> and \<open>=\<close> that do not begin with a space and values without \<open>;\<close>; a value may
  hold \<open>=\<close>.
\<close>

lemma parseCookies_header:
  assumes "list_all cookie_ok kvs"
  shows "parseCookies (cookie_header kvs) cookies = fold (\<lambda>(k, v). om_put k v) kvs cookies"
proof (cases kvs)
  case Nil
  then show ?thesis
    by (simp add: parseCookies_def cookie_header_def split_delims_eq)
next
  case (Cons kv kvs')
  have ok: "cookie_ok kv" "list_all cookie_ok kvs'"
    using assms Cons by simp_all
  have "list_all (\<lambda>c. \<not> c \<in> set [CHR '';'']) (cookie kv)" "cookie kv \<noteq> []"
    using ok(1) by (auto simp: cookie_ok_def cookie_def list_all_iff)
  then have "tokens (\<lambda>c. c \<in> set [CHR '';'']) (cookie kv) = [cookie kv]"
    by (simp add: tokens_end)
  then have toks: "split_delims (cookie_header kvs) [CHR '';''] [] = cookie kv # map (\<lambda>kv. CHR '' '' # cookie kv) kvs'"
    using tokens_cookies [OF ok(2), of "cookie kv"] Cons by (simp add: split_delims_eq cookie_header_def)
  have "fold (\<lambda>elem cookies. if elem \<noteq> [] then cookie_step elem cookies else cookies)
      (map (\<lambda>kv. CHR '' '' # cookie kv) kvs') m = fold (\<lambda>(k, v). om_put k v) kvs' m" for m
    using ok(2) by (induction kvs' arbitrary: m) (auto simp: cookie_step_cookie)
  then show ?thesis
    unfolding parseCookies_def toks using cookie_step_cookie(1) [OF ok(1)] \<open>cookie kv \<noteq> []\<close> Cons
    by (simp add: case_prod_beta)
qed

lemma parseCookies_header_witness:
  "parseCookies ''a=1; b=x=y'' [] = [(''a'', ''1''), (''b'', ''x=y'')]"
proof -
  have "list_all cookie_ok [(''a'', ''1''), (''b'', ''x=y'')]"
    by (simp add: cookie_ok_def)
  from parseCookies_header [OF this, of "[]"] show ?thesis
    by (simp add: cookie_header_def cookie_def list_less_def)
qed

text \<open>
  C39: \<open>replaceString\<close> returns whenever the new text is shorter than the one it replaces;
  when it returns nothing is left to replace, and when the new text holds the old one it
  returns only if there was nothing to replace. In every other case with an occurrence the
  loop goes on for ever.
\<close>

theorem replaceString_termination:
  "case replaceString str what to of
     None \<Rightarrow> length what \<le> length to \<and> sublist what str
   | Some y \<Rightarrow> \<not> sublist what y \<and> (y = str \<or> \<not> sublist what to)"
proof (cases "replaceString str what to")
  case None
  have "sublist what str"
  proof (rule ccontr)
    assume "\<not> sublist what str"
    then have n: "find_str what str = None"
      by (simp add: find_str_iff)
    have "replaceString str what to = Some str"
      by (subst replaceString.simps) (simp add: n)
    then show False
      using None by simp
  qed
  then show ?thesis
    using None replaceString_returns [of to what str] by (cases "length to < length what") auto
next
  case (Some y)
  then show ?thesis
    using replaceString_None_left [OF Some] by auto
qed

theorem replaceString_termination_witness:
  "replaceString ''a b'' '' '' ''  '' = None"
proof -
  have "sublist '' '' ''a b''" "sublist '' '' ''  ''"
    by (simp_all add: sublist_Cons_right)
  then show ?thesis
    using replaceString_termination [where str = "''a b''" and what = "'' ''" and to = "''  ''"]
    by (auto split: option.splits)
qed

fun read_escaped :: "string \<Rightarrow> string" where
  "read_escaped [] = []"
| "read_escaped [c] = [c]"
| "read_escaped (c # d # s) = (if c = CHR 0x5C then d # read_escaped s else c # read_escaped (d # s))"

lemma read_escaped_Cons: "c \<noteq> CHR 0x5C \<Longrightarrow> read_escaped (c # s) = c # read_escaped s"
  by (cases s) simp_all

lemma escape_symbol_no_nul: "CHR 0x00 \<notin> set s \<Longrightarrow> sy \<noteq> CHR 0x00 \<Longrightarrow> escape_symbol s sy = escape_loop s sy"
proof -
  assume "CHR 0x00 \<notin> set s" "sy \<noteq> CHR 0x00"
  then have "CHR 0x00 \<notin> set (escape_loop s sy)"
    by (induction s sy rule: escape_loop.induct) auto
  then show ?thesis
    unfolding escape_symbol_def by (simp add: takeWhile_eq_all_conv) (metis)
qed

text \<open>
  A reader that takes the character after a backslash literally gets back what was
  escaped, for text without NUL and without backslashes of its own.
\<close>

lemma escape_roundtrip:
  assumes "CHR 0x00 \<notin> set s" "CHR 0x5C \<notin> set s" "sy \<noteq> CHR 0x00"
  shows "read_escaped (escape_symbol s sy) = s"
proof -
  have "read_escaped (escape_loop s sy) = s"
    using assms(2) by (induction s sy rule: escape_loop.induct) (auto simp: read_escaped_Cons)
  then show ?thesis
    using escape_symbol_no_nul [OF assms(1,3)] by simp
qed

theorem escape_roundtrip_witness: "read_escaped (escape_quote [CHR ''a'', CHR 0x27]) = [CHR ''a'', CHR 0x27]"
  using escape_roundtrip [of "[CHR ''a'', CHR 0x27]" "CHR 0x27"] by (simp add: escape_quote_def)

text \<open>A backslash of the text is not escaped: before a quote it undoes the escape.\<close>

lemma escape_quote_backslash:
  "escape_quote [CHR 0x5C, CHR 0x27] = [CHR 0x5C, CHR 0x5C, CHR 0x27] \<and>
   read_escaped (escape_quote [CHR 0x5C, CHR 0x27]) = [CHR 0x5C, CHR 0x27]"
  by (simp add: escape_quote_def escape_symbol_def)

end
