(* ===== verification/ThreadPool.thy ===== *)
theory ThreadPool
  imports Hi_Prelude "HOL-Library.Multiset"
begin

text \<open>
  \<^verbatim>\<open>threads/threadpool.cpp\<close> with the condition variable of \<^verbatim>\<open>threads/locks.cpp\<close>: the pool as a
  system of interleaved steps. What a mutex protects (a look at a queue together with the
  \<^verbatim>\<open>pop\<close> or \<^verbatim>\<open>push\<close> that follows it) is one step; everything else, the reads of
  \<^verbatim>\<open>m_running\<close>, taking and releasing the mutex of \<^verbatim>\<open>hCondWaiter\<close>, the signal, is a step of its
  own. The callers of \<^verbatim>\<open>addTask\<close> and \<^verbatim>\<open>kill\<close> are clients that run concurrently.
\<close>

section \<open>The code\<close>

text \<open>
  A task of the user, or the call of \<^verbatim>\<open>hThread::kill\<close> that \<^verbatim>\<open>hThreadPool::kill\<close> sends to a
  thread. Threads are numbered by their place in \<^verbatim>\<open>threads\<close>.
\<close>

datatype task = User nat | KillTask nat

text \<open>The point that a thread has reached in \<^verbatim>\<open>hThread::run\<close> and \<^verbatim>\<open>hCondWaiter::wait\<close>.\<close>

datatype run_pc = Start | LoopTop | LocalTop | LocalRun task | Check1 | GlobalTop | GlobalRun task
  | Check2 | Enqueue | WaitLock | WaitTest | WaitBlock | Sleeping | Woken | WaitEnd | Ended

record hthread =
  t_local :: "task list"
  t_running :: bool
  t_pc :: run_pc
  t_lock :: bool

text \<open>The point that a client has reached in \<^verbatim>\<open>hThreadPool::addTask\<close> or \<^verbatim>\<open>hThreadPool::kill\<close>.\<close>

datatype call_pc = Idle | AddPop task | AddLock task nat | AddPush task nat | AddKick nat | AddUnlock nat
  | AddGlobal task | KillFlag nat | KillPop | KillPush nat | KillKick nat

record hpool =
  p_tasks :: "task list"
  p_waiting :: "nat list"
  p_threads :: "hthread list"
  p_nrunning :: nat
  p_clients :: "call_pc list"

definition hThread_new :: hthread where
  "hThread_new = \<lparr>t_local = [], t_running = True, t_pc = Start, t_lock = False\<rparr>"

text \<open>The pool after its constructor, for \<open>m\<close> clients, and after \<^verbatim>\<open>run\<close> has started its threads.\<close>

definition hThreadPool_new :: "nat \<Rightarrow> hpool" where
  "hThreadPool_new m = \<lparr>p_tasks = [], p_waiting = [], p_threads = [], p_nrunning = 0, p_clients = replicate m Idle\<rparr>"

definition hThreadPool_run :: "nat \<Rightarrow> nat \<Rightarrow> hpool" where
  "hThreadPool_run nthreads m = (let p = hThreadPool_new m in p\<lparr>p_threads := p_threads p @ replicate nthreads hThread_new\<rparr>)"

definition thr :: "hpool \<Rightarrow> nat \<Rightarrow> hthread" where
  "thr p i = p_threads p ! i"

definition upd_thr :: "nat \<Rightarrow> (hthread \<Rightarrow> hthread) \<Rightarrow> hpool \<Rightarrow> hpool" where
  "upd_thr i f p = p\<lparr>p_threads := (p_threads p)[i := f (thr p i)]\<rparr>"

definition go :: "nat \<Rightarrow> run_pc \<Rightarrow> hpool \<Rightarrow> hpool" where
  "go i pc p = upd_thr i (\<lambda>t. t\<lparr>t_pc := pc\<rparr>) p"

definition set_lock :: "nat \<Rightarrow> bool \<Rightarrow> hpool \<Rightarrow> hpool" where
  "set_lock i b p = upd_thr i (\<lambda>t. t\<lparr>t_lock := b\<rparr>) p"

definition hThread_addTask :: "nat \<Rightarrow> task \<Rightarrow> hpool \<Rightarrow> hpool" where
  "hThread_addTask i f p = upd_thr i (\<lambda>t. t\<lparr>t_local := t_local t @ [f]\<rparr>) p"

definition hThread_kill :: "nat \<Rightarrow> hpool \<Rightarrow> hpool" where
  "hThread_kill i p = upd_thr i (\<lambda>t. t\<lparr>t_running := False\<rparr>) p"

text \<open>A signal wakes the thread if it sleeps and is lost otherwise.\<close>

definition hThread_kick :: "nat \<Rightarrow> hpool \<Rightarrow> hpool" where
  "hThread_kick i p = (if t_pc (thr p i) = Sleeping then go i Woken p else p)"

definition queueNotEmpty :: "nat \<Rightarrow> hpool \<Rightarrow> bool" where
  "queueNotEmpty i p \<longleftrightarrow> t_local (thr p i) \<noteq> []"

fun run_task :: "task \<Rightarrow> hpool \<Rightarrow> hpool" where
  "run_task (User n) p = p"
| "run_task (KillTask t) p = hThread_kill t p"

definition thread_end :: "nat \<Rightarrow> hpool \<Rightarrow> hpool" where
  "thread_end i p = (go i Ended p)\<lparr>p_nrunning := p_nrunning p - 1\<rparr>"

text \<open>One step of thread \<open>i\<close>; \<open>None\<close>: it cannot move (a mutex is taken, it sleeps, it is over).\<close>

definition thread_step :: "nat \<Rightarrow> hpool \<Rightarrow> hpool option" where
  "thread_step i p = (let t = thr p i in case t_pc t of
     Start \<Rightarrow> Some ((go i LoopTop p)\<lparr>p_nrunning := p_nrunning p + 1\<rparr>)
   | LoopTop \<Rightarrow> Some (if t_running t then go i LocalTop p else thread_end i p)
   | LocalTop \<Rightarrow> (case t_local t of
         [] \<Rightarrow> Some (go i Check1 p)
       | f # q \<Rightarrow> Some (upd_thr i (\<lambda>t. t\<lparr>t_local := q, t_pc := LocalRun f\<rparr>) p))
   | LocalRun f \<Rightarrow> Some (go i LocalTop (run_task f p))
   | Check1 \<Rightarrow> Some (if t_running t then go i GlobalTop p else thread_end i p)
   | GlobalTop \<Rightarrow> (case p_tasks p of
         [] \<Rightarrow> Some (go i Check2 p)
       | f # q \<Rightarrow> Some (go i (GlobalRun f) (p\<lparr>p_tasks := q\<rparr>)))
   | GlobalRun f \<Rightarrow> Some (go i GlobalTop (run_task f p))
   | Check2 \<Rightarrow> Some (if t_running t then go i Enqueue p else thread_end i p)
   | Enqueue \<Rightarrow> Some (go i WaitLock (p\<lparr>p_waiting := p_waiting p @ [i]\<rparr>))
   | WaitLock \<Rightarrow> if t_lock t then None else Some (go i WaitTest (set_lock i True p))
   | WaitTest \<Rightarrow> Some (go i (if queueNotEmpty i p then WaitEnd else WaitBlock) p)
   | WaitBlock \<Rightarrow> Some (go i Sleeping (set_lock i False p))
   | Sleeping \<Rightarrow> None
   | Woken \<Rightarrow> if t_lock t then None else Some (go i WaitTest (set_lock i True p))
   | WaitEnd \<Rightarrow> Some (go i LoopTop (set_lock i False p))
   | Ended \<Rightarrow> None)"

definition call :: "nat \<Rightarrow> call_pc \<Rightarrow> hpool \<Rightarrow> hpool" where
  "call c pc p = p\<lparr>p_clients := (p_clients p)[c := pc]\<rparr>"

text \<open>\<^verbatim>\<open>hThreadPool::addTask\<close> from its point \<open>pc\<close> on.\<close>

fun addTask_step :: "nat \<Rightarrow> call_pc \<Rightarrow> hpool \<Rightarrow> hpool option" where
  "addTask_step c (AddPop f) p = (case p_waiting p of
      [] \<Rightarrow> Some (call c (AddGlobal f) p)
    | t # q \<Rightarrow> Some (call c (AddLock f t) (p\<lparr>p_waiting := q\<rparr>)))"
| "addTask_step c (AddLock f t) p =
     (if t_lock (thr p t) then None else Some (call c (AddPush f t) (set_lock t True p)))"
| "addTask_step c (AddPush f t) p = Some (call c (AddKick t) (hThread_addTask t f p))"
| "addTask_step c (AddKick t) p = Some (call c (AddUnlock t) (hThread_kick t p))"
| "addTask_step c (AddUnlock t) p = Some (call c Idle (set_lock t False p))"
| "addTask_step c (AddGlobal f) p = Some (call c Idle (p\<lparr>p_tasks := p_tasks p @ [f]\<rparr>))"
| "addTask_step c _ p = None"

text \<open>\<^verbatim>\<open>hThreadPool::kill\<close> from its point \<open>pc\<close> on.\<close>

fun kill_step :: "nat \<Rightarrow> call_pc \<Rightarrow> hpool \<Rightarrow> hpool option" where
  "kill_step c (KillFlag i) p =
     (if i < length (p_threads p) then Some (call c (KillFlag (i + 1)) (hThread_kill i p))
      else Some (call c KillPop p))"
| "kill_step c KillPop p = (case p_waiting p of
      [] \<Rightarrow> Some (call c Idle p)
    | t # q \<Rightarrow> Some (call c (KillPush t) (p\<lparr>p_waiting := q\<rparr>)))"
| "kill_step c (KillPush t) p = Some (call c (KillKick t) (hThread_addTask t (KillTask t) p))"
| "kill_step c (KillKick t) p = Some (call c KillPop (hThread_kick t p))"
| "kill_step c _ p = None"

definition client_step :: "nat \<Rightarrow> hpool \<Rightarrow> hpool option" where
  "client_step c p = (let pc = p_clients p ! c in
     case addTask_step c pc p of Some p' \<Rightarrow> Some p' | None \<Rightarrow> kill_step c pc p)"

text \<open>
  What happens in a step: a thread moves, a client moves, a client begins a call, or a
  thread wakes without a signal.
\<close>

datatype pool_event = Thread nat | Client nat | CallAdd nat nat | CallKill nat | Spurious nat

definition pool_step :: "pool_event \<Rightarrow> hpool \<Rightarrow> hpool option" where
  "pool_step e p = (case e of
     Thread i \<Rightarrow> if i < length (p_threads p) then thread_step i p else None
   | Client c \<Rightarrow> if c < length (p_clients p) then client_step c p else None
   | CallAdd c n \<Rightarrow> if c < length (p_clients p) \<and> p_clients p ! c = Idle then Some (call c (AddPop (User n)) p) else None
   | CallKill c \<Rightarrow> if c < length (p_clients p) \<and> p_clients p ! c = Idle then Some (call c (KillFlag 0) p) else None
   | Spurious i \<Rightarrow> if i < length (p_threads p) \<and> t_pc (thr p i) = Sleeping then Some (go i Woken p) else None)"

fun pool_run :: "pool_event list \<Rightarrow> hpool \<Rightarrow> hpool option" where
  "pool_run [] p = Some p"
| "pool_run (e # es) p = (case pool_step e p of None \<Rightarrow> None | Some p \<Rightarrow> pool_run es p)"

section \<open>Effects of the updates\<close>

lemma thr_upd [simp]:
  "i < length (p_threads p) \<Longrightarrow> thr (upd_thr i f p) j = (if j = i then f (thr p i) else thr p j)"
  by (simp add: thr_def upd_thr_def)

lemma upd_fields [simp]:
  "length (p_threads (upd_thr i f p)) = length (p_threads p)" "p_tasks (upd_thr i f p) = p_tasks p"
  "p_waiting (upd_thr i f p) = p_waiting p" "p_clients (upd_thr i f p) = p_clients p"
  "p_nrunning (upd_thr i f p) = p_nrunning p"
  by (simp_all add: upd_thr_def)

lemma call_fields [simp]:
  "p_threads (call c pc p) = p_threads p" "p_tasks (call c pc p) = p_tasks p"
  "p_waiting (call c pc p) = p_waiting p" "thr (call c pc p) = thr p"
  "length (p_clients (call c pc p)) = length (p_clients p)"
  "p_nrunning (call c pc p) = p_nrunning p"
  by (simp_all add: call_def thr_def fun_eq_iff)

lemma thr_fields [simp]:
  "thr (p\<lparr>p_tasks := q\<rparr>) = thr p" "thr (p\<lparr>p_waiting := w\<rparr>) = thr p" "thr (p\<lparr>p_nrunning := n\<rparr>) = thr p"
  "upd_thr i f (p\<lparr>p_tasks := q\<rparr>) = (upd_thr i f p)\<lparr>p_tasks := q\<rparr>"
  "upd_thr i f (p\<lparr>p_waiting := w\<rparr>) = (upd_thr i f p)\<lparr>p_waiting := w\<rparr>"
  "call c pc (p\<lparr>p_tasks := q\<rparr>) = (call c pc p)\<lparr>p_tasks := q\<rparr>"
  "call c pc (p\<lparr>p_waiting := w\<rparr>) = (call c pc p)\<lparr>p_waiting := w\<rparr>"
  by (simp_all add: thr_def fun_eq_iff upd_thr_def call_def)

lemmas upd_defs = go_def set_lock_def hThread_addTask_def hThread_kill_def

text \<open>Sums over the threads and the clients.\<close>

definition csum :: "(call_pc \<Rightarrow> nat) \<Rightarrow> hpool \<Rightarrow> nat" where
  "csum f p = (\<Sum>pc\<leftarrow>p_clients p. f pc)"

definition tsum :: "(hthread \<Rightarrow> nat) \<Rightarrow> hpool \<Rightarrow> nat" where
  "tsum f p = (\<Sum>t\<leftarrow>p_threads p. f t)"

lemma csum_call: "c < length (p_clients p) \<Longrightarrow> csum f (call c pc p) + f (p_clients p ! c) = csum f p + f pc"
  by (simp add: csum_def call_def sum_list_put)

lemma tsum_upd: "i < length (p_threads p) \<Longrightarrow> tsum f (upd_thr i g p) + f (thr p i) = tsum f p + f (g (thr p i))"
  by (simp add: tsum_def upd_thr_def thr_def sum_list_put)

lemma sum_frame [simp]:
  "csum f (upd_thr i g p) = csum f p" "tsum h (call c pc p) = tsum h p"
  "csum f (p\<lparr>p_tasks := q\<rparr>) = csum f p" "csum f (p\<lparr>p_waiting := w\<rparr>) = csum f p" "csum f (p\<lparr>p_nrunning := n\<rparr>) = csum f p"
  "tsum h (p\<lparr>p_tasks := q\<rparr>) = tsum h p" "tsum h (p\<lparr>p_waiting := w\<rparr>) = tsum h p" "tsum h (p\<lparr>p_nrunning := n\<rparr>) = tsum h p"
  by (simp_all add: csum_def tsum_def)

lemma tsum_upd_same:
  "(\<And>t. f (g t) = f t) \<Longrightarrow> tsum f (upd_thr i g p) = tsum f p"
proof (cases "i < length (p_threads p)")
  case True
  assume "\<And>t. f (g t) = f t"
  then show ?thesis
    using tsum_upd [OF True, of f g] by simp
qed (simp add: tsum_def upd_thr_def list_update_beyond)

section \<open>Tasks are neither lost nor duplicated\<close>

text \<open>How often the user's task \<open>n\<close> is in the queues, in hand and being run.\<close>

fun held_pc :: "nat \<Rightarrow> run_pc \<Rightarrow> nat" where
  "held_pc n (LocalRun f) = (if f = User n then 1 else 0)"
| "held_pc n (GlobalRun f) = (if f = User n then 1 else 0)"
| "held_pc n _ = 0"

fun held_call :: "nat \<Rightarrow> call_pc \<Rightarrow> nat" where
  "held_call n (AddPop f) = (if f = User n then 1 else 0)"
| "held_call n (AddLock f t) = (if f = User n then 1 else 0)"
| "held_call n (AddPush f t) = (if f = User n then 1 else 0)"
| "held_call n (AddGlobal f) = (if f = User n then 1 else 0)"
| "held_call n _ = 0"

definition held :: "nat \<Rightarrow> hpool \<Rightarrow> nat" where
  "held n p = count_list (p_tasks p) (User n) +
     tsum (\<lambda>t. count_list (t_local t) (User n) + held_pc n (t_pc t)) p + csum (held_call n) p"

text \<open>What a step takes in and what it finishes.\<close>

fun submitted :: "nat \<Rightarrow> pool_event list \<Rightarrow> nat" where
  "submitted n [] = 0"
| "submitted n (e # es) = (case e of CallAdd c m \<Rightarrow> if m = n then 1 else 0 | _ \<Rightarrow> 0) + submitted n es"

definition ran :: "nat \<Rightarrow> pool_event \<Rightarrow> hpool \<Rightarrow> nat" where
  "ran n e p = (case e of Thread i \<Rightarrow> held_pc n (t_pc (thr p i)) | _ \<Rightarrow> 0)"

fun executed :: "nat \<Rightarrow> pool_event list \<Rightarrow> hpool \<Rightarrow> nat" where
  "executed n [] p = 0"
| "executed n (e # es) p = ran n e p + (case pool_step e p of None \<Rightarrow> 0 | Some p \<Rightarrow> executed n es p)"

lemma held_kill [simp]: "held n (hThread_kill t p) = held n p"
  by (simp add: held_def hThread_kill_def tsum_upd_same)

lemma held_run_task [simp]: "held n (run_task f p) = held n p"
  by (cases f) simp_all

lemma thr_kill_eq:
  "thr (hThread_kill t p) i = (if i = t \<and> t < length (p_threads p) then (thr p i)\<lparr>t_running := False\<rparr> else thr p i)"
  by (auto simp: thr_def hThread_kill_def upd_thr_def list_update_beyond)

lemma thr_run_task:
  "thr (run_task f p) i = (if f = KillTask i \<and> i < length (p_threads p) then (thr p i)\<lparr>t_running := False\<rparr> else thr p i)"
  by (cases f) (auto simp: thr_kill_eq)

lemma run_task_thr [simp]:
  "t_pc (thr (run_task f p) i) = t_pc (thr p i)" "t_local (thr (run_task f p) i) = t_local (thr p i)"
  "t_lock (thr (run_task f p) i) = t_lock (thr p i)"
  by (simp_all add: thr_run_task)

lemma kill_fields [simp]:
  "length (p_threads (hThread_kill t p)) = length (p_threads p)" "p_waiting (hThread_kill t p) = p_waiting p"
  "csum g (hThread_kill t p) = csum g p" "p_clients (hThread_kill t p) = p_clients p" "p_tasks (hThread_kill t p) = p_tasks p"
  by (simp_all add: hThread_kill_def)

lemma run_task_fields [simp]:
  "length (p_threads (run_task f p)) = length (p_threads p)" "p_waiting (run_task f p) = p_waiting p"
  "csum g (run_task f p) = csum g p" "p_clients (run_task f p) = p_clients p" "p_tasks (run_task f p) = p_tasks p"
  by (cases f; simp)+

lemma held_upd:
  "i < length (p_threads p) \<Longrightarrow> held n (upd_thr i g p) + count_list (t_local (thr p i)) (User n) + held_pc n (t_pc (thr p i)) =
    held n p + count_list (t_local (g (thr p i))) (User n) + held_pc n (t_pc (g (thr p i)))"
  using tsum_upd [of i p "\<lambda>t. count_list (t_local t) (User n) + held_pc n (t_pc t)" g] by (simp add: held_def)

lemma held_call:
  "c < length (p_clients p) \<Longrightarrow> held n (call c pc p) + held_call n (p_clients p ! c) = held n p + held_call n pc"
  using csum_call [of c p "held_call n" pc] by (simp add: held_def)

lemma held_go: "i < length (p_threads p) \<Longrightarrow> held n (go i pc p) + held_pc n (t_pc (thr p i)) = held n p + held_pc n pc"
  using held_upd [of i p n "\<lambda>t. t\<lparr>t_pc := pc\<rparr>"] by (simp add: go_def)

lemma held_frame [simp]:
  "held n (set_lock i b p) = held n p" "held n (p\<lparr>p_waiting := w\<rparr>) = held n p" "held n (p\<lparr>p_nrunning := k\<rparr>) = held n p"
  by (simp_all add: held_def set_lock_def tsum_upd_same)

lemma held_tasks: "held n (p\<lparr>p_tasks := q\<rparr>) + count_list (p_tasks p) (User n) = held n p + count_list q (User n)"
  by (simp add: held_def)

lemma held_thread_step:
  assumes "thread_step i p = Some p'" and i: "i < length (p_threads p)"
  shows "held n p' + held_pc n (t_pc (thr p i)) = held n p"
proof -
  note go_i = held_go [OF i, of n]
  have run: "held n (go i pc (run_task f p)) + held_pc n (t_pc (thr p i)) = held n p + held_pc n pc" for pc f
    using held_go [of i "run_task f p" n pc] i by simp
  have lock: "held n (go i pc (set_lock i b p)) + held_pc n (t_pc (thr p i)) = held n p + held_pc n pc" for pc b
  proof -
    have "length (p_threads (set_lock i b p)) = length (p_threads p)" "t_pc (thr (set_lock i b p) i) = t_pc (thr p i)"
      using i by (simp_all add: set_lock_def)
    then show ?thesis
      using held_go [of i "set_lock i b p" n pc] i by simp
  qed
  have fields: "held n (go i pc (p\<lparr>p_waiting := w\<rparr>)) = held n (go i pc p)" for pc w
    by (simp add: go_def)
  show ?thesis
  proof (cases "t_pc (thr p i)")
    case LocalTop
    show ?thesis
    proof (cases "t_local (thr p i)")
      case Nil
      then show ?thesis
        using assms(1) LocalTop go_i [of Check1] by (simp add: thread_step_def)
    next
      case (Cons f q)
      then show ?thesis
        using assms(1) LocalTop held_upd [OF i, of n "\<lambda>t. t\<lparr>t_local := q, t_pc := LocalRun f\<rparr>"]
        by (auto simp: thread_step_def split: if_splits)
    qed
  next
    case GlobalTop
    show ?thesis
    proof (cases "p_tasks p")
      case Nil
      then show ?thesis
        using assms(1) GlobalTop go_i [of Check2] by (simp add: thread_step_def)
    next
      case (Cons f q)
      then show ?thesis
        using assms(1) GlobalTop go_i [of "GlobalRun f"] held_tasks [where n = n and p = "go i (GlobalRun f) p" and q = q]
        by (auto simp: thread_step_def go_def split: if_splits)
    qed
  next
    case (LocalRun f)
    then show ?thesis
      using assms(1) run [of LocalTop f] by (simp add: thread_step_def)
  next
    case (GlobalRun f)
    then show ?thesis
      using assms(1) run [of GlobalTop f] by (simp add: thread_step_def)
  qed (use assms(1) go_i [of LoopTop] go_i [of LocalTop] go_i [of Ended] go_i [of GlobalTop] go_i [of Enqueue]
      go_i [of WaitLock] go_i [of WaitEnd] go_i [of WaitBlock] lock [of WaitTest True] lock [of Sleeping False]
      lock [of LoopTop False] fields in \<open>auto simp: thread_step_def Let_def thread_end_def split: if_splits\<close>)
qed

lemma held_client_step:
  assumes "client_step c p = Some p'" and c: "c < length (p_clients p)"
    and valid: "\<And>f t. p_clients p ! c = AddPush f t \<Longrightarrow> t < length (p_threads p)"
      "\<And>t. p_clients p ! c = KillPush t \<Longrightarrow> t < length (p_threads p)"
      "\<And>t. p_clients p ! c \<in> {AddKick t, KillKick t} \<Longrightarrow> t < length (p_threads p)"
  shows "held n p' = held n p"
proof -
  have kick: "held n (hThread_kick t p) = held n p" if "t < length (p_threads p)" for t
    using held_go [OF that, of n Woken] by (auto simp: hThread_kick_def)
  have add: "held n (hThread_addTask t f p) = held n p + (if f = User n then 1 else 0)" if "t < length (p_threads p)" for t f
    using held_upd [OF that, of n "\<lambda>t. t\<lparr>t_local := t_local t @ [f]\<rparr>"] by (simp add: hThread_addTask_def)
  have call: "held n (call c pc q) + held_call n (p_clients p ! c) = held n q + held_call n pc"
    if "p_clients q = p_clients p" for pc q
    using held_call [of c q n pc] c that by simp
  have cl: "p_clients (hThread_kick t p) = p_clients p" "p_clients (hThread_addTask t f p) = p_clients p"
    "p_clients (set_lock t b p) = p_clients p" "p_clients (hThread_kill t p) = p_clients p" for t f b
    by (simp_all add: hThread_kick_def upd_defs)
  show ?thesis
  proof (cases "p_clients p ! c")
    case (AddPop f)
    then show ?thesis
      using assms(1) call [of p "AddGlobal f"] call [of p "AddLock f (hd (p_waiting p))"]
      by (auto simp: client_step_def split: list.splits if_splits)
  next
    case (AddLock f t)
    then show ?thesis
      using assms(1) call [OF cl(3), of "AddPush f t" t True] by (auto simp: client_step_def split: if_splits)
  next
    case (AddPush f t)
    then show ?thesis
      using assms(1) call [OF cl(2), of "AddKick t" t f] add [of t f] valid(1) by (auto simp: client_step_def split: if_splits)
  next
    case (AddKick t)
    then show ?thesis
      using assms(1) call [OF cl(1), of "AddUnlock t" t] kick [of t] valid(3) by (auto simp: client_step_def)
  next
    case (AddUnlock t)
    then show ?thesis
      using assms(1) call [OF cl(3), of Idle t False] by (auto simp: client_step_def)
  next
    case (AddGlobal f)
    then show ?thesis
      using assms(1) call [of p Idle] held_tasks [where n = n and p = "call c Idle p" and q = "p_tasks p @ [f]"]
      by (auto simp: client_step_def split: if_splits)
  next
    case (KillFlag i)
    then show ?thesis
      using assms(1) call [of p KillPop] call [OF cl(4), of "KillFlag (Suc i)" i] by (auto simp: client_step_def split: if_splits)
  next
    case KillPop
    then show ?thesis
      using assms(1) call [of p Idle] call [of p "KillPush (hd (p_waiting p))"]
      by (auto simp: client_step_def split: list.splits)
  next
    case (KillPush t)
    then show ?thesis
      using assms(1) call [OF cl(2), of "KillKick t" t "KillTask t"] add [of t "KillTask t"] valid(2)
      by (auto simp: client_step_def)
  next
    case (KillKick t)
    then show ?thesis
      using assms(1) call [OF cl(1), of KillPop t] kick [of t] valid(3) by (auto simp: client_step_def)
  qed (use assms(1) in \<open>simp add: client_step_def\<close>)
qed

section \<open>Who holds a thread's mutex and its place in the waiting queue\<close>

fun holds :: "nat \<Rightarrow> call_pc \<Rightarrow> nat" where
  "holds t (AddPush f u) = of_bool (u = t)"
| "holds t (AddKick u) = of_bool (u = t)"
| "holds t (AddUnlock u) = of_bool (u = t)"
| "holds t _ = 0"

fun hands :: "nat \<Rightarrow> call_pc \<Rightarrow> nat" where
  "hands t (AddLock f u) = of_bool (u = t)"
| "hands t (AddPush f u) = of_bool (u = t)"
| "hands t (KillPush u) = of_bool (u = t)"
| "hands t _ = 0"

fun call_ok :: "nat \<Rightarrow> call_pc \<Rightarrow> bool" where
  "call_ok n (AddLock f t) = (t < n)"
| "call_ok n (AddPush f t) = (t < n)"
| "call_ok n (AddKick t) = (t < n)"
| "call_ok n (AddUnlock t) = (t < n)"
| "call_ok n (KillPush t) = (t < n)"
| "call_ok n (KillKick t) = (t < n)"
| "call_ok n _ = True"

definition lockers :: "nat \<Rightarrow> hpool \<Rightarrow> nat" where
  "lockers t p = of_bool (t_pc (thr p t) \<in> {WaitTest, WaitBlock, WaitEnd}) + csum (holds t) p"

definition slots :: "nat \<Rightarrow> hpool \<Rightarrow> nat" where
  "slots t p = count_list (p_waiting p) t + csum (hands t) p"

fun state_ok :: "run_pc \<Rightarrow> nat \<Rightarrow> nat \<Rightarrow> bool" where
  "state_ok Check1 s l = (s = 0 \<and> l = 0)"
| "state_ok GlobalTop s l = (s = 0 \<and> l = 0)"
| "state_ok (GlobalRun f) s l = (s = 0 \<and> l = 0)"
| "state_ok Check2 s l = (s = 0 \<and> l = 0)"
| "state_ok Enqueue s l = (s = 0 \<and> l = 0)"
| "state_ok WaitLock s l = (s + l = 1)"
| "state_ok WaitTest s l = (s + l = 1)"
| "state_ok WaitBlock s l = (s + l = 1)"
| "state_ok Sleeping s l = (s + l = 1)"
| "state_ok Woken s l = (s + l = 1)"
| "state_ok _ s l = (s = 0 \<and> l \<le> 1)"

definition thread_ok :: "nat \<Rightarrow> hpool \<Rightarrow> bool" where
  "thread_ok t p \<longleftrightarrow> lockers t p = of_bool (t_lock (thr p t)) \<and>
     state_ok (t_pc (thr p t)) (slots t p) (length (t_local (thr p t)))"

definition pool_inv :: "hpool \<Rightarrow> bool" where
  "pool_inv p \<longleftrightarrow> (\<forall>t < length (p_threads p). thread_ok t p) \<and> (\<forall>t \<in> set (p_waiting p). t < length (p_threads p)) \<and>
     (\<forall>pc \<in> set (p_clients p). call_ok (length (p_threads p)) pc)"

lemma thread_ok_frame:
  assumes "t_pc (thr p' t) = t_pc (thr p t)" "t_local (thr p' t) = t_local (thr p t)" "t_lock (thr p' t) = t_lock (thr p t)"
    "p_clients p' = p_clients p" "count_list (p_waiting p') t = count_list (p_waiting p) t"
  shows "thread_ok t p' \<longleftrightarrow> thread_ok t p"
  using assms by (simp add: thread_ok_def lockers_def slots_def csum_def)

lemma thread_step_frame:
  assumes "thread_step i p = Some p'" "i < length (p_threads p)"
  shows "length (p_threads p') = length (p_threads p)" "p_clients p' = p_clients p"
    "t \<noteq> i \<Longrightarrow> t_pc (thr p' t) = t_pc (thr p t) \<and> t_local (thr p' t) = t_local (thr p t) \<and>
       t_lock (thr p' t) = t_lock (thr p t)"
    "p_waiting p' = (if t_pc (thr p i) = Enqueue then p_waiting p @ [i] else p_waiting p)"
proof -
  have "length (p_threads p') = length (p_threads p) \<and> p_clients p' = p_clients p \<and>
    (t \<noteq> i \<longrightarrow> t_pc (thr p' t) = t_pc (thr p t) \<and> t_local (thr p' t) = t_local (thr p t) \<and>
       t_lock (thr p' t) = t_lock (thr p t)) \<and>
    p_waiting p' = (if t_pc (thr p i) = Enqueue then p_waiting p @ [i] else p_waiting p)"
    using assms
    by (cases "t_pc (thr p i)")
      (auto simp: thread_step_def Let_def upd_defs thread_end_def split: if_splits list.splits)
  then show "length (p_threads p') = length (p_threads p)" "p_clients p' = p_clients p"
    "t \<noteq> i \<Longrightarrow> t_pc (thr p' t) = t_pc (thr p t) \<and> t_local (thr p' t) = t_local (thr p t) \<and>
       t_lock (thr p' t) = t_lock (thr p t)"
    "p_waiting p' = (if t_pc (thr p i) = Enqueue then p_waiting p @ [i] else p_waiting p)"
    by auto
qed

lemma thread_step_own:
  assumes "thread_step i p = Some p'" "i < length (p_threads p)" "thread_ok i p"
  shows "thread_ok i p'"
proof -
  have cs: "csum f p' = csum f p" for f
    using thread_step_frame(2) [OF assms(1,2)] by (simp add: csum_def)
  show ?thesis
  proof (cases "t_pc (thr p i) = WaitTest")
    case True
    have "lockers i p = of_bool (t_lock (thr p i))" "slots i p + length (t_local (thr p i)) = 1"
      using assms(3) True by (simp_all add: thread_ok_def)
    moreover have "p' = go i (if t_local (thr p i) \<noteq> [] then WaitEnd else WaitBlock) p"
      using assms(1) True by (simp add: thread_step_def queueNotEmpty_def)
    ultimately show ?thesis
      using assms(2) True by (cases "t_local (thr p i)") (simp_all add: thread_ok_def lockers_def slots_def go_def)
  next
    case False
    then show ?thesis
      using assms cs [of "holds i"] cs [of "hands i"] thread_step_frame(4) [OF assms(1,2)]
      by (cases "t_pc (thr p i)")
        (auto simp: thread_ok_def lockers_def slots_def thread_step_def Let_def upd_defs thread_end_def
          split: if_splits list.splits)
  qed
qed

lemma thread_step_inv:
  assumes "thread_step i p = Some p'" and i: "i < length (p_threads p)" and inv: "pool_inv p"
  shows "pool_inv p'"
proof -
  note f = thread_step_frame [OF assms(1,2)]
  have "thread_ok t p'" if "t < length (p_threads p)" for t
  proof (cases "t = i")
    case True
    then show ?thesis
      using thread_step_own [OF assms(1,2)] inv i by (simp add: pool_inv_def)
  next
    case False
    then have "count_list (p_waiting p') t = count_list (p_waiting p) t"
      using f(4) by auto
    then show ?thesis
      using thread_ok_frame [of p' t p] f(2,3) False inv that by (simp add: pool_inv_def)
  qed
  then show ?thesis
    using f i inv by (auto simp: pool_inv_def split: if_splits)
qed

lemma csum_set:
  assumes "c < length (p_clients p)" "p_clients q = p_clients p"
  shows "csum f (call c pc q) + f (p_clients p ! c) = csum f p + f pc"
  using csum_call [of c q f pc] assms by (simp add: csum_def)

lemma client_step_inv:
  assumes step: "client_step c p = Some p'" and c: "c < length (p_clients p)" and inv: "pool_inv p"
  shows "pool_inv p'"
proof -
  have ok: "call_ok (length (p_threads p)) (p_clients p ! c)"
    using inv c by (auto simp: pool_inv_def)
  have t_ok: "\<And>t. t < length (p_threads p) \<Longrightarrow> thread_ok t p"
    and w_ok: "\<And>t. t \<in> set (p_waiting p) \<Longrightarrow> t < length (p_threads p)"
    and c_ok: "\<And>pc. pc \<in> set (p_clients p) \<Longrightarrow> call_ok (length (p_threads p)) pc"
    using inv by (auto simp: pool_inv_def)
  have upd: "pool_inv (call c pc q)"
    if "p_clients q = p_clients p" "length (p_threads q) = length (p_threads p)" "call_ok (length (p_threads p)) pc"
      "\<forall>t \<in> set (p_waiting q). t < length (p_threads p)"
      "\<And>t. t < length (p_threads p) \<Longrightarrow> thread_ok t p \<Longrightarrow> thread_ok t (call c pc q)" for pc q
    using that t_ok c_ok by (auto simp: pool_inv_def call_def dest!: set_update_subset_insert [THEN subsetD])
  show ?thesis
  proof (cases "p_clients p ! c")
    case (AddPop f)
    show ?thesis
    proof (cases "p_waiting p")
      case Nil
      then have p': "p' = call c (AddGlobal f) p"
        using step AddPop by (simp add: client_step_def)
      show ?thesis
        unfolding p'
      proof (rule upd)
        fix u
        assume "u < length (p_threads p)" "thread_ok u p"
        then show "thread_ok u (call c (AddGlobal f) p)"
          using AddPop csum_set [OF c, of p "holds u" "(AddGlobal f)"] csum_set [OF c, of p "hands u" "(AddGlobal f)"]
          by (cases "t_pc (thr p u)") (auto simp: thread_ok_def lockers_def slots_def)
      qed (use w_ok in auto)
    next
      case (Cons t ws)
      then have p': "p' = call c (AddLock f t) (p\<lparr>p_waiting := ws\<rparr>)"
        using step AddPop by (simp add: client_step_def)
      show ?thesis
        unfolding p'
      proof (rule upd)
        fix u
        assume "u < length (p_threads p)" "thread_ok u p"
        then show "thread_ok u (call c (AddLock f t) (p\<lparr>p_waiting := ws\<rparr>))"
          using AddPop Cons csum_set [OF c, of p "holds u" "(AddLock f t)"] csum_set [OF c, of p "hands u" "(AddLock f t)"]
          by (cases "t_pc (thr p u)") (auto simp: thread_ok_def lockers_def slots_def simp flip: length_0_conv split: if_splits)
      qed (use w_ok Cons in auto)
    qed
  next
    case (AddLock f t)
    then have free: "\<not> t_lock (thr p t)"
      using step by (simp add: client_step_def split: if_splits)
    from AddLock have p': "p' = call c (AddPush f t) (set_lock t True p)"
      using step by (simp add: client_step_def split: if_splits)
    show ?thesis
      unfolding p'
    proof (rule upd)
      fix u
      assume "u < length (p_threads p)" "thread_ok u p"
      then show "thread_ok u (call c (AddPush f t) (set_lock t True p))"
        using ok AddLock free csum_set [OF c, of "(set_lock t True p)" "holds u" "(AddPush f t)"]
          csum_set [OF c, of "(set_lock t True p)" "hands u" "(AddPush f t)"]
        by (cases "t_pc (thr p u)") (auto simp: thread_ok_def lockers_def slots_def upd_defs hThread_kick_def thr_kill_eq
              simp flip: length_0_conv split: if_splits)
    qed (use ok AddLock w_ok in \<open>auto simp: upd_defs hThread_kick_def\<close>)
  next
    case (AddPush f t)
    then have p': "p' = call c (AddKick t) (hThread_addTask t f p)"
      using step by (simp add: client_step_def split: if_splits)
    show ?thesis
      unfolding p'
    proof (rule upd)
      fix u
      assume "u < length (p_threads p)" "thread_ok u p"
      then show "thread_ok u (call c (AddKick t) (hThread_addTask t f p))"
        using ok AddPush csum_set [OF c, of "(hThread_addTask t f p)" "holds u" "(AddKick t)"]
          csum_set [OF c, of "(hThread_addTask t f p)" "hands u" "(AddKick t)"]
        by (cases "t_pc (thr p u)") (auto simp: thread_ok_def lockers_def slots_def upd_defs hThread_kick_def thr_kill_eq
              simp flip: length_0_conv split: if_splits)
    qed (use ok AddPush w_ok in \<open>auto simp: upd_defs hThread_kick_def\<close>)
  next
    case (AddKick t)
    then have p': "p' = call c (AddUnlock t) (hThread_kick t p)"
      using step by (simp add: client_step_def split: if_splits)
    show ?thesis
      unfolding p'
    proof (rule upd)
      fix u
      assume "u < length (p_threads p)" "thread_ok u p"
      then show "thread_ok u (call c (AddUnlock t) (hThread_kick t p))"
        using ok AddKick csum_set [OF c, of "(hThread_kick t p)" "holds u" "(AddUnlock t)"]
          csum_set [OF c, of "(hThread_kick t p)" "hands u" "(AddUnlock t)"]
        by (cases "t_pc (thr p u)") (auto simp: thread_ok_def lockers_def slots_def upd_defs hThread_kick_def thr_kill_eq
              simp flip: length_0_conv split: if_splits)
    qed (use ok AddKick w_ok in \<open>auto simp: upd_defs hThread_kick_def\<close>)
  next
    case (AddUnlock t)
    then have p': "p' = call c Idle (set_lock t False p)"
      using step by (simp add: client_step_def split: if_splits)
    show ?thesis
      unfolding p'
    proof (rule upd)
      fix u
      assume "u < length (p_threads p)" "thread_ok u p"
      then show "thread_ok u (call c Idle (set_lock t False p))"
        using ok AddUnlock csum_set [OF c, of "(set_lock t False p)" "holds u" "Idle"]
          csum_set [OF c, of "(set_lock t False p)" "hands u" "Idle"]
        by (cases "t_pc (thr p u)") (auto simp: thread_ok_def lockers_def slots_def upd_defs hThread_kick_def thr_kill_eq
              simp flip: length_0_conv split: if_splits)
    qed (use ok AddUnlock w_ok in \<open>auto simp: upd_defs hThread_kick_def\<close>)
  next
    case (AddGlobal f)
    then have p': "p' = call c Idle (p\<lparr>p_tasks := p_tasks p @ [f]\<rparr>)"
      using step by (simp add: client_step_def split: if_splits)
    show ?thesis
      unfolding p'
    proof (rule upd)
      fix u
      assume "u < length (p_threads p)" "thread_ok u p"
      then show "thread_ok u (call c Idle (p\<lparr>p_tasks := p_tasks p @ [f]\<rparr>))"
        using ok AddGlobal csum_set [OF c, of "(p\<lparr>p_tasks := p_tasks p @ [f]\<rparr>)" "holds u" "Idle"]
          csum_set [OF c, of "(p\<lparr>p_tasks := p_tasks p @ [f]\<rparr>)" "hands u" "Idle"]
        by (cases "t_pc (thr p u)") (auto simp: thread_ok_def lockers_def slots_def upd_defs hThread_kick_def thr_kill_eq
              simp flip: length_0_conv split: if_splits)
    qed (use ok AddGlobal w_ok in \<open>auto simp: upd_defs hThread_kick_def\<close>)
  next
    case (KillFlag i)
    show ?thesis
    proof (cases "i < length (p_threads p)")
      case True
      then have p': "p' = call c (KillFlag (Suc i)) (hThread_kill i p)"
        using step KillFlag by (simp add: client_step_def)
      show ?thesis
        unfolding p'
      proof (rule upd)
        fix u
        assume "u < length (p_threads p)" "thread_ok u p"
        then show "thread_ok u (call c (KillFlag (Suc i)) (hThread_kill i p))"
          using KillFlag csum_set [OF c, of "hThread_kill i p" "holds u" "KillFlag (Suc i)"]
            csum_set [OF c, of "hThread_kill i p" "hands u" "KillFlag (Suc i)"]
          by (cases "t_pc (thr p u)") (auto simp: thread_ok_def lockers_def slots_def thr_kill_eq)
      qed (use w_ok in auto)
    next
      case False
      then have p': "p' = call c KillPop p"
        using step KillFlag by (simp add: client_step_def)
      show ?thesis
        unfolding p'
      proof (rule upd)
        fix u
        assume "u < length (p_threads p)" "thread_ok u p"
        then show "thread_ok u (call c KillPop p)"
          using KillFlag csum_set [OF c, of p "holds u" KillPop] csum_set [OF c, of p "hands u" KillPop]
          by (cases "t_pc (thr p u)") (auto simp: thread_ok_def lockers_def slots_def)
      qed (use w_ok in auto)
    qed
  next
    case KillPop
    show ?thesis
    proof (cases "p_waiting p")
      case Nil
      then have p': "p' = call c Idle p"
        using step KillPop by (simp add: client_step_def)
      show ?thesis
        unfolding p'
      proof (rule upd)
        fix u
        assume "u < length (p_threads p)" "thread_ok u p"
        then show "thread_ok u (call c Idle p)"
          using KillPop csum_set [OF c, of p "holds u" "Idle"] csum_set [OF c, of p "hands u" "Idle"]
          by (cases "t_pc (thr p u)") (auto simp: thread_ok_def lockers_def slots_def)
      qed (use w_ok in auto)
    next
      case (Cons t ws)
      then have p': "p' = call c (KillPush t) (p\<lparr>p_waiting := ws\<rparr>)"
        using step KillPop by (simp add: client_step_def)
      show ?thesis
        unfolding p'
      proof (rule upd)
        fix u
        assume "u < length (p_threads p)" "thread_ok u p"
        then show "thread_ok u (call c (KillPush t) (p\<lparr>p_waiting := ws\<rparr>))"
          using KillPop Cons csum_set [OF c, of p "holds u" "(KillPush t)"] csum_set [OF c, of p "hands u" "(KillPush t)"]
          by (cases "t_pc (thr p u)") (auto simp: thread_ok_def lockers_def slots_def simp flip: length_0_conv split: if_splits)
      qed (use w_ok Cons in auto)
    qed
  next
    case (KillPush t)
    then have p': "p' = call c (KillKick t) (hThread_addTask t (KillTask t) p)"
      using step by (simp add: client_step_def split: if_splits)
    show ?thesis
      unfolding p'
    proof (rule upd)
      fix u
      assume "u < length (p_threads p)" "thread_ok u p"
      then show "thread_ok u (call c (KillKick t) (hThread_addTask t (KillTask t) p))"
        using ok KillPush csum_set [OF c, of "(hThread_addTask t (KillTask t) p)" "holds u" "(KillKick t)"]
          csum_set [OF c, of "(hThread_addTask t (KillTask t) p)" "hands u" "(KillKick t)"]
        by (cases "t_pc (thr p u)") (auto simp: thread_ok_def lockers_def slots_def upd_defs hThread_kick_def thr_kill_eq
              simp flip: length_0_conv split: if_splits)
    qed (use ok KillPush w_ok in \<open>auto simp: upd_defs hThread_kick_def\<close>)
  next
    case (KillKick t)
    then have p': "p' = call c KillPop (hThread_kick t p)"
      using step by (simp add: client_step_def split: if_splits)
    show ?thesis
      unfolding p'
    proof (rule upd)
      fix u
      assume "u < length (p_threads p)" "thread_ok u p"
      then show "thread_ok u (call c KillPop (hThread_kick t p))"
        using ok KillKick csum_set [OF c, of "(hThread_kick t p)" "holds u" "KillPop"]
          csum_set [OF c, of "(hThread_kick t p)" "hands u" "KillPop"]
        by (cases "t_pc (thr p u)") (auto simp: thread_ok_def lockers_def slots_def upd_defs hThread_kick_def thr_kill_eq
              simp flip: length_0_conv split: if_splits)
    qed (use ok KillKick w_ok in \<open>auto simp: upd_defs hThread_kick_def\<close>)
  qed (use step in \<open>simp add: client_step_def\<close>)
qed

section \<open>Runs\<close>

lemma pool_inv_init: "pool_inv (hThreadPool_run n m)"
proof -
  have "csum (holds t) (hThreadPool_run n m) = 0" "csum (hands t) (hThreadPool_run n m) = 0" for t
    by (simp_all add: csum_def hThreadPool_run_def hThreadPool_new_def)
  then show ?thesis
    by (auto simp: pool_inv_def thread_ok_def lockers_def slots_def hThreadPool_run_def hThreadPool_new_def thr_def hThread_new_def)
qed

lemma call_idle_inv:
  assumes "pool_inv p" "c < length (p_clients p)" "p_clients p ! c = Idle" "pc = AddPop f \<or> pc = KillFlag 0"
  shows "pool_inv (call c pc p)"
proof -
  have "csum (holds t) (call c pc p) = csum (holds t) p" "csum (hands t) (call c pc p) = csum (hands t) p" for t
    using csum_call [OF assms(2), of "holds t" pc] csum_call [OF assms(2), of "hands t" pc] assms(3,4) by auto
  then have "thread_ok t (call c pc p) = thread_ok t p" for t
    by (simp add: thread_ok_def lockers_def slots_def)
  moreover have "call_ok (length (p_threads p)) pc"
    using assms(4) by auto
  moreover have "set (p_clients (call c pc p)) \<subseteq> insert pc (set (p_clients p))"
    by (simp add: call_def set_update_subset_insert)
  ultimately show ?thesis
    using assms(1) unfolding pool_inv_def by (simp only: call_fields) blast
qed

lemma wake_inv:
  assumes "pool_inv p" "i < length (p_threads p)" "t_pc (thr p i) = Sleeping"
  shows "pool_inv (go i Woken p)"
proof -
  have "thread_ok t p \<Longrightarrow> thread_ok t (go i Woken p)" for t
    using assms(2,3) by (cases "t = i") (simp_all add: thread_ok_def lockers_def slots_def go_def)
  then show ?thesis
    using assms(1) by (auto simp: pool_inv_def go_def)
qed

lemma pool_step_inv: "pool_step e p = Some p' \<Longrightarrow> pool_inv p \<Longrightarrow> pool_inv p'"
  by (cases e) (auto simp: pool_step_def thread_step_inv client_step_inv wake_inv
      intro: call_idle_inv split: if_splits)

lemma pool_run_inv: "pool_run es p = Some p' \<Longrightarrow> pool_inv p \<Longrightarrow> pool_inv p'"
  by (induction es arbitrary: p) (auto split: option.splits intro: pool_step_inv)

lemma held_pool_step:
  assumes "pool_step e p = Some p'" "pool_inv p"
  shows "held n p' + ran n e p = held n p + (case e of CallAdd c m \<Rightarrow> if m = n then 1 else 0 | _ \<Rightarrow> 0)"
proof (cases e)
  case (Thread i)
  then show ?thesis
    using assms(1) held_thread_step by (auto simp: pool_step_def ran_def split: if_splits)
next
  case (Client c)
  then have c: "c < length (p_clients p)" "client_step c p = Some p'"
    using assms(1) by (auto simp: pool_step_def split: if_splits)
  then have "call_ok (length (p_threads p)) (p_clients p ! c)"
    using assms(2) by (auto simp: pool_inv_def)
  then have "held n p' = held n p"
    by (intro held_client_step [OF c(2,1)]) auto
  then show ?thesis
    by (simp add: Client ran_def)
next
  case (CallAdd c m)
  then have "c < length (p_clients p)" "p_clients p ! c = Idle" "p' = call c (AddPop (User m)) p"
    using assms(1) by (auto simp: pool_step_def split: if_splits)
  then show ?thesis
    using held_call [of c p n "AddPop (User m)"] by (auto simp: CallAdd ran_def)
next
  case (CallKill c)
  then have "c < length (p_clients p)" "p_clients p ! c = Idle" "p' = call c (KillFlag 0) p"
    using assms(1) by (auto simp: pool_step_def split: if_splits)
  then show ?thesis
    using held_call [of c p n "KillFlag 0"] by (auto simp: CallKill ran_def)
next
  case (Spurious i)
  then have "i < length (p_threads p)" "t_pc (thr p i) = Sleeping" "p' = go i Woken p"
    using assms(1) by (auto simp: pool_step_def split: if_splits)
  then show ?thesis
    using held_go [of i p n Woken] by (simp add: Spurious ran_def)
qed

lemma held_pool_run:
  "pool_run es p = Some p' \<Longrightarrow> pool_inv p \<Longrightarrow> held n p' + executed n es p = held n p + submitted n es"
proof (induction es arbitrary: p)
  case (Cons e es)
  then obtain q where q: "pool_step e p = Some q" "pool_run es q = Some p'"
    by (auto split: option.splits)
  then show ?case
    using Cons.IH [OF q(2) pool_step_inv [OF q(1) Cons.prems(2)]] held_pool_step [OF q(1) Cons.prems(2), of n]
    by simp
qed simp

lemma held_init: "held n (hThreadPool_run k m) = 0"
  by (simp add: held_def hThreadPool_run_def hThreadPool_new_def tsum_def csum_def hThread_new_def)

section \<open>Without kill, no wake-up is lost\<close>

fun is_user :: "task \<Rightarrow> bool" where
  "is_user (User n) = True"
| "is_user (KillTask t) = False"

fun pc_user :: "run_pc \<Rightarrow> bool" where
  "pc_user (LocalRun f) = is_user f"
| "pc_user (GlobalRun f) = is_user f"
| "pc_user Ended = False"
| "pc_user _ = True"

fun call_user :: "call_pc \<Rightarrow> bool" where
  "call_user (AddPop f) = is_user f"
| "call_user (AddLock f t) = is_user f"
| "call_user (AddPush f t) = is_user f"
| "call_user (AddGlobal f) = is_user f"
| "call_user (KillFlag i) = False"
| "call_user KillPop = False"
| "call_user (KillPush t) = False"
| "call_user (KillKick t) = False"
| "call_user _ = True"

definition awake_ok :: "nat \<Rightarrow> hpool \<Rightarrow> bool" where
  "awake_ok t p \<longleftrightarrow> t_running (thr p t) \<and> pc_user (t_pc (thr p t)) \<and> list_all is_user (t_local (thr p t)) \<and>
     (t_pc (thr p t) = WaitBlock \<longrightarrow> t_local (thr p t) = []) \<and>
     (t_pc (thr p t) = Sleeping \<longrightarrow> t_local (thr p t) = [] \<or> AddKick t \<in> set (p_clients p))"

definition awake_inv :: "hpool \<Rightarrow> bool" where
  "awake_inv p \<longleftrightarrow> pool_inv p \<and> (\<forall>t < length (p_threads p). awake_ok t p) \<and> list_all is_user (p_tasks p) \<and>
     list_all call_user (p_clients p)"

lemma run_user [simp]: "is_user f \<Longrightarrow> run_task f p = p"
  by (cases f) simp_all

lemma awake_thread_step:
  assumes step: "thread_step i p = Some p'" and i: "i < length (p_threads p)" and inv: "awake_inv p"
  shows "awake_inv p'"
proof -
  note f = thread_step_frame [OF step i]
  have own: "awake_ok i p" and tasks: "list_all is_user (p_tasks p)"
    using inv i by (auto simp: awake_inv_def)
  have "t_running (thr p' t) = t_running (thr p t)" for t
    using step i own
    by (cases "t_pc (thr p i)")
      (auto simp: awake_ok_def thread_step_def Let_def upd_defs thread_end_def split: if_splits list.splits)
  then have "awake_ok t p'" if "t \<noteq> i" "t < length (p_threads p)" for t
    using that f(2,3) inv by (simp add: awake_inv_def awake_ok_def)
  moreover have "awake_ok i p' \<and> list_all is_user (p_tasks p')"
    using step i own tasks f(2)
    by (cases "t_pc (thr p i)")
      (auto simp: awake_ok_def thread_step_def Let_def upd_defs thread_end_def queueNotEmpty_def split: if_splits list.splits)
  ultimately show ?thesis
    using f(1,2) inv thread_step_inv [OF step i] unfolding awake_inv_def by metis
qed

lemma in_set_update: "x \<in> set xs \<Longrightarrow> xs ! c \<noteq> x \<Longrightarrow> x \<in> set (xs[c := y])"
  by (metis in_set_conv_nth length_list_update nth_list_update_neq)

lemma csum_ge: "c < length (p_clients p) \<Longrightarrow> f (p_clients p ! c) \<le> csum f p"
  using member_le_sum_list [of "f (p_clients p ! c)" "map f (p_clients p)"] by (auto simp: csum_def)

lemma awake_client_step:
  assumes step: "client_step c p = Some p'" and c: "c < length (p_clients p)" and inv: "awake_inv p"
  shows "awake_inv p'"
proof -
  have pinv: "pool_inv p" and aw: "\<And>t. t < length (p_threads p) \<Longrightarrow> awake_ok t p"
    and tasks: "list_all is_user (p_tasks p)" and users: "list_all call_user (p_clients p)"
    using inv by (auto simp: awake_inv_def)
  have ok: "call_ok (length (p_threads p)) (p_clients p ! c)" and cu: "call_user (p_clients p ! c)"
    using pinv users c by (auto simp: pool_inv_def list_all_iff)
  have upd: "awake_inv p'"
    if "p' = call c pc q" "p_clients q = p_clients p" "length (p_threads q) = length (p_threads p)" "call_user pc"
      "list_all is_user (p_tasks q)" "\<And>t. t < length (p_threads p) \<Longrightarrow> awake_ok t p \<Longrightarrow> awake_ok t (call c pc q)" for pc q
  proof -
    have "set ((p_clients p)[c := pc]) \<subseteq> insert pc (set (p_clients p))"
      by (rule set_update_subset_insert)
    then have "list_all call_user (p_clients p')"
      using users that(1,2,4) by (auto simp: call_def list_all_iff)
    then show ?thesis
      using client_step_inv [OF step c pinv] that aw by (simp add: awake_inv_def)
  qed
  have keep: "AddKick t \<in> set (p_clients (call c pc q))" if "AddKick t \<in> set (p_clients p)" "p_clients p ! c \<noteq> AddKick t"
      "p_clients q = p_clients p" for t pc q
    using in_set_update [OF that(1,2)] that(3) by (simp add: call_def)
  have new: "pc \<in> set (p_clients (call c pc q))" if "p_clients q = p_clients p" for pc q
    using c that by (simp add: call_def set_update_memI)
  show ?thesis
  proof (cases "p_clients p ! c")
    case (AddPop f)
    then have f: "is_user f"
      using cu by simp
    show ?thesis
    proof (cases "p_waiting p")
      case Nil
      show ?thesis
        by (rule upd [of "AddGlobal f" p]) (use step AddPop Nil tasks f keep in \<open>auto simp: client_step_def awake_ok_def\<close>)
    next
      case (Cons t ws)
      show ?thesis
        by (rule upd [of "AddLock f t" "p\<lparr>p_waiting := ws\<rparr>"])
          (use step AddPop Cons tasks f keep [where q = "p\<lparr>p_waiting := ws\<rparr>"] in \<open>auto simp: client_step_def awake_ok_def\<close>)
    qed
  next
    case (AddLock f t)
    show ?thesis
      by (rule upd [of "AddPush f t" "set_lock t True p"])
        (use step AddLock tasks cu ok keep [where q = "set_lock t True p"] in
          \<open>auto simp: client_step_def awake_ok_def upd_defs split: if_splits\<close>)
  next
    case (AddPush f t)
    have "holds t (p_clients p ! c) \<le> csum (holds t) p"
      by (rule csum_ge [OF c])
    moreover have "lockers t p \<le> 1"
      using pinv ok AddPush by (simp add: pool_inv_def thread_ok_def)
    ultimately have nb: "t_pc (thr p t) \<noteq> WaitBlock"
      using AddPush by (auto simp: lockers_def)
    show ?thesis
      by (rule upd [of "AddKick t" "hThread_addTask t f p"])
        (use step AddPush tasks cu ok nb keep [where q = "hThread_addTask t f p"] new [where q = "hThread_addTask t f p"] in
          \<open>auto simp: client_step_def awake_ok_def upd_defs split: if_splits\<close>)
  next
    case (AddKick t)
    have q: "p_clients (hThread_kick t p) = p_clients p"
      by (simp add: hThread_kick_def go_def)
    show ?thesis
    proof (rule upd [of "AddUnlock t" "hThread_kick t p"])
      fix u
      assume u: "u < length (p_threads p)" "awake_ok u p"
      show "awake_ok u (call c (AddUnlock t) (hThread_kick t p))"
      proof (cases "u = t")
        case True
        then show ?thesis
          using u by (auto simp: awake_ok_def hThread_kick_def go_def)
      next
        case False
        then have "thr (hThread_kick t p) u = thr p u"
          using ok AddKick by (simp add: hThread_kick_def go_def)
        then show ?thesis
          using u False AddKick keep [OF _ _ q, of u "AddUnlock t"] by (auto simp: awake_ok_def)
      qed
    qed (use step AddKick tasks in \<open>simp_all add: client_step_def hThread_kick_def go_def\<close>)
  next
    case (AddUnlock t)
    show ?thesis
      by (rule upd [of Idle "set_lock t False p"])
        (use step AddUnlock tasks cu ok keep [where q = "set_lock t False p"] in
          \<open>auto simp: client_step_def awake_ok_def upd_defs split: if_splits\<close>)
  next
    case (AddGlobal f)
    let ?q = "p\<lparr>p_tasks := p_tasks p @ [f]\<rparr>"
    show ?thesis
      by (rule upd [of Idle ?q])
        (use step AddGlobal tasks cu ok keep [where q = ?q] in \<open>auto simp: client_step_def awake_ok_def\<close>)
  qed (use step cu in \<open>auto simp: client_step_def\<close>)
qed


definition no_kill :: "pool_event list \<Rightarrow> bool" where
  "no_kill es \<longleftrightarrow> (\<forall>c. CallKill c \<notin> set es)"

lemma awake_pool_step: "pool_step e p = Some p' \<Longrightarrow> awake_inv p \<Longrightarrow> (\<And>c. e \<noteq> CallKill c) \<Longrightarrow> awake_inv p'"
proof (cases e)
  case (CallAdd c n)
  assume step: "pool_step e p = Some p'" and inv: "awake_inv p"
  then have p': "c < length (p_clients p)" "p_clients p ! c = Idle" "p' = call c (AddPop (User n)) p"
    using CallAdd by (auto simp: pool_step_def split: if_splits)
  have "set (p_clients p') \<subseteq> insert (AddPop (User n)) (set (p_clients p))"
    unfolding p'(3) call_def by (simp add: set_update_subset_insert)
  then have "list_all call_user (p_clients p')"
    using inv by (auto simp: awake_inv_def list_all_iff)
  moreover have "AddKick t \<in> set (p_clients p) \<Longrightarrow> AddKick t \<in> set (p_clients p')" for t
    using p' in_set_update [of "AddKick t" "p_clients p" c] by (simp add: call_def)
  ultimately show ?thesis
    using inv pool_step_inv [OF step] p' by (auto simp: awake_inv_def awake_ok_def)
next
  case (Spurious i)
  assume step: "pool_step e p = Some p'" and inv: "awake_inv p"
  then have p': "i < length (p_threads p)" "p' = go i Woken p"
    using Spurious by (auto simp: pool_step_def split: if_splits)
  have "awake_ok t p \<Longrightarrow> awake_ok t p'" for t
    using p' by (cases "t = i") (auto simp: awake_ok_def go_def)
  then show ?thesis
    using inv pool_step_inv [OF step] p' by (auto simp: awake_inv_def go_def)
qed (auto simp: pool_step_def split: if_splits intro: awake_thread_step awake_client_step)

lemma awake_pool_run: "pool_run es p = Some p' \<Longrightarrow> awake_inv p \<Longrightarrow> no_kill es \<Longrightarrow> awake_inv p'"
proof (induction es arbitrary: p)
  case (Cons e es)
  then obtain q where "pool_step e p = Some q" "pool_run es q = Some p'"
    by (auto split: option.splits)
  then show ?case
    using Cons awake_pool_step [of e p q] by (auto simp: no_kill_def)
qed simp

lemma awake_init: "awake_inv (hThreadPool_run n m)"
  using pool_inv_init [of n m]
  by (auto simp: awake_inv_def awake_ok_def hThreadPool_run_def hThreadPool_new_def thr_def hThread_new_def list_all_iff)

text \<open>Nothing moves: no client is in a call and every thread is blocked.\<close>

definition quiet :: "hpool \<Rightarrow> bool" where
  "quiet p \<longleftrightarrow> list_all (\<lambda>pc. pc = Idle) (p_clients p) \<and> (\<forall>i < length (p_threads p). thread_step i p = None)"

lemma quiet_locals:
  assumes inv: "awake_inv p" and quiet: "quiet p" and i: "i < length (p_threads p)"
  shows "t_local (thr p i) = [] \<and> t_pc (thr p i) = Sleeping"
proof -
  have idle: "\<forall>pc \<in> set (p_clients p). pc = Idle"
    using quiet by (simp add: quiet_def list_all_iff)
  have "csum (holds i) p = 0"
    using idle by (force simp: csum_def)
  then have "t_pc (thr p i) \<in> {WaitTest, WaitBlock, WaitEnd} \<or> \<not> t_lock (thr p i)"
    using inv i by (auto simp: awake_inv_def pool_inv_def thread_ok_def lockers_def)
  moreover have "thread_step i p = None"
    using quiet i by (simp add: quiet_def)
  moreover have "awake_ok i p"
    using inv i by (simp add: awake_inv_def)
  ultimately have "t_pc (thr p i) = Sleeping"
    by (cases "t_pc (thr p i)") (auto simp: thread_step_def Let_def awake_ok_def split: if_splits list.splits)
  then show ?thesis
    using \<open>awake_ok i p\<close> idle by (auto simp: awake_ok_def)
qed

lemma quiet_held:
  assumes "awake_inv p" "quiet p"
  shows "held n p = count_list (p_tasks p) (User n)"
proof -
  have "t_local t = [] \<and> t_pc t = Sleeping" if "t \<in> set (p_threads p)" for t
    using quiet_locals [OF assms] that by (auto simp: thr_def in_set_conv_nth)
  then have "tsum (\<lambda>t. count_list (t_local t) (User n) + held_pc n (t_pc t)) p = 0"
    by (simp add: tsum_def)
  moreover have "csum (held_call n) p = 0"
    using assms(2) by (force simp: quiet_def csum_def list_all_iff)
  ultimately show ?thesis
    by (simp add: held_def)
qed

section \<open>Properties\<close>

text \<open>
  C4: the pool neither loses nor duplicates a task: in every run, however threads and
  callers interleave, what was submitted is what has been run plus what is in the queues,
  in the hands of a caller or being run.
\<close>

theorem pool_conserves_tasks:
  "pool_run es (hThreadPool_run n m) = Some p \<Longrightarrow>
   submitted k es = executed k es (hThreadPool_run n m) + held k p"
  using held_pool_run [of es "hThreadPool_run n m" p k] pool_inv_init held_init by simp

theorem pool_conserves_tasks_witness:
  "\<exists>p. pool_run [CallAdd 0 7, Client 0, Client 0, Thread 0, Thread 0, Thread 0, Thread 0, Thread 0, Thread 0] (hThreadPool_run 1 1) = Some p \<and>
     executed 7 [CallAdd 0 7, Client 0, Client 0, Thread 0, Thread 0, Thread 0, Thread 0, Thread 0, Thread 0] (hThreadPool_run 1 1) = 1 \<and> held 7 p = 0"
proof -
  let ?es = "[CallAdd 0 7, Client 0, Client 0, Thread 0, Thread 0, Thread 0, Thread 0, Thread 0, Thread 0]"
  have e: "executed 7 ?es (hThreadPool_run 1 1) = 1"
    by code_simp
  have "pool_run ?es (hThreadPool_run 1 1) \<noteq> None"
    by code_simp
  then obtain p where p: "pool_run ?es (hThreadPool_run 1 1) = Some p"
    by blast
  show ?thesis
    using pool_conserves_tasks [OF p, of 7] p e by simp
qed

text \<open>
  a thread stands in the waiting queue at most once, and while it stands there it has
  no task of its own and is on its way to sleep or asleep, so the task that a caller hands
  to it is the next one it runs; and its mutex has at most one holder.
\<close>

lemma pool_waiting_threads:
  assumes "pool_run es (hThreadPool_run n m) = Some p" "t < length (p_threads p)"
  shows "lockers t p \<le> 1 \<and> count_list (p_waiting p) t \<le> 1 \<and>
    (t \<in> set (p_waiting p) \<longrightarrow> t_local (thr p t) = [] \<and>
       t_pc (thr p t) \<in> {WaitLock, WaitTest, WaitBlock, Sleeping, Woken})"
proof -
  have "thread_ok t p"
    using pool_run_inv [OF assms(1) pool_inv_init] assms(2) by (simp add: pool_inv_def)
  moreover have "t \<in> set (p_waiting p) \<Longrightarrow> 1 \<le> slots t p"
    using count_list_0_iff [of "p_waiting p" t] by (simp add: slots_def)
  ultimately show ?thesis
    by (cases "t_pc (thr p t)") (auto simp: thread_ok_def slots_def simp flip: length_0_conv)
qed

lemma pool_waiting_threads_witness:
  "\<exists>p. pool_run (replicate 8 (Thread 0)) (hThreadPool_run 1 1) = Some p \<and> 0 \<in> set (p_waiting p) \<and>
     t_local (thr p 0) = []"
proof -
  have "pool_run (replicate 8 (Thread 0)) (hThreadPool_run 1 1) \<noteq> None"
    by code_simp
  then obtain p where p: "pool_run (replicate 8 (Thread 0)) (hThreadPool_run 1 1) = Some p"
    by blast
  moreover have "map_option (\<lambda>p. p_waiting p = [0] \<and> length (p_threads p) = 1) (pool_run (replicate 8 (Thread 0)) (hThreadPool_run 1 1)) = Some True"
    by code_simp
  ultimately have "p_waiting p = [0]" "0 < length (p_threads p)"
    by auto
  then show ?thesis
    using pool_waiting_threads [OF p, of 0] p by simp
qed

text \<open>
  C12: without a call of \<open>kill\<close> no wake-up for a handed-over task is lost: when nothing
  moves any more, every thread sleeps with an empty local queue, and each accepted task
  has been run unless it is in the common queue.
\<close>

theorem pool_quiet_tasks_done:
  assumes "pool_run es (hThreadPool_run n m) = Some p" "no_kill es" "quiet p"
  shows "submitted k es = executed k es (hThreadPool_run n m) + count_list (p_tasks p) (User k) \<and>
    list_all (\<lambda>t. t_pc t = Sleeping \<and> t_local t = []) (p_threads p)"
proof -
  have inv: "awake_inv p"
    using awake_pool_run [OF assms(1) awake_init assms(2)] .
  have "list_all (\<lambda>t. t_pc t = Sleeping \<and> t_local t = []) (p_threads p)"
    using quiet_locals [OF inv assms(3)] by (auto simp: list_all_iff in_set_conv_nth thr_def)
  then show ?thesis
    using held_pool_run [OF assms(1) pool_inv_init, of k] held_init quiet_held [OF inv assms(3)] by simp
qed

definition stranded_run :: "pool_event list" where
  "stranded_run = replicate 6 (Thread 0) @ [CallAdd 0 7, Client 0, Client 0] @ replicate 4 (Thread 0)"

definition stranded_pool :: hpool where
  "stranded_pool = \<lparr>p_tasks = [User 7], p_waiting = [0],
     p_threads = [\<lparr>t_local = [], t_running = True, t_pc = Sleeping, t_lock = False\<rparr>], p_nrunning = 1, p_clients = [Idle]\<rparr>"

lemma stranded_run_ends: "pool_run stranded_run (hThreadPool_run 1 1) = Some stranded_pool"
  by code_simp

lemma stranded_quiet: "quiet stranded_pool"
  by (simp add: quiet_def thread_step_def thr_def stranded_pool_def)

theorem pool_quiet_tasks_done_witness:
  "executed 7 stranded_run (hThreadPool_run 1 1) = 0"
proof -
  have "no_kill stranded_run"
    by (simp add: no_kill_def stranded_run_def)
  moreover have "submitted 7 stranded_run = 1"
    by code_simp
  ultimately show ?thesis
    using pool_quiet_tasks_done [OF stranded_run_ends _ stranded_quiet, of 7] by (simp add: stranded_pool_def)
qed

text \<open>
  The common queue, though, can be left with a task while every thread sleeps: the
  caller found no waiting thread, the thread looked at the queue before the task was pushed
  and went to sleep after it. The task waits until some other task is added.
\<close>

lemma pool_can_strand_a_task:
  "\<exists>es p. no_kill es \<and> pool_run es (hThreadPool_run 1 1) = Some p \<and> quiet p \<and>
     submitted 7 es = 1 \<and> executed 7 es (hThreadPool_run 1 1) = 0 \<and> p_tasks p = [User 7]"
proof -
  have "no_kill stranded_run"
    by (simp add: no_kill_def stranded_run_def)
  moreover have "submitted 7 stranded_run = 1" "executed 7 stranded_run (hThreadPool_run 1 1) = 0"
    by code_simp+
  ultimately show ?thesis
    using stranded_run_ends stranded_quiet
    by (intro exI [of _ stranded_run] exI [of _ stranded_pool]) (simp add: stranded_pool_def)
qed

text \<open>A client that has no thread in hand.\<close>

fun away :: "call_pc \<Rightarrow> bool" where
  "away Idle = True"
| "away (AddPop f) = True"
| "away (AddGlobal f) = True"
| "away (KillFlag i) = True"
| "away KillPop = True"
| "away _ = False"

lemma asleep_step:
  assumes "pool_step e p = Some p'" "\<And>i. e \<noteq> Spurious i"
    "length (p_threads p) = 1" "t_pc (thr p 0) = Sleeping" "p_waiting p = []"
    "list_all away (p_clients p)"
  shows "length (p_threads p') = 1 \<and> t_pc (thr p' 0) = Sleeping \<and> p_waiting p' = [] \<and> p_nrunning p' = p_nrunning p \<and>
    list_all away (p_clients p')"
proof -
  have upd: "list_all away ((p_clients p)[c := pc])" if "away pc" for c pc
    using assms(6) that set_update_subset_insert [of "p_clients p" c pc] unfolding list_all_iff by blast
  show ?thesis
  proof (cases e)
    case (Client c)
    then have c: "c < length (p_clients p)" "client_step c p = Some p'"
      using assms(1) by (auto simp: pool_step_def split: if_splits)
    then have "away (p_clients p ! c)"
      using assms(6) by (simp add: list_all_iff)
    then show ?thesis
      using c assms(3-5) upd
      by (cases "p_clients p ! c") (auto simp: client_step_def call_def upd_defs thr_def upd_thr_def split: if_splits)
  qed (use assms upd in \<open>auto simp: pool_step_def thread_step_def call_def thr_def split: if_splits\<close>)
qed

lemma asleep_run:
  "pool_run es p = Some p' \<Longrightarrow> \<forall>i. Spurious i \<notin> set es \<Longrightarrow>
    length (p_threads p) = 1 \<Longrightarrow> t_pc (thr p 0) = Sleeping \<Longrightarrow> p_waiting p = [] \<Longrightarrow>
    list_all away (p_clients p) \<Longrightarrow>
    t_pc (thr p' 0) = Sleeping \<and> p_nrunning p' = p_nrunning p"
proof (induction es arbitrary: p)
  case (Cons e es)
  then obtain q where q: "pool_step e p = Some q" "pool_run es q = Some p'"
    by (auto split: option.splits)
  have "\<And>i. e \<noteq> Spurious i"
    using Cons.prems(2) by auto
  from asleep_step [OF q(1) this Cons.prems(3-6)] Cons.IH [OF q(2)] Cons.prems(2) show ?case
    by simp
qed simp

definition lost_kill_run :: "pool_event list" where
  "lost_kill_run = replicate 9 (Thread 0) @ CallKill 0 # replicate 6 (Client 0) @ [Thread 0]"

definition lost_kill_pool :: hpool where
  "lost_kill_pool = \<lparr>p_tasks = [], p_waiting = [],
     p_threads = [\<lparr>t_local = [KillTask 0], t_running = False, t_pc = Sleeping, t_lock = False\<rparr>], p_nrunning = 1, p_clients = [Idle]\<rparr>"

lemma lost_kill_run_ends: "pool_run lost_kill_run (hThreadPool_run 1 1) = Some lost_kill_pool"
  by code_simp

text \<open>
  \<open>kill\<close> signals without the thread's mutex, and its wake-up can be lost: in some run a
  thread that has looked at its empty queue is handed its last task before it sleeps. From
  then on, whatever callers do, it sleeps and counts as running (unless it wakes by
  itself), so \<open>join\<close> does not return and the destructor calls \<open>kill\<close> for ever.
\<close>

lemma pool_kill_can_miss_a_thread:
  "\<exists>es p. pool_run es (hThreadPool_run 1 1) = Some p \<and> list_all (\<lambda>pc. pc = Idle) (p_clients p) \<and>
     \<not> t_running (thr p 0) \<and>
     (\<forall>es' p'. pool_run es' p = Some p' \<and> (\<forall>i. Spurious i \<notin> set es') \<longrightarrow>
        t_pc (thr p' 0) = Sleeping \<and> p_nrunning p' = 1)"
proof -
  have "t_pc (thr p' 0) = Sleeping \<and> p_nrunning p' = 1"
    if "pool_run es' lost_kill_pool = Some p' \<and> (\<forall>i. Spurious i \<notin> set es')" for es' p'
    using asleep_run [of es' lost_kill_pool p'] that by (simp add: lost_kill_pool_def thr_def)
  moreover have "list_all (\<lambda>pc. pc = Idle) (p_clients lost_kill_pool)" "\<not> t_running (thr lost_kill_pool 0)"
    by (simp_all add: lost_kill_pool_def thr_def)
  ultimately show ?thesis
    using lost_kill_run_ends by (intro exI [of _ lost_kill_run] exI [of _ lost_kill_pool]) simp
qed

lemma pool_kill_can_miss_a_thread_witness:
  "\<exists>es p. pool_run es (hThreadPool_run 1 1) = Some p \<and> \<not> t_running (thr p 0) \<and>
     t_pc (thr p 0) = Sleeping \<and> p_nrunning p = 1"
proof -
  obtain es p where p: "pool_run es (hThreadPool_run 1 1) = Some p" "\<not> t_running (thr p 0)"
      "\<forall>es' p'. pool_run es' p = Some p' \<and> (\<forall>i. Spurious i \<notin> set es') \<longrightarrow> t_pc (thr p' 0) = Sleeping \<and> p_nrunning p' = 1"
    using pool_kill_can_miss_a_thread by blast
  have "pool_run [] p = Some p \<and> (\<forall>i. Spurious i \<notin> set [])"
    by simp
  then show ?thesis
    using p by blast
qed

section \<open>The end of the pool\<close>

text \<open>\<open>join\<close> returns when every thread has returned.\<close>

definition hThreadPool_join :: "hpool \<Rightarrow> bool" where
  "hThreadPool_join p \<longleftrightarrow> list_all (\<lambda>t. t_pc t = Ended) (p_threads p)"

text \<open>
  The destructor at its look at \<^verbatim>\<open>m_nrunning_threads\<close>: it calls \<open>kill\<close> (as client \<open>c\<close>) and looks
  again, or deletes the threads. That of a thread which still runs is undefined, and so is
  \<^verbatim>\<open>pthread_detach\<close> of one that was joined.
\<close>

datatype delete_outcome = DeletesPool | KillsAgain hpool | DeletesLiveThread | DetachesJoined

definition hThreadPool_delete :: "nat \<Rightarrow> bool \<Rightarrow> hpool \<Rightarrow> delete_outcome" where
  "hThreadPool_delete c joined p =
     (if p_nrunning p > 0 then KillsAgain (call c (KillFlag 0) p)
      else if joined \<and> p_threads p \<noteq> [] then DetachesJoined
      else if list_ex (\<lambda>t. t_pc t \<noteq> Ended) (p_threads p) then DeletesLiveThread
      else DeletesPool)"

text \<open>The counter counts the threads between their first and their last step.\<close>

fun live_pc :: "run_pc \<Rightarrow> nat" where
  "live_pc Start = 0"
| "live_pc Ended = 0"
| "live_pc _ = 1"

definition live :: "hpool \<Rightarrow> nat" where
  "live p = tsum (\<lambda>t. live_pc (t_pc t)) p"

lemma live_same [simp]:
  "live (hThread_kill t p) = live p" "live (set_lock i b p) = live p" "live (hThread_addTask i f p) = live p"
  "live (call c pc p) = live p" "live (p\<lparr>p_tasks := q\<rparr>) = live p" "live (p\<lparr>p_waiting := w\<rparr>) = live p" "live (p\<lparr>p_nrunning := n\<rparr>) = live p"
  by (simp_all add: live_def hThread_kill_def set_lock_def hThread_addTask_def tsum_upd_same)

lemma nrunning_same [simp]:
  "p_nrunning (hThread_kill t p) = p_nrunning p" "p_nrunning (set_lock i b p) = p_nrunning p"
  "p_nrunning (hThread_addTask i f p) = p_nrunning p" "p_nrunning (go i pc p) = p_nrunning p"
  by (simp_all add: upd_defs)

lemma live_run_task [simp]: "live (run_task f p) = live p" "p_nrunning (run_task f p) = p_nrunning p"
  by (cases f; simp)+

lemma live_go: "i < length (p_threads p) \<Longrightarrow> live (go i pc p) + live_pc (t_pc (thr p i)) = live p + live_pc pc"
  using tsum_upd [of i p "\<lambda>t. live_pc (t_pc t)" "\<lambda>t. t\<lparr>t_pc := pc\<rparr>"] by (simp add: live_def go_def)

lemma live_kick [simp]: "live (hThread_kick i p) = live p" "p_nrunning (hThread_kick i p) = p_nrunning p"
proof -
  show "live (hThread_kick i p) = live p"
  proof (cases "i < length (p_threads p)")
    case True
    then show ?thesis
      using live_go [of i p Woken] by (auto simp: hThread_kick_def)
  next
    case False
    then show ?thesis
      by (simp add: hThread_kick_def go_def upd_thr_def list_update_beyond)
  qed
qed (simp add: hThread_kick_def)

lemma live_upd:
  "i < length (p_threads p) \<Longrightarrow> live (upd_thr i g p) + live_pc (t_pc (thr p i)) = live p + live_pc (t_pc (g (thr p i)))"
  using tsum_upd [of i p "\<lambda>t. live_pc (t_pc t)" g] by (simp add: live_def)

lemma nrunning_thread_step:
  assumes "thread_step i p = Some p'" and i: "i < length (p_threads p)" and ok: "p_nrunning p = live p"
  shows "p_nrunning p' = live p'"
proof -
  note go_i = live_go [OF i]
  have run: "live (go i pc (run_task f p)) + live_pc (t_pc (thr p i)) = live p + live_pc pc" for pc f
    using live_go [of i "run_task f p" pc] i by simp
  have lock: "live (go i pc (set_lock i b p)) + live_pc (t_pc (thr p i)) = live p + live_pc pc" for pc b
  proof -
    have "length (p_threads (set_lock i b p)) = length (p_threads p)" "t_pc (thr (set_lock i b p) i) = t_pc (thr p i)"
      using i by (simp_all add: set_lock_def)
    then show ?thesis
      using live_go [of i "set_lock i b p" pc] i by simp
  qed
  have waiting: "live (go i pc (p\<lparr>p_waiting := w\<rparr>)) = live (go i pc p)" "live (go i pc (p\<lparr>p_tasks := w'\<rparr>)) = live (go i pc p)" for pc w w'
    by (simp_all add: go_def)
  show ?thesis
  proof (cases "t_pc (thr p i)")
    case LocalTop
    show ?thesis
    proof (cases "t_local (thr p i)")
      case (Cons f q)
      then show ?thesis
        using assms(1) ok LocalTop live_upd [OF i, of "\<lambda>t. t\<lparr>t_local := q, t_pc := LocalRun f\<rparr>"]
        by (auto simp: thread_step_def)
    qed (use assms(1) ok LocalTop go_i [of Check1] in \<open>auto simp: thread_step_def\<close>)
  next
    case GlobalTop
    then show ?thesis
      using assms(1) ok go_i [of Check2] go_i [of "GlobalRun (hd (p_tasks p))"]
      by (cases "p_tasks p") (auto simp: thread_step_def waiting)
  next
    case (LocalRun f)
    then show ?thesis
      using assms(1) ok run [of LocalTop f] by (auto simp: thread_step_def)
  next
    case (GlobalRun f)
    then show ?thesis
      using assms(1) ok run [of GlobalTop f] by (auto simp: thread_step_def)
  qed (use assms(1) ok go_i [of LoopTop] go_i [of LocalTop] go_i [of Ended] go_i [of GlobalTop] go_i [of Enqueue]
      go_i [of WaitLock] go_i [of WaitEnd] go_i [of WaitBlock] lock [of WaitTest True] lock [of Sleeping False]
      lock [of LoopTop False] in \<open>auto simp: thread_step_def Let_def thread_end_def waiting split: if_splits\<close>)
qed

lemma nrunning_client_step: "client_step c p = Some p' \<Longrightarrow> p_nrunning p = live p \<Longrightarrow> p_nrunning p' = live p'"
  by (cases "p_clients p ! c") (auto simp: client_step_def split: if_splits list.splits)

lemma nrunning_step: "pool_step e p = Some p' \<Longrightarrow> p_nrunning p = live p \<Longrightarrow> p_nrunning p' = live p'"
proof (cases e)
  case (Spurious i)
  moreover assume "pool_step e p = Some p'" "p_nrunning p = live p"
  ultimately show ?thesis
    using live_go [of i p Woken] by (auto simp: pool_step_def split: if_splits)
qed (auto simp: pool_step_def nrunning_thread_step nrunning_client_step split: if_splits)

lemma nrunning_run: "pool_run es p = Some p' \<Longrightarrow> p_nrunning p = live p \<Longrightarrow> p_nrunning p' = live p'"
  by (induction es arbitrary: p) (auto split: option.splits dest: nrunning_step)

lemma live_zero: "live p = 0 \<longleftrightarrow> list_all (\<lambda>t. t_pc t = Start \<or> t_pc t = Ended) (p_threads p)"
proof -
  have "live_pc pc = 0 \<longleftrightarrow> pc = Start \<or> pc = Ended" for pc
    by (cases pc) simp_all
  then show ?thesis
    by (auto simp: live_def tsum_def list_all_iff)
qed

text \<open>
  In every run: when the destructor stops calling \<open>kill\<close>, each thread has ended or has not
  started yet; a thread of the second kind is deleted and then runs. Right after \<open>run\<close> that is the
  case. After \<open>join\<close>, the destructor detaches threads that are gone.
\<close>

lemma pool_delete_outcome:
  assumes "pool_run es (hThreadPool_run n m) = Some p" "p_nrunning p = 0"
  shows "list_all (\<lambda>t. t_pc t = Start \<or> t_pc t = Ended) (p_threads p) \<and>
    (hThreadPool_delete c False p = DeletesPool \<longleftrightarrow> hThreadPool_join p) \<and>
    (hThreadPool_delete c False p = DeletesLiveThread \<longleftrightarrow> list_ex (\<lambda>t. t_pc t = Start) (p_threads p)) \<and>
    (hThreadPool_delete c True p = DetachesJoined \<longleftrightarrow> p_threads p \<noteq> [])"
proof -
  have "live (hThreadPool_run n m) = 0"
    by (simp add: live_zero hThreadPool_run_def hThreadPool_new_def hThread_new_def list_all_iff Let_def)
  then have "live p = 0"
    using nrunning_run [OF assms(1)] assms(2) by (simp add: hThreadPool_run_def hThreadPool_new_def Let_def)
  then show ?thesis
    using assms(2) by (auto simp: live_zero hThreadPool_delete_def hThreadPool_join_def list_all_iff list_ex_iff)
qed

lemma pool_delete_at_once: "0 < n \<Longrightarrow> hThreadPool_delete c False (hThreadPool_run n m) = DeletesLiveThread"
  by (auto simp: hThreadPool_delete_def hThreadPool_run_def hThreadPool_new_def hThread_new_def list_ex_iff Let_def)

end
