(* ===== verification/TaskLauncher.thy ===== *)
theory TaskLauncher
  imports Hi_Prelude "HOL-Library.Multiset"
begin

text \<open>
  \<^verbatim>\<open>threads/tasklauncher.cpp\<close>: tasks given to a pool at most \<open>max_parallel\<close> at a time. The
  state has the queue, the counters and the tasks that the pool has and has not finished
  yet; one method call is one step, and a run is any sequence of calls, with the pool
  running its tasks in any order. The counters are those of fewer than \<open>2^64\<close> launches.
\<close>

section \<open>The code\<close>

datatype task_ret = RELAUNCH | NO_RELAUNCH

record 't launcher =
  task_q :: "'t list"
  tasks_launched :: nat
  tasks_finished :: nat
  all_tasks_finished :: bool
  max_parallel :: nat
  no_more_tasks :: bool
  finish_lock :: bool
  in_pool :: "'t list"
  on_finished_calls :: nat

definition TaskLauncher_new :: "nat \<Rightarrow> 't launcher" where
  "TaskLauncher_new max_par = \<lparr>task_q = [], tasks_launched = 0, tasks_finished = 0, all_tasks_finished = False,
     max_parallel = max_par, no_more_tasks = False, finish_lock = False, in_pool = [], on_finished_calls = 0\<rparr>"

definition countRunning :: "'t launcher \<Rightarrow> nat" where
  "countRunning s = tasks_launched s - tasks_finished s"

definition launch :: "'t \<Rightarrow> 't launcher \<Rightarrow> 't launcher" where
  "launch task s = s\<lparr>tasks_launched := tasks_launched s + 1, in_pool := in_pool s @ [task]\<rparr>"

function checkLaunch :: "'t launcher \<Rightarrow> 't launcher" where
  "checkLaunch s =
     (if countRunning s < max_parallel s then
        (case task_q s of
           [] \<Rightarrow> s
         | f # q \<Rightarrow> checkLaunch (launch f (s\<lparr>task_q := q\<rparr>)))
      else s)"
  by pat_completeness auto
termination by (relation "measure (\<lambda>s. length (task_q s))") (auto simp: launch_def)

declare checkLaunch.simps [simp del]

definition addTask :: "'t \<Rightarrow> 't launcher \<Rightarrow> 't launcher" where
  "addTask task s = checkLaunch (s\<lparr>task_q := task_q s @ [task]\<rparr>)"

text \<open>\<^verbatim>\<open>finish_lock\<close> is not released on the early return.\<close>

definition checkFinished :: "'t launcher \<Rightarrow> 't launcher" where
  "checkFinished s =
     (if tasks_launched s = tasks_finished s \<and> no_more_tasks s \<and> task_q s = [] then
        (if \<not> finish_lock s then
           (if all_tasks_finished s then s\<lparr>finish_lock := True\<rparr>
            else s\<lparr>all_tasks_finished := True, on_finished_calls := on_finished_calls s + 1, finish_lock := False\<rparr>)
         else s)
      else s)"

text \<open>The pool runs the task at place \<open>i\<close>, which returns \<open>ret\<close>.\<close>

definition run_Task :: "nat \<Rightarrow> task_ret \<Rightarrow> 't launcher \<Rightarrow> 't launcher" where
  "run_Task i ret s =
     (let task = in_pool s ! i;
          s = s\<lparr>in_pool := take i (in_pool s) @ drop (i + 1) (in_pool s)\<rparr>;
          s = (if ret = RELAUNCH then addTask task s else s);
          s = s\<lparr>tasks_finished := tasks_finished s + 1\<rparr>
      in checkFinished (checkLaunch s))"

definition setMaxParallel :: "nat \<Rightarrow> 't launcher \<Rightarrow> 't launcher" where
  "setMaxParallel max_par s = s\<lparr>max_parallel := max_par\<rparr>"

definition setNoMoreTasks :: "'t launcher \<Rightarrow> 't launcher" where
  "setNoMoreTasks s = s\<lparr>no_more_tasks := True\<rparr>"

definition incLaunched :: "'t launcher \<Rightarrow> 't launcher" where
  "incLaunched s = s\<lparr>tasks_launched := tasks_launched s + 1\<rparr>"

datatype 't launcher_event = AddTask 't | RunTask nat task_ret | SetMaxParallel nat | SetNoMoreTasks

fun launcher_step :: "'t launcher_event \<Rightarrow> 't launcher \<Rightarrow> 't launcher" where
  "launcher_step (AddTask t) s = addTask t s"
| "launcher_step (RunTask i ret) s = (if i < length (in_pool s) then run_Task i ret s else s)"
| "launcher_step (SetMaxParallel n) s = setMaxParallel n s"
| "launcher_step SetNoMoreTasks s = setNoMoreTasks s"

definition launcher_run :: "'t launcher_event list \<Rightarrow> 't launcher \<Rightarrow> 't launcher" where
  "launcher_run es s = fold launcher_step es s"

section \<open>Lemmas\<close>

definition counters_ok :: "nat \<Rightarrow> 't launcher \<Rightarrow> bool" where
  "counters_ok extra s \<longleftrightarrow> tasks_launched s = tasks_finished s + length (in_pool s) + extra"

definition finish_ok :: "'t launcher \<Rightarrow> bool" where
  "finish_ok s \<longleftrightarrow> on_finished_calls s = of_bool (all_tasks_finished s) \<and> (finish_lock s \<longrightarrow> all_tasks_finished s)"

lemma checkLaunch_props:
  "counters_ok x s \<Longrightarrow>
   counters_ok x (checkLaunch s) \<and> mset (task_q (checkLaunch s)) + mset (in_pool (checkLaunch s)) = mset (task_q s) + mset (in_pool s) \<and>
   (task_q (checkLaunch s) = [] \<or> max_parallel s \<le> countRunning (checkLaunch s)) \<and>
   (countRunning s \<le> max_parallel s \<longrightarrow> countRunning (checkLaunch s) \<le> max_parallel s) \<and>
   max_parallel (checkLaunch s) = max_parallel s \<and> tasks_finished (checkLaunch s) = tasks_finished s \<and>
   no_more_tasks (checkLaunch s) = no_more_tasks s \<and> all_tasks_finished (checkLaunch s) = all_tasks_finished s \<and>
   finish_lock (checkLaunch s) = finish_lock s \<and> on_finished_calls (checkLaunch s) = on_finished_calls s"
proof (induction s rule: checkLaunch.induct)
  case (1 s)
  show ?case
  proof (cases "countRunning s < max_parallel s \<and> task_q s \<noteq> []")
    case False
    then have "checkLaunch s = s"
      by (subst checkLaunch.simps) (auto split: list.split)
    then show ?thesis
      using False 1(2) by auto
  next
    case True
    then obtain f q where q: "task_q s = f # q"
      by (cases "task_q s") auto
    let ?s = "launch f (s\<lparr>task_q := q\<rparr>)"
    have code: "checkLaunch s = checkLaunch ?s"
      using True q by (subst checkLaunch.simps) simp
    have "counters_ok x ?s"
      using 1(2) by (simp add: counters_ok_def launch_def)
    then show ?thesis
      unfolding code using 1(1) [OF _ q] True q 1(2)
      by (auto simp: launch_def countRunning_def counters_ok_def)
  qed
qed

lemma addTask_props:
  assumes "counters_ok x s"
  shows "counters_ok x (addTask t s) \<and>
   mset (task_q (addTask t s)) + mset (in_pool (addTask t s)) = add_mset t (mset (task_q s) + mset (in_pool s)) \<and>
   (countRunning s \<le> max_parallel s \<longrightarrow> countRunning (addTask t s) \<le> max_parallel s) \<and>
   (task_q (addTask t s) = [] \<or> max_parallel s \<le> countRunning (addTask t s)) \<and>
   max_parallel (addTask t s) = max_parallel s \<and> tasks_finished (addTask t s) = tasks_finished s \<and>
   no_more_tasks (addTask t s) = no_more_tasks s \<and> all_tasks_finished (addTask t s) = all_tasks_finished s \<and>
   finish_lock (addTask t s) = finish_lock s \<and> on_finished_calls (addTask t s) = on_finished_calls s"
proof -
  have "counters_ok x (s\<lparr>task_q := task_q s @ [t]\<rparr>)"
    using assms by (simp add: counters_ok_def)
  from checkLaunch_props [OF this] show ?thesis
    by (auto simp: addTask_def countRunning_def)
qed

lemma checkFinished_fields [simp]:
  "task_q (checkFinished s) = task_q s" "in_pool (checkFinished s) = in_pool s"
  "tasks_launched (checkFinished s) = tasks_launched s" "tasks_finished (checkFinished s) = tasks_finished s"
  "max_parallel (checkFinished s) = max_parallel s" "no_more_tasks (checkFinished s) = no_more_tasks s"
  "countRunning (checkFinished s) = countRunning s" "counters_ok x (checkFinished s) = counters_ok x s"
  by (simp_all add: checkFinished_def countRunning_def counters_ok_def)

lemma checkFinished_ok: "finish_ok s \<Longrightarrow> finish_ok (checkFinished s)"
  by (auto simp: checkFinished_def finish_ok_def)

text \<open>The launcher just before \<^verbatim>\<open>checkFinished\<close> in \<^verbatim>\<open>Task\<close>.\<close>

definition after_task :: "nat \<Rightarrow> task_ret \<Rightarrow> 't launcher \<Rightarrow> 't launcher" where
  "after_task i ret s =
     (let task = in_pool s ! i;
          s = s\<lparr>in_pool := take i (in_pool s) @ drop (i + 1) (in_pool s)\<rparr>;
          s = (if ret = RELAUNCH then addTask task s else s)
      in checkLaunch (s\<lparr>tasks_finished := tasks_finished s + 1\<rparr>))"

lemma run_Task_after: "run_Task i ret s = checkFinished (after_task i ret s)"
  by (simp add: run_Task_def after_task_def Let_def)

lemma mset_without: "i < length xs \<Longrightarrow> add_mset (xs ! i) (mset (take i xs) + mset (drop (Suc i) xs)) = mset xs"
  by (metis id_take_nth_drop mset.simps(2) mset_append union_mset_add_mset_right)

definition kept :: "task_ret \<Rightarrow> 't \<Rightarrow> 't multiset" where
  "kept ret t = (if ret = RELAUNCH then {#} else {#t#})"

lemma after_task_props:
  fixes s :: "'t launcher" and ret :: task_ret
  assumes ok: "counters_ok 0 s" and i: "i < length (in_pool s)"
  defines "s' \<equiv> after_task i ret s"
  shows "counters_ok 0 s' \<and>
   mset (task_q s') + mset (in_pool s') + kept ret (in_pool s ! i) = mset (task_q s) + mset (in_pool s) \<and>
   (countRunning s \<le> max_parallel s \<longrightarrow> countRunning s' \<le> max_parallel s) \<and>
   (task_q s' = [] \<or> max_parallel s \<le> countRunning s') \<and>
   max_parallel s' = max_parallel s \<and> no_more_tasks s' = no_more_tasks s \<and>
   all_tasks_finished s' = all_tasks_finished s \<and> finish_lock s' = finish_lock s \<and>
   on_finished_calls s' = on_finished_calls s"
proof -
  define s1 where "s1 = s\<lparr>in_pool := take i (in_pool s) @ drop (i + 1) (in_pool s)\<rparr>"
  define s2 where "s2 = (if ret = RELAUNCH then addTask (in_pool s ! i) s1 else s1)"
  have s1: "counters_ok 1 s1" "countRunning s1 = countRunning s" "max_parallel s1 = max_parallel s"
    "no_more_tasks s1 = no_more_tasks s" "all_tasks_finished s1 = all_tasks_finished s" "finish_lock s1 = finish_lock s"
    "on_finished_calls s1 = on_finished_calls s" "task_q s1 = task_q s"
    "add_mset (in_pool s ! i) (mset (in_pool s1)) = mset (in_pool s)"
    using ok i mset_without [OF i] by (simp_all add: s1_def counters_ok_def countRunning_def)
  have s2: "counters_ok 1 s2" "countRunning s \<le> max_parallel s \<longrightarrow> countRunning s2 \<le> max_parallel s" "max_parallel s2 = max_parallel s"
    "no_more_tasks s2 = no_more_tasks s" "all_tasks_finished s2 = all_tasks_finished s" "finish_lock s2 = finish_lock s"
    "on_finished_calls s2 = on_finished_calls s"
    "mset (task_q s2) + mset (in_pool s2) + kept ret (in_pool s ! i) = mset (task_q s) + mset (in_pool s)"
    using addTask_props [OF s1(1), of "in_pool s ! i"] s1 by (auto simp: s2_def kept_def simp flip: s1(9))
  define s3 where "s3 = s2\<lparr>tasks_finished := tasks_finished s2 + 1\<rparr>"
  have s3: "counters_ok 0 s3" "countRunning s \<le> max_parallel s \<longrightarrow> countRunning s3 \<le> max_parallel s"
    using s2(1,2) by (auto simp: s3_def counters_ok_def countRunning_def)
  have code: "s' = checkLaunch s3"
    by (simp add: s'_def after_task_def s3_def s2_def s1_def Let_def)
  show ?thesis
    unfolding code using checkLaunch_props [OF s3(1)] s3(2) s2 by (simp add: s3_def)
qed

section \<open>Runs\<close>

text \<open>The tasks that a run has added, and those that have ended for good.\<close>

fun added :: "'t launcher_event list \<Rightarrow> 't multiset" where
  "added [] = {#}"
| "added (e # es) = (case e of AddTask t \<Rightarrow> {#t#} | _ \<Rightarrow> {#}) + added es"

fun ended :: "'t launcher_event list \<Rightarrow> 't launcher \<Rightarrow> 't multiset" where
  "ended [] s = {#}"
| "ended (e # es) s =
     (case e of RunTask i ret \<Rightarrow> if i < length (in_pool s) then kept ret (in_pool s ! i) else {#} | _ \<Rightarrow> {#}) +
     ended es (launcher_step e s)"

definition launcher_inv :: "'t launcher \<Rightarrow> bool" where
  "launcher_inv s \<longleftrightarrow> counters_ok 0 s \<and> finish_ok s"

lemma launcher_step_inv: "launcher_inv s \<Longrightarrow> launcher_inv (launcher_step e s)"
proof (cases e)
  case (RunTask i ret)
  assume "launcher_inv s"
  then show ?thesis
    using after_task_props [of s i ret] checkFinished_ok [of "after_task i ret s"] RunTask
    by (simp add: launcher_inv_def run_Task_after) (simp add: finish_ok_def)
qed (use addTask_props [of 0 s] in \<open>auto simp: launcher_inv_def finish_ok_def counters_ok_def setMaxParallel_def setNoMoreTasks_def\<close>)

lemma launcher_run_inv: "launcher_inv s \<Longrightarrow> launcher_inv (launcher_run es s)"
  unfolding launcher_run_def by (induction es arbitrary: s) (simp_all add: launcher_step_inv)

lemma new_fields [simp]:
  "task_q (TaskLauncher_new m) = []" "in_pool (TaskLauncher_new m) = []" "max_parallel (TaskLauncher_new m) = m"
  by (simp_all add: TaskLauncher_new_def)

lemma launcher_init: "launcher_inv (TaskLauncher_new m)"
  by (simp add: launcher_inv_def counters_ok_def finish_ok_def TaskLauncher_new_def)

lemma launcher_step_tasks:
  assumes "launcher_inv s"
  shows "mset (task_q (launcher_step e s)) + mset (in_pool (launcher_step e s)) +
      (case e of RunTask i ret \<Rightarrow> if i < length (in_pool s) then kept ret (in_pool s ! i) else {#} | _ \<Rightarrow> {#}) =
    mset (task_q s) + mset (in_pool s) + (case e of AddTask t \<Rightarrow> {#t#} | _ \<Rightarrow> {#})"
  using assms addTask_props [of 0 s] after_task_props [of s]
  by (cases e) (simp_all add: launcher_inv_def run_Task_after setMaxParallel_def setNoMoreTasks_def)

lemma mset_chain:
  fixes a b :: "'a multiset"
  assumes "a + b + e = c + ad" "c + k = d + x"
  shows "a + b + (k + e) = d + (x + ad)"
proof -
  have "a + b + (k + e) = a + b + e + k"
    by (simp add: ac_simps)
  also have "\<dots> = c + k + ad"
    unfolding assms(1) by (simp add: ac_simps)
  finally show ?thesis
    unfolding assms(2) by (simp add: ac_simps)
qed

lemma launcher_run_tasks:
  "launcher_inv s \<Longrightarrow> mset (task_q (launcher_run es s)) + mset (in_pool (launcher_run es s)) + ended es s =
    mset (task_q s) + mset (in_pool s) + added es"
proof (induction es arbitrary: s)
  case (Cons e es)
  show ?case
    using mset_chain [OF Cons.IH [OF launcher_step_inv [OF Cons.prems], of e] launcher_step_tasks [OF Cons.prems, of e]]
    by (simp add: launcher_run_def)
qed (simp add: launcher_run_def)

definition limit_ok :: "'t launcher \<Rightarrow> bool" where
  "limit_ok s \<longleftrightarrow> countRunning s \<le> max_parallel s \<and> (task_q s = [] \<or> countRunning s = max_parallel s)"

lemma launcher_step_limit:
  assumes "launcher_inv s" "limit_ok s" "\<And>n. e \<noteq> SetMaxParallel n"
  shows "limit_ok (launcher_step e s) \<and> max_parallel (launcher_step e s) = max_parallel s"
proof (cases e)
  case (AddTask t)
  then show ?thesis
    using addTask_props [of 0 s t] assms by (simp add: launcher_inv_def limit_ok_def) (metis le_antisym)
next
  case (RunTask i ret)
  then show ?thesis
    using after_task_props [of s i ret] assms by (simp add: launcher_inv_def limit_ok_def run_Task_after) (metis le_antisym)
qed (use assms in \<open>auto simp: setNoMoreTasks_def limit_ok_def countRunning_def\<close>)

lemma launcher_run_limit:
  "launcher_inv s \<Longrightarrow> limit_ok s \<Longrightarrow> \<forall>n. SetMaxParallel n \<notin> set es \<Longrightarrow>
    limit_ok (launcher_run es s) \<and> max_parallel (launcher_run es s) = max_parallel s"
proof (induction es arbitrary: s)
  case (Cons e es)
  have e: "\<And>n. e \<noteq> SetMaxParallel n"
    using Cons.prems(3) by auto
  show ?case
    using Cons.IH [OF launcher_step_inv [OF Cons.prems(1)], of e] launcher_step_limit [OF Cons.prems(1,2) e] Cons.prems(3)
    by (simp add: launcher_run_def)
qed (simp add: launcher_run_def)

lemma limit_init: "limit_ok (TaskLauncher_new m)"
  by (simp add: limit_ok_def TaskLauncher_new_def countRunning_def)

text \<open>
  no task is lost or run twice: the tasks added are those in the queue, those in the
  pool and those that have returned \<open>NO_RELAUNCH\<close>; and with a fixed limit the pool never
  holds more than \<open>max_parallel\<close> of them, nor fewer while the queue is not empty.
\<close>

lemma launcher_runs_tasks:
  assumes "\<forall>n. SetMaxParallel n \<notin> set es"
  shows "let s = launcher_run es (TaskLauncher_new m) in
    mset (task_q s) + mset (in_pool s) + ended es (TaskLauncher_new m) = added es \<and>
    countRunning s = length (in_pool s) \<and> length (in_pool s) \<le> m \<and> (task_q s = [] \<or> length (in_pool s) = m)"
  using launcher_run_tasks [OF launcher_init, of es m] launcher_run_limit [OF launcher_init limit_init assms, of m]
    launcher_run_inv [OF launcher_init, of es m]
  by (simp add: Let_def launcher_inv_def counters_ok_def limit_ok_def countRunning_def) auto

lemma launcher_runs_tasks_witness:
  "length (in_pool (launcher_run [AddTask 5, AddTask 6, AddTask (7::nat), RunTask 1 RELAUNCH] (TaskLauncher_new 2))) \<le> 2"
  using launcher_runs_tasks [of "[AddTask 5, AddTask 6, AddTask (7::nat), RunTask 1 RELAUNCH]" 2] by (simp add: Let_def)

lemma checkLaunch_empty: "task_q s = [] \<Longrightarrow> checkLaunch s = s"
  by (subst checkLaunch.simps) simp

text \<open>
  \<open>onFinished\<close> is called at most once; and if \<open>setNoMoreTasks\<close> was called before the last
  task ends, the end of that task calls it.
\<close>

lemma launcher_finishes:
  "on_finished_calls (launcher_run es (TaskLauncher_new m)) \<le> 1 \<and>
   (let s = launcher_run es (TaskLauncher_new m) in
    no_more_tasks s \<and> on_finished_calls s = 0 \<and> in_pool s = [t] \<and> task_q s = [] \<longrightarrow>
      on_finished_calls (launcher_step (RunTask 0 NO_RELAUNCH) s) = 1)"
proof -
  have "launcher_inv (launcher_run es (TaskLauncher_new m))"
    by (rule launcher_run_inv [OF launcher_init])
  then show ?thesis
    by (auto simp: Let_def launcher_inv_def finish_ok_def counters_ok_def run_Task_def checkLaunch_empty checkFinished_def
        of_bool_def split: if_splits)
qed

lemma launcher_finishes_witness:
  "on_finished_calls (launcher_run [AddTask (5::nat), SetNoMoreTasks, RunTask 0 NO_RELAUNCH] (TaskLauncher_new 2)) = 1"
proof -
  define s where "s = launcher_run [AddTask (5::nat), SetNoMoreTasks] (TaskLauncher_new 2)"
  have "no_more_tasks s \<and> on_finished_calls s = 0 \<and> in_pool s = [5] \<and> task_q s = []"
    unfolding s_def by code_simp
  then show ?thesis
    using launcher_finishes [of "[AddTask (5::nat), SetNoMoreTasks]" 2 5, folded s_def]
    by (simp add: Let_def launcher_run_def s_def)
qed

section \<open>The end can be missed\<close>

definition idle :: "'t launcher \<Rightarrow> bool" where
  "idle s \<longleftrightarrow> in_pool s = [] \<and> task_q s = [] \<and> on_finished_calls s = 0"

lemma idle_step: "idle s \<Longrightarrow> \<forall>t. e \<noteq> AddTask t \<Longrightarrow> idle (launcher_step e s)"
  by (cases e) (auto simp: idle_def setMaxParallel_def setNoMoreTasks_def)

lemma idle_run: "idle s \<Longrightarrow> \<forall>t. AddTask t \<notin> set es \<Longrightarrow> idle (launcher_run es s)"
  unfolding launcher_run_def by (induction es arbitrary: s) (simp_all add: idle_step eq_commute)

lemma not_finished_run:
  "\<not> no_more_tasks s \<Longrightarrow> launcher_inv s \<Longrightarrow> on_finished_calls s = 0 \<Longrightarrow> SetNoMoreTasks \<notin> set es \<Longrightarrow>
    on_finished_calls (launcher_run es s) = 0"
proof (induction es arbitrary: s)
  case (Cons e es)
  have "\<not> no_more_tasks (launcher_step e s) \<and> on_finished_calls (launcher_step e s) = 0"
    using Cons.prems addTask_props [of 0 s] after_task_props [of s]
    by (cases e) (auto simp: launcher_inv_def run_Task_after checkFinished_def setMaxParallel_def)
  then show ?case
    using Cons.IH [of "launcher_step e s"] launcher_step_inv [OF Cons.prems(2), of e] Cons.prems(4) by (simp add: launcher_run_def)
qed (simp add: launcher_run_def)

text \<open>
  When the tasks have all ended before \<open>setNoMoreTasks\<close> is called, \<open>onFinished\<close> is not
  called, by it or by anything that follows but a new task.
\<close>

lemma launcher_misses_the_end:
  assumes "SetNoMoreTasks \<notin> set es" "in_pool (launcher_run es (TaskLauncher_new m)) = []"
    "task_q (launcher_run es (TaskLauncher_new m)) = []" "\<forall>t. AddTask t \<notin> set es'"
  shows "on_finished_calls (launcher_run (es @ SetNoMoreTasks # es') (TaskLauncher_new m)) = 0"
proof -
  have "on_finished_calls (launcher_run es (TaskLauncher_new m)) = 0"
    using not_finished_run [OF _ launcher_init _ assms(1), of m] by (simp add: TaskLauncher_new_def)
  then have "idle (launcher_run (SetNoMoreTasks # es') (launcher_run es (TaskLauncher_new m)))"
    using idle_run [of "launcher_run es (TaskLauncher_new m)" "SetNoMoreTasks # es'"] assms by (simp add: idle_def)
  then show ?thesis
    by (simp add: idle_def launcher_run_def)
qed

text \<open>A higher limit starts nothing by itself.\<close>

lemma setMaxParallel_starts_nothing: "in_pool (setMaxParallel n s) = in_pool s"
  by (simp add: setMaxParallel_def)

end
