(* ===== verification/EventWatcher.thy ===== *)
theory EventWatcher
  imports Hi_Prelude
begin

text \<open>
  \<^verbatim>\<open>events/EventWatcherEpoll.cpp\<close> and \<^verbatim>\<open>events/EventWatcherKqueue.cpp\<close>. The kernel is a
  parameter: \<open>ctl\<close> for \<^verbatim>\<open>epoll_ctl\<close>, \<open>kevent\<close> for the changes of \<^verbatim>\<open>kevent\<close>, with what the
  manual pages say of them as the laws of the locales \<open>epoll_kernel\<close> and \<open>kqueue_kernel\<close>. A
  result \<open>None\<close> is a call of \<^verbatim>\<open>exit\<close>. The contract that the users of a watcher rely on is the
  locale \<open>event_watcher\<close>: the kqueue watcher has it, the epoll watcher has not.
\<close>

section \<open>The code\<close>

definition HI_ACCEPT :: u32 where "HI_ACCEPT = push_bit 0 1"
definition HI_READ :: u32 where "HI_READ = push_bit 2 1"
definition HI_WRITE :: u32 where "HI_WRITE = push_bit 3 1"

definition EPOLLIN :: u32 where "EPOLLIN = 0x1"
definition EPOLLOUT :: u32 where "EPOLLOUT = 0x4"
definition EPOLLRDHUP :: u32 where "EPOLLRDHUP = 0x2000"
definition EPOLLET :: u32 where "EPOLLET = 0x80000000"

text \<open>A call of one of the four functions given to the constructor.\<close>

datatype event_call = OnRead int | OnWrite int | OnError int | OnAccept int

definition has_bit :: "u32 \<Rightarrow> u32 \<Rightarrow> bool" where
  "has_bit m b \<longleftrightarrow> m AND b \<noteq> 0"

text \<open>What a socket that can be read is reported as.\<close>

definition read_call :: "(int \<Rightarrow> u32 option) \<Rightarrow> int \<Rightarrow> event_call" where
  "read_call masks fd = (case masks fd of None \<Rightarrow> OnRead fd
     | Some m \<Rightarrow> if has_bit m HI_ACCEPT then OnAccept fd else OnRead fd)"

subsection \<open>epoll\<close>

datatype ctl_op = EPOLL_CTL_ADD | EPOLL_CTL_MOD | EPOLL_CTL_DEL

text \<open>An error of \<^verbatim>\<open>epoll_ctl\<close>, with whether \<^verbatim>\<open>errno\<close> is \<^verbatim>\<open>EBADF\<close>.\<close>

datatype 'k ctl_result = CtlOk 'k | CtlError bool

record 'k epoll_watcher =
  m_epoll :: 'k
  e_masks :: "int \<Rightarrow> u32 option"

definition EventWatcherEpoll_new :: "'k \<Rightarrow> 'k epoll_watcher" where
  "EventWatcherEpoll_new k = \<lparr>m_epoll = k, e_masks = \<lambda>_. None\<rparr>"

definition epoll_addSocket ::
  "(ctl_op \<Rightarrow> int \<Rightarrow> u32 \<Rightarrow> 'k \<Rightarrow> 'k ctl_result) \<Rightarrow> int \<Rightarrow> u32 \<Rightarrow> 'k epoll_watcher \<Rightarrow> 'k epoll_watcher option" where
  "epoll_addSocket ctl fd msk w =
     (let ev = EPOLLET;
          ev = (if has_bit msk HI_READ then ev OR EPOLLIN else ev);
          ev = (if has_bit msk HI_WRITE then ev OR EPOLLOUT else ev);
          w = w\<lparr>e_masks := (e_masks w)(fd := Some msk)\<rparr>
      in case ctl EPOLL_CTL_ADD fd ev (m_epoll w) of
           CtlError _ \<Rightarrow> None
         | CtlOk k \<Rightarrow> Some (w\<lparr>m_epoll := k\<rparr>))"

text \<open>The new event word has neither the events that were enabled before nor \<^verbatim>\<open>EPOLLET\<close>.\<close>

definition epoll_enableEvents ::
  "(ctl_op \<Rightarrow> int \<Rightarrow> u32 \<Rightarrow> 'k \<Rightarrow> 'k ctl_result) \<Rightarrow> int \<Rightarrow> u32 \<Rightarrow> 'k epoll_watcher \<Rightarrow> 'k epoll_watcher option" where
  "epoll_enableEvents ctl fd msk' w =
     (case e_masks w fd of
        None \<Rightarrow> Some w
      | Some msk \<Rightarrow>
          (let need_enable = NOT msk AND msk';
               epoll_mask = 0;
               epoll_mask = (if has_bit need_enable HI_READ then epoll_mask OR EPOLLIN else epoll_mask);
               epoll_mask = (if has_bit need_enable HI_WRITE then epoll_mask OR EPOLLOUT else epoll_mask);
               w = w\<lparr>e_masks := (e_masks w)(fd := Some (msk OR need_enable))\<rparr>
           in case ctl EPOLL_CTL_MOD fd epoll_mask (m_epoll w) of
                CtlError _ \<Rightarrow> None
              | CtlOk k \<Rightarrow> Some (w\<lparr>m_epoll := k\<rparr>)))"

definition epoll_delSocket ::
  "(ctl_op \<Rightarrow> int \<Rightarrow> u32 \<Rightarrow> 'k \<Rightarrow> 'k ctl_result) \<Rightarrow> int \<Rightarrow> 'k epoll_watcher \<Rightarrow> 'k epoll_watcher option" where
  "epoll_delSocket ctl fd w =
     (case e_masks w fd of
        None \<Rightarrow> Some w
      | Some _ \<Rightarrow>
          (case ctl EPOLL_CTL_DEL fd 0 (m_epoll w) of
             CtlError ebadf \<Rightarrow> if ebadf then Some (w\<lparr>e_masks := (e_masks w)(fd := None)\<rparr>) else None
           | CtlOk k \<Rightarrow> Some (w\<lparr>m_epoll := k, e_masks := (e_masks w)(fd := None)\<rparr>)))"

text \<open>
  The handlers may change the state that they share with the watcher; \<open>masks\<close> reads the
  watcher's table in it. A handler that ends the process gives \<open>None\<close>.
\<close>

definition epoll_event ::
  "('s \<Rightarrow> int \<Rightarrow> u32 option) \<Rightarrow> (event_call \<Rightarrow> 's \<Rightarrow> 's option) \<Rightarrow> int \<times> u32 \<Rightarrow> 's \<Rightarrow> 's option" where
  "epoll_event masks cb e s =
     (let (fd, fevent) = e in
      case (if has_bit fevent EPOLLIN then cb (read_call (masks s) fd) s else Some s) of
        None \<Rightarrow> None
      | Some s \<Rightarrow>
          (case (if has_bit fevent EPOLLOUT then cb (OnWrite fd) s else Some s) of
             None \<Rightarrow> None
           | Some s \<Rightarrow> if has_bit fevent EPOLLRDHUP then cb (OnError fd) s else Some s))"

fun epoll_events ::
  "('s \<Rightarrow> int \<Rightarrow> u32 option) \<Rightarrow> (event_call \<Rightarrow> 's \<Rightarrow> 's option) \<Rightarrow> (int \<times> u32) list \<Rightarrow> 's \<Rightarrow> 's option" where
  "epoll_events masks cb [] s = Some s"
| "epoll_events masks cb (e # es) s =
     (case epoll_event masks cb e s of None \<Rightarrow> None | Some s \<Rightarrow> epoll_events masks cb es s)"

datatype wait_result = Events "(int \<times> u32) list" | WaitInterrupted | WaitFailed

definition epoll_handleEvents ::
  "('s \<Rightarrow> int \<Rightarrow> u32 option) \<Rightarrow> (event_call \<Rightarrow> 's \<Rightarrow> 's option) \<Rightarrow> wait_result \<Rightarrow> 's \<Rightarrow> 's option" where
  "epoll_handleEvents masks cb r s =
     (case r of WaitInterrupted \<Rightarrow> Some s | WaitFailed \<Rightarrow> None | Events es \<Rightarrow> epoll_events masks cb es s)"

subsection \<open>kqueue\<close>

datatype kfilter = EVFILT_READ | EVFILT_WRITE

text \<open>A change of the two kinds that the code makes: \<^verbatim>\<open>EV_ADD | EV_CLEAR\<close> (an event is reported once) and \<^verbatim>\<open>EV_DELETE\<close>.\<close>

datatype kchange = EV_ADD_CLEAR int kfilter | EV_DELETE int kfilter

record 'k kqueue_watcher =
  m_kqueue :: 'k
  k_masks :: "int \<Rightarrow> u32 option"

definition EventWatcherKqueue_new :: "'k option \<Rightarrow> 'k kqueue_watcher option" where
  "EventWatcherKqueue_new k = (case k of None \<Rightarrow> None | Some k \<Rightarrow> Some \<lparr>m_kqueue = k, k_masks = \<lambda>_. None\<rparr>)"

definition changes :: "(int \<Rightarrow> kfilter \<Rightarrow> kchange) \<Rightarrow> int \<Rightarrow> u32 \<Rightarrow> kchange list" where
  "changes ev fd msk =
     (if has_bit msk HI_READ then [ev fd EVFILT_READ] else []) @
     (if has_bit msk HI_WRITE then [ev fd EVFILT_WRITE] else [])"

definition kqueue_addSocket ::
  "(kchange list \<Rightarrow> 'k \<Rightarrow> 'k option) \<Rightarrow> int \<Rightarrow> u32 \<Rightarrow> 'k kqueue_watcher \<Rightarrow> 'k kqueue_watcher option" where
  "kqueue_addSocket kevent fd msk w =
     (let ev = changes EV_ADD_CLEAR fd msk;
          w = w\<lparr>k_masks := (k_masks w)(fd := Some msk)\<rparr>
      in case kevent ev (m_kqueue w) of None \<Rightarrow> None | Some k \<Rightarrow> Some (w\<lparr>m_kqueue := k\<rparr>))"

definition kqueue_enableEvents ::
  "(kchange list \<Rightarrow> 'k \<Rightarrow> 'k option) \<Rightarrow> int \<Rightarrow> u32 \<Rightarrow> 'k kqueue_watcher \<Rightarrow> 'k kqueue_watcher option" where
  "kqueue_enableEvents kevent fd msk' w =
     (case k_masks w fd of
        None \<Rightarrow> Some w
      | Some msk \<Rightarrow>
          (let need_enable = NOT msk AND msk';
               ev = changes EV_ADD_CLEAR fd need_enable;
               w = w\<lparr>k_masks := (k_masks w)(fd := Some (msk OR need_enable))\<rparr>
           in case kevent ev (m_kqueue w) of None \<Rightarrow> None | Some k \<Rightarrow> Some (w\<lparr>m_kqueue := k\<rparr>)))"

text \<open>A failure to delete is printed and the socket is forgotten all the same.\<close>

definition kqueue_delSocket ::
  "(kchange list \<Rightarrow> 'k \<Rightarrow> 'k option) \<Rightarrow> int \<Rightarrow> 'k kqueue_watcher \<Rightarrow> 'k kqueue_watcher option" where
  "kqueue_delSocket kevent fd w =
     (case k_masks w fd of
        None \<Rightarrow> Some w
      | Some msk \<Rightarrow>
          (let ev = changes EV_DELETE fd msk;
               w = (case kevent ev (m_kqueue w) of None \<Rightarrow> w | Some k \<Rightarrow> w\<lparr>m_kqueue := k\<rparr>)
           in Some (w\<lparr>k_masks := (k_masks w)(fd := None)\<rparr>)))"

text \<open>An event: the socket, \<^verbatim>\<open>flags\<close> and the filter.\<close>

definition EV_ERROR :: u32 where "EV_ERROR = 0x4000"

fun kqueue_events ::
  "('s \<Rightarrow> int \<Rightarrow> u32 option) \<Rightarrow> (event_call \<Rightarrow> 's \<Rightarrow> 's option) \<Rightarrow> (int \<times> u32 \<times> kfilter) list \<Rightarrow> 's \<Rightarrow> 's option" where
  "kqueue_events masks cb [] s = Some s"
| "kqueue_events masks cb ((fd, flags, flt) # es) s =
     (case cb (if flags = EV_ERROR then OnError fd
               else if flt = EVFILT_WRITE then OnWrite fd
               else read_call (masks s) fd) s of
        None \<Rightarrow> None | Some s \<Rightarrow> kqueue_events masks cb es s)"

definition kqueue_handleEvents ::
  "('s \<Rightarrow> int \<Rightarrow> u32 option) \<Rightarrow> (event_call \<Rightarrow> 's \<Rightarrow> 's option) \<Rightarrow>
     (int \<times> u32 \<times> kfilter) list option \<Rightarrow> 's \<Rightarrow> 's option" where
  "kqueue_handleEvents masks cb r s =
     (case r of None \<Rightarrow> Some s | Some es \<Rightarrow> if es = [] then Some s else kqueue_events masks cb es s)"

section \<open>The contract of a watcher\<close>

datatype watch_op = Add int u32 | Enable int u32 | Del int

locale event_watcher =
  fixes add enable :: "int \<Rightarrow> u32 \<Rightarrow> 's \<Rightarrow> 's option" and del :: "int \<Rightarrow> 's \<Rightarrow> 's option"
    and inv :: "'s \<Rightarrow> bool" and known :: "'s \<Rightarrow> int \<Rightarrow> bool" and watched :: "'s \<Rightarrow> int \<Rightarrow> u32 \<Rightarrow> bool"
  assumes add_law: "inv s \<Longrightarrow> \<not> known s fd \<Longrightarrow>
      \<exists>s'. add fd m s = Some s' \<and> inv s' \<and> known s' = (known s)(fd := True) \<and>
        (\<forall>b \<in> {HI_READ, HI_WRITE}. \<forall>i. watched s' i b = (if i = fd then has_bit m b else watched s i b))"
    and enable_law: "inv s \<Longrightarrow> known s fd \<Longrightarrow>
      \<exists>s'. enable fd m s = Some s' \<and> inv s' \<and> known s' = known s \<and>
        (\<forall>b \<in> {HI_READ, HI_WRITE}. \<forall>i. watched s' i b = (watched s i b \<or> i = fd \<and> has_bit m b))"
    and enable_unknown: "inv s \<Longrightarrow> \<not> known s fd \<Longrightarrow> enable fd m s = Some s"
    and del_law: "inv s \<Longrightarrow>
      \<exists>s'. del fd s = Some s' \<and> inv s' \<and> known s' = (known s)(fd := False) \<and>
        (\<forall>b \<in> {HI_READ, HI_WRITE}. \<forall>i. watched s' i b = (i \<noteq> fd \<and> watched s i b))"

text \<open>
  A sequence of operations as its user sees it: the sockets with the events asked for.
  A socket is added only when it is not there.
\<close>

fun wanted :: "watch_op list \<Rightarrow> (int \<Rightarrow> u32 option) \<Rightarrow> (int \<Rightarrow> u32 option) option" where
  "wanted [] r = Some r"
| "wanted (Add fd m # ops) r = (if r fd = None then wanted ops (r(fd := Some m)) else None)"
| "wanted (Enable fd m # ops) r = wanted ops (case r fd of None \<Rightarrow> r | Some m' \<Rightarrow> r(fd := Some (m' OR m)))"
| "wanted (Del fd # ops) r = wanted ops (r(fd := None))"

fun watch_run ::
  "(int \<Rightarrow> u32 \<Rightarrow> 's \<Rightarrow> 's option) \<Rightarrow> (int \<Rightarrow> u32 \<Rightarrow> 's \<Rightarrow> 's option) \<Rightarrow> (int \<Rightarrow> 's \<Rightarrow> 's option) \<Rightarrow>
     watch_op list \<Rightarrow> 's \<Rightarrow> 's option" where
  "watch_run add enable del [] s = Some s"
| "watch_run add enable del (op # ops) s =
     (case (case op of Add fd m \<Rightarrow> add fd m s | Enable fd m \<Rightarrow> enable fd m s | Del fd \<Rightarrow> del fd s) of
        None \<Rightarrow> None | Some s \<Rightarrow> watch_run add enable del ops s)"

lemma has_bit_flag: "has_bit m HI_READ = bit m 2" "has_bit m HI_WRITE = bit m 3"
  unfolding has_bit_def HI_READ_def HI_WRITE_def by (simp_all only: bit_iff_and_push_bit_not_eq_0)

lemma has_bit_or [simp]: "has_bit (a OR b) HI_READ = (has_bit a HI_READ \<or> has_bit b HI_READ)"
    "has_bit (a OR b) HI_WRITE = (has_bit a HI_WRITE \<or> has_bit b HI_WRITE)"
  by (simp_all add: has_bit_flag bit_or_iff)

context event_watcher
begin

text \<open>The watcher watches exactly what its user asked for.\<close>

definition agrees :: "(int \<Rightarrow> u32 option) \<Rightarrow> 's \<Rightarrow> bool" where
  "agrees r s \<longleftrightarrow> inv s \<and> (\<forall>fd. known s fd = (r fd \<noteq> None)) \<and>
     (\<forall>b \<in> {HI_READ, HI_WRITE}. \<forall>fd. watched s fd b = (case r fd of None \<Rightarrow> False | Some m \<Rightarrow> has_bit m b))"

lemma run_agrees:
  assumes "wanted ops r = Some r'" "agrees r s"
  shows "\<exists>s'. watch_run add enable del ops s = Some s' \<and> agrees r' s'"
  using assms
proof (induction ops arbitrary: r s)
  case (Cons op ops)
  show ?case
  proof (cases op)
    case (Add fd m)
    then have "r fd = None" and *: "wanted ops (r(fd := Some m)) = Some r'"
      using Cons.prems(1) by (auto split: if_splits)
    then obtain s' where s': "add fd m s = Some s'" "agrees (r(fd := Some m)) s'"
      using add_law [of s fd m] Cons.prems(2) by (auto simp: agrees_def)
    show ?thesis
      using Cons.IH [OF * s'(2)] Add s'(1) by simp
  next
    case (Enable fd m)
    show ?thesis
    proof (cases "r fd")
      case None
      then have "enable fd m s = Some s"
        using enable_unknown [of s fd m] Cons.prems(2) by (simp add: agrees_def)
      then show ?thesis
        using Cons.IH Cons.prems Enable None by simp
    next
      case (Some m')
      then obtain s' where "enable fd m s = Some s'" "agrees (r(fd := Some (m' OR m))) s'"
        using enable_law [of s fd m] Cons.prems(2) by (auto simp: agrees_def)
      then show ?thesis
        using Cons.IH Cons.prems Enable Some by simp
    qed
  next
    case (Del fd)
    then obtain s' where "del fd s = Some s'" "agrees (r(fd := None)) s'"
      using del_law [of s fd] Cons.prems(2) by (auto simp: agrees_def)
    then show ?thesis
      using Cons.IH Cons.prems Del by simp
  qed
qed simp

end

section \<open>The watcher over kqueue\<close>

text \<open>
  The manual page: \<^verbatim>\<open>EV_ADD\<close> adds a filter or leaves it there, \<^verbatim>\<open>EV_DELETE\<close> removes one that
  is there. The descriptors are open and the kernel has memory.
\<close>

locale kqueue_kernel =
  fixes kevent :: "kchange list \<Rightarrow> 'k \<Rightarrow> 'k option" and reg :: "'k \<Rightarrow> int \<Rightarrow> kfilter \<Rightarrow> bool"
  assumes ev_add: "(\<And>c. c \<in> set cs \<Longrightarrow> \<exists>fd f. c = EV_ADD_CLEAR fd f) \<Longrightarrow>
      \<exists>k'. kevent cs k = Some k' \<and> (\<forall>fd f. reg k' fd f = (reg k fd f \<or> EV_ADD_CLEAR fd f \<in> set cs))"
    and ev_delete: "(\<And>c. c \<in> set cs \<Longrightarrow> \<exists>fd f. c = EV_DELETE fd f \<and> reg k fd f) \<Longrightarrow> distinct cs \<Longrightarrow>
      \<exists>k'. kevent cs k = Some k' \<and> (\<forall>fd f. reg k' fd f = (reg k fd f \<and> EV_DELETE fd f \<notin> set cs))"

fun filter_of :: "u32 \<Rightarrow> kfilter" where
  "filter_of b = (if b = HI_WRITE then EVFILT_WRITE else EVFILT_READ)"

lemma bits_distinct [simp]: "HI_READ \<noteq> HI_WRITE" "HI_WRITE \<noteq> HI_READ"
  by (simp_all add: HI_READ_def HI_WRITE_def)

lemma set_changes:
  "c \<in> set (changes ev fd m) \<longleftrightarrow>
     has_bit m HI_READ \<and> c = ev fd EVFILT_READ \<or> has_bit m HI_WRITE \<and> c = ev fd EVFILT_WRITE"
  by (auto simp: changes_def)

lemma distinct_changes: "distinct (changes EV_DELETE fd m)"
  by (simp add: changes_def)

lemma has_bit_new:
  "has_bit (NOT m AND m') HI_READ = (\<not> has_bit m HI_READ \<and> has_bit m' HI_READ)"
  "has_bit (NOT m AND m') HI_WRITE = (\<not> has_bit m HI_WRITE \<and> has_bit m' HI_WRITE)"
  by (auto simp: has_bit_flag bit_and_iff bit_not_iff)

context kqueue_kernel
begin

definition kq_inv :: "'k kqueue_watcher \<Rightarrow> bool" where
  "kq_inv w \<longleftrightarrow> (\<forall>fd. \<forall>b \<in> {HI_READ, HI_WRITE}. reg (m_kqueue w) fd (filter_of b) =
     (case k_masks w fd of None \<Rightarrow> False | Some m \<Rightarrow> has_bit m b))"

lemma kq_add:
  assumes "kq_inv w" "k_masks w fd = None"
  shows "\<exists>w'. kqueue_addSocket kevent fd m w = Some w' \<and> kq_inv w' \<and> k_masks w' = (k_masks w)(fd := Some m)"
proof -
  obtain k' where "kevent (changes EV_ADD_CLEAR fd m) (m_kqueue w) = Some k'"
    "\<forall>i f. reg k' i f = (reg (m_kqueue w) i f \<or> EV_ADD_CLEAR i f \<in> set (changes EV_ADD_CLEAR fd m))"
    using ev_add [of "changes EV_ADD_CLEAR fd m" "m_kqueue w"] by (auto simp: set_changes)
  then show ?thesis
    using assms by (auto simp: kqueue_addSocket_def kq_inv_def set_changes)
qed

lemma kq_enable:
  assumes "kq_inv w" "k_masks w fd = Some m'"
  shows "\<exists>w' m''. kqueue_enableEvents kevent fd m w = Some w' \<and> kq_inv w' \<and> k_masks w' = (k_masks w)(fd := Some m'') \<and>
    (\<forall>b \<in> {HI_READ, HI_WRITE}. has_bit m'' b = (has_bit m' b \<or> has_bit m b))"
proof -
  let ?cs = "changes EV_ADD_CLEAR fd (NOT m' AND m)"
  obtain k' where "kevent ?cs (m_kqueue w) = Some k'"
    "\<forall>i f. reg k' i f = (reg (m_kqueue w) i f \<or> EV_ADD_CLEAR i f \<in> set ?cs)"
    using ev_add [of ?cs "m_kqueue w"] by (auto simp: set_changes)
  then show ?thesis
    using assms by (auto simp: kqueue_enableEvents_def kq_inv_def set_changes has_bit_new)
qed

lemma kq_del:
  assumes "kq_inv w"
  shows "\<exists>w'. kqueue_delSocket kevent fd w = Some w' \<and> kq_inv w' \<and> k_masks w' = (k_masks w)(fd := None)"
proof (cases "k_masks w fd")
  case None
  then show ?thesis
    using assms by (auto simp: kqueue_delSocket_def)
next
  case (Some m)
  let ?cs = "changes EV_DELETE fd m"
  have "\<exists>fd f. c = EV_DELETE fd f \<and> reg (m_kqueue w) fd f" if "c \<in> set ?cs" for c
    using that assms Some by (auto simp: set_changes kq_inv_def)
  from ev_delete [of ?cs, OF this distinct_changes] obtain k' where
    "kevent ?cs (m_kqueue w) = Some k'" "\<forall>i f. reg k' i f = (reg (m_kqueue w) i f \<and> EV_DELETE i f \<notin> set ?cs)"
    by auto
  then show ?thesis
    using assms Some by (auto simp: kqueue_delSocket_def kq_inv_def set_changes)
qed

end

sublocale kqueue_kernel \<subseteq> kq: event_watcher "kqueue_addSocket kevent" "kqueue_enableEvents kevent"
  "kqueue_delSocket kevent" kq_inv "\<lambda>w fd. k_masks w fd \<noteq> None" "\<lambda>w fd b. reg (m_kqueue w) fd (filter_of b)"
proof (unfold_locales, goal_cases)
  case (1 w fd m)
  then obtain w' where "kqueue_addSocket kevent fd m w = Some w'" "kq_inv w'" "k_masks w' = (k_masks w)(fd := Some m)"
    using kq_add by blast
  then show ?case
    using 1 by (auto simp: fun_eq_iff kq_inv_def)
next
  case (2 w fd m)
  then obtain m' where "k_masks w fd = Some m'"
    by blast
  from kq_enable [OF 2(1) this, of m] obtain w' m'' where
    "kqueue_enableEvents kevent fd m w = Some w'" "kq_inv w'" "k_masks w' = (k_masks w)(fd := Some m'')"
    "\<forall>b \<in> {HI_READ, HI_WRITE}. has_bit m'' b = (has_bit m' b \<or> has_bit m b)"
    by blast
  then show ?case
    using 2 \<open>k_masks w fd = Some m'\<close> by (auto simp: fun_eq_iff kq_inv_def)
next
  case (3 w fd m)
  then show ?case
    by (simp add: kqueue_enableEvents_def)
next
  case (4 w fd)
  then obtain w' where "kqueue_delSocket kevent fd w = Some w'" "kq_inv w'" "k_masks w' = (k_masks w)(fd := None)"
    using kq_del by blast
  then show ?case
    using 4 by (auto simp: fun_eq_iff kq_inv_def)
qed

context kqueue_kernel
begin

lemma kq_watch:
  assumes "\<forall>fd f. \<not> reg k fd f" "wanted ops (\<lambda>_. None) = Some r"
  shows "\<exists>w. watch_run (kqueue_addSocket kevent) (kqueue_enableEvents kevent) (kqueue_delSocket kevent) ops
      \<lparr>m_kqueue = k, k_masks = \<lambda>_. None\<rparr> = Some w \<and>
    (\<forall>fd. reg (m_kqueue w) fd EVFILT_READ = (case r fd of None \<Rightarrow> False | Some m \<Rightarrow> has_bit m HI_READ)) \<and>
    (\<forall>fd. reg (m_kqueue w) fd EVFILT_WRITE = (case r fd of None \<Rightarrow> False | Some m \<Rightarrow> has_bit m HI_WRITE))"
proof -
  have "kq.agrees (\<lambda>_. None) \<lparr>m_kqueue = k, k_masks = \<lambda>_. None\<rparr>"
    unfolding kq.agrees_def kq_inv_def using assms(1) by simp
  from kq.run_agrees [OF assms(2) this] show ?thesis
    unfolding kq.agrees_def by auto
qed

end

text \<open>A kernel for which the laws hold: the set of the filters, changed one by one.\<close>

fun kq_change :: "kchange \<Rightarrow> (int \<times> kfilter) list \<Rightarrow> (int \<times> kfilter) list" where
  "kq_change (EV_ADD_CLEAR fd f) k = List.insert (fd, f) k"
| "kq_change (EV_DELETE fd f) k = removeAll (fd, f) k"

definition kq_model :: "kchange list \<Rightarrow> (int \<times> kfilter) list \<Rightarrow> (int \<times> kfilter) list option" where
  "kq_model cs k = Some (fold kq_change cs k)"

lemma fold_kq_add:
  "(\<And>c. c \<in> set cs \<Longrightarrow> \<exists>fd f. c = EV_ADD_CLEAR fd f) \<Longrightarrow>
    (i, f) \<in> set (fold kq_change cs k) \<longleftrightarrow> (i, f) \<in> set k \<or> EV_ADD_CLEAR i f \<in> set cs"
proof (induction cs arbitrary: k)
  case (Cons c cs)
  then obtain fd g where "c = EV_ADD_CLEAR fd g"
    by (meson list.set_intros(1))
  then show ?case
    using Cons.IH [of "kq_change c k"] Cons.prems by auto
qed simp

lemma fold_kq_delete:
  "(\<And>c. c \<in> set cs \<Longrightarrow> \<exists>fd f. c = EV_DELETE fd f) \<Longrightarrow>
    (i, f) \<in> set (fold kq_change cs k) \<longleftrightarrow> (i, f) \<in> set k \<and> EV_DELETE i f \<notin> set cs"
proof (induction cs arbitrary: k)
  case (Cons c cs)
  then obtain fd g where "c = EV_DELETE fd g"
    by (meson list.set_intros(1))
  then show ?case
    using Cons.IH [of "kq_change c k"] Cons.prems by auto
qed simp

interpretation kq_model: kqueue_kernel kq_model "\<lambda>k fd f. (fd, f) \<in> set k"
proof (unfold_locales, goal_cases)
  case (1 cs k)
  then show ?case
    using fold_kq_add [of cs] by (simp add: kq_model_def)
next
  case (2 cs k)
  then show ?case
    using fold_kq_delete [of cs] by (simp add: kq_model_def) blast
qed

section \<open>The watcher over kqueue when calls fail\<close>

text \<open>
  The manual page again, with what can fail and what happens when a descriptor is closed: a call
  that adds filters may be refused, for any reason (\<^verbatim>\<open>EBADF\<close>, \<^verbatim>\<open>ENOMEM\<close>); a filter that is not there
  cannot be deleted (\<^verbatim>\<open>ENOENT\<close>); closing a descriptor removes its filters (\<open>close_fd\<close>).
\<close>

locale kqueue_system =
  fixes kevent :: "kchange list \<Rightarrow> 'k \<Rightarrow> 'k option" and reg :: "'k \<Rightarrow> int \<Rightarrow> kfilter \<Rightarrow> bool"
    and close_fd :: "int \<Rightarrow> 'k \<Rightarrow> 'k"
  assumes ev_added: "(\<And>c. c \<in> set cs \<Longrightarrow> \<exists>fd f. c = EV_ADD_CLEAR fd f) \<Longrightarrow> kevent cs k = Some k' \<Longrightarrow>
      reg k' i f = (reg k i f \<or> EV_ADD_CLEAR i f \<in> set cs)"
    and ev_deleted: "(\<And>c. c \<in> set cs \<Longrightarrow> \<exists>fd f. c = EV_DELETE fd f \<and> reg k fd f) \<Longrightarrow> distinct cs \<Longrightarrow>
      \<exists>k'. kevent cs k = Some k' \<and> (\<forall>fd f. reg k' fd f = (reg k fd f \<and> EV_DELETE fd f \<notin> set cs))"
    and ev_delete_absent: "(\<And>c. c \<in> set cs \<Longrightarrow> \<exists>fd f. c = EV_DELETE fd f \<and> \<not> reg k fd f) \<Longrightarrow> cs \<noteq> [] \<Longrightarrow> kevent cs k = None"
    and closed: "reg (close_fd fd k) i f = (i \<noteq> fd \<and> reg k i f)"

text \<open>The user calls the watcher and closes descriptors; \<open>None\<close> when a call has ended the process.\<close>

datatype watcher_event = Calls watch_op | CloseFd int

fun watcher_step ::
  "(kchange list \<Rightarrow> 'k \<Rightarrow> 'k option) \<Rightarrow> (int \<Rightarrow> 'k \<Rightarrow> 'k) \<Rightarrow> watcher_event \<Rightarrow> 'k kqueue_watcher \<Rightarrow> 'k kqueue_watcher option" where
  "watcher_step kevent close_fd (Calls (Add fd m)) w = kqueue_addSocket kevent fd m w"
| "watcher_step kevent close_fd (Calls (Enable fd m)) w = kqueue_enableEvents kevent fd m w"
| "watcher_step kevent close_fd (Calls (Del fd)) w = kqueue_delSocket kevent fd w"
| "watcher_step kevent close_fd (CloseFd fd) w = Some (w\<lparr>m_kqueue := close_fd fd (m_kqueue w)\<rparr>)"

fun watcher_run ::
  "(kchange list \<Rightarrow> 'k \<Rightarrow> 'k option) \<Rightarrow> (int \<Rightarrow> 'k \<Rightarrow> 'k) \<Rightarrow> watcher_event list \<Rightarrow> 'k kqueue_watcher \<Rightarrow> 'k kqueue_watcher option" where
  "watcher_run kevent close_fd [] w = Some w"
| "watcher_run kevent close_fd (e # es) w =
     (case watcher_step kevent close_fd e w of None \<Rightarrow> None | Some w \<Rightarrow> watcher_run kevent close_fd es w)"

text \<open>
  What the user has asked for: of each socket the events, and whether it is open since it was added.
  One that is watched and open is not added again; one that was closed is only deleted or added.
\<close>

fun asked_step :: "watcher_event \<Rightarrow> (int \<Rightarrow> (u32 \<times> bool) option) \<Rightarrow> (int \<Rightarrow> (u32 \<times> bool) option) option" where
  "asked_step (Calls (Add fd m)) r =
     (case r fd of Some (_, True) \<Rightarrow> None | _ \<Rightarrow> Some (r(fd := Some (m, True))))"
| "asked_step (Calls (Enable fd m)) r =
     (case r fd of None \<Rightarrow> Some r | Some (m', True) \<Rightarrow> Some (r(fd := Some (m' OR m, True))) | Some (_, False) \<Rightarrow> None)"
| "asked_step (Calls (Del fd)) r = Some (r(fd := None))"
| "asked_step (CloseFd fd) r = Some (r(fd := map_option (\<lambda>(m, _). (m, False)) (r fd)))"

fun asked :: "watcher_event list \<Rightarrow> (int \<Rightarrow> (u32 \<times> bool) option) \<Rightarrow> (int \<Rightarrow> (u32 \<times> bool) option) option" where
  "asked [] r = Some r"
| "asked (e # es) r = (case asked_step e r of None \<Rightarrow> None | Some r \<Rightarrow> asked es r)"

text \<open>The kernel has refused to add events for the socket that was to be added or enabled.\<close>

definition add_refused :: "(kchange list \<Rightarrow> 'k \<Rightarrow> 'k option) \<Rightarrow> watcher_event \<Rightarrow> 'k kqueue_watcher \<Rightarrow> bool" where
  "add_refused kevent e w \<longleftrightarrow> (\<exists>fd m cs. (e = Calls (Add fd m) \<or> e = Calls (Enable fd m)) \<and>
     set cs \<subseteq> {EV_ADD_CLEAR fd EVFILT_READ, EV_ADD_CLEAR fd EVFILT_WRITE} \<and> kevent cs (m_kqueue w) = None)"

lemma or_new: "(m :: u32) OR (NOT m AND m') = m OR m'"
  by (rule bit_word_eqI) (auto simp: bit_or_iff bit_and_iff bit_not_iff)

context kqueue_system
begin

definition kq_asked :: "(int \<Rightarrow> (u32 \<times> bool) option) \<Rightarrow> 'k kqueue_watcher \<Rightarrow> bool" where
  "kq_asked r w \<longleftrightarrow> (\<forall>fd. k_masks w fd = map_option fst (r fd)) \<and>
     (\<forall>fd. \<forall>b \<in> {HI_READ, HI_WRITE}. reg (m_kqueue w) fd (filter_of b) \<longleftrightarrow> (\<exists>m. r fd = Some (m, True) \<and> has_bit m b))"

lemma adds: "c \<in> set (changes EV_ADD_CLEAR fd m) \<Longrightarrow> \<exists>fd f. c = EV_ADD_CLEAR fd f"
  by (auto simp: set_changes)

lemma add_asked:
  assumes "kq_asked r w" "\<And>m'. r fd \<noteq> Some (m', True)"
  shows "case kqueue_addSocket kevent fd m w of
      None \<Rightarrow> add_refused kevent (Calls (Add fd m)) w | Some w' \<Rightarrow> kq_asked (r(fd := Some (m, True))) w'"
proof (cases "kevent (changes EV_ADD_CLEAR fd m) (m_kqueue w)")
  case None
  then show ?thesis
    by (auto simp: kqueue_addSocket_def add_refused_def set_changes intro!: exI [of _ "changes EV_ADD_CLEAR fd m"])
next
  case (Some k')
  have "reg k' i f = (reg (m_kqueue w) i f \<or> EV_ADD_CLEAR i f \<in> set (changes EV_ADD_CLEAR fd m))" for i f
    by (rule ev_added [OF adds Some])
  then show ?thesis
    using assms Some by (auto simp: kqueue_addSocket_def kq_asked_def set_changes)
qed

lemma enable_asked:
  assumes "kq_asked r w" "r fd = Some (m', True)"
  shows "case kqueue_enableEvents kevent fd m w of
      None \<Rightarrow> add_refused kevent (Calls (Enable fd m)) w | Some w' \<Rightarrow> kq_asked (r(fd := Some (m' OR m, True))) w'"
proof -
  let ?cs = "changes EV_ADD_CLEAR fd (NOT m' AND m)"
  have m': "k_masks w fd = Some m'"
    using assms by (simp add: kq_asked_def)
  show ?thesis
  proof (cases "kevent ?cs (m_kqueue w)")
    case None
    then show ?thesis
      using m' by (auto simp: kqueue_enableEvents_def add_refused_def set_changes intro!: exI [of _ ?cs])
  next
    case (Some k')
    have "reg k' i f = (reg (m_kqueue w) i f \<or> EV_ADD_CLEAR i f \<in> set ?cs)" for i f
      by (rule ev_added [OF adds Some])
    then show ?thesis
      using assms m' Some by (auto simp: kqueue_enableEvents_def kq_asked_def set_changes has_bit_new or_new)
  qed
qed

lemma del_asked:
  assumes "kq_asked r w"
  shows "\<exists>w'. kqueue_delSocket kevent fd w = Some w' \<and> kq_asked (r(fd := None)) w'"
proof (cases "r fd")
  case None
  then show ?thesis
    using assms by (auto simp: kqueue_delSocket_def kq_asked_def)
next
  case (Some mo)
  obtain m open_now where mo: "mo = (m, open_now)"
    by (cases mo)
  let ?cs = "changes EV_DELETE fd m"
  have mask: "k_masks w fd = Some m"
    using assms Some mo by (simp add: kq_asked_def)
  have there: "reg (m_kqueue w) fd (filter_of b) \<longleftrightarrow> open_now \<and> has_bit m b" if "b \<in> {HI_READ, HI_WRITE}" for b
    using assms that Some mo unfolding kq_asked_def by auto
  show ?thesis
  proof (cases "open_now \<or> ?cs = []")
    case True
    then have "\<exists>fd f. c = EV_DELETE fd f \<and> reg (m_kqueue w) fd f" if "c \<in> set ?cs" for c
      using that True there [of HI_READ] there [of HI_WRITE] by (cases "?cs = []") (simp, auto simp: set_changes)
    from ev_deleted [of ?cs, OF this distinct_changes] obtain k' where
      "kevent ?cs (m_kqueue w) = Some k'" "\<forall>i f. reg k' i f = (reg (m_kqueue w) i f \<and> EV_DELETE i f \<notin> set ?cs)"
      by blast
    then show ?thesis
      using assms mask there [of HI_READ] there [of HI_WRITE]
      by (auto simp: kqueue_delSocket_def kq_asked_def set_changes)
  next
    case False
    then have "kevent ?cs (m_kqueue w) = None"
      using there [of HI_READ] there [of HI_WRITE] by (intro ev_delete_absent) (auto simp: set_changes)
    then show ?thesis
      using assms mask Some mo False there [of HI_READ] there [of HI_WRITE]
      by (auto simp: kqueue_delSocket_def kq_asked_def)
  qed
qed

lemma step_asked:
  assumes "asked_step e r = Some r'" "kq_asked r w"
  shows "case watcher_step kevent close_fd e w of None \<Rightarrow> add_refused kevent e w | Some w' \<Rightarrow> kq_asked r' w'"
proof (cases e)
  case (Calls op)
  show ?thesis
  proof (cases op)
    case (Add fd m)
    then show ?thesis
      using assms Calls add_asked [OF assms(2), of fd m] by (auto split: option.splits bool.splits prod.splits)
  next
    case (Enable fd m)
    show ?thesis
    proof (cases "r fd")
      case None
      then show ?thesis
        using assms Calls Enable by (auto simp: kqueue_enableEvents_def kq_asked_def)
    next
      case (Some mo)
      then obtain m' where "r fd = Some (m', True)" "r' = r(fd := Some (m' OR m, True))"
        using assms(1) Calls Enable by (cases mo) (auto split: bool.splits)
      then show ?thesis
        using Calls Enable enable_asked [OF assms(2), of fd m' m] by (simp split: option.splits)
    qed
  next
    case (Del fd)
    then show ?thesis
      using assms Calls del_asked [OF assms(2), of fd] by auto
  qed
next
  case (CloseFd fd)
  then show ?thesis
    using assms by (cases "r fd") (auto simp: kq_asked_def closed split: if_splits)
qed

lemma run_asked:
  assumes "asked es r = Some r'" "kq_asked r w"
  shows "case watcher_run kevent close_fd es w of
      None \<Rightarrow> \<exists>es1 e es2 w1. es = es1 @ e # es2 \<and> watcher_run kevent close_fd es1 w = Some w1 \<and> add_refused kevent e w1
    | Some w' \<Rightarrow> kq_asked r' w'"
  using assms
proof (induction es arbitrary: r w)
  case (Cons e es)
  obtain r1 where r1: "asked_step e r = Some r1" "asked es r1 = Some r'"
    using Cons.prems(1) by (auto split: option.splits)
  show ?case
  proof (cases "watcher_step kevent close_fd e w")
    case None
    then have "add_refused kevent e w"
      using step_asked [OF r1(1) Cons.prems(2)] by simp
    then show ?thesis
      using None by (auto intro!: exI [of _ "[]"])
  next
    case (Some w1)
    then have "kq_asked r1 w1"
      using step_asked [OF r1(1) Cons.prems(2)] by simp
    from Cons.IH [OF r1(2) this] show ?thesis
    proof (cases "watcher_run kevent close_fd es w1")
      case None
      then obtain es1 e' es2 w2 where "es = es1 @ e' # es2" "watcher_run kevent close_fd es1 w1 = Some w2" "add_refused kevent e' w2"
        using Cons.IH [OF r1(2) \<open>kq_asked r1 w1\<close>] by auto
      then show ?thesis
        using Some None
        by (simp only: watcher_run.simps option.case, intro exI [of _ "e # es1"] exI [of _ e'] exI [of _ es2] exI [of _ w2]) simp
    qed (use Some in simp)
  qed
qed simp

end

text \<open>A kernel that has room for \<open>n\<close> filters, and none for a descriptor below zero.\<close>

fun kq_limited :: "nat \<Rightarrow> kchange list \<Rightarrow> (int \<times> kfilter) list \<Rightarrow> (int \<times> kfilter) list option" where
  "kq_limited n [] k = Some k"
| "kq_limited n (EV_ADD_CLEAR fd f # cs) k = (if fd < 0 \<or> n \<le> length k then None else kq_limited n cs (List.insert (fd, f) k))"
| "kq_limited n (EV_DELETE fd f # cs) k = (if (fd, f) \<in> set k then kq_limited n cs (removeAll (fd, f) k) else None)"

definition kq_close :: "int \<Rightarrow> (int \<times> kfilter) list \<Rightarrow> (int \<times> kfilter) list" where
  "kq_close fd k = filter (\<lambda>e. fst e \<noteq> fd) k"

lemma kq_limited_added:
  "(\<And>c. c \<in> set cs \<Longrightarrow> \<exists>fd f. c = EV_ADD_CLEAR fd f) \<Longrightarrow> kq_limited n cs k = Some k' \<Longrightarrow>
    (i, f) \<in> set k' \<longleftrightarrow> (i, f) \<in> set k \<or> EV_ADD_CLEAR i f \<in> set cs"
proof (induction cs arbitrary: k)
  case (Cons c cs)
  then obtain fd g where "c = EV_ADD_CLEAR fd g"
    by (meson list.set_intros(1))
  then show ?case
    using Cons.IH [of "List.insert (fd, g) k"] Cons.prems by (auto split: if_splits)
qed simp

lemma kq_limited_deleted:
  "(\<And>c. c \<in> set cs \<Longrightarrow> \<exists>fd f. c = EV_DELETE fd f \<and> (fd, f) \<in> set k) \<Longrightarrow> distinct cs \<Longrightarrow>
    \<exists>k'. kq_limited n cs k = Some k' \<and> (\<forall>i f. (i, f) \<in> set k' \<longleftrightarrow> (i, f) \<in> set k \<and> EV_DELETE i f \<notin> set cs)"
proof (induction cs arbitrary: k)
  case (Cons c cs)
  then obtain fd g where c: "c = EV_DELETE fd g" "(fd, g) \<in> set k"
    by (meson list.set_intros(1))
  have "\<exists>fd' f. c' = EV_DELETE fd' f \<and> (fd', f) \<in> set (removeAll (fd, g) k)" if "c' \<in> set cs" for c'
    using Cons.prems(1) [of c'] Cons.prems(2) that c by auto
  from Cons.IH [OF this] Cons.prems(2) show ?case
    using c by auto
qed simp

interpretation kq_limited: kqueue_system "kq_limited n" "\<lambda>k fd f. (fd, f) \<in> set k" kq_close for n
proof (unfold_locales, goal_cases)
  case (1 cs k k' i f)
  then show ?case
    by (rule kq_limited_added)
next
  case (2 cs k)
  then show ?case
    by (rule kq_limited_deleted)
next
  case (3 cs k)
  then obtain c cs' where cs: "cs = c # cs'"
    by (cases cs) auto
  then obtain fd f where "c = EV_DELETE fd f" "(fd, f) \<notin> set k"
    using 3(1) [of c] by auto
  then show ?case
    using cs by simp
qed (auto simp: kq_close_def)



section \<open>The watcher over epoll\<close>

text \<open>
  The manual page: \<^verbatim>\<open>EPOLL_CTL_ADD\<close> registers a descriptor that is not registered,
  \<^verbatim>\<open>EPOLL_CTL_MOD\<close> replaces the events of one that is, \<^verbatim>\<open>EPOLL_CTL_DEL\<close> removes it.
\<close>

locale epoll_kernel =
  fixes ctl :: "ctl_op \<Rightarrow> int \<Rightarrow> u32 \<Rightarrow> 'k \<Rightarrow> 'k ctl_result" and interest :: "'k \<Rightarrow> int \<Rightarrow> u32 option"
  assumes ctl_add: "interest k fd = None \<Longrightarrow>
      \<exists>k'. ctl EPOLL_CTL_ADD fd ev k = CtlOk k' \<and> interest k' = (interest k)(fd := Some ev)"
    and ctl_mod: "interest k fd \<noteq> None \<Longrightarrow>
      \<exists>k'. ctl EPOLL_CTL_MOD fd ev k = CtlOk k' \<and> interest k' = (interest k)(fd := Some ev)"
    and ctl_del: "interest k fd \<noteq> None \<Longrightarrow>
      \<exists>k'. ctl EPOLL_CTL_DEL fd ev k = CtlOk k' \<and> interest k' = (interest k)(fd := None)"

fun ep_model :: "ctl_op \<Rightarrow> int \<Rightarrow> u32 \<Rightarrow> (int \<Rightarrow> u32 option) \<Rightarrow> (int \<Rightarrow> u32 option) ctl_result" where
  "ep_model EPOLL_CTL_ADD fd ev k = (if k fd = None then CtlOk (k(fd := Some ev)) else CtlError False)"
| "ep_model EPOLL_CTL_MOD fd ev k = (if k fd \<noteq> None then CtlOk (k(fd := Some ev)) else CtlError False)"
| "ep_model EPOLL_CTL_DEL fd ev k = (if k fd \<noteq> None then CtlOk (k(fd := None)) else CtlError False)"

interpretation ep_model: epoll_kernel ep_model "\<lambda>k. k"
  by unfold_locales auto

context epoll_kernel
begin

definition ep_inv :: "'k epoll_watcher \<Rightarrow> bool" where
  "ep_inv w \<longleftrightarrow> (\<forall>fd. (interest (m_epoll w) fd = None) = (e_masks w fd = None)) \<and>
     (\<forall>fd ev. interest (m_epoll w) fd = Some ev \<longrightarrow> \<not> has_bit ev EPOLLRDHUP)"

lemma ep_words [simp]:
  "\<not> has_bit EPOLLET EPOLLRDHUP" "\<not> has_bit (EPOLLET OR EPOLLIN) EPOLLRDHUP" "\<not> has_bit (EPOLLET OR EPOLLOUT) EPOLLRDHUP"
  "\<not> has_bit ((EPOLLET OR EPOLLIN) OR EPOLLOUT) EPOLLRDHUP"
  "\<not> has_bit 0 EPOLLRDHUP" "\<not> has_bit EPOLLIN EPOLLRDHUP" "\<not> has_bit EPOLLOUT EPOLLRDHUP" "\<not> has_bit (EPOLLIN OR EPOLLOUT) EPOLLRDHUP"
  by (simp_all add: has_bit_def EPOLLET_def EPOLLIN_def EPOLLOUT_def EPOLLRDHUP_def)

lemma ep_add:
  assumes "ep_inv w" "e_masks w fd = None"
  shows "\<exists>w'. epoll_addSocket ctl fd m w = Some w' \<and> ep_inv w' \<and> e_masks w' = (e_masks w)(fd := Some m) \<and>
    interest (m_epoll w') = (interest (m_epoll w))(fd := Some
      (if has_bit m HI_WRITE then (if has_bit m HI_READ then EPOLLET OR EPOLLIN else EPOLLET) OR EPOLLOUT
       else if has_bit m HI_READ then EPOLLET OR EPOLLIN else EPOLLET))"
proof -
  let ?ev = "if has_bit m HI_WRITE then (if has_bit m HI_READ then EPOLLET OR EPOLLIN else EPOLLET) OR EPOLLOUT
    else if has_bit m HI_READ then EPOLLET OR EPOLLIN else EPOLLET"
  obtain k' where "ctl EPOLL_CTL_ADD fd ?ev (m_epoll w) = CtlOk k'" "interest k' = (interest (m_epoll w))(fd := Some ?ev)"
    using ctl_add assms by (metis ep_inv_def)
  then show ?thesis
    using assms by (simp add: epoll_addSocket_def Let_def ep_inv_def)
qed

lemma ep_enable:
  assumes "ep_inv w" "e_masks w fd = Some m'"
  shows "\<exists>w'. epoll_enableEvents ctl fd m w = Some w' \<and> ep_inv w' \<and>
    e_masks w' = (e_masks w)(fd := Some (m' OR (NOT m' AND m))) \<and>
    interest (m_epoll w') = (interest (m_epoll w))(fd := Some
      (let new = NOT m' AND m in if has_bit new HI_WRITE then (if has_bit new HI_READ then 0 OR EPOLLIN else 0) OR EPOLLOUT
       else if has_bit new HI_READ then 0 OR EPOLLIN else 0))"
proof -
  let ?n = "NOT m' AND m"
  let ?ev = "if has_bit ?n HI_WRITE then (if has_bit ?n HI_READ then 0 OR EPOLLIN else 0) OR EPOLLOUT
    else if has_bit ?n HI_READ then 0 OR EPOLLIN else 0"
  have "interest (m_epoll w) fd \<noteq> None"
    using assms by (simp add: ep_inv_def)
  then obtain k' where "ctl EPOLL_CTL_MOD fd ?ev (m_epoll w) = CtlOk k'" "interest k' = (interest (m_epoll w))(fd := Some ?ev)"
    using ctl_mod by metis
  then show ?thesis
    using assms by (simp add: epoll_enableEvents_def Let_def ep_inv_def)
qed

lemma ep_del:
  assumes "ep_inv w"
  shows "\<exists>w'. epoll_delSocket ctl fd w = Some w' \<and> ep_inv w' \<and> e_masks w' = (e_masks w)(fd := None)"
proof (cases "e_masks w fd")
  case None
  then show ?thesis
    using assms by (auto simp: epoll_delSocket_def)
next
  case (Some m)
  then have "interest (m_epoll w) fd \<noteq> None"
    using assms by (simp add: ep_inv_def)
  then obtain k' where "ctl EPOLL_CTL_DEL fd 0 (m_epoll w) = CtlOk k'" "interest k' = (interest (m_epoll w))(fd := None)"
    using ctl_del by metis
  then show ?thesis
    using assms Some by (simp add: epoll_delSocket_def ep_inv_def)
qed

lemma ep_run:
  "wanted ops r = Some r' \<Longrightarrow> ep_inv w \<Longrightarrow> \<forall>fd. (r fd = None) = (e_masks w fd = None) \<Longrightarrow>
    \<exists>w'. watch_run (epoll_addSocket ctl) (epoll_enableEvents ctl) (epoll_delSocket ctl) ops w = Some w' \<and> ep_inv w'"
proof (induction ops arbitrary: r w)
  case (Cons op ops)
  show ?case
  proof (cases op)
    case (Add fd m)
    then have r: "r fd = None" "wanted ops (r(fd := Some m)) = Some r'"
      using Cons.prems(1) by (auto split: if_splits)
    then obtain w' where "epoll_addSocket ctl fd m w = Some w'" "ep_inv w'" "e_masks w' = (e_masks w)(fd := Some m)"
      using ep_add [OF Cons.prems(2), of fd m] Cons.prems(3) by auto
    then show ?thesis
      using Cons.IH [OF r(2), of w'] Cons.prems(3) Add by simp
  next
    case (Enable fd m)
    show ?thesis
    proof (cases "e_masks w fd")
      case None
      then have r: "r fd = None" "epoll_enableEvents ctl fd m w = Some w"
        using Cons.prems(3) by (simp_all add: epoll_enableEvents_def)
      then have "wanted ops r = Some r'"
        using Cons.prems(1) Enable by simp
      from Cons.IH [OF this Cons.prems(2,3)] show ?thesis
        using r Enable by simp
    next
      case (Some m')
      then obtain m0 where "r fd = Some m0"
        using Cons.prems(3) by fastforce
      then show ?thesis
        using ep_enable [OF Cons.prems(2) Some, of m] Cons.IH [of "r(fd := Some (m0 OR m))"] Cons.prems Enable by fastforce
    qed
  next
    case (Del fd)
    obtain w' where w': "epoll_delSocket ctl fd w = Some w'" "ep_inv w'" "e_masks w' = (e_masks w)(fd := None)"
      using ep_del [OF Cons.prems(2)] by blast
    have "wanted ops (r(fd := None)) = Some r'" "\<forall>i. ((r(fd := None)) i = None) = (e_masks w' i = None)"
      using Cons.prems w'(3) Del by simp_all
    from Cons.IH [OF this(1) w'(2) this(2)] show ?thesis
      using w'(1) Del by simp
  qed
qed simp

lemma ep_loses:
  assumes "\<forall>fd. interest k fd = None"
  shows "\<exists>w1 w2 w3. epoll_addSocket ctl fd HI_READ (EventWatcherEpoll_new k) = Some w1 \<and>
     epoll_enableEvents ctl fd (HI_READ OR HI_WRITE) w1 = Some w2 \<and>
     epoll_enableEvents ctl fd (HI_READ OR HI_WRITE) w2 = Some w3 \<and>
     interest (m_epoll w1) fd = Some (EPOLLET OR EPOLLIN) \<and> interest (m_epoll w2) fd = Some EPOLLOUT \<and>
     interest (m_epoll w3) fd = Some 0"
proof -
  let ?w = "EventWatcherEpoll_new k" and ?rw = "HI_READ OR HI_WRITE"
  have bits: "has_bit HI_READ HI_READ" "\<not> has_bit HI_READ HI_WRITE" "has_bit HI_WRITE HI_WRITE" "\<not> has_bit HI_WRITE HI_READ"
    by (simp_all add: has_bit_def HI_READ_def HI_WRITE_def)
  have "ep_inv ?w" "e_masks ?w fd = None"
    using assms by (simp_all add: ep_inv_def EventWatcherEpoll_new_def)
  from ep_add [OF this, of HI_READ] obtain w1 where w1: "epoll_addSocket ctl fd HI_READ ?w = Some w1" "ep_inv w1"
    "e_masks w1 fd = Some HI_READ" "interest (m_epoll w1) fd = Some (EPOLLET OR EPOLLIN)"
    by (auto simp: bits)
  from ep_enable [OF w1(2,3), of ?rw] obtain w2 m2 where w2: "epoll_enableEvents ctl fd ?rw w1 = Some w2" "ep_inv w2"
    "e_masks w2 fd = Some m2" "m2 = HI_READ OR (NOT HI_READ AND ?rw)" "interest (m_epoll w2) fd = Some EPOLLOUT"
    by (auto simp: has_bit_new bits Let_def)
  have m2: "has_bit m2 HI_READ" "has_bit m2 HI_WRITE"
    unfolding w2(4) by (simp_all add: has_bit_new bits)
  from ep_enable [OF w2(2,3), of ?rw] m2 obtain w3 where "epoll_enableEvents ctl fd ?rw w2 = Some w3" "interest (m_epoll w3) fd = Some 0"
    by (auto simp: has_bit_new bits Let_def)
  then show ?thesis
    using w1 w2 by blast
qed

lemma ep_watch:
  assumes "\<forall>fd. interest k fd = None" "wanted ops (\<lambda>_. None) = Some r"
  shows "\<exists>w. watch_run (epoll_addSocket ctl) (epoll_enableEvents ctl) (epoll_delSocket ctl) ops (EventWatcherEpoll_new k) = Some w \<and>
    (\<forall>fd ev. interest (m_epoll w) fd = Some ev \<longrightarrow> \<not> has_bit ev EPOLLRDHUP)"
  using ep_run [OF assms(2), of "EventWatcherEpoll_new k"] assms(1) by (auto simp: EventWatcherEpoll_new_def ep_inv_def)

end

text \<open>
  the epoll watcher loses events: of a socket added for reading, the call
  \<open>enableEvents(fd, HI_READ | HI_WRITE)\<close> that the servers and clients make leaves only
  \<^verbatim>\<open>EPOLLOUT\<close>, level-triggered; a second such call leaves no event at all. The socket is not read again.
\<close>

lemma epoll_enable_loses_events:
  assumes "epoll_kernel ctl interest" "\<forall>fd. interest k fd = None"
  shows "\<exists>w1 w2 w3. epoll_addSocket ctl fd HI_READ (EventWatcherEpoll_new k) = Some w1 \<and>
     epoll_enableEvents ctl fd (HI_READ OR HI_WRITE) w1 = Some w2 \<and>
     epoll_enableEvents ctl fd (HI_READ OR HI_WRITE) w2 = Some w3 \<and>
     interest (m_epoll w1) fd = Some (EPOLLET OR EPOLLIN) \<and> interest (m_epoll w2) fd = Some EPOLLOUT \<and>
     interest (m_epoll w3) fd = Some 0"
  by (rule epoll_kernel.ep_loses [OF assms])

lemma epoll_enable_loses_events_witness:
  "\<exists>w1 w2. epoll_addSocket ep_model 5 HI_READ (EventWatcherEpoll_new (\<lambda>_. None)) = Some w1 \<and>
     epoll_enableEvents ep_model 5 (HI_READ OR HI_WRITE) w1 = Some w2 \<and> m_epoll w2 5 = Some EPOLLOUT"
  using epoll_enable_loses_events [OF ep_model.epoll_kernel_axioms, of "\<lambda>_. None" 5] by auto

text \<open>
  The epoll watcher does not end the process, and it never asks for \<^verbatim>\<open>EPOLLRDHUP\<close>, the only
  event for which it calls \<open>onError\<close>.
\<close>

lemma epoll_never_asks_for_hangup:
  assumes "epoll_kernel ctl interest" "\<forall>fd. interest k fd = None" "wanted ops (\<lambda>_. None) = Some r"
  shows "\<exists>w. watch_run (epoll_addSocket ctl) (epoll_enableEvents ctl) (epoll_delSocket ctl) ops (EventWatcherEpoll_new k) = Some w \<and>
    (\<forall>fd ev. interest (m_epoll w) fd = Some ev \<longrightarrow> \<not> has_bit ev EPOLLRDHUP)"
  by (rule epoll_kernel.ep_watch [OF assms])

end
