(* ===== verification/HttpConnection.thy ===== *)
theory HttpConnection
  imports StringUtils BinServerParser
begin

text \<open>
  \<^verbatim>\<open>network/HttpServer\<close> without the server: \<^verbatim>\<open>Request.cpp\<close>, \<^verbatim>\<open>Response.cpp\<close>,
  \<^verbatim>\<open>Connection.impl\<close>, \<^verbatim>\<open>ConnectionParsing.impl\<close> and \<^verbatim>\<open>HttpRouter.impl\<close>. The vendored
  \<^verbatim>\<open>http_parser\<close> is a parameter \<open>execute\<close>: its state, and the callbacks it makes for a piece
  of input. Custom protocols are a parameter of operations, for which the locale
  \<open>custom_protocol\<close> states what the connection relies on; the parser of
  \<^verbatim>\<open>BinServer/Parser.cpp\<close> is one. A result \<open>None\<close> is undefined or does not end.
\<close>

section \<open>Requests and responses\<close>

record http_request =
  url :: string
  path :: string
  headers :: "(string, string) omap"
  values_GET :: "(string, string) omap"
  cookies :: "(string, string) omap"
  body :: string

definition HttpRequest_new :: "string \<Rightarrow> http_request" where
  "HttpRequest_new u = \<lparr>url = u, path = [], headers = [], values_GET = [], cookies = [], body = []\<rparr>"

definition getField :: "string \<Rightarrow> http_request \<Rightarrow> string option" where
  "getField k req = om_find (values_GET req) k"

definition getCookie :: "string \<Rightarrow> http_request \<Rightarrow> string option" where
  "getCookie name req = om_find (cookies req) name"

record http_response =
  code :: "32 word"
  rbody :: string
  rheaders :: "string list"

definition HttpResponse_new :: "32 word \<Rightarrow> string \<Rightarrow> http_response" where
  "HttpResponse_new c b = \<lparr>code = c, rbody = b, rheaders = []\<rparr>"

definition cookie_line :: "string \<Rightarrow> string \<Rightarrow> string" where
  "cookie_line name val = ''Set-Cookie: '' @ name @ ''='' @ val @ ''; expires=Sat, 31 Dec 2039 23:59:59 GMT''"

definition response_setCookie :: "string \<Rightarrow> string \<Rightarrow> http_response \<Rightarrow> http_response" where
  "response_setCookie name val r = r\<lparr>rheaders := rheaders r @ [cookie_line name val]\<rparr>"

definition response_addHeader :: "string \<Rightarrow> http_response \<Rightarrow> http_response" where
  "response_addHeader h r = r\<lparr>rheaders := rheaders r @ [h]\<rparr>"

section \<open>The connection\<close>

record response_info =
  content_type :: string
  server_name :: string

record ('p, 'c, 'r) http_conn =
  sock :: int
  create_ts :: u64
  last_activity_ts :: u64
  request_finished :: bool
  alive :: bool
  ever_sent :: bool
  keepalive :: bool
  is_custom :: bool
  custom_protocol_id :: string
  waiting_last_handling :: bool
  http_requests :: "http_request list"
  custom_requests :: "'r list"
  m_res_headers :: "string list"
  m_cur_http_request :: http_request
  m_resp_info :: response_info
  m_resps :: "string list"
  m_send_buffer :: string
  m_cur_header_field :: string
  m_parser :: 'p
  m_custom_parser :: "'c option"

definition HttpConnection_new :: "'p \<Rightarrow> u64 \<Rightarrow> int \<Rightarrow> response_info \<Rightarrow> ('p, 'c, 'r) http_conn" where
  "HttpConnection_new parser now fd info =
     \<lparr>sock = fd, create_ts = now, last_activity_ts = now, request_finished = False, alive = True, ever_sent = False,
      keepalive = True, is_custom = False, custom_protocol_id = [], waiting_last_handling = False,
      http_requests = [], custom_requests = [], m_res_headers = [], m_cur_http_request = HttpRequest_new [],
      m_resp_info = info, m_resps = [], m_send_buffer = [], m_cur_header_field = [], m_parser = parser,
      m_custom_parser = None\<rparr>"

definition notDead :: "u64 \<Rightarrow> ('p, 'c, 'r) http_conn \<Rightarrow> bool" where
  "notDead now c \<longleftrightarrow> alive c \<and> (now - create_ts c \<le> 2 \<or> is_custom c \<and> now - last_activity_ts c < 60)"

definition addHeader :: "string \<Rightarrow> ('p, 'c, 'r) http_conn \<Rightarrow> ('p, 'c, 'r) http_conn" where
  "addHeader h c = c\<lparr>m_res_headers := m_res_headers c @ [h]\<rparr>"

definition setCookie :: "string \<Rightarrow> string \<Rightarrow> ('p, 'c, 'r) http_conn \<Rightarrow> ('p, 'c, 'r) http_conn" where
  "setCookie name val c = c\<lparr>m_res_headers := m_res_headers c @ [cookie_line name val]\<rparr>"

text \<open>
  \<open>getCustomParser\<close> is the server's; with the connection comes the handshake message, which
  \<^verbatim>\<open>sendCustomResponse\<close> gives to the server.
\<close>

definition checkUpgrade ::
  "(string \<Rightarrow> http_request \<Rightarrow> ('c \<times> string) option) \<Rightarrow> http_request \<Rightarrow> ('p, 'c, 'r) http_conn \<Rightarrow>
     ('p, 'c, 'r) http_conn \<times> string option" where
  "checkUpgrade getCustomParser req c =
     (case om_find (headers req) ''Upgrade'' of
        None \<Rightarrow> (c, None)
      | Some proto \<Rightarrow>
          (case getCustomParser proto req of
             Some (p, handshake) \<Rightarrow>
               (c\<lparr>m_custom_parser := Some p, is_custom := True, custom_protocol_id := proto,
                  waiting_last_handling := False\<rparr>, Some handshake)
           | None \<Rightarrow> (c\<lparr>m_custom_parser := None\<rparr>, None)))"

definition eol :: string where
  "eol = [CHR 0x0D, CHR 0x0A]"

definition renderResponse :: "u64 \<Rightarrow> http_response \<Rightarrow> ('p, 'c, 'r) http_conn \<Rightarrow> string" where
  "renderResponse now resp c =
     (let content_len = inttostr (word_of_nat (length (rbody resp)));
          time_c = inttostr (ucast now);
          keepalive_header = (if keepalive c then ''Connection: Keep-Alive'' @ eol else ''Connection: close'' @ eol)
      in ''HTTP/1.1 '' @ inttostr (code resp) @ eol @
         ''Content-Type: '' @ content_type (m_resp_info c) @ eol @
         ''Date: '' @ time_c @ eol @
         ''Server: '' @ server_name (m_resp_info c) @ eol @
         keepalive_header @
         ''Transfer-Encoding: none'' @ eol @
         concat (map (\<lambda>h. h @ eol) (rheaders resp)) @
         concat (map (\<lambda>h. h @ eol) (m_res_headers c)) @
         ''Content-Length: '' @ content_len @ eol @ eol @ rbody resp)"

definition addResponse :: "u64 \<Rightarrow> http_response \<Rightarrow> ('p, 'c, 'r) http_conn \<Rightarrow> ('p, 'c, 'r) http_conn" where
  "addResponse now resp c = c\<lparr>m_resps := m_resps c @ [renderResponse now resp c]\<rparr>"

definition addCustomResponse :: "string \<Rightarrow> ('p, 'c, 'r) http_conn \<Rightarrow> ('p, 'c, 'r) http_conn" where
  "addCustomResponse resp c = c\<lparr>m_resps := m_resps c @ [resp]\<rparr>"

text \<open>
  \<open>nsent\<close> and \<open>again\<close> are the result of \<^verbatim>\<open>send\<close> and whether \<^verbatim>\<open>errno\<close> is \<^verbatim>\<open>EAGAIN\<close> or
  \<^verbatim>\<open>EWOULDBLOCK\<close>; with the connection come the bytes that went out and the result.
\<close>

definition conn_performSend ::
  "u64 \<Rightarrow> int \<Rightarrow> bool \<Rightarrow> ('p, 'c, 'r) http_conn \<Rightarrow> ('p, 'c, 'r) http_conn \<times> string \<times> bool" where
  "conn_performSend now nsent again c =
     (if m_send_buffer c = [] \<and> ever_sent c \<and> \<not> keepalive c then (c\<lparr>alive := False\<rparr>, [], False)
      else if m_send_buffer c = [] \<and> m_resps c = [] then (c, [], False)
      else
        (let c = (if m_send_buffer c = [] then c\<lparr>m_send_buffer := hd (m_resps c), m_resps := tl (m_resps c)\<rparr> else c);
             buf = m_send_buffer c;
             c = c\<lparr>ever_sent := True\<rparr>
         in if nsent \<le> 0 then ((if again then c else c\<lparr>alive := False\<rparr>), [], False)
            else
              (let c = c\<lparr>last_activity_ts := now\<rparr>
               in if nat nsent < length buf
                  then (c\<lparr>m_send_buffer := drop (nat nsent) buf\<rparr>, take (nat nsent) buf, False)
                  else (c\<lparr>m_send_buffer := []\<rparr>, buf, True))))"

section \<open>The callbacks of the parser\<close>

text \<open>
  A callback with text has the memory from \<^verbatim>\<open>at\<close> to the end of the input, and the length.
  \<open>HeadersComplete\<close> comes with the value of \<^verbatim>\<open>http_should_keep_alive\<close>.
\<close>

datatype callback = MessageBegin | Url string nat | Status string nat | HeadersField string nat
  | HeadersValue string nat | HeadersComplete bool | Body string nat | MessageComplete

definition onUrl :: "(string \<Rightarrow> string option) \<Rightarrow> string \<Rightarrow> ('p, 'c, 'r) http_conn \<Rightarrow> ('p, 'c, 'r) http_conn option" where
  "onUrl unescape at c =
     (let u = cstr at;
          u = (case str_find CHR '' '' u of None \<Rightarrow> u | Some n \<Rightarrow> take n u);
          req = m_cur_http_request c
      in case parseGET unescape u (values_GET req) of
           None \<Rightarrow> None
         | Some kvs \<Rightarrow> Some (c\<lparr>m_cur_http_request := req\<lparr>url := u, path := getUrlPath u, values_GET := kvs\<rparr>\<rparr>))"

definition onHeadersField :: "string \<Rightarrow> nat \<Rightarrow> ('p, 'c, 'r) http_conn \<Rightarrow> ('p, 'c, 'r) http_conn" where
  "onHeadersField at len c = c\<lparr>m_cur_header_field := cstr (take len at)\<rparr>"

definition onHeadersValue :: "string \<Rightarrow> nat \<Rightarrow> ('p, 'c, 'r) http_conn \<Rightarrow> ('p, 'c, 'r) http_conn" where
  "onHeadersValue at len c =
     (let val = cstr (take len at);
          c = (if m_cur_header_field c = ''Cookie''
               then c\<lparr>m_cur_http_request := (m_cur_http_request c)\<lparr>cookies := parseCookies val (cookies (m_cur_http_request c))\<rparr>\<rparr>
               else c);
          c = (if m_cur_header_field c = ''Connection'' \<and> val = ''keep-alive'' then c\<lparr>keepalive := True\<rparr> else c)
      in c\<lparr>m_cur_http_request := (m_cur_http_request c)
             \<lparr>headers := om_ins (m_cur_header_field c) val (headers (m_cur_http_request c))\<rparr>\<rparr>)"

definition onHeadersComplete :: "bool \<Rightarrow> ('p, 'c, 'r) http_conn \<Rightarrow> ('p, 'c, 'r) http_conn" where
  "onHeadersComplete should_keep_alive c = c\<lparr>keepalive := should_keep_alive\<rparr>"

definition onBody :: "string \<Rightarrow> nat \<Rightarrow> ('p, 'c, 'r) http_conn \<Rightarrow> ('p, 'c, 'r) http_conn" where
  "onBody at len c = c\<lparr>m_cur_http_request := (m_cur_http_request c)\<lparr>body := cstr (take len at)\<rparr>\<rparr>"

definition onMessageComplete :: "('p, 'c, 'r) http_conn \<Rightarrow> ('p, 'c, 'r) http_conn" where
  "onMessageComplete c = c\<lparr>request_finished := True\<rparr>"

text \<open>The functions \<^verbatim>\<open>HttpConnection_on...\<close> that the parser calls.\<close>

fun run_callback :: "(string \<Rightarrow> string option) \<Rightarrow> callback \<Rightarrow> ('p, 'c, 'r) http_conn \<Rightarrow> ('p, 'c, 'r) http_conn option" where
  "run_callback unescape MessageBegin c = Some c"
| "run_callback unescape (Url at len) c = onUrl unescape at c"
| "run_callback unescape (Status at len) c = Some c"
| "run_callback unescape (HeadersField at len) c = Some (onHeadersField at len c)"
| "run_callback unescape (HeadersValue at len) c = Some (onHeadersValue at len c)"
| "run_callback unescape (HeadersComplete k) c = Some (onHeadersComplete k c)"
| "run_callback unescape (Body at len) c = Some (onBody at len c)"
| "run_callback unescape MessageComplete c = Some (onMessageComplete c)"

fun run_callbacks :: "(string \<Rightarrow> string option) \<Rightarrow> callback list \<Rightarrow> ('p, 'c, 'r) http_conn \<Rightarrow> ('p, 'c, 'r) http_conn option" where
  "run_callbacks unescape [] c = Some c"
| "run_callbacks unescape (cb # cbs) c =
     (case run_callback unescape cb c of None \<Rightarrow> None | Some c \<Rightarrow> run_callbacks unescape cbs c)"

section \<open>Receiving\<close>

text \<open>What the calls of \<^verbatim>\<open>recv\<close> give; when the list ends the socket has nothing more.\<close>

datatype recv_call = Received string | NothingThere | RecvFailed | Closed

fun conn_recv_loop :: "recv_call list \<Rightarrow> string \<Rightarrow> string option" where
  "conn_recv_loop [] readbf = Some readbf"
| "conn_recv_loop (Received bf # rs) readbf = conn_recv_loop rs (readbf @ bf)"
| "conn_recv_loop (NothingThere # rs) readbf = Some readbf"
| "conn_recv_loop (RecvFailed # rs) readbf = None"
| "conn_recv_loop (Closed # rs) readbf = None"

text \<open>
  The interface \<^verbatim>\<open>CustomParser\<close>. \<open>c_execute\<close> and \<open>c_get\<close> also tell whether they throw.
\<close>

record ('c, 'r) custom_ops =
  c_execute :: "'c \<Rightarrow> string \<Rightarrow> 'c \<times> bool"
  c_has :: "'c \<Rightarrow> bool"
  c_get :: "'c \<Rightarrow> 'r \<times> 'c \<times> bool"

partial_function (option) conn_drain ::
  "('c, 'r) custom_ops \<Rightarrow> 'c \<Rightarrow> 'r list \<Rightarrow> ('r list \<times> 'c \<times> bool) option" where
  "conn_drain ops p reqs =
     (if c_has ops p
      then (case c_get ops p of (r, p', throws) \<Rightarrow>
              if throws then Some (reqs, p', True) else conn_drain ops p' (reqs @ [r]))
      else Some (reqs, p, False))"

text \<open>The bytes read are given to the parser of the protocol.\<close>

definition conn_execute ::
  "('c, 'r) custom_ops \<Rightarrow> ('p \<Rightarrow> string \<Rightarrow> 'p \<times> callback list) \<Rightarrow> (string \<Rightarrow> string option) \<Rightarrow> string \<Rightarrow>
     ('p, 'c, 'r) http_conn \<Rightarrow> (('p, 'c, 'r) http_conn \<times> bool) option" where
  "conn_execute ops execute unescape readbf c =
     (if \<not> is_custom c then
        (case execute (m_parser c) readbf of (p, cbs) \<Rightarrow>
           map_option (\<lambda>c. (c, False)) (run_callbacks unescape cbs (c\<lparr>m_parser := p\<rparr>)))
      else
        (case m_custom_parser c of
           None \<Rightarrow> None
         | Some p \<Rightarrow> (case c_execute ops p readbf of (p, throws) \<Rightarrow> Some (c\<lparr>m_custom_parser := Some p\<rparr>, throws))))"

definition conn_take_requests ::
  "('c, 'r) custom_ops \<Rightarrow> ('p, 'c, 'r) http_conn \<Rightarrow> (('p, 'c, 'r) http_conn \<times> bool) option" where
  "conn_take_requests ops c =
     (if \<not> is_custom c then
        Some (if request_finished c
              then c\<lparr>http_requests := http_requests c @ [m_cur_http_request c],
                     m_cur_http_request := HttpRequest_new [], request_finished := False\<rparr>
              else c, False)
      else
        (case m_custom_parser c of
           None \<Rightarrow> None
         | Some p \<Rightarrow>
             (case conn_drain ops p (custom_requests c) of
                None \<Rightarrow> None
              | Some (reqs, p, throws) \<Rightarrow> Some (c\<lparr>custom_requests := reqs, m_custom_parser := Some p\<rparr>, throws))))"

text \<open>The second component tells whether an exception leaves the function.\<close>

definition conn_performRecv ::
  "('c, 'r) custom_ops \<Rightarrow> ('p \<Rightarrow> string \<Rightarrow> 'p \<times> callback list) \<Rightarrow> (string \<Rightarrow> string option) \<Rightarrow> u64 \<Rightarrow> recv_call list \<Rightarrow>
     ('p, 'c, 'r) http_conn \<Rightarrow> (('p, 'c, 'r) http_conn \<times> bool) option" where
  "conn_performRecv ops execute unescape now rs c =
     (case conn_recv_loop rs [] of
        None \<Rightarrow> Some (c\<lparr>alive := False\<rparr>, False)
      | Some readbf \<Rightarrow>
          (case (if readbf \<noteq> [] then conn_execute ops execute unescape readbf (c\<lparr>last_activity_ts := now\<rparr>)
                 else Some (c, False)) of
             None \<Rightarrow> None
           | Some (c, True) \<Rightarrow> Some (c, True)
           | Some (c, False) \<Rightarrow> conn_take_requests ops c))"

section \<open>The router\<close>

type_synonym ('h) routes = "(string, 'h \<times> string list) omap"

definition addRoute :: "string \<Rightarrow> 'h \<Rightarrow> string list \<Rightarrow> 'h routes \<Rightarrow> 'h routes" where
  "addRoute p handler hs routes = om_put p (handler, hs) routes"

fun route_loop :: "'h routes \<Rightarrow> string \<Rightarrow> nat \<Rightarrow> ('h \<times> string list) option" where
  "route_loop routes p 0 = None"
| "route_loop routes p (Suc i) =
     (case om_find routes (take (Suc i) p) of Some info \<Rightarrow> Some info | None \<Rightarrow> route_loop routes p i)"

text \<open>\<open>run\<close> is the call of a handler, which may change the connection.\<close>

definition router_handle ::
  "('h \<Rightarrow> http_request \<Rightarrow> ('p, 'c, 'r) http_conn \<Rightarrow> ('p, 'c, 'r) http_conn) \<Rightarrow> 'h routes \<Rightarrow> http_request \<Rightarrow>
     ('p, 'c, 'r) http_conn \<Rightarrow> ('p, 'c, 'r) http_conn" where
  "router_handle run routes req c =
     (case route_loop routes (path req) (length (path req)) of
        None \<Rightarrow> c
      | Some (handler, hs) \<Rightarrow> fold addHeader hs (run handler req c))"

section \<open>Custom protocols\<close>

locale custom_protocol =
  fixes ops :: "('c, 'r) custom_ops" and left :: "'c \<Rightarrow> nat"
  assumes get_decreases: "c_has ops p \<Longrightarrow> c_get ops p = (r, p', False) \<Longrightarrow> left p' < left p"
begin

text \<open>So the loop of \<^verbatim>\<open>performRecv\<close> over the requests of the parser ends.\<close>

lemma drain_ends: "\<exists>res. conn_drain ops p reqs = Some res"
proof (induction "left p" arbitrary: p reqs rule: less_induct)
  case less
  obtain r p' throws where get: "c_get ops p = (r, p', throws)"
    by (cases "c_get ops p") auto
  show ?case
  proof (cases "c_has ops p \<and> \<not> throws")
    case True
    then have "conn_drain ops p reqs = conn_drain ops p' (reqs @ [r])"
      using get by (subst conn_drain.simps) simp
    moreover have "left p' < left p"
      using True get get_decreases by auto
    ultimately show ?thesis
      using less.hyps by simp
  next
    case False
    then show ?thesis
      using get by (subst conn_drain.simps) auto
  qed
qed

lemma take_requests_returns: "m_custom_parser c \<noteq> None \<Longrightarrow> \<exists>res. conn_take_requests ops c = Some res"
proof -
  assume "m_custom_parser c \<noteq> None"
  then obtain p where "m_custom_parser c = Some p"
    by blast
  then show ?thesis
    using drain_ends [of p "custom_requests c"] by (cases "is_custom c") (auto simp: conn_take_requests_def split: prod.splits)
qed

end

definition bin_ops ::
  "(nat \<Rightarrow> u64) \<Rightarrow> (string \<Rightarrow> string \<times> (string \<times> string) list) \<Rightarrow> (server_parser, bin_request option) custom_ops" where
  "bin_ops junk pb =
     \<lparr>c_execute = \<lambda>p d. (case server_execute junk pb p d of (p, e) \<Rightarrow> (p, e \<noteq> None)),
      c_has = server_hasRequest,
      c_get = \<lambda>p. (case server_getRequest junk pb p of (r, p, e) \<Rightarrow> (r, p, e \<noteq> None))\<rparr>"

interpretation bin: custom_protocol "bin_ops junk pb" drain_msr
proof (unfold_locales, goal_cases)
  case (1 p r p')
  have "server_getRequest junk pb p = (r, p', None)"
    using 1(2) by (cases "server_getRequest junk pb p") (auto simp: bin_ops_def)
  then show ?case
    using 1(1) by (intro server_getRequest_msr) (simp_all add: bin_ops_def server_hasRequest_def)
qed

lemma conn_drain_bin:
  "conn_drain (bin_ops junk pb) p reqs =
     Some (let (rs, q, e) = server_drain junk pb p in (reqs @ rs, q, e \<noteq> None))"
proof (induction junk pb p arbitrary: reqs rule: server_drain.induct)
  case (1 junk pb p)
  show ?case
  proof (cases "server_hasRequest p")
    case False
    then show ?thesis
      by (subst conn_drain.simps, subst server_drain.simps) (simp add: bin_ops_def)
  next
    case True
    obtain r q e where get: "server_getRequest junk pb p = (r, q, e)"
      by (cases "server_getRequest junk pb p") auto
    then show ?thesis
      using True 1 [OF True get [symmetric]]
      by (subst conn_drain.simps, subst server_drain.simps) (cases e; auto simp: bin_ops_def split: prod.splits)
  qed
qed

section \<open>One request\<close>

text \<open>
  The callbacks of one message: each text stands in front of the rest of the input, which
  the callback also sees.
\<close>

fun header_callbacks :: "(string \<times> string \<times> string) list \<Rightarrow> callback list" where
  "header_callbacks [] = []"
| "header_callbacks ((k, v, rest) # hs) =
     [HeadersField (k @ '': '' @ v @ rest) (length k), HeadersValue (v @ rest) (length v)] @ header_callbacks hs"

definition message_callbacks :: "string \<Rightarrow> string \<Rightarrow> (string \<times> string \<times> string) list \<Rightarrow> bool \<Rightarrow> string \<Rightarrow> string \<Rightarrow> callback list" where
  "message_callbacks u urest hs keep b brest =
     [MessageBegin, Url (u @ '' '' @ urest) (length u)] @ header_callbacks hs @ [HeadersComplete keep] @
     (if b = [] then [] else [Body (b @ brest) (length b)]) @ [MessageComplete]"

definition message_request :: "string \<Rightarrow> (string, string) omap \<Rightarrow> (string \<times> string \<times> string) list \<Rightarrow> string \<Rightarrow> http_request" where
  "message_request u kvs hs b =
     \<lparr>url = u, path = getUrlPath u, headers = fold (\<lambda>(k, v, _). om_ins k v) hs [], values_GET = kvs,
      cookies = fold (\<lambda>(k, v, _) cs. if k = ''Cookie'' then parseCookies v cs else cs) hs [], body = b\<rparr>"

definition no_nul :: "string \<Rightarrow> bool" where
  "no_nul s \<longleftrightarrow> CHR 0x00 \<notin> set s"

lemma cstr_no_nul: "no_nul s \<Longrightarrow> cstr s = s"
  by (induction s) (auto simp: cstr_def no_nul_def)

lemma cstr_append: "no_nul s \<Longrightarrow> cstr (s @ r) = s @ cstr r"
  by (induction s) (auto simp: cstr_def no_nul_def)

lemma run_callbacks_append:
  "run_callbacks unescape (xs @ ys) c =
     (case run_callbacks unescape xs c of None \<Rightarrow> None | Some c \<Rightarrow> run_callbacks unescape ys c)"
  by (induction xs arbitrary: c) (auto split: option.split)

definition add_headers :: "(string \<times> string \<times> string) list \<Rightarrow> http_request \<Rightarrow> http_request" where
  "add_headers hs req = req\<lparr>headers := fold (\<lambda>(k, v, _). om_ins k v) hs (headers req),
     cookies := fold (\<lambda>(k, v, _) cs. if k = ''Cookie'' then parseCookies v cs else cs) hs (cookies req)\<rparr>"

lemma run_header:
  assumes "no_nul k" "no_nul v"
  shows "\<exists>b. onHeadersValue (v @ rest) (length v) (onHeadersField (k @ krest) (length k) c) =
    c\<lparr>keepalive := b, m_cur_header_field := k, m_cur_http_request := add_headers [(k, v, rest)] (m_cur_http_request c)\<rparr>"
  using assms
  by (intro exI [of _ "if k = ''Connection'' \<and> v = ''keep-alive'' then True else keepalive c"])
    (simp add: onHeadersValue_def onHeadersField_def cstr_no_nul Let_def add_headers_def)

lemma run_callbacks_headers:
  "list_all (\<lambda>(k, v, _). no_nul k \<and> no_nul v) hs \<Longrightarrow>
   \<exists>f b. run_callbacks unescape (header_callbacks hs) c = Some (c\<lparr>keepalive := b, m_cur_header_field := f,
     m_cur_http_request := add_headers hs (m_cur_http_request c)\<rparr>)"
proof (induction hs arbitrary: c rule: header_callbacks.induct)
  case 1
  then show ?case
    by (intro exI [of _ "m_cur_header_field c"] exI [of _ "keepalive c"]) (simp add: add_headers_def)
next
  case (2 k v rest hs)
  then obtain b0 where "onHeadersValue (v @ rest) (length v) (onHeadersField (k @ '': '' @ v @ rest) (length k) c) =
      c\<lparr>keepalive := b0, m_cur_header_field := k, m_cur_http_request := add_headers [(k, v, rest)] (m_cur_http_request c)\<rparr>"
      (is "_ = ?c")
    using run_header [of k v rest "'': '' @ v @ rest" c] by auto
  moreover obtain f b where "run_callbacks unescape (header_callbacks hs) ?c =
      Some (?c\<lparr>keepalive := b, m_cur_header_field := f, m_cur_http_request := add_headers hs (m_cur_http_request ?c)\<rparr>)"
    using "2.IH" [of ?c] "2.prems" by auto
  ultimately have "run_callbacks unescape (header_callbacks ((k, v, rest) # hs)) c =
      Some (c\<lparr>keepalive := b, m_cur_header_field := f, m_cur_http_request := add_headers ((k, v, rest) # hs) (m_cur_http_request c)\<rparr>)"
    by (simp add: add_headers_def)
  then show ?case
    by blast
qed

lemma run_message:
  assumes "no_nul u" "CHR '' '' \<notin> set u" "list_all (\<lambda>(k, v, _). no_nul k \<and> no_nul v) hs" "no_nul b"
    "parseGET unescape u [] = Some kvs" "m_cur_http_request c = HttpRequest_new []"
  shows "\<exists>f. run_callbacks unescape (message_callbacks u urest hs keep b brest) c =
    Some (c\<lparr>keepalive := keep, m_cur_header_field := f, request_finished := True,
       m_cur_http_request := message_request u kvs hs b\<rparr>)"
proof -
  have "str_find CHR '' '' (u @ '' '' @ cstr urest) = Some (length u)"
    using assms(2) by (simp add: str_find_append str_find_None_iff [THEN iffD2])
  moreover have "cstr ('' '' @ urest) = '' '' @ cstr urest"
    by (simp add: cstr_def)
  ultimately have url: "onUrl unescape (u @ '' '' @ urest) c =
      Some (c\<lparr>m_cur_http_request := (HttpRequest_new [])\<lparr>url := u, path := getUrlPath u, values_GET := kvs\<rparr>\<rparr>)"
    (is "_ = Some ?c")
    using assms cstr_append [OF assms(1), of "'' '' @ urest"] by (simp add: onUrl_def HttpRequest_new_def Let_def)
  obtain f b0 where "run_callbacks unescape (header_callbacks hs) ?c = Some (?c\<lparr>keepalive := b0, m_cur_header_field := f,
     m_cur_http_request := add_headers hs (m_cur_http_request ?c)\<rparr>)"
    using run_callbacks_headers [OF assms(3)] by blast
  then have "run_callbacks unescape (message_callbacks u urest hs keep b brest) c =
    Some (c\<lparr>keepalive := keep, m_cur_header_field := f, request_finished := True,
       m_cur_http_request := message_request u kvs hs b\<rparr>)"
    using url assms(4)
    by (simp add: message_callbacks_def run_callbacks_append onHeadersComplete_def onBody_def onMessageComplete_def
        cstr_no_nul add_headers_def message_request_def HttpRequest_new_def)
  then show ?thesis
    by blast
qed

text \<open>
  when one whole request arrives (in any number of pieces read in one call), the
  connection queues exactly it: the path and the query of its URL, its headers (the first of
  a name counts), its cookies and its body.
\<close>

lemma performRecv_queues_request:
  assumes "execute (m_parser c) bytes = (p, message_callbacks u urest hs keep b brest)"
    "conn_recv_loop rs [] = Some bytes" "bytes \<noteq> []" "\<not> is_custom c" "m_cur_http_request c = HttpRequest_new []"
    "no_nul u" "CHR '' '' \<notin> set u" "list_all (\<lambda>(k, v, _). no_nul k \<and> no_nul v) hs" "no_nul b"
    "parseGET unescape u [] = Some kvs"
  shows "\<exists>c'. conn_performRecv ops execute unescape now rs c = Some (c', False) \<and>
    http_requests c' = http_requests c @ [message_request u kvs hs b] \<and> keepalive c' = keep \<and>
    m_cur_http_request c' = HttpRequest_new [] \<and> m_parser c' = p \<and> alive c' = alive c"
proof -
  let ?c = "c\<lparr>last_activity_ts := now, m_parser := p\<rparr>"
  obtain f where "run_callbacks unescape (message_callbacks u urest hs keep b brest) ?c =
    Some (?c\<lparr>keepalive := keep, m_cur_header_field := f, request_finished := True,
       m_cur_http_request := message_request u kvs hs b\<rparr>)"
    using run_message [OF assms(6-10), where c = ?c and urest = urest and keep = keep and brest = brest] assms(5) by auto
  then show ?thesis
    using assms(1-4) by (simp add: conn_performRecv_def conn_execute_def conn_take_requests_def)
qed

definition demo_info :: response_info where
  "demo_info = \<lparr>content_type = ''text/html'', server_name = ''hi''\<rparr>"

definition demo_conn :: "(unit, server_parser, bin_request option) http_conn" where
  "demo_conn = HttpConnection_new () 0 5 demo_info"

definition demo_execute :: "unit \<Rightarrow> string \<Rightarrow> unit \<times> callback list" where
  "demo_execute p s = ((), message_callbacks ''/s?q=ab'' ''HTTP/1.1'' [(''Cookie'', ''a=1'', [])] True ''xy'' [])"

lemma performRecv_queues_request_witness:
  "\<exists>c'. conn_performRecv (bin_ops (\<lambda>_. 0) (\<lambda>s. (s, []))) demo_execute Some 0 [Received ''GET ''] demo_conn = Some (c', False) \<and>
     map url (http_requests c') = [''/s?q=ab'']"
proof -
  have q: "parseGET Some ''/s?q=ab'' [] = Some [(''q'', ''ab'')]"
    by code_simp
  have "\<exists>c'. conn_performRecv (bin_ops (\<lambda>_. 0) (\<lambda>s. (s, []))) demo_execute Some 0 [Received ''GET ''] demo_conn = Some (c', False) \<and>
    http_requests c' = http_requests demo_conn @ [message_request ''/s?q=ab'' [(''q'', ''ab'')] [(''Cookie'', ''a=1'', [])] ''xy''] \<and>
    keepalive c' = True \<and> m_cur_http_request c' = HttpRequest_new [] \<and> m_parser c' = () \<and> alive c' = alive demo_conn"
    by (rule performRecv_queues_request [of demo_execute demo_conn "''GET ''" "()" _ "''HTTP/1.1''"])
      (simp_all add: demo_execute_def demo_conn_def HttpConnection_new_def no_nul_def q)
  then show ?thesis
    by (auto simp: demo_conn_def HttpConnection_new_def message_request_def)
qed

text \<open>
  Whatever arrives in one call, at most one request is queued: of two requests in one read
  (a pipelining client) the first is overwritten by the second.
\<close>

lemma run_callback_requests: "run_callback unescape cb c = Some c' \<Longrightarrow> http_requests c' = http_requests c"
  by (cases cb) (auto simp: onUrl_def Let_def onHeadersField_def onHeadersValue_def onHeadersComplete_def
      onBody_def onMessageComplete_def split: option.splits)

lemma run_callbacks_requests: "run_callbacks unescape cbs c = Some c' \<Longrightarrow> http_requests c' = http_requests c"
  by (induction cbs arbitrary: c) (auto dest: run_callback_requests split: option.splits)

lemma performRecv_one_request:
  assumes "conn_performRecv ops execute unescape now rs c = Some (c', e)"
  shows "length (http_requests c') \<le> length (http_requests c) + 1"
  using assms
  by (auto simp: conn_performRecv_def conn_execute_def conn_take_requests_def dest!: run_callbacks_requests
      split: option.splits if_splits prod.splits bool.splits)

section \<open>Rendering and reading responses\<close>

text \<open>
  A reference client: it reads header lines up to the empty one, and then as many bytes as
  the line \<^verbatim>\<open>Content-Length\<close> says.
\<close>

fun read_line :: "string \<Rightarrow> (string \<times> string) option" where
  "read_line (a # b # s) = (if [a, b] = eol then Some ([], s) else map_option (\<lambda>(l, r). (a # l, r)) (read_line (b # s)))"
| "read_line _ = None"

lemma read_line_shorter: "read_line s = Some (l, r) \<Longrightarrow> length r < length s"
  by (induction s arbitrary: l r rule: read_line.induct) (auto split: if_splits)

function read_head :: "string \<Rightarrow> (string list \<times> string) option" where
  "read_head s = (case read_line s of
     None \<Rightarrow> None
   | Some (l, r) \<Rightarrow> if l = [] then Some ([], r) else map_option (\<lambda>(ls, r). (l # ls, r)) (read_head r))"
  by pat_completeness auto
termination
  by (relation "measure length") (auto dest: read_line_shorter)

declare read_head.simps [simp del]

definition content_length :: "string list \<Rightarrow> nat" where
  "content_length ls = (case filter (\<lambda>l. take 16 l = ''Content-Length: '') ls of
     [] \<Rightarrow> 0 | l # _ \<Rightarrow> digits_val (drop 16 l))"

definition read_response :: "string \<Rightarrow> (string list \<times> string \<times> string) option" where
  "read_response s = (case read_head s of
     None \<Rightarrow> None
   | Some (ls, r) \<Rightarrow> let n = content_length ls in if length r < n then None else Some (ls, take n r, drop n r))"

definition header_ok :: "string \<Rightarrow> bool" where
  "header_ok h \<longleftrightarrow> h \<noteq> [] \<and> CHR 0x0D \<notin> set h \<and> take 16 h \<noteq> ''Content-Length: ''"

lemma read_line_eol: "CHR 0x0D \<notin> set l \<Longrightarrow> read_line (l @ eol @ r) = Some (l, r)"
proof (induction l)
  case (Cons a l)
  then show ?case
    by (cases "l @ eol @ r") (auto simp: eol_def)
qed (simp add: eol_def)

lemma read_head_lines:
  "list_all (\<lambda>l. l \<noteq> [] \<and> CHR 0x0D \<notin> set l) ls \<Longrightarrow> read_head (concat (map (\<lambda>l. l @ eol) ls) @ eol @ r) = Some (ls, r)"
proof (induction ls)
  case Nil
  then show ?case
    using read_line_eol [of "[]" r] by (subst read_head.simps) simp
next
  case (Cons l ls)
  then show ?case
    using read_line_eol [of l "concat (map (\<lambda>l. l @ eol) ls) @ eol @ r"] by (subst read_head.simps) simp
qed

text \<open>The header lines of a response.\<close>

definition response_lines :: "u64 \<Rightarrow> http_response \<Rightarrow> ('p, 'c, 'r) http_conn \<Rightarrow> string list" where
  "response_lines now resp c =
     [''HTTP/1.1 '' @ inttostr (code resp), ''Content-Type: '' @ content_type (m_resp_info c),
      ''Date: '' @ inttostr (ucast now), ''Server: '' @ server_name (m_resp_info c),
      (if keepalive c then ''Connection: Keep-Alive'' else ''Connection: close''), ''Transfer-Encoding: none''] @
     rheaders resp @ m_res_headers c @ [''Content-Length: '' @ inttostr (word_of_nat (length (rbody resp)))]"

lemma renderResponse_lines:
  "renderResponse now resp c = concat (map (\<lambda>l. l @ eol) (response_lines now resp c)) @ eol @ rbody resp"
  by (simp add: renderResponse_def response_lines_def Let_def)

lemma inttostr_no_cr: "CHR 0x0D \<notin> set (inttostr w)"
proof -
  have "CHR 0x0D \<notin> set (dec_str n)" for n
    using dec_str_digit [of "CHR 0x0D" n] by (auto simp: is_digit_def)
  then show ?thesis
    by (auto simp: inttostr_def)
qed

lemma inttostr_size: "n < 2 ^ 31 \<Longrightarrow> inttostr (word_of_nat n) = dec_str n"
proof -
  assume n: "n < 2 ^ 31"
  then have "int n < 2 ^ 31"
    by simp
  then have "sint (word_of_nat n :: 32 word) = int n"
    by (simp add: signed_of_nat signed_take_bit_int_eq_self_iff)
  then show ?thesis
    by (simp add: inttostr_def)
qed

lemma content_length_lines:
  assumes "list_all header_ok ls"
  shows "content_length (ls @ [''Content-Length: '' @ dec_str n]) = n"
proof -
  have "filter (\<lambda>l. take 16 l = ''Content-Length: '') ls = []"
    using assms by (auto simp: list_all_iff header_ok_def filter_empty_conv)
  then show ?thesis
    by (simp add: content_length_def dec_str_def digits_val_dec)
qed

lemma response_lines_ok:
  assumes "CHR 0x0D \<notin> set (content_type (m_resp_info c))" "CHR 0x0D \<notin> set (server_name (m_resp_info c))"
    "list_all header_ok (rheaders resp)" "list_all header_ok (m_res_headers c)"
  shows "list_all header_ok (butlast (response_lines now resp c))"
  using assms inttostr_no_cr by (simp add: response_lines_def header_ok_def butlast_append)

text \<open>
  C22: a client that reads header lines and then as many bytes as \<open>Content-Length\<close> says
  gets from a rendered response its lines and its body, and the rest of the stream, so the
  responses of a connection can be told apart. The body is below \<open>2^31\<close> bytes, no header
  holds a carriage return or is itself a \<open>Content-Length\<close>.
\<close>

theorem render_roundtrip:
  assumes "length (rbody resp) < 2 ^ 31"
    "CHR 0x0D \<notin> set (content_type (m_resp_info c))" "CHR 0x0D \<notin> set (server_name (m_resp_info c))"
    "list_all header_ok (rheaders resp)" "list_all header_ok (m_res_headers c)"
  shows "read_response (renderResponse now resp c @ rest) = Some (response_lines now resp c, rbody resp, rest)"
proof -
  let ?ls = "response_lines now resp c" and ?n = "length (rbody resp)"
  define ls0 where "ls0 = butlast ?ls"
  have ls: "?ls = ls0 @ [''Content-Length: '' @ dec_str ?n]"
    by (simp add: ls0_def response_lines_def inttostr_size [OF assms(1)] butlast_append)
  have ls0: "list_all header_ok ls0"
    unfolding ls0_def by (rule response_lines_ok [OF assms(2-5)])
  have "CHR 0x0D \<notin> set (dec_str ?n)"
    using inttostr_no_cr [of "word_of_nat ?n"] by (simp add: inttostr_size [OF assms(1)])
  then have "list_all (\<lambda>l. l \<noteq> [] \<and> CHR 0x0D \<notin> set l) ?ls"
    unfolding ls using ls0 by (auto simp: list_all_iff header_ok_def)
  moreover have "content_length ?ls = ?n"
    unfolding ls by (rule content_length_lines [OF ls0])
  ultimately show ?thesis
    by (simp add: read_response_def renderResponse_lines read_head_lines)
qed

theorem render_roundtrip_witness:
  "map_option (fst o snd) (read_response (renderResponse 7 (HttpResponse_new 200 ''hello'') demo_conn @ ''HTTP'')) = Some ''hello''"
  using render_roundtrip [of "HttpResponse_new 200 ''hello''" demo_conn 7 "''HTTP''"]
  by (simp add: HttpResponse_new_def demo_conn_def HttpConnection_new_def demo_info_def)

section \<open>Sending\<close>

text \<open>Responses queued and calls of \<^verbatim>\<open>performSend\<close>, with all that went out.\<close>

datatype send_event = Push string | Send u64 int bool

fun send_step :: "send_event \<Rightarrow> ('p, 'c, 'r) http_conn \<times> string \<Rightarrow> ('p, 'c, 'r) http_conn \<times> string" where
  "send_step (Push s) (c, wire) = (addCustomResponse s c, wire)"
| "send_step (Send now nsent again) (c, wire) =
     (case conn_performSend now nsent again c of (c, out, _) \<Rightarrow> (c, wire @ out))"

fun pushed :: "send_event list \<Rightarrow> string" where
  "pushed [] = []"
| "pushed (Push s # es) = s @ pushed es"
| "pushed (Send _ _ _ # es) = pushed es"

fun first_pushed :: "send_event list \<Rightarrow> string" where
  "first_pushed [] = []"
| "first_pushed (Push s # es) = s"
| "first_pushed (Send _ _ _ # es) = first_pushed es"

definition pending :: "('p, 'c, 'r) http_conn \<Rightarrow> string" where
  "pending c = m_send_buffer c @ concat (m_resps c)"

lemma performSend_pending:
  "conn_performSend now nsent again c = (c', out, ok) \<Longrightarrow>
    out @ pending c' = pending c \<and> keepalive c' = keepalive c \<and> (ok \<longrightarrow> m_send_buffer c' = [] \<and> ever_sent c')"
  by (cases "m_resps c") (auto simp: conn_performSend_def pending_def Let_def split: if_splits)

lemma send_steps_pending:
  "fold send_step es (c, wire) = (c', wire') \<Longrightarrow> wire' @ pending c' = wire @ pending c @ pushed es"
proof (induction es arbitrary: c wire rule: pushed.induct)
  case (2 s es)
  then show ?case
    by (fastforce simp: addCustomResponse_def pending_def)
next
  case (3 now nsent again es)
  obtain d out ok where d: "conn_performSend now nsent again c = (d, out, ok)"
    by (cases "conn_performSend now nsent again c") auto
  then show ?case
    using 3 performSend_pending [OF d] by fastforce
qed simp

lemma send_steps_closing:
  "fold send_step es (c, wire) = (c', wire') \<Longrightarrow> ever_sent c \<Longrightarrow> \<not> keepalive c \<Longrightarrow>
    wire' @ m_send_buffer c' = wire @ m_send_buffer c"
proof (induction es arbitrary: c wire rule: pushed.induct)
  case (3 now nsent again es)
  obtain d out ok where d: "conn_performSend now nsent again c = (d, out, ok)"
    by (cases "conn_performSend now nsent again c") auto
  then have "out @ m_send_buffer d = m_send_buffer c" "ever_sent d" "\<not> keepalive d"
    using 3 by (auto simp: conn_performSend_def Let_def split: if_splits)
  then show ?case
    using 3 d by fastforce
qed (fastforce simp: addCustomResponse_def)+

lemma send_steps_first:
  "fold send_step es (c, wire) = (c', wire') \<Longrightarrow> \<not> ever_sent c \<Longrightarrow> m_send_buffer c = [] \<Longrightarrow> \<not> keepalive c \<Longrightarrow>
    \<exists>r. wire' @ r = wire @ (if m_resps c = [] then first_pushed es else hd (m_resps c))"
proof (induction es arbitrary: c wire rule: pushed.induct)
  case (2 s es)
  then show ?case
    using "2.IH" [of "addCustomResponse s c" wire] by (cases "m_resps c") (simp_all add: addCustomResponse_def)
next
  case (3 now nsent again es)
  obtain d out ok where d: "conn_performSend now nsent again c = (d, out, ok)"
    by (cases "conn_performSend now nsent again c") auto
  show ?case
  proof (cases "m_resps c = []")
    case True
    then have "d = c" "out = []"
      using 3 d by (auto simp: conn_performSend_def)
    then have "fold send_step es (c, wire) = (c', wire')"
      using "3.prems"(1) d by simp
    from "3.IH" [OF this "3.prems"(2-4)] show ?thesis
      using True by simp
  next
    case False
    then have d': "out @ m_send_buffer d = hd (m_resps c)" "ever_sent d" "\<not> keepalive d"
      using 3 d by (auto simp: conn_performSend_def Let_def split: if_splits)
    have "fold send_step es (d, wire @ out) = (c', wire')"
      using "3.prems"(1) d by simp
    from send_steps_closing [OF this d'(2,3)] have "wire' @ m_send_buffer c' = wire @ hd (m_resps c)"
      using d'(1) by simp
    then show ?thesis
      using False by auto
  qed
qed simp

text \<open>
  C24: whatever the socket accepts at each call, the bytes on the wire are the responses in
  order, none lost or repeated; and a connection that is not keep-alive sends nothing
  beyond its first response.
\<close>

theorem sends_in_order:
  assumes "fold send_step es (c, []) = (c', wire)" "m_send_buffer c = []" "m_resps c = []"
  shows "wire @ pending c' = pushed es \<and> (\<not> keepalive c \<and> \<not> ever_sent c \<longrightarrow> (\<exists>r. wire @ r = first_pushed es))"
  using send_steps_pending [OF assms(1)] send_steps_first [OF assms(1)] assms(2,3) by (auto simp: pending_def)

theorem sends_in_order_witness:
  "\<exists>c' wire. fold send_step [Push ''ab'', Push ''cd'', Send 1 1 False, Send 1 5 False] (demo_conn, []) = (c', wire) \<and>
     wire @ pending c' = ''abcd''"
proof -
  let ?es = "[Push ''ab'', Push ''cd'', Send 1 1 False, Send 1 5 False]"
  obtain c' wire where r: "fold send_step ?es (demo_conn, []) = (c', wire)"
    by (cases "fold send_step ?es (demo_conn, [])")
  moreover have "m_send_buffer demo_conn = []" "m_resps demo_conn = []"
    by (simp_all add: demo_conn_def HttpConnection_new_def)
  ultimately show ?thesis
    using sends_in_order [OF r] by auto
qed

section \<open>The router\<close>

lemma route_loop_longest:
  "route_loop routes p n = Some info \<longleftrightarrow>
    (\<exists>i. 1 \<le> i \<and> i \<le> n \<and> om_find routes (take i p) = Some info \<and> (\<forall>j. i < j \<and> j \<le> n \<longrightarrow> om_find routes (take j p) = None))"
proof (induction n)
  case (Suc n)
  show ?case
  proof (cases "om_find routes (take (Suc n) p)")
    case None
    then show ?thesis
      using Suc by (auto simp: le_Suc_eq)
  next
    case (Some x)
    then show ?thesis
      by (auto simp: le_Suc_eq intro: exI [of _ "Suc n"])
  qed
qed simp

text \<open>
  The route of a request is the longest prefix of its path that is registered (the root
  \<open>/\<close> serves what nothing else does). Its headers stay on the connection for good: a
  second request over the same connection is answered with them twice.
\<close>

lemma fold_addHeader: "fold addHeader hs c = c\<lparr>m_res_headers := m_res_headers c @ hs\<rparr>"
  by (induction hs arbitrary: c) (simp_all add: addHeader_def)

lemma router_headers_accumulate:
  assumes "route_loop routes (path req) (length (path req)) = Some (handler, hs)"
    "\<And>c. m_res_headers (run handler req c) = m_res_headers c"
  shows "m_res_headers (router_handle run routes req (router_handle run routes req c)) = m_res_headers c @ hs @ hs"
  by (simp add: router_handle_def assms fold_addHeader)

section \<open>A connection that speaks the binary protocol\<close>

text \<open>After the upgrade one call of \<^verbatim>\<open>performRecv\<close> feeds the bytes read to the binary parser;
  an exception finds the requests parsed before it in the queue.\<close>

lemma performRecv_bin:
  assumes "is_custom c" "m_custom_parser c = Some p" "conn_recv_loop rs [] = Some d" "d \<noteq> []"
  shows "case server_feed junk pb (Inr (p, custom_requests c)) d of
      Inr (q, reqs) \<Rightarrow> conn_performRecv (bin_ops junk pb) execute unescape now rs c =
        Some (c\<lparr>last_activity_ts := now, custom_requests := reqs, m_custom_parser := Some q\<rparr>, False)
    | Inl (q, reqs) \<Rightarrow> \<exists>c'. conn_performRecv (bin_ops junk pb) execute unescape now rs c = Some (c', True) \<and>
        custom_requests c' = reqs"
proof -
  obtain q e where parse: "server_parse junk pb (server_append p d) = (q, e)"
    by (cases "server_parse junk pb (server_append p d)") auto
  obtain reqs q' e' where drain: "server_drain junk pb q = (reqs, q', e')"
    by (cases "server_drain junk pb q") auto
  have exec: "c_execute (bin_ops junk pb) p d = (q, e \<noteq> None)"
    using parse by (simp add: bin_ops_def server_execute_def)
  let ?c = "c\<lparr>last_activity_ts := now, m_custom_parser := Some q\<rparr>"
  have run: "conn_performRecv (bin_ops junk pb) execute unescape now rs c =
      (if e = None then conn_take_requests (bin_ops junk pb) ?c else Some (?c, True))"
    using assms exec by (simp add: conn_performRecv_def conn_execute_def)
  have take: "conn_take_requests (bin_ops junk pb) ?c =
      Some (?c\<lparr>custom_requests := custom_requests c @ reqs, m_custom_parser := Some q'\<rparr>, e' \<noteq> None)"
    using assms(1) drain by (simp add: conn_take_requests_def conn_drain_bin)
  have feed: "server_feed junk pb (Inr (p, custom_requests c)) d =
      (if e \<noteq> None then Inl (q, custom_requests c)
       else if e' \<noteq> None then Inl (q', custom_requests c @ reqs) else Inr (q', custom_requests c @ reqs))"
    unfolding server_feed_def server_pump_def prod.case sum.case parse
    using drain by (cases e; cases e') simp_all
  show ?thesis
    unfolding feed run take by (cases e; cases e') simp_all
qed

end
