(* ===== verification/HttpServer.thy ===== *)
theory HttpServer
  imports HttpConnection EventWatcher
begin

text \<open>
  \<^verbatim>\<open>network/HttpServer/HttpServer.impl\<close>. Connections are shared pointers that the table, the
  queues of responses and the handlers hold, so the state has a store of connections under
  addresses. The calls that the server makes to its watcher are a log of \<open>watch_op\<close>s, the
  requests taken (with whether an upgrade took them), the responses processed and the bytes
  sent are logs too. The handlers are the user's: here
  they answer at once, by \<^verbatim>\<open>sendResponse\<close> of the connection, or not at all, and later
  answers come as operations of their own. The time and what the sockets do are parameters.
  A result \<open>None\<close> is a call that does not return or is undefined.
\<close>

section \<open>The code\<close>

record ('c, 'r) custom_info =
  parserBuilder :: "http_request \<Rightarrow> 'c"
  custom_handler :: "'r \<Rightarrow> string option"
  handshake_message :: string

text \<open>What a server is built with: the parsers of the connections and its request handler.\<close>

record ('p, 'c, 'r) server_code =
  sc_parser :: 'p
  sc_execute :: "'p \<Rightarrow> string \<Rightarrow> 'p \<times> callback list"
  sc_unescape :: "string \<Rightarrow> string option"
  sc_ops :: "('c, 'r) custom_ops"
  sc_request_hdl :: "http_request \<Rightarrow> http_response option"
  sc_resp_info :: response_info

record ('p, 'c, 'r) http_server =
  conns :: "nat \<Rightarrow> ('p, 'c, 'r) http_conn option"
  next_conn :: nat
  m_reading_connections :: "(int, nat) omap"
  m_resp_queue :: "(nat \<times> http_response) list"
  m_custom_resp_queue :: "(nat \<times> string) list"
  m_sendq_locked :: bool
  last_cleanup :: u64
  m_customProtocols :: "(string, ('c, 'r) custom_info) omap"
  watch_log :: "watch_op list"
  handled_http :: "(nat \<times> http_request \<times> bool) list"
  handled_custom :: "(nat \<times> 'r) list"
  answered :: "nat list"
  wire :: "(nat \<times> string) list"

definition HttpServer_new :: "int \<Rightarrow> ('p, 'c, 'r) http_server" where
  "HttpServer_new listen_socket =
     \<lparr>conns = (\<lambda>_. None), next_conn = 0, m_reading_connections = [], m_resp_queue = [], m_custom_resp_queue = [],
      m_sendq_locked = False, last_cleanup = 0, m_customProtocols = [],
      watch_log = [Add listen_socket (HI_READ OR HI_ACCEPT)], handled_http = [], handled_custom = [], answered = [], wire = []\<rparr>"

definition addCustomProtocol :: "string \<Rightarrow> ('c, 'r) custom_info \<Rightarrow> ('p, 'c, 'r) http_server \<Rightarrow> ('p, 'c, 'r) http_server" where
  "addCustomProtocol protocol info s = s\<lparr>m_customProtocols := om_ins protocol info (m_customProtocols s)\<rparr>"

definition watch :: "watch_op \<Rightarrow> ('p, 'c, 'r) http_server \<Rightarrow> ('p, 'c, 'r) http_server" where
  "watch op s = s\<lparr>watch_log := watch_log s @ [op]\<rparr>"

definition set_conn :: "nat \<Rightarrow> ('p, 'c, 'r) http_conn \<Rightarrow> ('p, 'c, 'r) http_server \<Rightarrow> ('p, 'c, 'r) http_server" where
  "set_conn a c s = s\<lparr>conns := (conns s)(a := Some c)\<rparr>"

datatype accept_result = Accepted int | AcceptInterrupted | NoneWaiting

fun performAccept ::
  "('p, 'c, 'r) server_code \<Rightarrow> u64 \<Rightarrow> accept_result list \<Rightarrow> ('p, 'c, 'r) http_server \<Rightarrow> ('p, 'c, 'r) http_server" where
  "performAccept hc now [] s = s"
| "performAccept hc now (NoneWaiting # rs) s = s"
| "performAccept hc now (AcceptInterrupted # rs) s = performAccept hc now rs s"
| "performAccept hc now (Accepted fd # rs) s =
     (let a = next_conn s;
          s = (set_conn a (HttpConnection_new (sc_parser hc) now fd (sc_resp_info hc)) s)\<lparr>next_conn := a + 1\<rparr>;
          s = s\<lparr>m_reading_connections := om_ins fd a (m_reading_connections s)\<rparr>
      in performAccept hc now rs (watch (Add fd HI_READ) s))"

definition erase_conn :: "int \<Rightarrow> ('p, 'c, 'r) http_server \<Rightarrow> ('p, 'c, 'r) http_server" where
  "erase_conn fd s = s\<lparr>m_reading_connections := om_erase fd (m_reading_connections s)\<rparr>"

definition killConnection :: "int \<Rightarrow> ('p, 'c, 'r) http_server \<Rightarrow> ('p, 'c, 'r) http_server" where
  "killConnection fd s =
     (let s = watch (Del fd) s
      in case om_find (m_reading_connections s) fd of None \<Rightarrow> s | Some _ \<Rightarrow> erase_conn fd s)"

definition sendResponse :: "nat \<Rightarrow> http_response \<Rightarrow> ('p, 'c, 'r) http_server \<Rightarrow> ('p, 'c, 'r) http_server" where
  "sendResponse a resp s = s\<lparr>m_resp_queue := m_resp_queue s @ [(a, resp)]\<rparr>"

text \<open>The mutex is not recursive: a thread that holds it and locks it again waits for ever.\<close>

definition onSendResponse :: "int \<Rightarrow> http_response \<Rightarrow> ('p, 'c, 'r) http_server \<Rightarrow> ('p, 'c, 'r) http_server option" where
  "onSendResponse fd resp s =
     (if m_sendq_locked s then None
      else (case om_find (m_reading_connections s) fd of
              None \<Rightarrow> Some s
            | Some a \<Rightarrow> Some (s\<lparr>m_resp_queue := m_resp_queue s @ [(a, resp)]\<rparr>)))"

definition onSendCustomResponse :: "int \<Rightarrow> string \<Rightarrow> ('p, 'c, 'r) http_server \<Rightarrow> ('p, 'c, 'r) http_server" where
  "onSendCustomResponse fd resp s =
     (case om_find (m_reading_connections s) fd of
        None \<Rightarrow> s
      | Some a \<Rightarrow> s\<lparr>m_custom_resp_queue := m_custom_resp_queue s @ [(a, resp)]\<rparr>)"

definition getCustomParser :: "('p, 'c, 'r) http_server \<Rightarrow> string \<Rightarrow> http_request \<Rightarrow> ('c \<times> string) option" where
  "getCustomParser s protocol req =
     (case om_find (m_customProtocols s) protocol of
        None \<Rightarrow> None
      | Some info \<Rightarrow> Some (parserBuilder info req, handshake_message info))"

text \<open>The handlers, called with the connection at \<open>a\<close>.\<close>

definition request_hdl ::
  "('p, 'c, 'r) server_code \<Rightarrow> nat \<Rightarrow> ('p, 'c, 'r) http_conn \<Rightarrow> http_request \<Rightarrow> ('p, 'c, 'r) http_server \<Rightarrow>
     ('p, 'c, 'r) http_server option" where
  "request_hdl hc a c req s =
     (let s = s\<lparr>handled_http := handled_http s @ [(a, req, False)]\<rparr>
      in case sc_request_hdl hc req of None \<Rightarrow> Some s | Some resp \<Rightarrow> onSendResponse (sock c) resp s)"

definition runCustomHandler ::
  "nat \<Rightarrow> ('p, 'c, 'r) http_conn \<Rightarrow> 'r \<Rightarrow> ('p, 'c, 'r) http_server \<Rightarrow> ('p, 'c, 'r) http_server" where
  "runCustomHandler a c req s =
     (case om_find (m_customProtocols s) (custom_protocol_id c) of
        None \<Rightarrow> s
      | Some info \<Rightarrow>
          (let s = s\<lparr>handled_custom := handled_custom s @ [(a, req)]\<rparr>
           in case custom_handler info req of None \<Rightarrow> s | Some resp \<Rightarrow> onSendCustomResponse (sock c) resp s))"

definition handleWaitingRequests ::
  "('p, 'c, 'r) server_code \<Rightarrow> nat \<Rightarrow> ('p, 'c, 'r) http_server \<Rightarrow> ('p, 'c, 'r) http_server option" where
  "handleWaitingRequests hc a s =
     (case conns s a of
        None \<Rightarrow> None
      | Some c \<Rightarrow>
          if waiting_last_handling c then Some s
          else if \<not> is_custom c \<and> http_requests c \<noteq> [] then
            (let req = hd (http_requests c);
                 c = c\<lparr>waiting_last_handling := True, http_requests := tl (http_requests c)\<rparr>
             in case checkUpgrade (getCustomParser s) req c of
                  (c, Some handshake) \<Rightarrow> Some (onSendCustomResponse (sock c) handshake
                      ((set_conn a c s)\<lparr>handled_http := handled_http s @ [(a, req, True)]\<rparr>))
                | (c, None) \<Rightarrow> request_hdl hc a c req (set_conn a c s))
          else if custom_requests c \<noteq> [] then
            (let req = hd (custom_requests c);
                 c = c\<lparr>waiting_last_handling := True, custom_requests := tl (custom_requests c)\<rparr>
             in Some (runCustomHandler a c req (set_conn a c s)))
          else Some s)"

definition server_performRecv ::
  "('p, 'c, 'r) server_code \<Rightarrow> u64 \<Rightarrow> recv_call list \<Rightarrow> int \<Rightarrow> ('p, 'c, 'r) http_server \<Rightarrow> ('p, 'c, 'r) http_server option" where
  "server_performRecv hc now rs fd s =
     (case om_find (m_reading_connections s) fd of
        None \<Rightarrow> Some (watch (Del fd) s)
      | Some a \<Rightarrow>
          (case conns s a of
             None \<Rightarrow> None
           | Some c \<Rightarrow>
               (case conn_performRecv (sc_ops hc) (sc_execute hc) (sc_unescape hc) now rs c of
                  None \<Rightarrow> None
                | Some (c, True) \<Rightarrow> Some (killConnection fd (set_conn a c s))
                | Some (c, False) \<Rightarrow>
                    if \<not> notDead now c then Some (erase_conn fd (watch (Del fd) (set_conn a c s)))
                    else handleWaitingRequests hc a (set_conn a c s))))"

definition server_performSend ::
  "u64 \<Rightarrow> int \<Rightarrow> bool \<Rightarrow> int \<Rightarrow> ('p, 'c, 'r) http_server \<Rightarrow> ('p, 'c, 'r) http_server option" where
  "server_performSend now nsent again fd s =
     (case om_find (m_reading_connections s) fd of
        None \<Rightarrow> Some s
      | Some a \<Rightarrow>
          (case conns s a of
             None \<Rightarrow> None
           | Some c \<Rightarrow>
               (case conn_performSend now nsent again c of (c, out, ok) \<Rightarrow>
                  let s = (set_conn a c s)\<lparr>wire := wire s @ [(a, out)]\<rparr>
                  in if \<not> ok \<and> \<not> notDead now c then Some (erase_conn fd (watch (Del fd) s)) else Some s)))"

text \<open>Erasing what \<^verbatim>\<open>find\<close> did not find is undefined.\<close>

definition handleResponse ::
  "('p, 'c, 'r) server_code \<Rightarrow> u64 \<Rightarrow> int \<Rightarrow> bool \<Rightarrow> nat \<Rightarrow> ('p, 'c, 'r) http_server \<Rightarrow> ('p, 'c, 'r) http_server option" where
  "handleResponse hc now nsent again a s =
     (case conns s a of
        None \<Rightarrow> None
      | Some c \<Rightarrow>
          (case conn_performSend now nsent again (c\<lparr>waiting_last_handling := False\<rparr>) of (c, out, ok) \<Rightarrow>
             let s = (set_conn a c s)\<lparr>wire := wire s @ [(a, out)], answered := answered s @ [a]\<rparr>
             in if ok then handleWaitingRequests hc a s
                else if \<not> notDead now c then
                  (let s = watch (Del (sock c)) s
                   in case om_find (m_reading_connections s) (sock c) of
                        None \<Rightarrow> None
                      | Some _ \<Rightarrow> Some (erase_conn (sock c) s))
                else handleWaitingRequests hc a (watch (Enable (sock c) (HI_READ OR HI_WRITE)) s)))"

text \<open>The results of \<^verbatim>\<open>send\<close> in the loops; after the last one sockets are full.\<close>

fun next_send :: "(int \<times> bool) list \<Rightarrow> (int \<times> bool) \<times> (int \<times> bool) list" where
  "next_send [] = ((0, True), [])"
| "next_send (r # rs) = (r, rs)"

definition with_conn ::
  "nat \<Rightarrow> (('p, 'c, 'r) http_conn \<Rightarrow> ('p, 'c, 'r) http_conn) \<Rightarrow> ('p, 'c, 'r) http_server \<Rightarrow> ('p, 'c, 'r) http_server option" where
  "with_conn a f s = (case conns s a of None \<Rightarrow> None | Some c \<Rightarrow> Some (set_conn a (f c) s))"

partial_function (option) resp_loop ::
  "('p, 'c, 'r) server_code \<Rightarrow> u64 \<Rightarrow> (int \<times> bool) list \<Rightarrow> ('p, 'c, 'r) http_server \<Rightarrow>
     ((int \<times> bool) list \<times> ('p, 'c, 'r) http_server) option" where
  "resp_loop hc now sends s =
     (case m_resp_queue s of
        [] \<Rightarrow> Some (sends, s)
      | (a, resp) # _ \<Rightarrow>
          (case next_send sends of ((nsent, again), sends) \<Rightarrow>
             Option.bind (with_conn a (addResponse now resp) s) (\<lambda>s.
             Option.bind (handleResponse hc now nsent again a s) (\<lambda>s.
             resp_loop hc now sends (s\<lparr>m_resp_queue := tl (m_resp_queue s)\<rparr>)))))"

partial_function (option) custom_resp_loop ::
  "('p, 'c, 'r) server_code \<Rightarrow> u64 \<Rightarrow> (int \<times> bool) list \<Rightarrow> ('p, 'c, 'r) http_server \<Rightarrow> ('p, 'c, 'r) http_server option" where
  "custom_resp_loop hc now sends s =
     (case m_custom_resp_queue s of
        [] \<Rightarrow> Some s
      | (a, resp) # _ \<Rightarrow>
          (case next_send sends of ((nsent, again), sends) \<Rightarrow>
             Option.bind (with_conn a (addCustomResponse resp) s) (\<lambda>s.
             Option.bind (handleResponse hc now nsent again a s) (\<lambda>s.
             custom_resp_loop hc now sends (s\<lparr>m_custom_resp_queue := tl (m_custom_resp_queue s)\<rparr>)))))"

text \<open>The part of \<^verbatim>\<open>handleEvents\<close> that holds the mutex.\<close>

definition handle_queues ::
  "('p, 'c, 'r) server_code \<Rightarrow> u64 \<Rightarrow> (int \<times> bool) list \<Rightarrow> ('p, 'c, 'r) http_server \<Rightarrow> ('p, 'c, 'r) http_server option" where
  "handle_queues hc now sends s =
     Option.bind (resp_loop hc now sends (s\<lparr>m_sendq_locked := True\<rparr>)) (\<lambda>(sends, s).
     Option.bind (custom_resp_loop hc now sends s) (\<lambda>s.
     Some (s\<lparr>m_sendq_locked := False\<rparr>)))"

text \<open>An iterator that was erased is incremented: undefined.\<close>

fun cleanup_loop :: "u64 \<Rightarrow> (int \<times> nat) list \<Rightarrow> ('p, 'c, 'r) http_server \<Rightarrow> ('p, 'c, 'r) http_server option" where
  "cleanup_loop now [] s = Some s"
| "cleanup_loop now ((fd, a) # es) s =
     (case conns s a of
        None \<Rightarrow> None
      | Some c \<Rightarrow> if \<not> notDead now c then None else cleanup_loop now es s)"

definition cleanUpDeadConnections :: "u64 \<Rightarrow> ('p, 'c, 'r) http_server \<Rightarrow> ('p, 'c, 'r) http_server option" where
  "cleanUpDeadConnections now s =
     (if now - last_cleanup s < 5 then Some s else cleanup_loop now (m_reading_connections s) s)"

text \<open>The four functions that the watcher calls.\<close>

datatype server_event = EvAccept "accept_result list" | EvRead int "recv_call list" | EvWrite int int bool | EvError int

fun on_event ::
  "('p, 'c, 'r) server_code \<Rightarrow> u64 \<Rightarrow> server_event \<Rightarrow> ('p, 'c, 'r) http_server \<Rightarrow> ('p, 'c, 'r) http_server option" where
  "on_event hc now (EvAccept rs) s = Some (performAccept hc now rs s)"
| "on_event hc now (EvRead fd rs) s = server_performRecv hc now rs fd s"
| "on_event hc now (EvWrite fd nsent again) s = server_performSend now nsent again fd s"
| "on_event hc now (EvError fd) s = Some (killConnection fd s)"

fun server_events ::
  "('p, 'c, 'r) server_code \<Rightarrow> u64 \<Rightarrow> server_event list \<Rightarrow> ('p, 'c, 'r) http_server \<Rightarrow> ('p, 'c, 'r) http_server option" where
  "server_events hc now [] s = Some s"
| "server_events hc now (e # es) s = Option.bind (on_event hc now e s) (server_events hc now es)"

definition server_handleEvents ::
  "('p, 'c, 'r) server_code \<Rightarrow> u64 \<Rightarrow> server_event list \<Rightarrow> (int \<times> bool) list \<Rightarrow> ('p, 'c, 'r) http_server \<Rightarrow>
     ('p, 'c, 'r) http_server option" where
  "server_handleEvents hc now es sends s =
     Option.bind (server_events hc now es s) (\<lambda>s.
     Option.bind (handle_queues hc now sends s) (cleanUpDeadConnections now))"

section \<open>Runs\<close>

text \<open>
  What happens to a server: an event, the processing of the queues, the clean-up (together
  \<^verbatim>\<open>handleEvents\<close>), and calls by the user's other threads.
\<close>

datatype ('c, 'r) server_op = Event u64 server_event | Queues u64 "(int \<times> bool) list" | Cleanup u64
  | Respond int http_response | RespondCustom int string | RespondTo nat http_response
  | Protocol string "('c, 'r) custom_info"

fun server_step ::
  "('p, 'c, 'r) server_code \<Rightarrow> ('c, 'r) server_op \<Rightarrow> ('p, 'c, 'r) http_server \<Rightarrow> ('p, 'c, 'r) http_server option" where
  "server_step hc (Event now e) s = on_event hc now e s"
| "server_step hc (Queues now sends) s = handle_queues hc now sends s"
| "server_step hc (Cleanup now) s = cleanUpDeadConnections now s"
| "server_step hc (Respond fd resp) s = onSendResponse fd resp s"
| "server_step hc (RespondCustom fd resp) s = Some (onSendCustomResponse fd resp s)"
| "server_step hc (RespondTo a resp) s = (if a < next_conn s then Some (sendResponse a resp s) else None)"
| "server_step hc (Protocol p info) s = Some (addCustomProtocol p info s)"

fun server_run ::
  "('p, 'c, 'r) server_code \<Rightarrow> ('c, 'r) server_op list \<Rightarrow> ('p, 'c, 'r) http_server \<Rightarrow> ('p, 'c, 'r) http_server option" where
  "server_run hc [] s = Some s"
| "server_run hc (op # ops) s = Option.bind (server_step hc op s) (server_run hc ops)"

text \<open>\<open>handleEvents\<close> is such a run.\<close>

lemma server_run_append: "server_run hc (xs @ ys) s = Option.bind (server_run hc xs s) (server_run hc ys)"
  by (induction xs arbitrary: s) (auto split: bind_split)

lemma server_run_events: "server_run hc (map (Event now) es) s = server_events hc now es s"
  by (induction es arbitrary: s) (auto split: bind_split)

lemma handleEvents_run:
  "server_handleEvents hc now es sends s = server_run hc (map (Event now) es @ [Queues now sends, Cleanup now]) s"
  by (cases "server_events hc now es s") (simp_all add: server_handleEvents_def server_run_append server_run_events bind_eq_None_conv split: bind_splits)

section \<open>Requests are taken in order, one at a time\<close>

text \<open>The requests of a connection: those taken, then those that wait.\<close>

definition stream :: "nat \<Rightarrow> ('p, 'c, 'r) http_server \<Rightarrow> http_request list" where
  "stream a s = map (fst o snd) (filter (\<lambda>e. fst e = a) (handled_http s)) @
     (case conns s a of None \<Rightarrow> [] | Some c \<Rightarrow> http_requests c)"

definition calls :: "nat \<Rightarrow> ('p, 'c, 'r) http_server \<Rightarrow> nat" where
  "calls a s = length (filter (\<lambda>e. fst e = a \<and> \<not> snd (snd e)) (handled_http s)) +
     length (filter (\<lambda>e. fst e = a) (handled_custom s))"

definition conn_ok :: "nat \<Rightarrow> ('p, 'c, 'r) http_server \<Rightarrow> bool" where
  "conn_ok a s \<longleftrightarrow> (case conns s a of
     None \<Rightarrow> next_conn s \<le> a \<and> calls a s = 0 \<and> stream a s = []
   | Some c \<Rightarrow> a < next_conn s \<and> calls a s \<le> count_list (answered s) a + of_bool (waiting_last_handling c))"

definition server_inv :: "('p, 'c, 'r) http_server \<Rightarrow> bool" where
  "server_inv s \<longleftrightarrow> (\<forall>a. conn_ok a s)"

text \<open>What the three depend on, and the operations that leave it alone.\<close>

definition core where
  "core s = (conns s, next_conn s, handled_http s, handled_custom s, answered s)"

lemma core_same: "core s = core s' \<Longrightarrow> stream a s = stream a s' \<and> calls a s = calls a s' \<and> server_inv s = server_inv s'"
proof -
  assume s: "core s = core s'"
  have same: "stream b s = stream b s'" "calls b s = calls b s'" for b
    using s by (simp_all add: core_def stream_def calls_def)
  have "conn_ok b s = conn_ok b s'" for b
    using s same [of b] by (simp add: conn_ok_def core_def split: option.split)
  with same show ?thesis
    by (simp add: server_inv_def)
qed

lemma core_simps [simp]:
  "core (watch op s) = core s" "core (erase_conn fd s) = core s" "core (killConnection fd s) = core s"
  "core (sendResponse a resp s) = core s" "core (onSendCustomResponse fd x s) = core s"
  "core (addCustomProtocol p info s) = core s" "core (s\<lparr>m_sendq_locked := b\<rparr>) = core s"
  "core (s\<lparr>m_resp_queue := q\<rparr>) = core s" "core (s\<lparr>m_custom_resp_queue := cq\<rparr>) = core s" "core (s\<lparr>wire := w\<rparr>) = core s"
  "core (s\<lparr>m_reading_connections := m\<rparr>) = core s"
  by (simp_all add: core_def watch_def erase_conn_def killConnection_def sendResponse_def onSendCustomResponse_def
      addCustomProtocol_def Let_def split: option.splits)

lemma core_onSendResponse: "onSendResponse fd resp s = Some s' \<Longrightarrow> core s' = core s"
  by (auto simp: onSendResponse_def core_def split: if_splits option.splits)

text \<open>\<open>adds a new s s'\<close>: the step keeps the invariant and adds \<open>new\<close> to the requests of \<open>a\<close>, nothing to the others'.\<close>

definition adds :: "nat \<Rightarrow> http_request list \<Rightarrow> ('p, 'c, 'r) http_server \<Rightarrow> ('p, 'c, 'r) http_server \<Rightarrow> bool" where
  "adds a new s s' \<longleftrightarrow> (server_inv s \<longrightarrow> server_inv s' \<and> next_conn s \<le> next_conn s' \<and>
     (\<forall>b. stream b s' = stream b s @ (if b = a then new else [])))"

abbreviation "keeps s s' \<equiv> adds 0 [] s s'"

lemma keeps_iff: "adds a [] s s' = keeps s s'"
  by (simp add: adds_def)

lemma keeps_core: "core s' = core s \<Longrightarrow> keeps s s'"
  using core_same [of s' s] by (simp add: adds_def) (simp add: core_def)

lemma server_keeps_trans: "keeps s s' \<Longrightarrow> keeps s' s'' \<Longrightarrow> keeps s s''"
  unfolding adds_def by (auto intro: le_trans)

lemma adds_keeps: "adds a new s s' \<Longrightarrow> keeps s' s'' \<Longrightarrow> adds a new s s''"
  unfolding adds_def by (auto intro: le_trans)

lemma adds_core: "adds a new s s' \<Longrightarrow> core s'' = core s' \<Longrightarrow> adds a new s s''"
  by (rule adds_keeps [OF _ keeps_core])

text \<open>A step that touches one connection only.\<close>

lemma adds_one:
  assumes "next_conn s' = next_conn s" "\<And>b. b \<noteq> a \<Longrightarrow> conns s' b = conns s b"
    "\<And>b. b \<noteq> a \<Longrightarrow> stream b s' = stream b s \<and> calls b s' = calls b s \<and> count_list (answered s') b = count_list (answered s) b"
    "conn_ok a s \<Longrightarrow> conn_ok a s' \<and> stream a s' = stream a s @ new"
  shows "adds a new s s'"
proof -
  have "conn_ok b s' = conn_ok b s" if "b \<noteq> a" for b
    using assms(1) assms(2) [OF that] assms(3) [OF that] by (simp add: conn_ok_def split: option.split)
  then show ?thesis
    unfolding adds_def server_inv_def using assms by (metis append_Nil2 order_refl)
qed

lemma adds_set_conn:
  assumes "conns s a = Some c" "waiting_last_handling c' = waiting_last_handling c" "http_requests c' = http_requests c @ new"
  shows "adds a new s (set_conn a c' s)"
  by (rule adds_one) (use assms in \<open>auto simp: conn_ok_def set_conn_def stream_def calls_def\<close>)

lemma with_conn_keeps:
  assumes "with_conn a f s = Some s'" "\<And>c. waiting_last_handling (f c) = waiting_last_handling c \<and> http_requests (f c) = http_requests c"
  shows "keeps s s'"
proof -
  obtain c where c: "conns s a = Some c" "s' = set_conn a (f c) s"
    using assms(1) by (auto simp: with_conn_def split: option.splits)
  have "adds a [] s s'"
    unfolding c(2) by (rule adds_set_conn [OF c(1)]) (simp_all add: assms(2))
  then show ?thesis
    by (rule keeps_iff [THEN iffD1])
qed

lemma request_hdl_core:
  "request_hdl hc a c req s = Some s' \<Longrightarrow> core s' = core (s\<lparr>handled_http := handled_http s @ [(a, req, False)]\<rparr>)"
  by (auto simp: request_hdl_def Let_def dest: core_onSendResponse split: option.splits)

lemma checkUpgrade_fields:
  "checkUpgrade g req c = (c', h) \<Longrightarrow> http_requests c' = http_requests c \<and> (h = None \<longrightarrow> waiting_last_handling c' = waiting_last_handling c)"
  by (auto simp: checkUpgrade_def split: option.splits prod.splits)

lemma handleWaitingRequests_keeps:
  assumes "handleWaitingRequests hc a s = Some s'"
  shows "keeps s s'"
proof -
  obtain c where c: "conns s a = Some c"
    using assms by (auto simp: handleWaitingRequests_def split: option.splits)
  consider (idle) "s' = s"
    | (http) req reqs where "\<not> waiting_last_handling c" "http_requests c = req # reqs" "\<not> is_custom c"
    | (custom) req reqs where "\<not> waiting_last_handling c" "custom_requests c = req # reqs" "is_custom c \<or> http_requests c = []"
    using assms c by (cases "http_requests c"; cases "custom_requests c") (auto simp: handleWaitingRequests_def split: if_splits)
  then show ?thesis
  proof cases
    case idle
    then show ?thesis
      by (simp add: keeps_core)
  next
    case http
    let ?c = "c\<lparr>waiting_last_handling := True, http_requests := reqs\<rparr>"
    obtain c' h where up: "checkUpgrade (getCustomParser s) req ?c = (c', h)"
      by (cases "checkUpgrade (getCustomParser s) req ?c")
    have fields: "http_requests c' = reqs" "h = None \<longrightarrow> waiting_last_handling c'"
      using checkUpgrade_fields [OF up] by simp_all
    let ?s = "(set_conn a c' s)\<lparr>handled_http := handled_http s @ [(a, req, h \<noteq> None)]\<rparr>"
    have "adds a [] s ?s"
      by (rule adds_one) (use c http fields in \<open>auto simp: conn_ok_def set_conn_def stream_def calls_def\<close>)
    moreover have "core s' = core ?s"
      using assms c http up by (cases h) (auto simp: handleWaitingRequests_def Let_def set_conn_def dest: request_hdl_core)
    ultimately show ?thesis
      using adds_core keeps_iff by metis
  next
    case custom
    let ?c = "c\<lparr>waiting_last_handling := True, custom_requests := reqs\<rparr>"
    let ?s = "set_conn a ?c s"
    have set: "s' = runCustomHandler a ?c req ?s"
      using assms c custom by (auto simp: handleWaitingRequests_def Let_def)
    have "adds a [] s ?s"
      by (rule adds_one) (use c custom in \<open>auto simp: conn_ok_def set_conn_def stream_def calls_def\<close>)
    moreover have "adds a [] s (?s\<lparr>handled_custom := handled_custom s @ [(a, req)]\<rparr>)"
      by (rule adds_one) (use c custom in \<open>auto simp: conn_ok_def set_conn_def stream_def calls_def\<close>)
    moreover have "core s' = core ?s \<or> core s' = core (?s\<lparr>handled_custom := handled_custom s @ [(a, req)]\<rparr>)"
      unfolding set by (auto simp: runCustomHandler_def Let_def set_conn_def split: option.split)
    ultimately show ?thesis
      using adds_core keeps_iff by metis
  qed
qed

lemma performSend_fields:
  "conn_performSend now nsent again c = (c', out, ok) \<Longrightarrow>
    http_requests c' = http_requests c \<and> waiting_last_handling c' = waiting_last_handling c \<and> sock c' = sock c"
  by (auto simp: conn_performSend_def Let_def split: if_splits)

lemma handleResponse_keeps:
  assumes "handleResponse hc now nsent again a s = Some s'"
  shows "keeps s s'"
proof -
  obtain c where c: "conns s a = Some c"
    using assms by (auto simp: handleResponse_def split: option.splits)
  obtain c' out ok where send: "conn_performSend now nsent again (c\<lparr>waiting_last_handling := False\<rparr>) = (c', out, ok)"
    by (cases "conn_performSend now nsent again (c\<lparr>waiting_last_handling := False\<rparr>)") auto
  let ?s = "(set_conn a c' s)\<lparr>wire := wire s @ [(a, out)], answered := answered s @ [a]\<rparr>"
  have step: "keeps s ?s"
    unfolding keeps_iff [of a, symmetric]
    by (rule adds_one; cases "waiting_last_handling c")
      (use c performSend_fields [OF send] in \<open>auto simp: conn_ok_def set_conn_def stream_def calls_def\<close>)
  consider "core s' = core ?s" | t where "core t = core ?s" "handleWaitingRequests hc a t = Some s'"
  proof (cases "ok \<or> notDead now c'")
    case True
    then show ?thesis
      using assms c send that(2) [of ?s] that(2) [of "watch (Enable (sock c') (HI_READ OR HI_WRITE)) ?s"]
      by (auto simp: handleResponse_def Let_def split: if_splits)
  next
    case False
    then have "core s' = core ?s"
      using assms c send by (auto simp: handleResponse_def Let_def split: option.splits)
    then show ?thesis
      by (rule that(1))
  qed
  then show ?thesis
  proof cases
    case 1
    then show ?thesis
      using step adds_core by blast
  next
    case 2
    then show ?thesis
      using step adds_core server_keeps_trans handleWaitingRequests_keeps by blast
  qed
qed

lemma resp_loop_keeps:
  assumes "resp_loop hc now sends s = Some r"
  shows "keeps s (snd r)"
proof (rule resp_loop.raw_induct [where P = "\<lambda>hc now sends s r. keeps s (snd r)", OF _ assms], goal_cases)
  case (1 loop hc now sends s r)
  show ?case
  proof (cases "m_resp_queue s")
    case Nil
    then show ?thesis
      using 1(2) by (auto simp: keeps_core)
  next
    case (Cons e q)
    obtain a resp nsent again sends' where e: "e = (a, resp)" "next_send sends = ((nsent, again), sends')"
      by (cases e; cases "next_send sends") auto
    then obtain s1 s2 where s: "with_conn a (addResponse now resp) s = Some s1" "handleResponse hc now nsent again a s1 = Some s2"
      "loop hc now sends' (s2\<lparr>m_resp_queue := tl (m_resp_queue s2)\<rparr>) = Some r"
      using 1(2) Cons by (auto simp: bind_eq_Some_conv)
    have "keeps s s1"
      by (rule with_conn_keeps [OF s(1)]) (simp add: addResponse_def)
    moreover have "keeps s1 (s2\<lparr>m_resp_queue := tl (m_resp_queue s2)\<rparr>)"
      by (rule adds_core [OF handleResponse_keeps [OF s(2)]]) simp
    ultimately show ?thesis
      using 1(1) [OF s(3)] server_keeps_trans by blast
  qed
qed

lemma custom_resp_loop_keeps:
  assumes "custom_resp_loop hc now sends s = Some s'"
  shows "keeps s s'"
proof (rule custom_resp_loop.raw_induct [where P = "\<lambda>hc now sends s s'. keeps s s'", OF _ assms], goal_cases)
  case (1 loop hc now sends s s')
  show ?case
  proof (cases "m_custom_resp_queue s")
    case Nil
    then show ?thesis
      using 1(2) by (auto simp: keeps_core)
  next
    case (Cons e q)
    obtain a resp nsent again sends' where e: "e = (a, resp)" "next_send sends = ((nsent, again), sends')"
      by (cases e; cases "next_send sends") auto
    then obtain s1 s2 where s: "with_conn a (addCustomResponse resp) s = Some s1" "handleResponse hc now nsent again a s1 = Some s2"
      "loop hc now sends' (s2\<lparr>m_custom_resp_queue := tl (m_custom_resp_queue s2)\<rparr>) = Some s'"
      using 1(2) Cons by (auto simp: bind_eq_Some_conv)
    have "keeps s s1"
      by (rule with_conn_keeps [OF s(1)]) (simp add: addCustomResponse_def)
    moreover have "keeps s1 (s2\<lparr>m_custom_resp_queue := tl (m_custom_resp_queue s2)\<rparr>)"
      by (rule adds_core [OF handleResponse_keeps [OF s(2)]]) simp
    ultimately show ?thesis
      using 1(1) [OF s(3)] server_keeps_trans by blast
  qed
qed

lemma handle_queues_keeps:
  assumes "handle_queues hc now sends s = Some s'"
  shows "keeps s s'"
proof -
  obtain r t where r: "resp_loop hc now sends (s\<lparr>m_sendq_locked := True\<rparr>) = Some r"
      "custom_resp_loop hc now (fst r) (snd r) = Some t" "s' = t\<lparr>m_sendq_locked := False\<rparr>"
    using assms by (auto simp: handle_queues_def bind_eq_Some_conv)
  have "keeps s (s\<lparr>m_sendq_locked := True\<rparr>)" "keeps t s'"
    by (simp_all add: keeps_core r(3))
  then show ?thesis
    using resp_loop_keeps [OF r(1)] custom_resp_loop_keeps [OF r(2)] server_keeps_trans by blast
qed

lemma cleanup_keeps: "cleanUpDeadConnections now s = Some s' \<Longrightarrow> s' = s"
proof -
  have "cleanup_loop now es s = Some s' \<Longrightarrow> s' = s" for es
    by (induction es) (auto split: option.splits if_splits)
  then show "cleanUpDeadConnections now s = Some s' \<Longrightarrow> s' = s"
    by (auto simp: cleanUpDeadConnections_def split: if_splits)
qed

text \<open>Accepting adds connections at new addresses.\<close>

lemma accept_one_keeps:
  assumes "a = next_conn s"
  shows "keeps s ((set_conn a (HttpConnection_new p now fd info) s)\<lparr>next_conn := a + 1\<rparr>)" (is "keeps s ?s")
proof -
  have "conn_ok b ?s \<and> stream b ?s = stream b s" if "conn_ok b s" for b
    using that assms
    by (cases "b = a") (auto simp: conn_ok_def set_conn_def stream_def calls_def HttpConnection_new_def split: option.splits)
  then show ?thesis
    using assms by (auto simp: adds_def server_inv_def set_conn_def)
qed

lemma performAccept_keeps: "keeps s (performAccept hc now rs s)"
proof (induction hc now rs s rule: performAccept.induct)
  case (4 hc now fd rs s)
  let ?a = "next_conn s"
  let ?s = "(set_conn ?a (HttpConnection_new (sc_parser hc) now fd (sc_resp_info hc)) s)\<lparr>next_conn := ?a + 1\<rparr>"
  let ?t = "watch (Add fd HI_READ) (?s\<lparr>m_reading_connections := om_ins fd ?a (m_reading_connections ?s)\<rparr>)"
  have "keeps s ?t"
    by (rule adds_core [OF accept_one_keeps]) simp_all
  then show ?case
    using 4 server_keeps_trans by (simp add: Let_def) blast
qed (simp_all add: keeps_core)

text \<open>The requests that a step receives on the connection at \<open>a\<close>.\<close>

definition received_now ::
  "('p, 'c, 'r) server_code \<Rightarrow> ('c, 'r) server_op \<Rightarrow> ('p, 'c, 'r) http_server \<Rightarrow> nat \<Rightarrow> http_request list" where
  "received_now hc op s a = (case op of
     Event now (EvRead fd rs) \<Rightarrow>
       (case (om_find (m_reading_connections s) fd, conns s a) of
          (Some b, Some c) \<Rightarrow>
            if b = a then
              (case conn_performRecv (sc_ops hc) (sc_execute hc) (sc_unescape hc) now rs c of
                 None \<Rightarrow> [] | Some (c', _) \<Rightarrow> drop (length (http_requests c)) (http_requests c'))
            else []
        | _ \<Rightarrow> [])
   | _ \<Rightarrow> [])"

fun received_in ::
  "('p, 'c, 'r) server_code \<Rightarrow> ('c, 'r) server_op list \<Rightarrow> ('p, 'c, 'r) http_server \<Rightarrow> nat \<Rightarrow> http_request list" where
  "received_in hc [] s a = []"
| "received_in hc (op # ops) s a = received_now hc op s a @
     (case server_step hc op s of None \<Rightarrow> [] | Some s \<Rightarrow> received_in hc ops s a)"

lemma onHeadersValue_waiting: "waiting_last_handling (onHeadersValue at len c) = waiting_last_handling c"
  by (simp add: onHeadersValue_def Let_def)

lemma run_callback_waiting: "run_callback unescape cb c = Some c' \<Longrightarrow> waiting_last_handling c' = waiting_last_handling c"
  by (cases cb) (auto simp: onUrl_def Let_def onHeadersField_def onHeadersValue_waiting onHeadersComplete_def
      onBody_def onMessageComplete_def split: option.splits)

lemma run_callbacks_fields:
  "run_callbacks unescape cbs c = Some c' \<Longrightarrow>
    waiting_last_handling c' = waiting_last_handling c \<and> http_requests c' = http_requests c"
  by (induction cbs arbitrary: c) (auto dest: run_callback_waiting run_callback_requests split: option.splits)

lemma conn_execute_fields:
  "conn_execute ops execute unescape d c = Some (c', e) \<Longrightarrow>
    waiting_last_handling c' = waiting_last_handling c \<and> http_requests c' = http_requests c"
  by (auto simp: conn_execute_def dest!: run_callbacks_fields split: if_splits option.splits prod.splits)

lemma conn_take_requests_fields:
  "conn_take_requests ops c = Some (c', e) \<Longrightarrow>
    waiting_last_handling c' = waiting_last_handling c \<and> (\<exists>new. http_requests c' = http_requests c @ new)"
  by (auto simp: conn_take_requests_def split: if_splits option.splits prod.splits)

lemma performRecv_fields:
  assumes "conn_performRecv ops execute unescape now rs c = Some (c', e)"
  shows "waiting_last_handling c' = waiting_last_handling c \<and> (\<exists>new. http_requests c' = http_requests c @ new)"
proof (cases "conn_recv_loop rs []")
  case None
  then show ?thesis
    using assms by (auto simp: conn_performRecv_def)
next
  case (Some d)
  then obtain c1 e1 where c1: "(if d \<noteq> [] then conn_execute ops execute unescape d (c\<lparr>last_activity_ts := now\<rparr>) else Some (c, False)) = Some (c1, e1)"
    using assms by (auto simp: conn_performRecv_def split: option.splits)
  then have "waiting_last_handling c1 = waiting_last_handling c \<and> http_requests c1 = http_requests c"
    using conn_execute_fields by (fastforce split: if_splits)
  then show ?thesis
    using assms Some c1 conn_take_requests_fields [of ops c1 c' e] by (cases e1) (auto simp: conn_performRecv_def)
qed

definition step_ok ::
  "('p, 'c, 'r) server_code \<Rightarrow> ('c, 'r) server_op \<Rightarrow> ('p, 'c, 'r) http_server \<Rightarrow> ('p, 'c, 'r) http_server \<Rightarrow> bool" where
  "step_ok hc op s s' \<longleftrightarrow> (server_inv s \<longrightarrow> server_inv s' \<and> (\<forall>a. stream a s' = stream a s @ received_now hc op s a))"

lemma step_ok_keeps: "keeps s s' \<Longrightarrow> (\<And>a. received_now hc op s a = []) \<Longrightarrow> step_ok hc op s s'"
  by (simp add: step_ok_def adds_def)

lemma server_performRecv_ok:
  assumes "server_performRecv hc now rs fd s = Some s'"
  shows "step_ok hc (Event now (EvRead fd rs)) s s'"
proof (cases "om_find (m_reading_connections s) fd")
  case None
  then show ?thesis
    using assms by (intro step_ok_keeps) (auto simp: server_performRecv_def received_now_def keeps_core split: option.splits)
next
  case (Some b)
  then obtain c c' e where c: "conns s b = Some c"
      "conn_performRecv (sc_ops hc) (sc_execute hc) (sc_unescape hc) now rs c = Some (c', e)"
    using assms by (auto simp: server_performRecv_def split: option.splits)
  define new where "new = drop (length (http_requests c)) (http_requests c')"
  have "http_requests c' = http_requests c @ new" "waiting_last_handling c' = waiting_last_handling c"
    using performRecv_fields [OF c(2)] by (auto simp: new_def)
  then have "adds b new s (set_conn b c' s)"
    by (intro adds_set_conn [OF c(1)])
  moreover have "keeps (set_conn b c' s) s'"
    using assms Some c
    by (cases e) (auto simp: server_performRecv_def keeps_core handleWaitingRequests_keeps split: if_splits)
  ultimately have "adds b new s s'"
    by (rule adds_keeps)
  moreover have "received_now hc (Event now (EvRead fd rs)) s a = (if a = b then new else [])" for a
    using Some c by (auto simp: received_now_def new_def split: option.split)
  ultimately show ?thesis
    by (simp add: step_ok_def adds_def)
qed

lemma server_performSend_keeps:
  assumes "server_performSend now nsent again fd s = Some s'"
  shows "keeps s s'"
proof (cases "om_find (m_reading_connections s) fd")
  case None
  then show ?thesis
    using assms by (simp add: server_performSend_def keeps_core)
next
  case (Some b)
  then obtain c c' out ok where c: "conns s b = Some c" "conn_performSend now nsent again c = (c', out, ok)"
    using assms by (cases "conns s b") (auto simp: server_performSend_def, metis prod_cases3)
  have "adds b [] s (set_conn b c' s)"
    by (rule adds_set_conn [OF c(1)]) (simp_all add: performSend_fields [OF c(2)])
  then have "keeps s (set_conn b c' s)"
    by (rule keeps_iff [THEN iffD1])
  moreover have "core s' = core (set_conn b c' s)"
    using assms Some c by (auto simp: server_performSend_def Let_def split: if_splits)
  ultimately show ?thesis
    by (rule adds_core)
qed

lemma server_step_ok:
  assumes "server_step hc op s = Some s'"
  shows "step_ok hc op s s'"
proof (cases op)
  case (Event now e)
  show ?thesis
  proof (cases e)
    case (EvRead fd rs)
    then show ?thesis
      using assms Event server_performRecv_ok by auto
  next
    case (EvAccept rs)
    then show ?thesis
      using assms Event performAccept_keeps by (intro step_ok_keeps) (auto simp: received_now_def)
  next
    case (EvWrite fd nsent again)
    then show ?thesis
      using assms Event server_performSend_keeps by (intro step_ok_keeps) (auto simp: received_now_def)
  next
    case (EvError fd)
    then show ?thesis
      using assms Event by (intro step_ok_keeps) (auto simp: received_now_def keeps_core)
  qed
next
  case (Queues now sends)
  then show ?thesis
    using assms handle_queues_keeps by (intro step_ok_keeps) (auto simp: received_now_def)
next
  case (Cleanup now)
  then have "s' = s"
    using assms cleanup_keeps by simp
  then show ?thesis
    using Cleanup by (intro step_ok_keeps) (auto simp: received_now_def keeps_core)
next
  case (Respond fd resp)
  then show ?thesis
    using assms core_onSendResponse by (intro step_ok_keeps) (auto simp: received_now_def intro!: keeps_core)
qed (use assms in \<open>auto intro!: step_ok_keeps keeps_core simp: received_now_def split: if_splits\<close>)

lemma server_run_ok:
  "server_run hc ops s = Some s' \<Longrightarrow> server_inv s \<Longrightarrow>
    server_inv s' \<and> (\<forall>a. stream a s' = stream a s @ received_in hc ops s a)"
proof (induction ops arbitrary: s)
  case (Cons op ops)
  then obtain t where t: "server_step hc op s = Some t" "server_run hc ops t = Some s'"
    by (auto simp: bind_eq_Some_conv)
  then show ?case
    using server_step_ok [OF t(1)] Cons.IH [OF t(2)] Cons.prems(2) by (simp add: step_ok_def)
qed simp

lemma server_init: "server_inv (HttpServer_new l)"
  by (simp add: server_inv_def conn_ok_def HttpServer_new_def stream_def calls_def)

lemma stream_init: "stream a (HttpServer_new l) = []"
  by (simp add: HttpServer_new_def stream_def)

text \<open>
  C1: in every run of the server, with any number of connections, any handlers and any
  responses of other threads: the requests of a connection that were taken, followed by those
  that wait in it, are exactly those it received, in order; and the handlers have been called
  for it at most once more than responses of it were processed.
\<close>

theorem server_takes_requests_in_order:
  assumes "server_run hc ops (HttpServer_new l) = Some s" "conns s a = Some c"
  shows "map (fst o snd) (filter (\<lambda>e. fst e = a) (handled_http s)) @ http_requests c = received_in hc ops (HttpServer_new l) a \<and>
    calls a s \<le> count_list (answered s) a + of_bool (waiting_last_handling c)"
proof -
  have *: "server_inv s" "stream a s = received_in hc ops (HttpServer_new l) a"
    using server_run_ok [OF assms(1) server_init] by (simp_all add: stream_init)
  then have "conn_ok a s"
    by (simp add: server_inv_def)
  then show ?thesis
    using * assms(2) by (simp add: conn_ok_def stream_def)
qed

definition demo_code :: "http_response option \<Rightarrow> (unit, server_parser, bin_request option) server_code" where
  "demo_code answer = \<lparr>sc_parser = (), sc_execute = demo_execute, sc_unescape = Some, sc_ops = bin_ops (\<lambda>_. 0) (\<lambda>s. (s, [])),
     sc_request_hdl = (\<lambda>_. answer), sc_resp_info = demo_info\<rparr>"

definition demo_ops :: "(server_parser, bin_request option) server_op list" where
  "demo_ops = [Event 9 (EvAccept [Accepted 5]), Event 9 (EvRead 5 [Received ''GET '']), Event 9 (EvRead 5 [Received ''GET ''])]"

text \<open>Two requests on one connection: the first is with the handler, the second waits.\<close>

lemma server_demo_run:
  "map_option (\<lambda>s. (m_resp_queue s, map_option (\<lambda>c. (map url (http_requests c), is_custom c, keepalive c, alive c, create_ts c,
     map (\<lambda>r. om_find (headers r) ''Upgrade'') (http_requests c))) (conns s 0)))
     (server_run (demo_code (Some (HttpResponse_new 200 ''ok''))) demo_ops (HttpServer_new 3)) =
   Some ([(0, HttpResponse_new 200 ''ok'')], Some ([''/s?q=ab''], False, True, True, 9, [None]))"
  by code_simp

theorem server_takes_requests_in_order_witness:
  "\<exists>s c. server_run (demo_code None) demo_ops (HttpServer_new 3) = Some s \<and> conns s 0 = Some c \<and>
     calls 0 s \<le> count_list (answered s) 0 + of_bool (waiting_last_handling c)"
proof -
  have "map_option (\<lambda>s. conns s 0 = None) (server_run (demo_code None) demo_ops (HttpServer_new 3)) = Some False"
    by code_simp
  then obtain s c where s: "server_run (demo_code None) demo_ops (HttpServer_new 3) = Some s" "conns s 0 = Some c"
    by (cases "server_run (demo_code None) demo_ops (HttpServer_new 3)") auto
  from server_takes_requests_in_order [OF this] s show ?thesis
    by blast
qed

section \<open>Calls that do not return\<close>

lemma performSend_waiting_alive:
  assumes "conn_performSend now nsent True c = (c', out, ok)" "keepalive c" "\<not> is_custom c" "notDead now c"
  shows "notDead now c' \<and> is_custom c' = is_custom c \<and> sock c' = sock c"
  using assms by (auto simp: conn_performSend_def notDead_def Let_def split: if_splits)

lemma handleWaitingRequests_locked:
  assumes "conns s a = Some c" "\<not> waiting_last_handling c" "\<not> is_custom c" "http_requests c = req # reqs"
    "om_find (headers req) ''Upgrade'' = None" "sc_request_hdl hc req = Some resp" "m_sendq_locked s"
  shows "handleWaitingRequests hc a s = None"
  using assms
  by (simp add: handleWaitingRequests_def Let_def checkUpgrade_def request_hdl_def onSendResponse_def set_conn_def)

text \<open>
  C36: a handler that answers at once, by \<open>sendResponse\<close> of the connection, locks up the
  server when a client sends its next request before the response to the last one is
  processed: \<open>handleEvents\<close> holds the mutex of the queue while it calls the handler for the
  waiting request, and \<open>onSendResponse\<close> locks it again.
\<close>

theorem server_sync_handler_hangs:
  assumes "m_resp_queue s = (a, resp) # q" "conns s a = Some c" "\<not> is_custom c" "http_requests c = req # reqs"
    "om_find (headers req) ''Upgrade'' = None" "sc_request_hdl hc req = Some resp'"
    "keepalive c" "notDead now c" "next_send sends = ((nsent, True), sends')"
  shows "handle_queues hc now sends s = None"
proof -
  let ?c = "addResponse now resp c"
  let ?s = "set_conn a ?c (s\<lparr>m_sendq_locked := True\<rparr>)"
  obtain c' out ok where send: "conn_performSend now nsent True (?c\<lparr>waiting_last_handling := False\<rparr>) = (c', out, ok)"
    by (cases "conn_performSend now nsent True (?c\<lparr>waiting_last_handling := False\<rparr>)") auto
  have alive: "notDead now c'" "\<not> is_custom c'" "\<not> waiting_last_handling c'" "http_requests c' = req # reqs"
    using performSend_waiting_alive [OF send] performSend_fields [OF send] assms(3,4,7,8) by (auto simp: addResponse_def notDead_def)
  have "handleResponse hc now nsent True a ?s = None"
  proof -
    have "handleWaitingRequests hc a t = None" if "conns t a = Some c'" "m_sendq_locked t" for t
      by (rule handleWaitingRequests_locked [OF that(1) alive(3,2,4) assms(5,6) that(2)])
    then show ?thesis
      using send alive(1) by (simp add: handleResponse_def Let_def set_conn_def watch_def)
  qed
  moreover have "with_conn a (addResponse now resp) (s\<lparr>m_sendq_locked := True\<rparr>) = Some ?s"
    using assms(2) by (simp add: with_conn_def)
  ultimately have "resp_loop hc now sends (s\<lparr>m_sendq_locked := True\<rparr>) = None"
    using assms(1,9) by (subst resp_loop.simps) simp
  then show ?thesis
    by (simp add: handle_queues_def)
qed

theorem server_sync_handler_hangs_witness:
  "\<exists>s. server_run (demo_code (Some (HttpResponse_new 200 ''ok''))) demo_ops (HttpServer_new 3) = Some s \<and>
     handle_queues (demo_code (Some (HttpResponse_new 200 ''ok''))) 9 [] s = None"
proof -
  let ?hc = "demo_code (Some (HttpResponse_new 200 ''ok''))"
  obtain s c where s: "server_run ?hc demo_ops (HttpServer_new 3) = Some s" "conns s 0 = Some c"
      "m_resp_queue s = [(0, HttpResponse_new 200 ''ok'')]" "map url (http_requests c) = [''/s?q=ab'']" "\<not> is_custom c"
      "keepalive c" "alive c" "create_ts c = 9" "map (\<lambda>r. om_find (headers r) ''Upgrade'') (http_requests c) = [None]"
    using server_demo_run by auto
  then obtain req where req: "http_requests c = [req]" "om_find (headers req) ''Upgrade'' = None"
    by auto
  have "notDead 9 c"
    using s by (simp add: notDead_def)
  moreover have "sc_request_hdl ?hc req = Some (HttpResponse_new 200 ''ok'')"
    by (simp add: demo_code_def)
  ultimately have "handle_queues ?hc 9 [] s = None"
    using server_sync_handler_hangs [OF s(3,2,5) req(1,2), of ?hc _ 9 "[]" 0 "[]"] s(6) by simp
  then show ?thesis
    using s(1) by blast
qed

text \<open>
  a connection that stays open for three seconds without a request makes the clean-up of
  \<open>handleEvents\<close> undefined: it erases the entry and increments the erased iterator.
  Five seconds after the epoch the clean-up runs at each call, since \<open>last_cleanup\<close> is never set.
\<close>

lemma server_idle_connection_undefined:
  assumes "5 \<le> t" "t < 2 ^ 63"
  shows "\<exists>s. server_handleEvents hc t [EvAccept [Accepted fd]] [] (HttpServer_new l) = Some s \<and>
    conns s 0 \<noteq> None \<and> server_handleEvents hc (t + 3) [] [] s = None"
proof -
  let ?c = "HttpConnection_new (sc_parser hc) t fd (sc_resp_info hc)"
  define s where "s = performAccept hc t [Accepted fd] (HttpServer_new l)"
  have s: "conns s 0 = Some ?c" "m_reading_connections s = [(fd, 0)]" "m_resp_queue s = []" "m_custom_resp_queue s = []"
      "last_cleanup s = 0"
    by (simp_all add: s_def HttpServer_new_def set_conn_def watch_def Let_def om_ins_def)
  let ?s = "s\<lparr>m_sendq_locked := False\<rparr>"
  have queues: "handle_queues hc u [] s = Some ?s" "handle_queues hc u [] ?s = Some ?s" for u
    using s by (simp_all add: handle_queues_def resp_loop.simps [of hc u] custom_resp_loop.simps [of hc u])
  have t: "\<not> t < 5" "\<not> t + 3 < 5"
    using assms by (auto simp: word_less_nat_alt word_le_nat_alt unat_word_ariths)
  have "cleanUpDeadConnections t ?s = Some ?s" "cleanUpDeadConnections (t + 3) ?s = None"
    using s t by (simp_all add: cleanUpDeadConnections_def notDead_def HttpConnection_new_def)
  moreover have "server_events hc t [EvAccept [Accepted fd]] (HttpServer_new l) = Some s"
    by (simp add: s_def)
  ultimately have "server_handleEvents hc t [EvAccept [Accepted fd]] [] (HttpServer_new l) = Some ?s"
      "server_handleEvents hc (t + 3) [] [] ?s = None"
    using queues by (simp_all add: server_handleEvents_def del: on_event.simps)
  then show ?thesis
    using s(1) by (intro exI [of _ ?s]) simp
qed

lemma server_idle_connection_undefined_witness:
  "\<exists>s. server_handleEvents (demo_code None) 9 [EvAccept [Accepted 5]] [] (HttpServer_new 3) = Some s \<and>
     server_handleEvents (demo_code None) 12 [] [] s = None"
  using server_idle_connection_undefined [of 9 "demo_code None" 5 3] by auto

text \<open>
  Of two responses queued for a connection whose peer is gone the second makes
  \<open>handleResponse\<close> undefined: the first has erased the connection from the table.
\<close>

lemma handleResponse_erased:
  assumes "conns s a = Some c" "\<not> alive c" "om_find (m_reading_connections s) (sock c) = None" "nsent \<le> 0"
  shows "handleResponse hc now nsent again a s = None"
proof -
  obtain c' out ok where send: "conn_performSend now nsent again (c\<lparr>waiting_last_handling := False\<rparr>) = (c', out, ok)"
    by (cases "conn_performSend now nsent again (c\<lparr>waiting_last_handling := False\<rparr>)") auto
  then have "\<not> ok" "\<not> notDead now c'" "sock c' = sock c"
    using assms(2,4) performSend_fields [OF send] by (auto simp: conn_performSend_def notDead_def Let_def split: if_splits)
  then show ?thesis
    using assms send by (simp add: handleResponse_def Let_def set_conn_def watch_def)
qed

end
