(* ===== verification/HttpApi.thy ===== *)
theory HttpApi
  imports HttpConnection Sha1 Base64
begin

text \<open>
  \<^verbatim>\<open>network/HttpApi/HttpApi.impl\<close>, the dispatch of API calls to methods with its check of
  signatures, and \<^verbatim>\<open>HttpApiClient.cpp\<close>, which builds the signed URLs. Parameters: the handlers
  (\<open>run\<close> gives the response of a synchronous one), the fields of a protobuf message, libcurl,
  and the uninitialised arrays of the digest.
\<close>

section \<open>The server side\<close>

type_synonym field_map = "(string, string) omap"

record ('h, 'a) http_api =
  m_methods_args :: "(string, string list) omap"
  m_signed :: "(string, int) omap"
  m_async :: "(string, int) omap"
  m_methods_callbacks :: "(string, 'h) omap"
  m_methods_callbacks_async :: "(string, 'a) omap"
  m_keys :: "(string, string) omap"
  m_buildApiError :: "string \<Rightarrow> string"

definition HttpApi_new :: "(string \<Rightarrow> string) \<Rightarrow> ('h, 'a) http_api" where
  "HttpApi_new buildApiError = \<lparr>m_methods_args = [], m_signed = [], m_async = [], m_methods_callbacks = [],
     m_methods_callbacks_async = [], m_keys = [], m_buildApiError = buildApiError\<rparr>"

definition isSigned :: "string \<Rightarrow> ('h, 'a) http_api \<Rightarrow> bool" where
  "isSigned meth api \<longleftrightarrow> om_find (m_signed api) meth \<noteq> None"

definition isAsync :: "string \<Rightarrow> ('h, 'a) http_api \<Rightarrow> bool" where
  "isAsync meth api \<longleftrightarrow> om_find (m_async api) meth \<noteq> None"

text \<open>The round buffer of the digest and the arrays \<^verbatim>\<open>sign\<close> and \<^verbatim>\<open>sign_hex\<close>, before they are written.\<close>

record sign_memory =
  mem_w :: "u32 list"
  mem_sign :: "byte list"
  mem_hex :: string

definition sign_of :: "sign_memory \<Rightarrow> string \<Rightarrow> string" where
  "sign_of mem sign_raw = cstr (toHexString (sha1_calc (mem_w mem) (map byte_of sign_raw) (mem_sign mem)) (mem_hex mem))"

fun args_set :: "field_map \<Rightarrow> string list \<Rightarrow> bool" where
  "args_set fs [] = True"
| "args_set fs (a # args) = (if om_find fs a = None then False else args_set fs args)"

text \<open>\<open>None\<close>: the fields are in order; otherwise the error message.\<close>

definition checkFields :: "sign_memory \<Rightarrow> ('h, 'a) http_api \<Rightarrow> field_map \<Rightarrow> string option" where
  "checkFields mem api fs =
     (case om_find fs ''method'' of
        None \<Rightarrow> Some ''method not set''
      | Some meth \<Rightarrow>
          (case om_find (m_methods_args api) meth of
             None \<Rightarrow> Some ''method not found''
           | Some args \<Rightarrow>
               if \<not> args_set fs args then Some ''not all method's params set''
               else if om_find (m_signed api) meth \<noteq> None then
                 (case (om_find fs ''api_userid'', om_find fs ''ts'', om_find fs ''sign'') of
                    (Some api_userid, Some ts, Some sign_got) \<Rightarrow>
                      (case om_find (m_keys api) api_userid of
                         None \<Rightarrow> Some ''auth fail''
                       | Some key \<Rightarrow> if sign_got \<noteq> sign_of mem (meth @ ts @ key) then Some ''auth fail'' else None)
                  | _ \<Rightarrow> Some ''not all service fields set (api_userid, ts, sign)'')
               else None))"

definition setUserToken :: "string \<Rightarrow> string \<Rightarrow> ('h, 'a) http_api \<Rightarrow> ('h, 'a) http_api" where
  "setUserToken userid token api = api\<lparr>m_keys := om_put userid token (m_keys api)\<rparr>"

definition addMethod :: "string \<Rightarrow> string list \<Rightarrow> 'h \<Rightarrow> ('h, 'a) http_api \<Rightarrow> ('h, 'a) http_api" where
  "addMethod name args_names onreq api =
     api\<lparr>m_methods_args := om_put name args_names (m_methods_args api),
         m_methods_callbacks := om_put name onreq (m_methods_callbacks api)\<rparr>"

text \<open>The range of time stamps is not used.\<close>

definition addMethodSigned :: "string \<Rightarrow> string list \<Rightarrow> 'h \<Rightarrow> u64 \<Rightarrow> ('h, 'a) http_api \<Rightarrow> ('h, 'a) http_api" where
  "addMethodSigned name args_names onreq max_ts_range api =
     api\<lparr>m_methods_args := om_put name args_names (m_methods_args api),
         m_methods_callbacks := om_put name onreq (m_methods_callbacks api),
         m_signed := om_put name 1 (m_signed api)\<rparr>"

definition addMethodSignedAsync :: "string \<Rightarrow> string list \<Rightarrow> 'a \<Rightarrow> u64 \<Rightarrow> ('h, 'a) http_api \<Rightarrow> ('h, 'a) http_api" where
  "addMethodSignedAsync name args_names onreq max_ts_range api =
     api\<lparr>m_methods_args := om_put name args_names (m_methods_args api),
         m_methods_callbacks_async := om_put name onreq (m_methods_callbacks_async api),
         m_signed := om_put name 1 (m_signed api), m_async := om_put name 1 (m_async api)\<rparr>"

text \<open>
  \<open>pb_fields\<close> parses the message; an exception, \<open>None\<close>, leaves the parameters alone. The result is
  \<open>None\<close> when the decoder is undefined.
\<close>

definition mergePostParams :: "(string \<Rightarrow> (string \<times> string) list option) \<Rightarrow> string \<Rightarrow> field_map \<Rightarrow> field_map option" where
  "mergePostParams pb_fields bd params =
     map_option (\<lambda>dump. case pb_fields dump of
        None \<Rightarrow> params
      | Some fs \<Rightarrow> fold (\<lambda>(f, v). om_put f v) fs params) (base64_decode bd)"

text \<open>What a call does to its connection, or the asynchronous handler that it calls.\<close>

datatype 'a api_effect = SendHttp http_response | SendBin string | CallAsync 'a field_map

definition onAsyncCallDone :: "string \<Rightarrow> 'a api_effect" where
  "onAsyncCallDone resp = SendHttp (HttpResponse_new 200 resp)"

definition handleRequest ::
  "sign_memory \<Rightarrow> ('h \<Rightarrow> field_map \<Rightarrow> string) \<Rightarrow> ('h, 'a) http_api \<Rightarrow> field_map \<Rightarrow> bool \<Rightarrow> 'a api_effect" where
  "handleRequest mem run api params bin =
     (case checkFields mem api params of
        Some err_mess \<Rightarrow> SendHttp (HttpResponse_new 200 (m_buildApiError api err_mess))
      | None \<Rightarrow>
          (let meth = the (om_find params ''method'')
           in if isAsync meth api then
                (case om_find (m_methods_callbacks_async api) meth of
                   None \<Rightarrow> SendHttp (HttpResponse_new 200 ''No such method'')
                 | Some h \<Rightarrow> CallAsync h params)
              else
                (case om_find (m_methods_callbacks api) meth of
                   None \<Rightarrow> SendHttp (HttpResponse_new 200 ''No such method'')
                 | Some h \<Rightarrow>
                     (let resp = run h params
                      in if \<not> bin then SendHttp (HttpResponse_new 200 resp)
                         else SendBin (dec_str (length resp) @ newline # resp)))))"

text \<open>\<open>None\<close> as request: it is not one of the binary protocol.\<close>

definition handleBinary ::
  "sign_memory \<Rightarrow> ('h \<Rightarrow> field_map \<Rightarrow> string) \<Rightarrow> ('h, 'a) http_api \<Rightarrow> bin_request option \<Rightarrow> 'a api_effect option" where
  "handleBinary mem run api req =
     (case req of
        None \<Rightarrow> None
      | Some r \<Rightarrow> Some (handleRequest mem run api (om_put ''method'' (rq_method r) (rq_params r)) True))"

definition api_handle ::
  "(string \<Rightarrow> (string \<times> string) list option) \<Rightarrow> sign_memory \<Rightarrow> ('h \<Rightarrow> field_map \<Rightarrow> string) \<Rightarrow> ('h, 'a) http_api \<Rightarrow>
     http_request \<Rightarrow> 'a api_effect option" where
  "api_handle pb_fields mem run api req =
     map_option (\<lambda>params. handleRequest mem run api params False) (mergePostParams pb_fields (body req) (values_GET req))"

section \<open>The client side\<close>

record api_client =
  m_url :: string
  m_api_userid :: string
  m_api_key :: string
  m_is_auth_info_set :: bool

definition HttpApiClient_new :: "string \<Rightarrow> string \<Rightarrow> string \<Rightarrow> api_client" where
  "HttpApiClient_new u userid key = \<lparr>m_url = u, m_api_userid = userid, m_api_key = key, m_is_auth_info_set = True\<rparr>"

definition HttpApiClient_plain :: "string \<Rightarrow> api_client" where
  "HttpApiClient_plain u = \<lparr>m_url = u, m_api_userid = [], m_api_key = [], m_is_auth_info_set = False\<rparr>"

text \<open>\<open>None\<close>: it throws.\<close>

definition buildPostRequestUrlSigned :: "sign_memory \<Rightarrow> u64 \<Rightarrow> string \<Rightarrow> api_client \<Rightarrow> string option" where
  "buildPostRequestUrlSigned mem now meth cli =
     (if \<not> m_is_auth_info_set cli then None
      else (let ts = uint64_to_string now;
                sign_hex = sign_of mem (meth @ ts @ m_api_key cli)
            in Some (m_url cli @ ''?method='' @ meth @ ''&api_userid='' @ m_api_userid cli @ ''&ts='' @ ts @ ''&sign='' @ sign_hex)))"

fun add_params :: "(string \<times> string) list \<Rightarrow> string \<Rightarrow> string" where
  "add_params [] requrl = requrl"
| "add_params ((k, v) # ps) requrl = add_params ps (requrl @ ''&'' @ k @ ''='' @ v)"

definition buildRequestUrlSigned ::
  "sign_memory \<Rightarrow> u64 \<Rightarrow> string \<Rightarrow> (string \<times> string) list \<Rightarrow> api_client \<Rightarrow> string option" where
  "buildRequestUrlSigned mem now meth get_params cli =
     map_option (add_params get_params) (buildPostRequestUrlSigned mem now meth cli)"

definition buildRequestUrl :: "string \<Rightarrow> (string \<times> string) list \<Rightarrow> api_client \<Rightarrow> string" where
  "buildRequestUrl meth get_params cli =
     add_params get_params (m_url cli @ ''?method='' @ meth @ ''&api_userid='' @ m_api_userid cli)"

text \<open>\<open>callSimple\<close> and \<open>callPost\<close> are the HTTP client, \<open>serialize\<close> the protobuf message.\<close>

definition api_call :: "(string \<Rightarrow> string) \<Rightarrow> string \<Rightarrow> (string \<times> string) list \<Rightarrow> api_client \<Rightarrow> string" where
  "api_call callSimple meth get_params cli = callSimple (buildRequestUrl meth get_params cli)"

definition callSigned ::
  "(string \<Rightarrow> string) \<Rightarrow> sign_memory \<Rightarrow> u64 \<Rightarrow> string \<Rightarrow> (string \<times> string) list \<Rightarrow> api_client \<Rightarrow> string option" where
  "callSigned callSimple mem now meth get_params cli =
     map_option callSimple (buildRequestUrlSigned mem now meth get_params cli)"

definition callSignedPost ::
  "((string \<times> string) list \<Rightarrow> string) \<Rightarrow> (string \<Rightarrow> string \<Rightarrow> string) \<Rightarrow> sign_memory \<Rightarrow> u64 \<Rightarrow> string \<Rightarrow>
     (string \<times> string) list \<Rightarrow> api_client \<Rightarrow> string option" where
  "callSignedPost serialize callPost mem now meth params cli =
     map_option (\<lambda>req_url. callPost req_url (serialize params)) (buildPostRequestUrlSigned mem now meth cli)"

section \<open>Signatures\<close>

definition mem_ok :: "sign_memory \<Rightarrow> bool" where
  "mem_ok mem \<longleftrightarrow> length (mem_w mem) = 80 \<and> length (mem_sign mem) = 21 \<and> length (mem_hex mem) = 41"

definition fips_hex :: "string \<Rightarrow> string" where
  "fips_hex s = concat (map hex_byte (fips_sha1 (map byte_of s)))"

lemma sign_of_fips: "mem_ok mem \<Longrightarrow> length s < 2 ^ 28 \<Longrightarrow> sign_of mem s = fips_hex s"
  using toHex_bytes [of "mem_hex mem" "sha1_calc (mem_w mem) (map byte_of s) (mem_sign mem)"]
  by (simp add: sign_of_def fips_hex_def mem_ok_def sha1_calc_fips length_fips_sha1 toHex_def cstr_def)

lemma length_fips_hex: "length (fips_hex s) = 40"
proof -
  have "length (concat (map hex_byte bs)) = 2 * length bs" for bs
    by (induction bs) (simp_all add: hex_byte_def)
  then show ?thesis
    by (simp add: fips_hex_def length_fips_sha1)
qed

lemma args_set_iff: "args_set fs args = list_all (\<lambda>a. om_find fs a \<noteq> None) args"
  by (induction args) auto

text \<open>
  a call of a signed method is accepted exactly when its arguments are all set and the
  signature is the hexadecimal SHA-1 digest of the method, the time stamp and the key of the
  user it names. So neither the values of the arguments are signed nor is the time looked at:
  who has seen one accepted call can repeat it, with other arguments, for ever.
\<close>

lemma checkFields_signed:
  assumes "mem_ok mem" "om_find fs ''method'' = Some meth" "isSigned meth api"
    "\<And>ts key. om_find fs ''ts'' = Some ts \<Longrightarrow> key \<in> snd ` set (m_keys api) \<Longrightarrow> length (meth @ ts @ key) < 2 ^ 28"
  shows "checkFields mem api fs = None \<longleftrightarrow>
    (\<exists>args. om_find (m_methods_args api) meth = Some args \<and> list_all (\<lambda>a. om_find fs a \<noteq> None) args) \<and>
    (\<exists>userid ts key. om_find fs ''api_userid'' = Some userid \<and> om_find fs ''ts'' = Some ts \<and>
       om_find (m_keys api) userid = Some key \<and> om_find fs ''sign'' = Some (fips_hex (meth @ ts @ key)))"
proof -
  have sign: "sign_of mem (meth @ ts @ key) = fips_hex (meth @ ts @ key)"
    if "om_find fs ''ts'' = Some ts" "om_find (m_keys api) userid = Some key" for ts key userid
    using assms(4) [OF that(1), of key] map_of_SomeD [OF that(2) [unfolded om_find_def]]
    by (intro sign_of_fips [OF assms(1)]) force
  show ?thesis
    using assms(2,3) sign
    by (auto simp: checkFields_def isSigned_def args_set_iff split: option.split)
qed

section \<open>The URL of a client is accepted by the server\<close>

lemma add_params_query: "kvs \<noteq> [] \<Longrightarrow> add_params ps (u @ query kvs) = u @ query (kvs @ ps)"
proof (induction ps arbitrary: kvs)
  case (Cons p ps)
  have "query kvs @ ''&'' @ fst p @ ''='' @ snd p = query (kvs @ [p])" if "kvs \<noteq> []" for kvs
    using that by (cases p, induction kvs rule: query.induct) auto
  from this [OF Cons.prems] have "(u @ query kvs) @ ''&'' @ fst p @ ''='' @ snd p = u @ query (kvs @ [p])"
    by simp
  then show ?case
    using Cons.IH [of "kvs @ [p]"] by (cases p) simp
qed simp

lemma fold_put_find:
  "om_inv m \<Longrightarrow> om_find (fold (\<lambda>(k, v). om_put k (f v)) kvs m) k =
     (case map_of (rev kvs) k of Some v \<Rightarrow> Some (f v) | None \<Rightarrow> om_find m k)"
  by (induction kvs arbitrary: m) (auto simp: map_add_def split: option.split)

lemma plain_digits: "plain (dec_str n)"
  using dec_str_digit [of "CHR ''?''" n] dec_str_digit [of "CHR ''=''" n] dec_str_digit [of "CHR ''&''" n]
  by (auto simp: plain_def is_digit_def)

lemma hexDigits_plain: "n < 16 \<Longrightarrow> hexDigits ! n \<notin> {CHR ''?'', CHR ''='', CHR ''&''}"
proof -
  have "list_all (\<lambda>n. hexDigits ! n \<notin> {CHR ''?'', CHR ''='', CHR ''&''}) [0..<16]"
    by code_simp
  then show "n < 16 \<Longrightarrow> ?thesis"
    by (simp add: list_all_iff)
qed

lemma plain_hex_byte: "plain (hex_byte b)"
proof -
  have "unat b div 16 < 16"
    using unat_byte_less [of b] by auto
  then show ?thesis
    using hexDigits_plain [of "unat b div 16"] hexDigits_plain [of "unat b mod 16"] by (auto simp: hex_byte_def plain_def)
qed

lemma plain_fips_hex: "plain (fips_hex s)"
  using plain_hex_byte by (auto simp: fips_hex_def plain_def)

lemma fips_hex_not_Nil: "fips_hex s \<noteq> []"
proof -
  have "length (fips_hex s) = 40"
    unfolding fips_hex_def length_hex by (simp add: length_fips_sha1)
  then show ?thesis
    by auto
qed

text \<open>
  What a client's URL gives the server: the server may see it without its first part, the scheme
  and the host.
\<close>

lemma client_url:
  assumes "buildRequestUrlSigned mem now meth ps cli = Some u" "mem_ok mem" "mem_ok mem'"
    "\<And>x. unescape x = Some (dec x)" "m_url cli = host @ pth" "plain pth" "plain meth" "plain (m_api_userid cli)"
    "list_all (\<lambda>(k, v). plain k \<and> plain v) ps" "ps \<noteq> [] \<longrightarrow> snd (last ps) \<noteq> []"
    "\<And>x. x \<in> {meth, m_api_userid cli, uint64_to_string now, fips_hex (meth @ uint64_to_string now @ m_api_key cli)} \<Longrightarrow> dec (dec x) = x"
    "\<forall>k \<in> fst ` set ps. k \<notin> {''method'', ''api_userid'', ''ts'', ''sign''}"
    "length (meth @ uint64_to_string now @ m_api_key cli) < 2 ^ 28"
    "om_find (m_methods_args api) meth = Some args" "set args \<subseteq> fst ` set ps"
    "om_find (m_keys api) (m_api_userid cli) = Some (m_api_key cli)" "length u < 2 ^ 31"
  shows "\<exists>target fs. u = host @ target \<and> parseGET unescape target [] = Some fs \<and> checkFields mem' api fs = None \<and>
    om_find fs ''method'' = Some meth \<and> (\<forall>k v. map_of (rev ps) k = Some v \<longrightarrow> om_find fs k = Some (dec (dec v)))"
proof -
  let ?ts = "uint64_to_string now"
  let ?sign = "fips_hex (meth @ ?ts @ m_api_key cli)"
  let ?base = "[(''method'', meth), (''api_userid'', m_api_userid cli), (''ts'', ?ts), (''sign'', ?sign)]"
  let ?fs = "fold (\<lambda>(k, v). om_put k (dec (dec v))) (?base @ ps) []"
  have "m_is_auth_info_set cli"
    using assms(1) by (auto simp: buildRequestUrlSigned_def buildPostRequestUrlSigned_def split: if_splits)
  then have "u = add_params ps ((m_url cli @ ''?'') @ query ?base)"
    using assms(1) sign_of_fips [OF assms(2,13)]
    by (simp add: buildRequestUrlSigned_def buildPostRequestUrlSigned_def Let_def)
  then have u: "u = m_url cli @ ''?'' @ query (?base @ ps)"
    using add_params_query [of ?base ps "m_url cli @ ''?''"] by simp
  have "list_all (\<lambda>(k, v). plain k \<and> plain v) (?base @ ps)"
    using assms(7-9) plain_fips_hex plain_digits by (simp add: uint64_to_string_def) (simp add: plain_def)
  moreover have "snd (last (?base @ ps)) \<noteq> []"
    using assms(10) fips_hex_not_Nil by (cases ps rule: rev_cases) simp_all
  moreover have "length (pth @ ''?'' @ query (?base @ ps)) < 2 ^ 31"
    using assms(5,17) unfolding u by simp
  ultimately have parse: "parseGET unescape (pth @ ''?'' @ query (?base @ ps)) [] = Some ?fs"
    using parseGET_pairs [of unescape dec pth "?base @ ps" "[]", OF assms(4,6)] by simp
  have find: "om_find ?fs k = map_option (\<lambda>v. dec (dec v)) (map_of (rev (?base @ ps)) k)" for k
    using fold_put_find [of "[]" "\<lambda>v. dec (dec v)" "?base @ ps" k] by (simp split: option.split)
  have none: "map_of (rev ps) k = None" if "k \<in> {''method'', ''api_userid'', ''ts'', ''sign''}" for k
    using assms(12) that by (auto simp: map_of_eq_None_iff)
  have service: "om_find ?fs ''method'' = Some meth" "om_find ?fs ''api_userid'' = Some (m_api_userid cli)"
    "om_find ?fs ''ts'' = Some ?ts" "om_find ?fs ''sign'' = Some ?sign"
    unfolding find using none assms(11) by (simp_all add: map_add_def)
  have "args_set ?fs args"
  proof -
    have "om_find ?fs k \<noteq> None" if "k \<in> set args" for k
      unfolding find using that assms(15) by (force simp: map_add_def map_of_eq_None_iff split: option.split)
    then show ?thesis
      by (simp add: args_set_iff list_all_iff)
  qed
  then have "checkFields mem' api ?fs = None"
    using service assms(14,16) sign_of_fips [OF assms(3,13)] by (simp add: checkFields_def del: fold.simps fold_append append_Cons)
  moreover have "om_find ?fs k = Some (dec (dec v))" if "map_of (rev ps) k = Some v" for k v
    unfolding find using that by (simp add: map_add_def)
  ultimately show ?thesis
    using u assms(5) parse service(1) by (intro exI [of _ "pth @ ''?'' @ query (?base @ ps)"] exI [of _ ?fs]) simp
qed

text \<open>
  the signed URL that a client builds for a call is parsed and accepted by a server that
  has the method and the client's key: when neither the fields nor the key change under the
  unescaping of the server, the arguments of the method are among the parameters, and no
  parameter has the name of a service field.
\<close>

lemma api_accepts_client_url:
  assumes "buildRequestUrlSigned mem now meth ps cli = Some u" "mem_ok mem" "mem_ok mem'"
    "\<And>x. unescape x = Some (dec x)" "plain (m_url cli)" "plain meth" "plain (m_api_userid cli)"
    "list_all (\<lambda>(k, v). plain k \<and> plain v) ps" "ps \<noteq> [] \<longrightarrow> snd (last ps) \<noteq> []"
    "\<And>x. x \<in> {meth, m_api_userid cli, uint64_to_string now, fips_hex (meth @ uint64_to_string now @ m_api_key cli)} \<Longrightarrow> dec (dec x) = x"
    "\<forall>k \<in> fst ` set ps. k \<notin> {''method'', ''api_userid'', ''ts'', ''sign''}"
    "length (meth @ uint64_to_string now @ m_api_key cli) < 2 ^ 28"
    "om_find (m_methods_args api) meth = Some args" "set args \<subseteq> fst ` set ps"
    "om_find (m_keys api) (m_api_userid cli) = Some (m_api_key cli)" "length u < 2 ^ 31"
  shows "\<exists>fs. parseGET unescape u [] = Some fs \<and> checkFields mem' api fs = None"
  using client_url [OF assms(1-4) _ assms(5-16), of "[]"] by auto

definition demo_mem :: sign_memory where
  "demo_mem = \<lparr>mem_w = replicate 80 0, mem_sign = replicate 21 0, mem_hex = replicate 41 CHR ''x''\<rparr>"

definition demo_api :: "(nat, nat) http_api" where
  "demo_api = setUserToken ''u'' ''k'' (addMethodSigned ''get'' [''id''] 1 15 (HttpApi_new (\<lambda>e. e)))"

lemma demo_mem_ok: "mem_ok demo_mem"
  by (simp add: mem_ok_def demo_mem_def)

lemma demo_api_fields:
  "m_methods_args demo_api = [(''get'', [''id''])]" "m_signed demo_api = [(''get'', 1)]" "m_keys demo_api = [(''u'', ''k'')]"
  by (simp_all add: demo_api_def setUserToken_def addMethodSigned_def HttpApi_new_def)

lemma checkFields_signed_witness:
  "checkFields demo_mem demo_api
     [(''api_userid'', ''u''), (''id'', ''7''), (''method'', ''get''), (''sign'', fips_hex ''get9k''), (''ts'', ''9'')] = None"
proof -
  let ?fs = "[(''api_userid'', ''u''), (''id'', ''7''), (''method'', ''get''), (''sign'', fips_hex ''get9k''), (''ts'', ''9'')]"
  have len: "length (''get'' @ ts @ key) < 2 ^ 28" if "om_find ?fs ''ts'' = Some ts" "key \<in> snd ` set (m_keys demo_api)" for ts key
    using that by (auto simp: om_find_def demo_api_fields)
  have "om_find ?fs ''method'' = Some ''get''" "isSigned ''get'' demo_api"
    by (simp_all add: om_find_def isSigned_def demo_api_fields)
  from checkFields_signed [OF demo_mem_ok this len] show ?thesis
    by (simp add: om_find_def demo_api_fields)
qed

lemma api_accepts_client_url_witness:
  "\<exists>u fs. buildRequestUrlSigned demo_mem 9 ''get'' [(''id'', ''7'')] (HttpApiClient_new ''http://h/api'' ''u'' ''k'') = Some u \<and>
     parseGET Some u [] = Some fs \<and> checkFields demo_mem demo_api fs = None"
proof -
  let ?cli = "HttpApiClient_new ''http://h/api'' ''u'' ''k''"
  obtain u where u: "buildRequestUrlSigned demo_mem 9 ''get'' [(''id'', ''7'')] ?cli = Some u"
    by (simp add: buildRequestUrlSigned_def buildPostRequestUrlSigned_def HttpApiClient_new_def Let_def)
  have "length (''get'' @ uint64_to_string 9 @ m_api_key ?cli) < 2 ^ 28"
    by (simp add: HttpApiClient_new_def uint64_to_string_def dec_str_def dec_digits.simps)
  moreover have "length u < 2 ^ 31"
    using u by (auto simp: buildRequestUrlSigned_def buildPostRequestUrlSigned_def HttpApiClient_new_def Let_def
        sign_of_fips [OF demo_mem_ok] length_fips_hex uint64_to_string_def dec_str_def dec_digits.simps)
  ultimately have "\<exists>fs. parseGET Some u [] = Some fs \<and> checkFields demo_mem demo_api fs = None"
    by (intro api_accepts_client_url [OF u demo_mem_ok demo_mem_ok, where dec = "\<lambda>x. x" and args = "[''id'']"])
      (simp_all add: HttpApiClient_new_def plain_def om_find_def demo_api_fields)
  then show ?thesis
    using u by blast
qed

text \<open>The same as a statement on replays: an accepted signed call stays accepted with other arguments.\<close>

lemma signed_call_replays:
  assumes "checkFields mem api fs = None" "om_find fs ''method'' = Some meth"
    "\<And>k. k \<in> {''method'', ''api_userid'', ''ts'', ''sign''} \<Longrightarrow> om_find fs' k = om_find fs k"
    "\<And>k. om_find fs k \<noteq> None \<Longrightarrow> om_find fs' k \<noteq> None"
  shows "checkFields mem api fs' = None"
proof -
  have "args_set fs' args" if "args_set fs args" for args
    using that assms(4) by (simp add: args_set_iff list_all_iff)
  then show ?thesis
    using assms(1-3) by (auto simp: checkFields_def split: option.splits if_splits)
qed

text \<open>
  Over the binary protocol an error, and the answer of an asynchronous method, are sent as an
  HTTP response, which the client reads as a size line.
\<close>

lemma binary_error_is_http:
  assumes "checkFields mem api (om_put ''method'' (rq_method r) (rq_params r)) = Some err"
  shows "handleBinary mem run api (Some r) = Some (SendHttp (HttpResponse_new 200 (m_buildApiError api err)))"
  using assms by (simp add: handleBinary_def handleRequest_def)

end
