(* ===== verification/HttpClientAsync.thy ===== *)
theory HttpClientAsync
  imports Hi_Prelude "HOL-Library.Multiset"
begin

text \<open>
  \<^verbatim>\<open>network/HttpClient.cpp\<close> and \<^verbatim>\<open>network/HttpClientAsync.cpp\<close>: calls over libcurl. What libcurl
  gives (handles, failures, pieces of the answer, the count of running transfers, messages on
  finished transfers) is a parameter of each operation. \<open>kick\<close> is a sequence of steps, since other
  threads start calls while it waits in \<^verbatim>\<open>select\<close>. A call and the steps of \<open>kick\<close> use the table
  and the multi handle without a common lock (\<^verbatim>\<open>performTransfers\<close> does not take it); what happens
  when they overlap is undefined, and that is said where they are interleaved, in
  \<open>HttpOutReqDisp\<close>.
\<close>

section \<open>The write callback and the blocking client\<close>

text \<open>The piece is copied to an array and appended as a C string.\<close>

definition crawl_function_pt :: "string \<Rightarrow> string \<Rightarrow> nat \<times> string" where
  "crawl_function_pt data stream = (if length data = 0 then (0, stream) else (length data, stream @ cstr data))"

text \<open>What libcurl is asked: the URL and the fields of a POST are C strings.\<close>

record easy =
  e_url :: string
  e_post :: "string option"

text \<open>
  \<open>perform\<close> is \<^verbatim>\<open>curl_easy_perform\<close>: the pieces it passes to the callback, its result and the
  response code. The result is what the call returns and the response.
\<close>

definition simple_perform :: "(easy \<Rightarrow> string list \<times> int \<times> int) \<Rightarrow> easy \<Rightarrow> string \<Rightarrow> bool \<times> string" where
  "simple_perform perform e resp =
     (let (pieces, res, http_code) = perform e;
          resp = fold (\<lambda>d r. snd (crawl_function_pt d r)) pieces resp
      in if res \<noteq> 0 then (False, resp)
         else if http_code \<noteq> 200 then (False, resp)
         else (True, resp))"

definition HttpClient_callSimple :: "(easy \<Rightarrow> string list \<times> int \<times> int) \<Rightarrow> string \<Rightarrow> string \<Rightarrow> bool \<times> string" where
  "HttpClient_callSimple perform url resp = simple_perform perform \<lparr>e_url = cstr url, e_post = None\<rparr> resp"

definition HttpClient_callPost :: "(easy \<Rightarrow> string list \<times> int \<times> int) \<Rightarrow> string \<Rightarrow> string \<Rightarrow> string \<Rightarrow> bool \<times> string" where
  "HttpClient_callPost perform url postdata resp =
     simple_perform perform \<lparr>e_url = cstr url, e_post = Some (cstr postdata)\<rparr> resp"

section \<open>The asynchronous client\<close>

record 'u job_info =
  userdata :: 'u
  resp :: string
  success :: bool
  postdata :: string

definition JobInfo_new :: "'u \<Rightarrow> string \<Rightarrow> 'u job_info" where
  "JobInfo_new ud pd = \<lparr>userdata = ud, resp = [], success = False, postdata = pd\<rparr>"

text \<open>
  Handles are numbers. \<open>m_multi\<close> has what the multi handle of libcurl transfers, \<open>cl_tasks\<close>
  the tasks of the client's own launcher, all of them calls of \<open>callHandler\<close>.
\<close>

record 'u http_client =
  m_e_curls :: "(nat, 'u job_info) omap"
  m_multi :: "(nat \<times> easy) list"
  cl_tasks :: "'u job_info list"

definition HttpClientAsync_new :: "'u http_client" where
  "HttpClientAsync_new = \<lparr>m_e_curls = [], m_multi = [], cl_tasks = []\<rparr>"

text \<open>
  \<open>h\<close> is the result of \<^verbatim>\<open>curl_easy_init\<close>, 0 for \<^verbatim>\<open>NULL\<close>, and \<open>took\<close> whether
  \<^verbatim>\<open>curl_multi_add_handle\<close> takes the handle; it refuses \<^verbatim>\<open>NULL\<close>. The code looks at neither: a
  call without a transfer stays in the table, and the second call under \<^verbatim>\<open>NULL\<close> is not even put
  there.
\<close>

definition start_transfer :: "nat \<Rightarrow> bool \<Rightarrow> easy \<Rightarrow> (nat \<times> easy) list \<Rightarrow> (nat \<times> easy) list" where
  "start_transfer h took e multi = (if h \<noteq> 0 \<and> took then multi @ [(h, e)] else multi)"

definition client_call :: "nat \<Rightarrow> bool \<Rightarrow> 'u \<Rightarrow> string \<Rightarrow> 'u http_client \<Rightarrow> 'u http_client" where
  "client_call h took ud url cl = cl\<lparr>m_e_curls := om_ins h (JobInfo_new ud []) (m_e_curls cl),
     m_multi := start_transfer h took \<lparr>e_url = cstr url, e_post = None\<rparr> (m_multi cl)\<rparr>"

definition client_callPost :: "nat \<Rightarrow> bool \<Rightarrow> 'u \<Rightarrow> string \<Rightarrow> string \<Rightarrow> 'u http_client \<Rightarrow> 'u http_client" where
  "client_callPost h took ud url pd cl = cl\<lparr>m_e_curls := om_ins h (JobInfo_new ud pd) (m_e_curls cl),
     m_multi := start_transfer h took \<lparr>e_url = cstr url, e_post = Some (cstr pd)\<rparr> (m_multi cl)\<rparr>"

text \<open>A piece of the answer to \<open>h\<close> goes to the response in the table.\<close>

definition on_piece :: "nat \<times> string \<Rightarrow> 'u http_client \<Rightarrow> 'u http_client" where
  "on_piece p cl =
     (case om_find (m_e_curls cl) (fst p) of
        None \<Rightarrow> cl
      | Some j \<Rightarrow> cl\<lparr>m_e_curls := om_put (fst p) (j\<lparr>resp := snd (crawl_function_pt (snd p) (resp j))\<rparr>) (m_e_curls cl)\<rparr>)"

text \<open>One round of the loop over messages: the handle, whether it is \<^verbatim>\<open>CURLMSG_DONE\<close>, and \<^verbatim>\<open>CURLE_OK\<close>.\<close>

fun handle_msg :: "nat \<times> bool \<times> bool \<Rightarrow> 'u http_client \<Rightarrow> 'u http_client" where
  "handle_msg (h, is_done, ok) cl =
     (if \<not> is_done then cl
      else case om_find (m_e_curls cl) h of
             None \<Rightarrow> cl
           | Some j \<Rightarrow> cl\<lparr>m_multi := filter (\<lambda>e. fst e \<noteq> h) (m_multi cl), m_e_curls := om_erase h (m_e_curls cl),
               cl_tasks := cl_tasks cl @ [j\<lparr>success := ok\<rparr>]\<rparr>)"

text \<open>
  Where \<open>kick\<close> is: before the loop, at \<^verbatim>\<open>select\<close> with the value of \<^verbatim>\<open>still_running\<close>, in
  \<open>performTransfers\<close>, or returned. What it is given: the value of the uninitialised variable; the
  result of \<^verbatim>\<open>select\<close> with the pieces and the count of \<^verbatim>\<open>curl_multi_perform\<close>; a message or \<^verbatim>\<open>NULL\<close>.
\<close>

datatype kick_pc = KickEnter | KickSelect int | KickRead | KickDone

datatype kick_input = Entered int | Selected int "(nat \<times> string) list" int | Message "(nat \<times> bool \<times> bool) option"

fun kick_step :: "kick_input \<Rightarrow> kick_pc \<Rightarrow> 'u http_client \<Rightarrow> (kick_pc \<times> 'u http_client) option" where
  "kick_step (Entered junk) KickEnter cl = Some (KickSelect junk, cl)"
| "kick_step (Selected retval pieces n) (KickSelect still_running) cl =
     (let (still_running, cl) = (if retval \<noteq> - 1 then (n, fold on_piece pieces cl) else (still_running, cl))
      in Some (if still_running \<noteq> 0 then KickSelect still_running else KickRead, cl))"
| "kick_step (Message (Some msg)) KickRead cl = Some (KickRead, handle_msg msg cl)"
| "kick_step (Message None) KickRead cl = Some (KickDone, cl)"
| "kick_step _ _ _ = None"

fun kick_run :: "kick_input list \<Rightarrow> kick_pc \<Rightarrow> 'u http_client \<Rightarrow> (kick_pc \<times> 'u http_client) option" where
  "kick_run [] pc cl = Some (pc, cl)"
| "kick_run (i # is) pc cl = (case kick_step i pc cl of None \<Rightarrow> None | Some (pc, cl) \<Rightarrow> kick_run is pc cl)"

section \<open>Lemmas\<close>

text \<open>The transfers have different handles, none of them \<^verbatim>\<open>NULL\<close>, and each has its call in the
  table. The order of the table is that of the model; nothing depends on it.\<close>

definition client_ok :: "'u http_client \<Rightarrow> bool" where
  "client_ok cl \<longleftrightarrow> om_inv (m_e_curls cl) \<and> distinct (map fst (m_multi cl)) \<and>
     (\<forall>h \<in> fst ` set (m_multi cl). h \<noteq> 0 \<and> om_find (m_e_curls cl) h \<noteq> None)"

text \<open>The handles that \<^verbatim>\<open>curl_easy_init\<close> can give: \<^verbatim>\<open>NULL\<close>, or one that is not in use.\<close>

definition handle_given :: "nat \<Rightarrow> 'u http_client \<Rightarrow> bool" where
  "handle_given h cl \<longleftrightarrow> h = 0 \<or> om_find (m_e_curls cl) h = None"

lemma client_ok_new: "client_ok HttpClientAsync_new"
  by (simp add: client_ok_def HttpClientAsync_new_def)

lemma om_ins_keeps: "om_inv m \<Longrightarrow> om_find m k \<noteq> None \<Longrightarrow> om_find (om_ins h v m) k \<noteq> None"
  by (auto simp: om_ins_def split: option.split)

lemma client_ok_call:
  assumes "client_ok cl" "handle_given h cl"
  shows "client_ok (client_call h took ud url cl)" "client_ok (client_callPost h took ud url pd cl)"
  using assms om_ins_keeps [of "m_e_curls cl"]
  by (auto simp: client_ok_def handle_given_def client_call_def client_callPost_def start_transfer_def)

lemma client_ok_piece: "client_ok cl \<Longrightarrow> client_ok (on_piece p cl)"
  by (auto simp: client_ok_def on_piece_def split: option.split)

lemma client_ok_pieces: "client_ok cl \<Longrightarrow> client_ok (fold on_piece ps cl)"
  by (induction ps arbitrary: cl) (simp_all add: client_ok_piece)

lemma client_ok_msg: "client_ok cl \<Longrightarrow> client_ok (handle_msg m cl)"
  by (cases m) (auto simp: client_ok_def distinct_map_filter split: option.split)

lemma client_ok_kick_step: "kick_step i pc cl = Some (pc', cl') \<Longrightarrow> client_ok cl \<Longrightarrow> client_ok cl'"
  by (cases "(i, pc, cl)" rule: kick_step.cases) (auto simp: client_ok_pieces client_ok_msg simp del: handle_msg.simps split: if_splits)

lemma kick_run_append:
  "kick_run (is @ js) pc cl = (case kick_run is pc cl of None \<Rightarrow> None | Some (pc, cl) \<Rightarrow> kick_run js pc cl)"
  by (induction "is" arbitrary: pc cl) (auto split: option.split)

text \<open>Whose calls the client has: in the table, or on their way to the handler.\<close>

definition client_users :: "'u http_client \<Rightarrow> 'u multiset" where
  "client_users cl = mset (map (\<lambda>e. userdata (snd e)) (m_e_curls cl)) + mset (map userdata (cl_tasks cl))"

lemma table_put_None:
  "om_inv m \<Longrightarrow> om_find m k = None \<Longrightarrow> mset (om_put k v m) = add_mset (k, v) (mset m)"
  by (induction k v m rule: om_put.induct) (auto simp: om_inv_def om_find_def split: if_splits)

lemma table_erase: "om_inv m \<Longrightarrow> om_find m k = Some v \<Longrightarrow> mset m = add_mset (k, v) (mset (om_erase k m))"
proof (induction m)
  case (Cons e m)
  have "om_erase k m = m" if "fst e = k"
    using Cons.prems(1) that by (auto simp: om_erase_def om_inv_def filter_id_conv)
  then show ?case
    using Cons by (cases e) (auto simp: om_erase_def om_inv_def om_find_def split: if_splits)
qed simp

lemma table_put_Some:
  assumes "om_inv m" "om_find m k = Some v0"
  shows "mset (om_put k v m) = add_mset (k, v) (mset (om_erase k m))"
proof -
  have "om_erase k (om_put k v m) = om_erase k m"
    by (induction k v m rule: om_put.induct) (auto simp: om_erase_def)
  then show ?thesis
    using table_erase [of "om_put k v m" k v] assms by simp
qed

lemma client_users_call:
  assumes "client_ok cl"
  shows "client_users (client_call h took ud url cl) =
      (if om_find (m_e_curls cl) h = None then add_mset ud (client_users cl) else client_users cl)"
    "client_users (client_callPost h took ud url pd cl) =
      (if om_find (m_e_curls cl) h = None then add_mset ud (client_users cl) else client_users cl)"
  using assms table_put_None [of "m_e_curls cl" h]
  by (auto simp: client_users_def client_call_def client_callPost_def om_ins_def client_ok_def JobInfo_new_def split: option.split)

text \<open>
  What libcurl gives to \<open>kick\<close> is about its transfers. Then the call under \<^verbatim>\<open>NULL\<close> stays in the
  table for ever.
\<close>

fun libcurl_gives :: "kick_input \<Rightarrow> 'u http_client \<Rightarrow> bool" where
  "libcurl_gives (Selected retval pieces n) cl = (\<forall>p \<in> set pieces. fst p \<in> fst ` set (m_multi cl))"
| "libcurl_gives (Message (Some (h, _))) cl = (h \<in> fst ` set (m_multi cl))"
| "libcurl_gives _ cl = True"

lemma on_piece_keeps: "om_inv (m_e_curls cl) \<Longrightarrow> om_find (m_e_curls cl) k \<noteq> None \<Longrightarrow> om_find (m_e_curls (on_piece p cl)) k \<noteq> None"
  by (auto simp: on_piece_def split: option.split)

lemma pieces_keep: "client_ok cl \<Longrightarrow> om_find (m_e_curls cl) k \<noteq> None \<Longrightarrow> om_find (m_e_curls (fold on_piece ps cl)) k \<noteq> None"
proof (induction ps arbitrary: cl)
  case (Cons p ps)
  then show ?case
    using client_ok_piece [OF Cons.prems(1), of p] on_piece_keeps [of cl k p] by (simp add: client_ok_def)
qed simp

lemma null_stays:
  assumes "kick_step i pc cl = Some (pc', cl')" "client_ok cl" "libcurl_gives i cl" "om_find (m_e_curls cl) 0 \<noteq> None"
  shows "om_find (m_e_curls cl') 0 \<noteq> None"
  using assms pieces_keep [OF assms(2,4)]
  by (cases "(i, pc, cl)" rule: kick_step.cases) (auto simp: client_ok_def split: if_splits option.splits)

lemma client_users_piece: "client_ok cl \<Longrightarrow> client_users (on_piece p cl) = client_users cl"
  using table_put_Some [of "m_e_curls cl" "fst p"] table_erase [of "m_e_curls cl" "fst p"]
  by (auto simp: client_users_def on_piece_def client_ok_def split: option.split)

lemma client_users_pieces: "client_ok cl \<Longrightarrow> client_users (fold on_piece ps cl) = client_users cl"
  by (induction ps arbitrary: cl) (simp_all add: client_users_piece client_ok_piece)

lemma client_users_msg: "client_ok cl \<Longrightarrow> client_users (handle_msg m cl) = client_users cl"
  using table_erase [of "m_e_curls cl" "fst m"]
  by (cases m) (auto simp: client_users_def client_ok_def split: option.split)

lemma client_users_kick_step: "kick_step i pc cl = Some (pc', cl') \<Longrightarrow> client_ok cl \<Longrightarrow> client_users cl' = client_users cl"
  by (cases "(i, pc, cl)" rule: kick_step.cases)
    (auto simp: client_users_pieces client_users_msg simp del: handle_msg.simps split: if_splits)

section \<open>The responses that one kick collects\<close>

definition pieces_of :: "nat \<Rightarrow> (nat \<times> string) list \<Rightarrow> string" where
  "pieces_of h ps = concat (map (\<lambda>p. if fst p = h then cstr (snd p) else []) ps)"

lemma on_piece_find:
  "om_inv (m_e_curls cl) \<Longrightarrow> om_find (m_e_curls (on_piece p cl)) h =
     map_option (\<lambda>j. j\<lparr>resp := resp j @ pieces_of h [p]\<rparr>) (om_find (m_e_curls cl) h)"
  by (auto simp: on_piece_def pieces_of_def crawl_function_pt_def cstr_def split: option.split)

lemma on_piece_fields [simp]:
  "om_inv (m_e_curls (on_piece p cl)) = om_inv (m_e_curls cl) \<or> \<not> om_inv (m_e_curls cl)"
  "m_multi (on_piece p cl) = m_multi cl" "cl_tasks (on_piece p cl) = cl_tasks cl"
  by (auto simp: on_piece_def split: option.split)

lemma pieces_fields:
  "om_inv (m_e_curls cl) \<Longrightarrow> om_inv (m_e_curls (fold on_piece ps cl)) \<and> m_multi (fold on_piece ps cl) = m_multi cl \<and>
     cl_tasks (fold on_piece ps cl) = cl_tasks cl \<and>
     om_find (m_e_curls (fold on_piece ps cl)) h = map_option (\<lambda>j. j\<lparr>resp := resp j @ pieces_of h ps\<rparr>) (om_find (m_e_curls cl) h)"
proof (induction ps arbitrary: cl)
  case (Cons p ps)
  have "om_inv (m_e_curls (on_piece p cl))"
    using Cons.prems by (auto simp: on_piece_def split: option.split)
  moreover have "pieces_of h (p # ps) = pieces_of h [p] @ pieces_of h ps"
    by (simp add: pieces_of_def)
  ultimately show ?case
    using Cons.IH [of "on_piece p cl"] on_piece_find [OF Cons.prems, of p h] by (simp add: option.map_comp comp_def)
qed (simp add: pieces_of_def option.map_ident)

lemma select_rounds:
  assumes "list_all (\<lambda>(ps, n). n \<noteq> 0) rounds"
  shows "kick_run (map (\<lambda>(ps, n). Selected 1 ps n) rounds @ is) (KickSelect r) cl =
    kick_run is (KickSelect (if rounds = [] then r else snd (last rounds))) (fold on_piece (concat (map fst rounds)) cl)"
  using assms by (induction rounds arbitrary: r cl) (auto simp: split_def)

lemma messages:
  assumes "om_inv (m_e_curls cl)" "distinct (map fst ms)" "\<And>h. h \<in> fst ` set ms \<Longrightarrow> om_find (m_e_curls cl) h \<noteq> None"
  shows "\<exists>cl'. kick_run (map (\<lambda>(h, ok). Message (Some (h, True, ok))) ms @ [Message None]) KickRead cl = Some (KickDone, cl') \<and>
    (\<forall>h. om_find (m_e_curls cl') h = (if h \<in> fst ` set ms then None else om_find (m_e_curls cl) h)) \<and>
    cl_tasks cl' = cl_tasks cl @ map (\<lambda>(h, ok). (the (om_find (m_e_curls cl) h))\<lparr>success := ok\<rparr>) ms"
  using assms
proof (induction ms arbitrary: cl)
  case (Cons m ms)
  obtain h ok where m: "m = (h, ok)"
    by (cases m)
  obtain j where j: "om_find (m_e_curls cl) h = Some j"
    using Cons.prems(3) [of h] m by auto
  let ?cl = "handle_msg (h, True, ok) cl"
  have keys: "h \<notin> fst ` set ms"
    using Cons.prems(2) m by simp
  have "om_inv (m_e_curls ?cl)" "distinct (map fst ms)"
    "\<And>h. h \<in> fst ` set ms \<Longrightarrow> om_find (m_e_curls ?cl) h \<noteq> None"
    using Cons.prems m j keys by auto
  from Cons.IH [OF this] obtain cl' where
    "kick_run (map (\<lambda>(h, ok). Message (Some (h, True, ok))) ms @ [Message None]) KickRead ?cl = Some (KickDone, cl')"
    "\<forall>h. om_find (m_e_curls cl') h = (if h \<in> fst ` set ms then None else om_find (m_e_curls ?cl) h)"
    "cl_tasks cl' = cl_tasks ?cl @ map (\<lambda>(h, ok). (the (om_find (m_e_curls ?cl) h))\<lparr>success := ok\<rparr>) ms"
    by blast
  moreover have "map (\<lambda>(h, ok). (the (om_find (m_e_curls ?cl) h))\<lparr>success := ok\<rparr>) ms =
      map (\<lambda>(h, ok). (the (om_find (m_e_curls cl) h))\<lparr>success := ok\<rparr>) ms"
    using keys j by (force intro!: map_cong)
  ultimately show ?case
    using m j keys by (intro exI [of _ cl']) (auto simp del: map_eq_conv)
qed simp

text \<open>
  C33: a kick whose rounds end with no transfer running, and whose messages name each handle of
  the table once, hands every call to its handler once, with the result that libcurl reports
  and the pieces of its own answer in the order they came, each up to its first NUL, and
  leaves the table empty.
\<close>

theorem kick_delivers:
  assumes "om_inv (m_e_curls cl)" "list_all (\<lambda>(ps, n). n \<noteq> 0) rounds"
    "distinct (map fst ms)" "fst ` set ms = {h. om_find (m_e_curls cl) h \<noteq> None}"
  shows "\<exists>cl'. kick_run (Entered junk # map (\<lambda>(ps, n). Selected 1 ps n) rounds @ Selected 1 ps 0 #
      map (\<lambda>(h, ok). Message (Some (h, True, ok))) ms @ [Message None]) KickEnter cl = Some (KickDone, cl') \<and>
    (\<forall>h. om_find (m_e_curls cl') h = None) \<and>
    cl_tasks cl' = cl_tasks cl @ map (\<lambda>(h, ok). let j = the (om_find (m_e_curls cl) h) in
      j\<lparr>resp := resp j @ pieces_of h (concat (map fst rounds) @ ps), success := ok\<rparr>) ms"
proof -
  let ?ps = "concat (map fst rounds) @ ps"
  let ?cl = "fold on_piece ?ps cl"
  have find: "om_find (m_e_curls ?cl) h = map_option (\<lambda>j. j\<lparr>resp := resp j @ pieces_of h ?ps\<rparr>) (om_find (m_e_curls cl) h)" for h
    using pieces_fields [OF assms(1), of ?ps h] by blast
  obtain cl' where cl': "kick_run (map (\<lambda>(h, ok). Message (Some (h, True, ok))) ms @ [Message None]) KickRead ?cl = Some (KickDone, cl')"
    "\<And>h. om_find (m_e_curls cl') h = (if h \<in> fst ` set ms then None else om_find (m_e_curls ?cl) h)"
    "cl_tasks cl' = cl_tasks ?cl @ map (\<lambda>(h, ok). (the (om_find (m_e_curls ?cl) h))\<lparr>success := ok\<rparr>) ms"
    using messages [of ?cl ms] pieces_fields [OF assms(1), of ?ps] assms(3,4) find by auto
  have "map (\<lambda>(h, ok). (the (om_find (m_e_curls ?cl) h))\<lparr>success := ok\<rparr>) ms =
      map (\<lambda>(h, ok). let j = the (om_find (m_e_curls cl) h) in j\<lparr>resp := resp j @ pieces_of h ?ps, success := ok\<rparr>) ms"
  proof (rule map_cong [OF refl])
    fix m assume "m \<in> set ms"
    then have "om_find (m_e_curls cl) (fst m) \<noteq> None"
      using assms(4) by blast
    then show "(case m of (h, ok) \<Rightarrow> (the (om_find (m_e_curls ?cl) h))\<lparr>success := ok\<rparr>) =
      (case m of (h, ok) \<Rightarrow> let j = the (om_find (m_e_curls cl) h) in j\<lparr>resp := resp j @ pieces_of h ?ps, success := ok\<rparr>)"
      unfolding split_def find by (auto simp: Let_def)
  qed
  with cl'(3) have tasks: "cl_tasks cl' = cl_tasks cl @ map (\<lambda>(h, ok). let j = the (om_find (m_e_curls cl) h) in
      j\<lparr>resp := resp j @ pieces_of h ?ps, success := ok\<rparr>) ms"
    using pieces_fields [OF assms(1), of ?ps] by metis
  have "\<forall>h. om_find (m_e_curls cl') h = None"
    using cl'(2) assms(4) find by auto
  then show ?thesis
    using cl'(1) tasks by (intro exI [of _ cl']) (simp add: select_rounds [OF assms(2)] del: map_eq_conv)
qed

theorem kick_delivers_witness:
  "\<exists>cl'. kick_run [Entered 9, Selected 1 [(2, ''a'')] 1, Selected 1 [(1, ''x''), (2, ''b'')] 0,
       Message (Some (2, True, True)), Message (Some (1, True, False)), Message None] KickEnter
       (client_call 2 True ''v'' ''http://g'' (client_call 1 True ''u'' ''http://h'' HttpClientAsync_new)) = Some (KickDone, cl') \<and>
     cl_tasks cl' = [\<lparr>userdata = ''v'', resp = ''ab'', success = True, postdata = []\<rparr>,
       \<lparr>userdata = ''u'', resp = ''x'', success = False, postdata = []\<rparr>]"
proof -
  let ?cl = "client_call 2 True ''v'' ''http://g'' (client_call 1 True ''u'' ''http://h'' HttpClientAsync_new)"
  have table: "m_e_curls ?cl = [(1, JobInfo_new ''u'' []), (2, JobInfo_new ''v'' [])]" "cl_tasks ?cl = []"
    by (simp_all add: client_call_def HttpClientAsync_new_def om_ins_def om_find_def)
  have "fst ` set [(2 :: nat, True), (1, False)] = {h. om_find (m_e_curls ?cl) h \<noteq> None}"
    unfolding table by (auto simp: om_find_def split: if_splits)
  from kick_delivers [OF _ _ _ this, of "[([(2, ''a'')], 1)]" 9 "[(1, ''x''), (2, ''b'')]"] table show ?thesis
    by (auto simp: om_inv_def om_find_def JobInfo_new_def pieces_of_def cstr_def Let_def simp del: kick_run.simps)
qed

section \<open>Calls wait for each other\<close>

lemma select_waits:
  assumes "kick_run is (KickSelect r) cl = Some (pc, cl')" "r \<noteq> 0" "\<And>ret ps. Selected ret ps 0 \<in> set is \<Longrightarrow> ret = - 1"
  shows "cl_tasks cl' = cl_tasks cl \<and> (\<exists>r. pc = KickSelect r)"
  using assms
proof (induction "is" arbitrary: r cl)
  case (Cons i "is")
  have fields: "cl_tasks (fold on_piece ps cl) = cl_tasks cl" for ps and cl :: "'a http_client"
    by (induction ps arbitrary: cl) simp_all
  show ?case
  proof (cases i)
    case (Selected ret ps n)
    let ?r = "if ret \<noteq> - 1 then n else r" and ?cl = "if ret \<noteq> - 1 then fold on_piece ps cl else cl"
    have "?r \<noteq> 0"
      using Cons.prems(2) Cons.prems(3) [of ret ps] Selected by auto
    moreover from this have "kick_run is (KickSelect ?r) ?cl = Some (pc, cl')"
      using Cons.prems(1) Selected by (auto split: if_splits)
    moreover have "ret' = - 1" if "Selected ret' ps' 0 \<in> set is" for ret' ps'
      by (rule Cons.prems(3) [of ret' ps']) (use that in simp)
    ultimately have "cl_tasks cl' = cl_tasks ?cl \<and> (\<exists>r. pc = KickSelect r)"
      using Cons.IH [of ?r ?cl] by blast
    then show ?thesis
      using fields [of ps cl] by (auto split: if_splits)
  next
    case (Message m)
    then show ?thesis
      using Cons.prems(1) by (cases m) auto
  qed (use Cons.prems(1) in auto)
qed auto

text \<open>
  no call is handed to its handler while any transfer is running: however many transfers
  have ended, a kick that has not yet seen a count of zero has handed over nothing. So under
  calls that overlap without a pause no call is ever answered.
\<close>

lemma kick_answers_nothing_while_busy:
  assumes "kick_run is KickEnter cl = Some (pc, cl')" "Entered 0 \<notin> set is" "\<And>ret ps. Selected ret ps 0 \<in> set is \<Longrightarrow> ret = - 1"
  shows "cl_tasks cl' = cl_tasks cl \<and> pc \<notin> {KickRead, KickDone}"
proof (cases "is")
  case (Cons i js)
  then show ?thesis
  proof (cases i)
    case (Entered junk)
    then show ?thesis
      using Cons assms select_waits [of js junk cl pc cl'] by auto
  next
    case (Message m)
    then show ?thesis
      using assms(1) Cons by (cases m) auto
  qed (use assms(1) Cons in auto)
qed (use assms(1) in auto)

lemma kick_answers_nothing_while_busy_witness:
  "\<exists>pc cl'. kick_run [Entered 9, Selected 1 [(1, ''done'')] 1, Selected 1 [] 1] KickEnter
     (client_call 1 True ''u'' ''http://h'' HttpClientAsync_new) = Some (pc, cl') \<and> cl_tasks cl' = []"
proof -
  let ?is = "[Entered 9, Selected 1 [(1, ''done'')] 1, Selected 1 [] 1]"
  let ?cl = "client_call 1 True ''u'' ''http://h'' HttpClientAsync_new"
  obtain pc cl' where run: "kick_run ?is KickEnter ?cl = Some (pc, cl')"
    by simp
  have "cl_tasks cl' = cl_tasks ?cl \<and> pc \<notin> {KickRead, KickDone}"
    by (rule kick_answers_nothing_while_busy [OF run]) auto
  then show ?thesis
    using run by (auto simp: client_call_def HttpClientAsync_new_def)
qed

section \<open>Text only\<close>

text \<open>A body with a NUL is sent up to the NUL, and a piece of an answer is kept up to it.\<close>

lemma cstr_cut: "cstr (a @ CHR 0x00 # b) = cstr a"
  by (induction a) (simp_all add: cstr_def)

lemma post_is_cut: "m_multi (client_callPost h took ud url (a @ CHR 0x00 # b) cl) =
    start_transfer h took \<lparr>e_url = cstr url, e_post = Some (cstr a)\<rparr> (m_multi cl)"
  by (simp add: client_callPost_def cstr_cut)

lemma piece_is_cut: "crawl_function_pt (a @ CHR 0x00 # b) r = (length a + length b + 1, r @ cstr a)"
  by (simp add: crawl_function_pt_def cstr_cut)

end
