(* ===== verification/HttpOutReqDisp.thy ===== *)
theory HttpOutReqDisp
  imports HttpClientAsync TaskLauncher
begin

text \<open>
  \<^verbatim>\<open>network/HttpOutReqDisp.cpp\<close>: requesters make calls through one asynchronous client and are
  told of the answers. Every operation puts a task into the launcher, which runs its tasks in
  any order and side by side; what a task does under the lock is one step, but a call of the client
  is two, since \<open>kickTask\<close> uses the client without that lock. While both are in the client there
  is a data race, and anything may follow. A callback of a requester is one step, and the look at
  its flag behind it another.
  The requesters of the user are a parameter; those of \<^verbatim>\<open>HttpSimpleRequester.cpp\<close> and
  \<^verbatim>\<open>HttpSimpleRequesterPost.cpp\<close> are at the end.
\<close>

section \<open>The code\<close>

record req_info =
  reqid :: int
  requester_callid :: int

definition OutRequestInfo_new :: "int \<Rightarrow> int \<Rightarrow> req_info" where
  "OutRequestInfo_new rid callid = \<lparr>reqid = rid, requester_callid = callid\<rparr>"

text \<open>A requester: the base class and the state of the derived one. \<open>m_id\<close> starts uninitialised.\<close>

record 'r requester =
  m_id :: int
  m_isfinished :: bool
  r_state :: 'r

definition Requester_new :: "int \<Rightarrow> 'r \<Rightarrow> 'r requester" where
  "Requester_new junk r = \<lparr>m_id = junk, m_isfinished = False, r_state = r\<rparr>"

text \<open>
  What \<open>start\<close> and \<open>onCallDone\<close> of the derived class make of \<open>m_isfinished\<close> and their state,
  and the calls they make.
\<close>

datatype req_call = Call int string | CallPost int string string

type_synonym 'r req_result = "'r \<times> bool \<times> req_call list"

record 'r requester_class =
  op_start :: "bool \<Rightarrow> 'r \<Rightarrow> 'r req_result"
  op_onCallDone :: "int \<Rightarrow> bool \<Rightarrow> string \<Rightarrow> bool \<Rightarrow> 'r \<Rightarrow> 'r req_result"

datatype disp_task = KickTask | OnCallTask int int string | OnCallPostTask int int string string
  | OnCallDoneTask "req_info job_info" | OnRequesterFinishedTask int | AddRequesterTask nat

text \<open>
  \<open>m_requesters\<close> is a hash table, a finite map here. \<open>d_objs\<close> has the requesters by address,
  \<open>d_calling\<close> the callbacks that \<open>onCallDoneTask\<close> is about to make, outside the lock, and \<open>d_checking\<close>
  the requesters whose flag it is about to look at. \<open>d_call\<close> is the call task that is in the client,
  holding the lock, \<open>d_kick\<close> where \<open>kickTask\<close> is, and \<open>d_kick_in\<close> whether it is in the client: from
  \<^verbatim>\<open>curl_multi_perform\<close> to the \<^verbatim>\<open>curl_multi_fdset\<close> of the next round, or in a round of
  \<^verbatim>\<open>performTransfers\<close>, but not in \<^verbatim>\<open>select\<close>.
\<close>

datatype disp_kick = KickNotRun | KickTest | KickIn kick_pc | KickEnded

record 'r disp =
  m_req_id :: int
  m_requesters :: "int \<rightharpoonup> nat"
  m_http_client :: "req_info http_client"
  m_launcher :: "disp_task list"
  kick_running :: bool
  kick_stopped :: bool
  d_objs :: "'r requester list"
  d_calling :: "(nat \<times> req_info job_info) list"
  d_checking :: "nat list"
  d_call :: "(int \<times> req_call) option"
  d_kick :: disp_kick
  d_kick_in :: bool

definition HttpOutRequestDisp_new :: "'r requester list \<Rightarrow> 'r disp" where
  "HttpOutRequestDisp_new objs = \<lparr>m_req_id = 0, m_requesters = Map.empty, m_http_client = HttpClientAsync_new,
     m_launcher = [KickTask], kick_running = True, kick_stopped = False, d_objs = objs, d_calling = [], d_checking = [],
     d_call = None, d_kick = KickNotRun, d_kick_in = False\<rparr>"

definition disp_add :: "disp_task \<Rightarrow> 'r disp \<Rightarrow> 'r disp" where
  "disp_add t s = s\<lparr>m_launcher := m_launcher s @ [t]\<rparr>"

definition onCall :: "int \<Rightarrow> int \<Rightarrow> string \<Rightarrow> 'r disp \<Rightarrow> 'r disp" where
  "onCall rid callid url s = disp_add (OnCallTask rid callid url) s"

definition onCallPost :: "int \<Rightarrow> int \<Rightarrow> string \<Rightarrow> string \<Rightarrow> 'r disp \<Rightarrow> 'r disp" where
  "onCallPost rid callid url pd s = disp_add (OnCallPostTask rid callid url pd) s"

definition onCallDone :: "req_info job_info \<Rightarrow> 'r disp \<Rightarrow> 'r disp" where
  "onCallDone ji s = disp_add (OnCallDoneTask ji) s"

definition onRequesterFinished :: "int \<Rightarrow> 'r disp \<Rightarrow> 'r disp" where
  "onRequesterFinished rid s = disp_add (OnRequesterFinishedTask rid) s"

definition addRequester :: "nat \<Rightarrow> 'r disp \<Rightarrow> 'r disp" where
  "addRequester a s = disp_add (AddRequesterTask a) s"

text \<open>\<open>Requester::call\<close> and \<open>callPost\<close>, with \<open>onCall\<close> and \<open>onCallPost\<close> of the dispatcher.\<close>

fun requester_call :: "int \<Rightarrow> req_call \<Rightarrow> 'r disp \<Rightarrow> 'r disp" where
  "requester_call rid (Call callid url) s = onCall rid callid url s"
| "requester_call rid (CallPost callid url pd) s = onCallPost rid callid url pd s"

text \<open>A requester has run: its state, its flag and its calls.\<close>

definition requester_ran :: "nat \<Rightarrow> 'r req_result \<Rightarrow> 'r disp \<Rightarrow> 'r disp" where
  "requester_ran a res s =
     (let (r, fin, calls) = res; obj = d_objs s ! a
      in fold (requester_call (m_id obj)) calls (s\<lparr>d_objs := (d_objs s)[a := obj\<lparr>r_state := r, m_isfinished := fin\<rparr>]\<rparr>))"

text \<open>What a call task does in the client: \<open>h\<close> and \<open>took\<close> are what libcurl gives.\<close>

definition onCallTask :: "nat \<Rightarrow> bool \<Rightarrow> int \<Rightarrow> int \<Rightarrow> string \<Rightarrow> 'r disp \<Rightarrow> 'r disp" where
  "onCallTask h took rid callid url s =
     s\<lparr>m_http_client := client_call h took (OutRequestInfo_new rid callid) url (m_http_client s)\<rparr>"

definition onCallPostTask :: "nat \<Rightarrow> bool \<Rightarrow> int \<Rightarrow> int \<Rightarrow> string \<Rightarrow> string \<Rightarrow> 'r disp \<Rightarrow> 'r disp" where
  "onCallPostTask h took rid callid url pd s =
     s\<lparr>m_http_client := client_callPost h took (OutRequestInfo_new rid callid) url pd (m_http_client s)\<rparr>"

text \<open>The part of \<open>onCallDoneTask\<close> under the lock, and the callback that follows when there is a requester.\<close>

definition onCallDoneTask :: "req_info job_info \<Rightarrow> 'r disp \<Rightarrow> 'r disp" where
  "onCallDoneTask ji s =
     (case m_requesters s (reqid (userdata ji)) of
        None \<Rightarrow> s
      | Some a \<Rightarrow> s\<lparr>d_calling := d_calling s @ [(a, ji)]\<rparr>)"

definition requester_callback :: "'r requester_class \<Rightarrow> nat \<Rightarrow> req_info job_info \<Rightarrow> 'r disp \<Rightarrow> 'r disp" where
  "requester_callback c a ji s =
     (let s = requester_ran a (op_onCallDone c (requester_callid (userdata ji)) (success ji) (resp ji) (m_isfinished (d_objs s ! a)) (r_state (d_objs s ! a))) s
      in s\<lparr>d_checking := d_checking s @ [a]\<rparr>)"

definition check_finished :: "nat \<Rightarrow> 'r disp \<Rightarrow> 'r disp" where
  "check_finished a s =
     (if m_isfinished (d_objs s ! a) then onRequesterFinished (m_id (d_objs s ! a)) s else s)"

text \<open>\<^verbatim>\<open>insert\<close> of the hash table: an entry that is there stays.\<close>

definition table_insert :: "int \<Rightarrow> nat \<Rightarrow> (int \<rightharpoonup> nat) \<Rightarrow> (int \<rightharpoonup> nat)" where
  "table_insert k a m = (case m k of None \<Rightarrow> m(k \<mapsto> a) | Some _ \<Rightarrow> m)"

text \<open>\<open>None\<close>: the signed counter overflows.\<close>

definition addRequesterTask :: "'r requester_class \<Rightarrow> nat \<Rightarrow> 'r disp \<Rightarrow> 'r disp option" where
  "addRequesterTask c a s =
     (if m_req_id s = 2 ^ 31 - 1 then None
      else
        (let rid = m_req_id s + 1;
             s = s\<lparr>m_req_id := rid, d_objs := (d_objs s)[a := (d_objs s ! a)\<lparr>m_id := rid\<rparr>]\<rparr>;
             s = s\<lparr>m_requesters := table_insert (m_id (d_objs s ! a)) a (m_requesters s)\<rparr>
         in Some (requester_ran a (op_start c (m_isfinished (d_objs s ! a)) (r_state (d_objs s ! a))) s)))"

definition onRequesterFinishedTask :: "int \<Rightarrow> 'r disp \<Rightarrow> 'r disp" where
  "onRequesterFinishedTask rid s =
     (case m_requesters s rid of
        None \<Rightarrow> s
      | Some _ \<Rightarrow> s\<lparr>m_requesters := (m_requesters s)(rid := None)\<rparr>)"

text \<open>A step of \<open>kickTask\<close>.\<close>

fun kickTask :: "kick_input \<Rightarrow> 'r disp \<Rightarrow> 'r disp option" where
  "kickTask i s =
     (case d_kick s of
        KickTest \<Rightarrow> Some (if kick_running s then s\<lparr>d_kick := KickIn KickEnter\<rparr> else s\<lparr>kick_stopped := True, d_kick := KickEnded\<rparr>)
      | KickIn KickDone \<Rightarrow> Some (s\<lparr>d_kick := KickTest\<rparr>)
      | KickIn pc \<Rightarrow> map_option (\<lambda>(pc, cl). s\<lparr>d_kick := KickIn pc, m_http_client := cl\<rparr>) (kick_step i pc (m_http_client s))
      | _ \<Rightarrow> None)"

text \<open>The destructor sets the flag and waits for \<open>isKickStopped\<close>.\<close>

definition disp_stop :: "'r disp \<Rightarrow> 'r disp" where
  "disp_stop s = s\<lparr>kick_running := False\<rparr>"

definition isKickStopped :: "'r disp \<Rightarrow> bool" where
  "isKickStopped s = kick_stopped s"

text \<open>A call task, which is in the client, and every other task of the launcher.\<close>

fun as_call :: "disp_task \<Rightarrow> (int \<times> req_call) option" where
  "as_call (OnCallTask rid callid url) = Some (rid, Call callid url)"
| "as_call (OnCallPostTask rid callid url pd) = Some (rid, CallPost callid url pd)"
| "as_call _ = None"

fun run_call :: "nat \<Rightarrow> bool \<Rightarrow> int \<times> req_call \<Rightarrow> 'r disp \<Rightarrow> 'r disp" where
  "run_call h took (rid, Call callid url) s = onCallTask h took rid callid url s"
| "run_call h took (rid, CallPost callid url pd) s = onCallPostTask h took rid callid url pd s"

fun run_disp_task :: "'r requester_class \<Rightarrow> disp_task \<Rightarrow> 'r disp \<Rightarrow> 'r disp option" where
  "run_disp_task c KickTask s = Some (s\<lparr>d_kick := KickTest\<rparr>)"
| "run_disp_task c (OnCallDoneTask ji) s = Some (onCallDoneTask ji s)"
| "run_disp_task c (OnRequesterFinishedTask rid) s = Some (onRequesterFinishedTask rid s)"
| "run_disp_task c (AddRequesterTask a) s = addRequesterTask c a s"
| "run_disp_task c _ s = None"

text \<open>Where \<open>kickTask\<close> uses the client; and a data race.\<close>

fun kick_touches :: "disp_kick \<Rightarrow> bool" where
  "kick_touches (KickIn pc) = (pc \<noteq> KickDone)"
| "kick_touches _ = False"

definition racing :: "'r disp \<Rightarrow> bool" where
  "racing s \<longleftrightarrow> d_call s \<noteq> None \<and> d_kick_in s"

text \<open>A task of the client's launcher.\<close>

definition callHandler :: "req_info job_info \<Rightarrow> 'r disp \<Rightarrow> 'r disp" where
  "callHandler ji s = onCallDone ji s"

definition without :: "nat \<Rightarrow> 'a list \<Rightarrow> 'a list" where
  "without i xs = take i xs @ drop (i + 1) xs"

text \<open>
  The steps, labelled by what they do: a requester is started, with its number and its calls;
  a requester is told of the answer to a call and makes further calls; a requester is found to be
  finished; the answer to a call is dropped, since its requester is not in the table; a call is lost,
  since \<^verbatim>\<open>curl_easy_init\<close> failed as it had before; and what follows a data race.
\<close>

datatype disp_label = Silent | Started nat int "req_info list" | Told nat req_info "req_info list" | Finished int
  | Dropped req_info | Lost req_info | Undefined

fun call_info :: "int \<Rightarrow> req_call \<Rightarrow> req_info" where
  "call_info rid (Call callid url) = OutRequestInfo_new rid callid"
| "call_info rid (CallPost callid url pd) = OutRequestInfo_new rid callid"

fun task_label :: "'r requester_class \<Rightarrow> disp_task \<Rightarrow> 'r disp \<Rightarrow> disp_label" where
  "task_label c (OnCallDoneTask ji) s = (if m_requesters s (reqid (userdata ji)) = None then Dropped (userdata ji) else Silent)"
| "task_label c (AddRequesterTask a) s =
     Started a (m_req_id s + 1) (map (call_info (m_req_id s + 1)) (snd (snd (op_start c (m_isfinished (d_objs s ! a)) (r_state (d_objs s ! a))))))"
| "task_label c _ s = Silent"

definition call_label :: "nat \<Rightarrow> int \<times> req_call \<Rightarrow> 'r disp \<Rightarrow> disp_label" where
  "call_label h q s = (if om_find (m_e_curls (m_http_client s)) h = None then Silent else Lost (call_info (fst q) (snd q)))"

definition callback_label :: "'r requester_class \<Rightarrow> nat \<Rightarrow> req_info job_info \<Rightarrow> 'r disp \<Rightarrow> disp_label" where
  "callback_label c a ji s =
     (let (_, _, calls) = op_onCallDone c (requester_callid (userdata ji)) (success ji) (resp ji) (m_isfinished (d_objs s ! a)) (r_state (d_objs s ! a))
      in Told a (userdata ji) (map (call_info (m_id (d_objs s ! a))) calls))"

definition check_label :: "nat \<Rightarrow> 'r disp \<Rightarrow> disp_label" where
  "check_label a s = (if m_isfinished (d_objs s ! a) then Finished (m_id (d_objs s ! a)) else Silent)"

text \<open>A call task takes the lock and enters the client, and leaves it with its effect; the other
  tasks but \<open>kickTask\<close> need the lock. \<open>kickTask\<close> enters the client whether or not it is in use.\<close>

inductive disp_act :: "'r requester_class \<Rightarrow> 'r disp \<Rightarrow> disp_label \<Rightarrow> 'r disp \<Rightarrow> bool" for c where
  Add: "a < length (d_objs s) \<Longrightarrow> disp_act c s Silent (addRequester a s)"
| CallBegin: "i < length (m_launcher s) \<Longrightarrow> as_call (m_launcher s ! i) = Some q \<Longrightarrow> d_call s = None \<Longrightarrow>
    disp_act c s Silent (s\<lparr>m_launcher := without i (m_launcher s), d_call := Some q\<rparr>)"
| CallEnd: "d_call s = Some q \<Longrightarrow> handle_given h (m_http_client s) \<Longrightarrow>
    disp_act c s (call_label h q s) (run_call h took q (s\<lparr>d_call := None\<rparr>))"
| Task: "i < length (m_launcher s) \<Longrightarrow> m_launcher s ! i = KickTask \<or> d_call s = None \<Longrightarrow>
    run_disp_task c (m_launcher s ! i) (s\<lparr>m_launcher := without i (m_launcher s)\<rparr>) = Some s' \<Longrightarrow>
    disp_act c s (task_label c (m_launcher s ! i) s) s'"
| Callback: "i < length (d_calling s) \<Longrightarrow> d_calling s ! i = (a, ji) \<Longrightarrow>
    disp_act c s (callback_label c a ji s) (requester_callback c a ji (s\<lparr>d_calling := without i (d_calling s)\<rparr>))"
| Check: "i < length (d_checking s) \<Longrightarrow> d_checking s ! i = a \<Longrightarrow>
    disp_act c s (check_label a s) (check_finished a (s\<lparr>d_checking := without i (d_checking s)\<rparr>))"
| KickBegin: "kick_touches (d_kick s) \<Longrightarrow> disp_act c s Silent (s\<lparr>d_kick_in := True\<rparr>)"
| Kick: "kick_touches (d_kick s) \<longrightarrow> d_kick_in s \<and> libcurl_gives inp (m_http_client s) \<Longrightarrow> kickTask inp s = Some s' \<Longrightarrow>
    disp_act c s Silent (s'\<lparr>d_kick_in := False\<rparr>)"
| Handler: "i < length (cl_tasks (m_http_client s)) \<Longrightarrow>
    disp_act c s Silent (callHandler (cl_tasks (m_http_client s) ! i)
      (s\<lparr>m_http_client := (m_http_client s)\<lparr>cl_tasks := without i (cl_tasks (m_http_client s))\<rparr>\<rparr>))"
| Stop: "disp_act c s Silent (disp_stop s)"

text \<open>A state with a data race has no step of the code any more: any state may follow.\<close>

inductive disp_step :: "'r requester_class \<Rightarrow> 'r disp \<Rightarrow> disp_label \<Rightarrow> 'r disp \<Rightarrow> bool" for c where
  Act: "\<not> racing s \<Longrightarrow> disp_act c s l s' \<Longrightarrow> disp_step c s l s'"
| Race: "racing s \<Longrightarrow> disp_step c s Undefined s'"

inductive disp_run :: "'r requester_class \<Rightarrow> 'r disp \<Rightarrow> disp_label list \<Rightarrow> 'r disp \<Rightarrow> bool" for c where
  Begin: "disp_run c s [] s"
| Next: "disp_run c s ls s' \<Longrightarrow> disp_step c s' l s'' \<Longrightarrow> disp_run c s (ls @ [l]) s''"

section \<open>What a run has done\<close>

fun issued_by :: "disp_label \<Rightarrow> req_info list" where
  "issued_by (Started a rid infos) = infos"
| "issued_by (Told a info infos) = infos"
| "issued_by _ = []"

fun told_by :: "disp_label \<Rightarrow> (nat \<times> req_info) list" where
  "told_by (Told a info infos) = [(a, info)]"
| "told_by _ = []"

fun dropped_by :: "disp_label \<Rightarrow> req_info list" where
  "dropped_by (Dropped info) = [info]"
| "dropped_by _ = []"

fun lost_by :: "disp_label \<Rightarrow> req_info list" where
  "lost_by (Lost info) = [info]"
| "lost_by _ = []"

fun started_by :: "disp_label \<Rightarrow> (nat \<times> int) list" where
  "started_by (Started a rid infos) = [(a, rid)]"
| "started_by _ = []"

fun finished_by :: "disp_label \<Rightarrow> int list" where
  "finished_by (Finished rid) = [rid]"
| "finished_by _ = []"

definition issued :: "disp_label list \<Rightarrow> req_info list" where
  "issued ls = concat (map issued_by ls)"

definition told :: "disp_label list \<Rightarrow> (nat \<times> req_info) list" where
  "told ls = concat (map told_by ls)"

definition dropped :: "disp_label list \<Rightarrow> req_info list" where
  "dropped ls = concat (map dropped_by ls)"

definition lost :: "disp_label list \<Rightarrow> req_info list" where
  "lost ls = concat (map lost_by ls)"

definition started :: "disp_label list \<Rightarrow> (nat \<times> int) list" where
  "started ls = concat (map started_by ls)"

definition finished :: "disp_label list \<Rightarrow> int list" where
  "finished ls = concat (map finished_by ls)"

lemmas log_defs = issued_def told_def dropped_def lost_def started_def finished_def

lemma log_snoc [simp]:
  "issued (ls @ [l]) = issued ls @ issued_by l" "told (ls @ [l]) = told ls @ told_by l"
  "dropped (ls @ [l]) = dropped ls @ dropped_by l" "started (ls @ [l]) = started ls @ started_by l"
  "finished (ls @ [l]) = finished ls @ finished_by l" "lost (ls @ [l]) = lost ls @ lost_by l"
  by (simp_all add: log_defs)

lemma log_Nil [simp]: "issued [] = []" "told [] = []" "dropped [] = []" "started [] = []" "finished [] = []" "lost [] = []"
  by (simp_all add: log_defs)

text \<open>The calls that are still on their way.\<close>

fun task_infos :: "disp_task \<Rightarrow> req_info list" where
  "task_infos (OnCallTask rid callid url) = [OutRequestInfo_new rid callid]"
| "task_infos (OnCallPostTask rid callid url pd) = [OutRequestInfo_new rid callid]"
| "task_infos (OnCallDoneTask ji) = [userdata ji]"
| "task_infos _ = []"

definition call_infos :: "(int \<times> req_call) option \<Rightarrow> req_info list" where
  "call_infos q = (case q of None \<Rightarrow> [] | Some (rid, call) \<Rightarrow> [call_info rid call])"

definition pending :: "'r disp \<Rightarrow> req_info multiset" where
  "pending s = mset (concat (map task_infos (m_launcher s))) + mset (call_infos (d_call s)) + client_users (m_http_client s) +
     mset (map (\<lambda>(a, ji). userdata ji) (d_calling s))"

section \<open>Lemmas\<close>

lemma mset_pick: "i < length xs \<Longrightarrow> mset xs = add_mset (xs ! i) (mset (without i xs))"
  unfolding without_def by (metis Suc_eq_plus1 id_take_nth_drop mset.simps(2) mset_append union_mset_add_mset_right)

lemma mset_concat_pick:
  "i < length xs \<Longrightarrow> mset (concat (map f xs)) = mset (f (xs ! i)) + mset (concat (map f (without i xs)))"
  unfolding without_def by (subst id_take_nth_drop [of i xs]) simp_all

lemma set_without: "set (without i xs) \<subseteq> set xs"
  by (auto simp: without_def dest: in_set_takeD in_set_dropD)

fun call_task :: "int \<Rightarrow> req_call \<Rightarrow> disp_task" where
  "call_task rid (Call callid url) = OnCallTask rid callid url"
| "call_task rid (CallPost callid url pd) = OnCallPostTask rid callid url pd"

lemma call_task_infos: "task_infos (call_task rid c) = [call_info rid c]"
  by (cases c) simp_all

lemma concat_call_infos: "concat (map (task_infos \<circ> call_task rid) calls) = map (call_info rid) calls"
  by (induction calls) (simp_all add: call_task_infos)

lemma call_task_not [simp]: "call_task rid c \<noteq> OnRequesterFinishedTask i" "call_task rid c \<noteq> AddRequesterTask a"
  "OnRequesterFinishedTask i \<noteq> call_task rid c" "AddRequesterTask a \<noteq> call_task rid c"
  by (cases c; simp)+

lemma requester_calls: "fold (requester_call rid) calls s = s\<lparr>m_launcher := m_launcher s @ map (call_task rid) calls\<rparr>"
proof (induction calls arbitrary: s)
  case (Cons c calls)
  then show ?case
    by (cases c) (simp_all add: onCall_def onCallPost_def disp_add_def)
qed simp

lemma requester_ran_code:
  "requester_ran a (r, fin, calls) s =
     s\<lparr>d_objs := (d_objs s)[a := (d_objs s ! a)\<lparr>r_state := r, m_isfinished := fin\<rparr>],
       m_launcher := m_launcher s @ map (call_task (m_id (d_objs s ! a))) calls\<rparr>"
  by (simp add: requester_ran_def requester_calls Let_def)

text \<open>Requesters, their numbers and the table.\<close>

definition ids_ok :: "disp_label list \<Rightarrow> 'r disp \<Rightarrow> bool" where
  "ids_ok ls s \<longleftrightarrow> 0 \<le> m_req_id s \<and> map snd (started ls) = [1..m_req_id s] \<and>
     (\<forall>i a. m_requesters s i = Some a \<longrightarrow> (a, i) \<in> set (started ls)) \<and>
     (\<forall>a i. (a, i) \<in> set (started ls) \<longrightarrow> i \<in> set (finished ls) \<or> m_requesters s i = Some a) \<and>
     (\<forall>a i. (a, i) \<in> set (started ls) \<longrightarrow> a < length (d_objs s) \<and> (a, m_id (d_objs s ! a)) \<in> set (started ls)) \<and>
     (\<forall>i. OnRequesterFinishedTask i \<in> set (m_launcher s) \<longrightarrow> i \<in> set (finished ls)) \<and>
     (\<forall>a. AddRequesterTask a \<in> set (m_launcher s) \<longrightarrow> a < length (d_objs s)) \<and>
     (\<forall>a \<in> set (d_checking s). a \<in> fst ` set (started ls))"

text \<open>Calls and their requesters, when the calls \<open>x\<close> are in the hands of a step.\<close>

definition calls_ok :: "disp_label list \<Rightarrow> req_info multiset \<Rightarrow> 'r disp \<Rightarrow> bool" where
  "calls_ok ls x s \<longleftrightarrow> client_ok (m_http_client s) \<and>
     mset (issued ls) = mset (map snd (told ls)) + mset (dropped ls) + mset (lost ls) + (pending s + x) \<and>
     (\<forall>info \<in># pending s + x. reqid info \<in> snd ` set (started ls)) \<and>
     (\<forall>c \<in> set (d_calling s). (fst c, reqid (userdata (snd c))) \<in> set (started ls)) \<and>
     (\<forall>p \<in> set (told ls). (fst p, reqid (snd p)) \<in> set (started ls)) \<and>
     (\<forall>info \<in> set (dropped ls). reqid info \<in> set (finished ls)) \<and>
     (lost ls \<noteq> [] \<longrightarrow> om_find (m_e_curls (m_http_client s)) 0 \<noteq> None)"

lemma ids_okD:
  assumes "ids_ok ls s"
  shows "a \<in> set (d_checking s) \<Longrightarrow> a \<in> fst ` set (started ls)" "0 \<le> m_req_id s" "map snd (started ls) = [1..m_req_id s]"
    "m_requesters s i = Some a \<Longrightarrow> (a, i) \<in> set (started ls)"
    "(a, i) \<in> set (started ls) \<Longrightarrow> i \<in> set (finished ls) \<or> m_requesters s i = Some a"
    "(a, i) \<in> set (started ls) \<Longrightarrow> a < length (d_objs s)"
    "(a, i) \<in> set (started ls) \<Longrightarrow> (a, m_id (d_objs s ! a)) \<in> set (started ls)"
    "OnRequesterFinishedTask i \<in> set (m_launcher s) \<Longrightarrow> i \<in> set (finished ls)"
    "AddRequesterTask a \<in> set (m_launcher s) \<Longrightarrow> a < length (d_objs s)"
  using assms unfolding ids_ok_def by blast+

lemma ids_okI:
  assumes "\<And>a. a \<in> set (d_checking s) \<Longrightarrow> a \<in> fst ` set (started ls)" "0 \<le> m_req_id s" "map snd (started ls) = [1..m_req_id s]"
    "\<And>a i. m_requesters s i = Some a \<Longrightarrow> (a, i) \<in> set (started ls)"
    "\<And>a i. (a, i) \<in> set (started ls) \<Longrightarrow> i \<in> set (finished ls) \<or> m_requesters s i = Some a"
    "\<And>a i. (a, i) \<in> set (started ls) \<Longrightarrow> a < length (d_objs s)"
    "\<And>a i. (a, i) \<in> set (started ls) \<Longrightarrow> (a, m_id (d_objs s ! a)) \<in> set (started ls)"
    "\<And>i. OnRequesterFinishedTask i \<in> set (m_launcher s) \<Longrightarrow> i \<in> set (finished ls)"
    "\<And>a. AddRequesterTask a \<in> set (m_launcher s) \<Longrightarrow> a < length (d_objs s)"
  shows "ids_ok ls s"
  using assms by (simp add: ids_ok_def)

lemma ids_ok_new: "ids_ok [] (HttpOutRequestDisp_new objs)"
  by (simp add: ids_ok_def HttpOutRequestDisp_new_def)

lemma calls_ok_new: "calls_ok [] {#} (HttpOutRequestDisp_new objs)"
  by (simp add: calls_ok_def HttpOutRequestDisp_new_def client_ok_new pending_def client_users_def)
    (simp add: HttpClientAsync_new_def call_infos_def)

text \<open>A silent step that changes no requester.\<close>

lemma ids_ok_silent:
  assumes "ids_ok ls s" "issued_by l = []" "started_by l = []" "finished_by l = []"
    "m_requesters s' = m_requesters s" "m_req_id s' = m_req_id s" "d_objs s' = d_objs s"
    "\<And>a. a \<in> set (d_checking s') \<Longrightarrow> a \<in> set (d_checking s)"
    "\<And>i. OnRequesterFinishedTask i \<in> set (m_launcher s') \<Longrightarrow> OnRequesterFinishedTask i \<in> set (m_launcher s)"
    "\<And>a. AddRequesterTask a \<in> set (m_launcher s') \<Longrightarrow> AddRequesterTask a \<in> set (m_launcher s) \<or> a < length (d_objs s)"
  shows "ids_ok (ls @ [l]) s'"
proof (rule ids_okI)
  show "\<And>a. AddRequesterTask a \<in> set (m_launcher s') \<Longrightarrow> a < length (d_objs s')"
    using assms(7,10) ids_okD(9) [OF assms(1)] by metis
qed (use assms(2-9) ids_okD [OF assms(1)] in \<open>auto\<close>)

text \<open>Any step that ends with nothing in its hands.\<close>

lemma calls_ok_step:
  assumes ok: "calls_ok ls x s" and client: "client_ok (m_http_client s')"
    and pend: "pending s' + mset (map snd (told_by l)) + mset (dropped_by l) + mset (lost_by l) = pending s + x + mset (issued_by l)"
    and new: "\<And>info. info \<in> set (issued_by l) \<Longrightarrow> reqid info \<in> snd ` set (started ls @ started_by l)"
    and calling: "\<And>c. c \<in> set (d_calling s') \<Longrightarrow> c \<in> set (d_calling s) \<or> (fst c, reqid (userdata (snd c))) \<in> set (started ls)"
    and tell: "\<And>p. p \<in> set (told_by l) \<Longrightarrow> (fst p, reqid (snd p)) \<in> set (started ls)"
    and drop: "\<And>info. info \<in> set (dropped_by l) \<Longrightarrow> reqid info \<in> set (finished ls)"
    and null: "lost (ls @ [l]) \<noteq> [] \<Longrightarrow> om_find (m_e_curls (m_http_client s')) 0 \<noteq> None"
  shows "calls_ok (ls @ [l]) {#} s'"
  unfolding calls_ok_def
proof (intro conjI ballI)
  have "mset (issued (ls @ [l])) = mset (map snd (told ls)) + mset (dropped ls) + mset (lost ls) + (pending s + x + mset (issued_by l))"
    using ok by (simp add: calls_ok_def ac_simps)
  then show "mset (issued (ls @ [l])) = mset (map snd (told (ls @ [l]))) + mset (dropped (ls @ [l])) + mset (lost (ls @ [l])) + (pending s' + {#})"
    unfolding pend [symmetric] by (simp add: ac_simps)
  show "reqid info \<in> snd ` set (started (ls @ [l]))" if "info \<in># pending s' + {#}" for info
  proof -
    have "info \<in># pending s' + mset (map snd (told_by l)) + mset (dropped_by l) + mset (lost_by l)"
      using that by simp
    then have "info \<in># pending s + x \<or> info \<in> set (issued_by l)"
      unfolding pend by auto
    then show ?thesis
      using ok new by (auto simp: calls_ok_def)
  qed
  show "(fst cb, reqid (userdata (snd cb))) \<in> set (started (ls @ [l]))" if "cb \<in> set (d_calling s')" for cb
    using calling [OF that] ok by (auto simp: calls_ok_def)
  show "(fst p, reqid (snd p)) \<in> set (started (ls @ [l]))" if "p \<in> set (told (ls @ [l]))" for p
    using that tell [of p] ok by (auto simp: calls_ok_def)
  show "reqid info \<in> set (finished (ls @ [l]))" if "info \<in> set (dropped (ls @ [l]))" for info
    using that drop [of info] ok by (auto simp: calls_ok_def)
  show "lost (ls @ [l]) \<noteq> [] \<longrightarrow> om_find (m_e_curls (m_http_client s')) 0 \<noteq> None"
    using null by blast
qed (rule client)

text \<open>Taking a task, a job or a callback in hand.\<close>

lemma ids_ok_take: "ids_ok ls s \<Longrightarrow> ids_ok ls (s\<lparr>m_launcher := without i (m_launcher s)\<rparr>)"
  using set_without [of i "m_launcher s"] by (auto simp: ids_ok_def)

lemma calls_ok_take_call:
  "calls_ok ls {#} s \<Longrightarrow> d_call s = Some (rid, q) \<Longrightarrow> calls_ok ls {#call_info rid q#} (s\<lparr>d_call := None\<rparr>)"
  by (simp add: calls_ok_def pending_def call_infos_def ac_simps)

lemma calls_ok_take_task:
  assumes "calls_ok ls {#} s" "i < length (m_launcher s)"
  shows "calls_ok ls (mset (task_infos (m_launcher s ! i))) (s\<lparr>m_launcher := without i (m_launcher s)\<rparr>)"
proof -
  have "mset (concat (map task_infos (m_launcher s))) =
      mset (task_infos (m_launcher s ! i)) + mset (concat (map task_infos (without i (m_launcher s))))"
    by (rule mset_concat_pick [OF assms(2)])
  then have "pending (s\<lparr>m_launcher := without i (m_launcher s)\<rparr>) + mset (task_infos (m_launcher s ! i)) = pending s"
    by (simp add: pending_def ac_simps)
  then show ?thesis
    using assms(1) by (simp add: calls_ok_def)
qed

lemma calls_ok_take_job:
  assumes "calls_ok ls {#} s" "i < length (cl_tasks (m_http_client s))"
  shows "calls_ok ls {#userdata (cl_tasks (m_http_client s) ! i)#}
    (s\<lparr>m_http_client := (m_http_client s)\<lparr>cl_tasks := without i (cl_tasks (m_http_client s))\<rparr>\<rparr>)"
proof -
  have "pending (s\<lparr>m_http_client := (m_http_client s)\<lparr>cl_tasks := without i (cl_tasks (m_http_client s))\<rparr>\<rparr>) +
      {#userdata (cl_tasks (m_http_client s) ! i)#} = pending s"
    using mset_pick [OF assms(2)] by (simp add: pending_def client_users_def ac_simps)
  then show ?thesis
    using assms(1) by (simp add: calls_ok_def client_ok_def)
qed

lemma calls_ok_take_callback:
  assumes "calls_ok ls {#} s" "i < length (d_calling s)" "d_calling s ! i = (a, ji)"
  shows "calls_ok ls {#userdata ji#} (s\<lparr>d_calling := without i (d_calling s)\<rparr>) \<and> (a, reqid (userdata ji)) \<in> set (started ls)"
proof -
  have "pending (s\<lparr>d_calling := without i (d_calling s)\<rparr>) + {#userdata ji#} = pending s"
    using mset_pick [OF assms(2)] assms(3) by (simp add: pending_def ac_simps)
  moreover have told: "\<forall>c \<in> set (d_calling s). (fst c, reqid (userdata (snd c))) \<in> set (started ls)"
    using assms(1) by (simp add: calls_ok_def)
  moreover have "(a, reqid (userdata ji)) \<in> set (started ls)"
    using bspec [OF told nth_mem [OF assms(2)]] assms(3) by simp
  moreover have "\<forall>c \<in> set (without i (d_calling s)). (fst c, reqid (userdata (snd c))) \<in> set (started ls)"
    using told set_without [of i "d_calling s"] by blast
  ultimately show ?thesis
    using assms(1) by (simp add: calls_ok_def)
qed

section \<open>Every step\<close>

lemma onCallDoneTask_ok:
  assumes "ids_ok ls s" "calls_ok ls {#userdata ji#} s"
  shows "ids_ok (ls @ [task_label c (OnCallDoneTask ji) s]) (onCallDoneTask ji s) \<and>
    calls_ok (ls @ [task_label c (OnCallDoneTask ji) s]) {#} (onCallDoneTask ji s)"
proof (cases "m_requesters s (reqid (userdata ji))")
  case None
  have "reqid (userdata ji) \<in> set (finished ls)"
    using assms None by (fastforce simp: ids_ok_def calls_ok_def)
  then show ?thesis
    using assms None by (auto simp: onCallDoneTask_def ids_ok_def calls_ok_def)
next
  case (Some a)
  let ?s = "s\<lparr>d_calling := d_calling s @ [(a, ji)]\<rparr>"
  have "(a, reqid (userdata ji)) \<in> set (started ls)" "client_ok (m_http_client s)"
    using assms Some by (simp_all add: ids_ok_def calls_ok_def)
  then have "calls_ok (ls @ [Silent]) {#} ?s"
    using assms(2) by (intro calls_ok_step [OF assms(2)]) (auto simp: pending_def calls_ok_def)
  moreover have "ids_ok (ls @ [Silent]) ?s"
    by (rule ids_ok_silent [OF assms(1)]) simp_all
  ultimately show ?thesis
    using Some by (simp add: onCallDoneTask_def)
qed

lemma onRequesterFinishedTask_ok:
  assumes "ids_ok ls s" "calls_ok ls {#} s" "i \<in> set (finished ls)"
  shows "ids_ok (ls @ [Silent]) (onRequesterFinishedTask i s) \<and> calls_ok (ls @ [Silent]) {#} (onRequesterFinishedTask i s)"
proof
  have fields: "pending (onRequesterFinishedTask i s) = pending s" "m_http_client (onRequesterFinishedTask i s) = m_http_client s"
    "d_calling (onRequesterFinishedTask i s) = d_calling s"
    by (simp_all add: onRequesterFinishedTask_def pending_def split: option.split)
  have "client_ok (m_http_client s)"
    using assms(2) by (simp add: calls_ok_def)
  then show "calls_ok (ls @ [Silent]) {#} (onRequesterFinishedTask i s)"
    using assms(2) by (intro calls_ok_step [OF assms(2)]) (simp_all add: fields calls_ok_def)
  show "ids_ok (ls @ [Silent]) (onRequesterFinishedTask i s)"
    using assms(1,3) by (auto simp: onRequesterFinishedTask_def ids_ok_def split: option.split)
qed

lemma call_infos_id: "info \<in> set (map (call_info rid) calls) \<Longrightarrow> reqid info = rid"
proof -
  have "reqid (call_info rid c) = rid" for c
    by (cases c) (simp_all add: OutRequestInfo_new_def)
  then show "info \<in> set (map (call_info rid) calls) \<Longrightarrow> ?thesis"
    by auto
qed

lemma pending_launcher:
  "pending (s\<lparr>d_objs := os, m_launcher := m_launcher s @ map (call_task rid) calls\<rparr>) = pending s + mset (map (call_info rid) calls)"
  by (simp add: pending_def concat_call_infos ac_simps)

lemma started_bounds: "ids_ok ls s \<Longrightarrow> (a, i) \<in> set (started ls) \<Longrightarrow> 1 \<le> i \<and> i \<le> m_req_id s"
proof -
  assume "ids_ok ls s" "(a, i) \<in> set (started ls)"
  then have "i \<in> set (map snd (started ls))"
    by force
  then show ?thesis
    using \<open>ids_ok ls s\<close> unfolding ids_ok_def by simp
qed

lemma addRequesterTask_code:
  assumes "addRequesterTask c a s = Some s'" "a < length (d_objs s)" "op_start c (m_isfinished (d_objs s ! a)) (r_state (d_objs s ! a)) = (r, fin, calls)"
  shows "s' = s\<lparr>m_req_id := m_req_id s + 1, m_requesters := table_insert (m_req_id s + 1) a (m_requesters s),
    d_objs := (d_objs s)[a := (d_objs s ! a)\<lparr>m_id := m_req_id s + 1, r_state := r, m_isfinished := fin\<rparr>],
    m_launcher := m_launcher s @ map (call_task (m_req_id s + 1)) calls\<rparr>"
  using assms by (auto simp: addRequesterTask_def requester_ran_code Let_def split: if_splits)

lemma addRequesterTask_ok:
  assumes "ids_ok ls s" "calls_ok ls {#} s" "a < length (d_objs s)" "addRequesterTask c a s = Some s'"
  shows "ids_ok (ls @ [task_label c (AddRequesterTask a) s]) s' \<and> calls_ok (ls @ [task_label c (AddRequesterTask a) s]) {#} s'"
proof -
  let ?n = "m_req_id s + 1"
  obtain r fin calls where start: "op_start c (m_isfinished (d_objs s ! a)) (r_state (d_objs s ! a)) = (r, fin, calls)"
    by (cases "op_start c (m_isfinished (d_objs s ! a)) (r_state (d_objs s ! a))")
  note s' = addRequesterTask_code [OF assms(4,3) start]
  have fresh: "m_requesters s ?n = None"
    using assms(1) started_bounds [OF assms(1), of _ ?n] by (cases "m_requesters s ?n") (auto simp: ids_ok_def)
  have old: "(b, ?n) \<notin> set (started ls)" for b
    using started_bounds [OF assms(1), of b ?n] by auto
  have "[1..?n] = [1..m_req_id s] @ [?n]"
    using assms(1) by (simp add: ids_ok_def upto_rec2)
  note upto = this and D = ids_okD [OF assms(1)]
  have "ids_ok (ls @ [Started a ?n (map (call_info ?n) calls)]) s'"
    unfolding s'
  proof (rule ids_okI, goal_cases)
    case (4 b i)
    then show ?case
      using D(4) fresh by (auto simp: table_insert_def split: if_splits)
  next
    case (5 b i)
    then show ?case
      using D(5) fresh old by (auto simp: table_insert_def)
  next
    case (6 b i)
    then show ?case
      using D(6) assms(3) by auto
  next
    case (7 b i)
    then show ?case
      using D(7) assms(3) by (cases "b = a") auto
  next
    case (8 i)
    then show ?case
      using D(8) by auto
  next
    case (9 b)
    then show ?case
      using D(9) by auto
  qed (use D upto in simp_all)
  moreover have "calls_ok (ls @ [Started a ?n (map (call_info ?n) calls)]) {#} s'"
  proof (rule calls_ok_step [OF assms(2)], goal_cases)
    case (3 info)
    then show ?case
      using call_infos_id [of info ?n calls] by simp
  qed (use assms(2) in \<open>simp_all add: s' calls_ok_def pending_def concat_call_infos ac_simps\<close>)
  ultimately show ?thesis
    using start by simp
qed

lemma callback_ok:
  assumes "ids_ok ls s" "calls_ok ls {#userdata ji#} s" "(a, reqid (userdata ji)) \<in> set (started ls)"
  shows "ids_ok (ls @ [callback_label c a ji s]) (requester_callback c a ji s) \<and>
    calls_ok (ls @ [callback_label c a ji s]) {#} (requester_callback c a ji s)"
proof -
  let ?o = "d_objs s ! a"
  obtain r fin calls where res: "op_onCallDone c (requester_callid (userdata ji)) (success ji) (resp ji) (m_isfinished ?o) (r_state ?o) = (r, fin, calls)"
    by (cases "op_onCallDone c (requester_callid (userdata ji)) (success ji) (resp ji) (m_isfinished ?o) (r_state ?o)")
  have a: "a < length (d_objs s)" "(a, m_id ?o) \<in> set (started ls)"
    using assms(1,3) by (auto simp: ids_ok_def)
  have label: "callback_label c a ji s = Told a (userdata ji) (map (call_info (m_id ?o)) calls)"
    by (simp add: callback_label_def res Let_def)
  have code: "requester_callback c a ji s = s\<lparr>d_objs := (d_objs s)[a := ?o\<lparr>r_state := r, m_isfinished := fin\<rparr>],
      m_launcher := m_launcher s @ map (call_task (m_id ?o)) calls, d_checking := d_checking s @ [a]\<rparr>"
    using a by (simp add: requester_callback_def res requester_ran_code Let_def)
  note D = ids_okD [OF assms(1)]
  have "ids_ok (ls @ [callback_label c a ji s]) (requester_callback c a ji s)"
    unfolding label code
  proof (rule ids_okI, goal_cases)
    case (1 b)
    then show ?case
      using D(1) a(2) by force
  next
    case (5 b i)
    then show ?case
      using D(5) [of b i] by auto
  next
    case (7 b i)
    then show ?case
      using D(7) a by (cases "b = a") auto
  next
    case (8 i)
    then show ?case
      using D(8) by (auto split: if_splits)
  next
    case (9 b)
    then show ?case
      using D(9) by (auto split: if_splits)
  qed (use D in simp_all)
  moreover have pend: "pending (requester_callback c a ji s) = pending s + mset (map (call_info (m_id ?o)) calls)"
    unfolding code by (simp add: pending_def concat_call_infos)
  moreover have client: "client_ok (m_http_client (requester_callback c a ji s))"
    using assms(2) by (simp add: code calls_ok_def)
  moreover have "calls_ok (ls @ [callback_label c a ji s]) {#} (requester_callback c a ji s)"
    unfolding label
  proof (rule calls_ok_step [OF assms(2)], goal_cases)
    case (3 info)
    then show ?case
      using call_infos_id [of info "m_id ?o" calls] a(2) by force
  next
    case 7
    then show ?case
      using assms(2) by (simp add: code calls_ok_def)
  qed (use assms(3) client in \<open>simp_all add: pend\<close>, simp_all add: code)
  ultimately show ?thesis
    by simp
qed

lemma check_ok:
  assumes "ids_ok ls s" "calls_ok ls {#} s" "i < length (d_checking s)" "d_checking s ! i = a"
  shows "ids_ok (ls @ [check_label a s]) (check_finished a (s\<lparr>d_checking := without i (d_checking s)\<rparr>)) \<and>
    calls_ok (ls @ [check_label a s]) {#} (check_finished a (s\<lparr>d_checking := without i (d_checking s)\<rparr>))"
proof -
  note D = ids_okD [OF assms(1)] and code = check_finished_def check_label_def onRequesterFinished_def disp_add_def
  have sub: "set (without i (d_checking s)) \<subseteq> set (d_checking s)"
    by (rule set_without)
  have "ids_ok (ls @ [check_label a s]) (check_finished a (s\<lparr>d_checking := without i (d_checking s)\<rparr>))"
  proof (rule ids_okI)
    show "b \<in> set (d_checking (check_finished a (s\<lparr>d_checking := without i (d_checking s)\<rparr>))) \<Longrightarrow>
        b \<in> fst ` set (started (ls @ [check_label a s]))" for b
      using sub D(1) by (auto simp: code split: if_splits)
    show "(b, j) \<in> set (started (ls @ [check_label a s])) \<Longrightarrow> j \<in> set (finished (ls @ [check_label a s])) \<or>
        m_requesters (check_finished a (s\<lparr>d_checking := without i (d_checking s)\<rparr>)) j = Some b" for b j
      using D(5) [of b j] by (auto simp: code)
  qed (use D(2-4,6-9) in \<open>auto simp: code split: if_splits\<close>)
  moreover have "calls_ok (ls @ [check_label a s]) {#} (check_finished a (s\<lparr>d_checking := without i (d_checking s)\<rparr>))"
    using assms(2) by (auto simp: calls_ok_def code pending_def)
  ultimately show ?thesis
    by blast
qed

text \<open>A call leaves the client.\<close>

lemma run_call_code:
  "run_call h took (rid, q) s = s\<lparr>m_http_client := m_http_client (run_call h took (rid, q) s)\<rparr>"
  by (cases q) (simp_all add: onCallTask_def onCallPostTask_def)

lemma run_call_fields: "d_objs (run_call h took (rid, q) s) = d_objs s" "d_checking (run_call h took (rid, q) s) = d_checking s"
  by (subst run_call_code; simp)+

lemma run_call_client:
  assumes "client_ok (m_http_client s)" "handle_given h (m_http_client s)"
  shows "client_ok (m_http_client (run_call h took (rid, q) s))"
    "client_users (m_http_client (run_call h took (rid, q) s)) =
       (if om_find (m_e_curls (m_http_client s)) h = None then add_mset (call_info rid q) (client_users (m_http_client s))
        else client_users (m_http_client s))"
    "om_find (m_e_curls (m_http_client s)) 0 \<noteq> None \<Longrightarrow> om_find (m_e_curls (m_http_client (run_call h took (rid, q) s))) 0 \<noteq> None"
  using client_ok_call [OF assms] client_users_call [OF assms(1)] om_ins_keeps [of "m_e_curls (m_http_client s)" 0] assms(1)
  by (cases q; simp add: onCallTask_def onCallPostTask_def client_call_def client_callPost_def client_ok_def)+

lemma call_end_ok:
  assumes "ids_ok ls s" "calls_ok ls {#} s" "d_call s = Some (rid, q)" "handle_given h (m_http_client s)"
  shows "ids_ok (ls @ [call_label h (rid, q) s]) (run_call h took (rid, q) (s\<lparr>d_call := None\<rparr>)) \<and>
    calls_ok (ls @ [call_label h (rid, q) s]) {#} (run_call h took (rid, q) (s\<lparr>d_call := None\<rparr>))"
proof
  let ?s = "s\<lparr>d_call := None\<rparr>"
  let ?t = "run_call h took (rid, q) ?s"
  obtain cl where cl: "?t = ?s\<lparr>m_http_client := cl\<rparr>"
    using run_call_code [of h took rid q ?s] by blast
  have client: "client_ok (m_http_client ?s)" "handle_given h (m_http_client ?s)"
    using assms(2,4) by (simp_all add: calls_ok_def)
  note C = run_call_client [OF client, of took rid q, unfolded cl, simplified]
  show "ids_ok (ls @ [call_label h (rid, q) s]) ?t"
    using assms(1) unfolding cl by (intro ids_ok_silent [of ls s]) (simp_all add: call_label_def)
  show "calls_ok (ls @ [call_label h (rid, q) s]) {#} ?t"
  proof (rule calls_ok_step [OF calls_ok_take_call [OF assms(2,3)]], goal_cases)
    case 7
    then have "om_find (m_e_curls (m_http_client s)) 0 \<noteq> None"
      using assms(2,4) by (auto simp: calls_ok_def call_label_def handle_given_def split: if_splits)
    then show ?case
      using C(3) by (simp add: cl)
  qed (use C in \<open>auto simp: cl call_label_def pending_def split: if_splits\<close>)
qed

lemma silent_calls:
  assumes "calls_ok ls {#} s" "client_ok (m_http_client s')" "pending s' = pending s" "set (d_calling s') \<subseteq> set (d_calling s)"
    "om_find (m_e_curls (m_http_client s)) 0 \<noteq> None \<Longrightarrow> om_find (m_e_curls (m_http_client s')) 0 \<noteq> None"
  shows "calls_ok (ls @ [Silent]) {#} s'"
  by (rule calls_ok_step [OF assms(1)]) (use assms in \<open>auto simp: calls_ok_def\<close>)

lemma task_ok:
  assumes ids: "ids_ok ls s" and calls: "calls_ok ls (mset (task_infos t)) s"
    and run: "run_disp_task c t s = Some s'"
    and fin: "\<And>i. t = OnRequesterFinishedTask i \<Longrightarrow> i \<in> set (finished ls)"
    and add: "\<And>a. t = AddRequesterTask a \<Longrightarrow> a < length (d_objs s)"
  shows "ids_ok (ls @ [task_label c t s]) s' \<and> calls_ok (ls @ [task_label c t s]) {#} s'"
proof (cases t)
  case KickTask
  then show ?thesis
    using run calls ids_ok_silent [OF ids, of Silent s'] silent_calls [of ls s s'] by (auto simp: pending_def calls_ok_def [of ls "{#}" s])
next
  case (OnCallDoneTask ji)
  then show ?thesis
    using run onCallDoneTask_ok [OF ids, of ji c] calls by auto
next
  case (OnRequesterFinishedTask i)
  then show ?thesis
    using run onRequesterFinishedTask_ok [OF ids, of i] calls fin by auto
next
  case (AddRequesterTask a)
  then show ?thesis
    using run addRequesterTask_ok [OF ids, of a c s'] calls add by auto
qed (use run in simp_all)

lemma kickTask_keeps:
  assumes "kickTask inp s = Some s'" "kick_touches (d_kick s) \<longrightarrow> libcurl_gives inp (m_http_client s)" "client_ok (m_http_client s)"
  shows "m_launcher s' = m_launcher s \<and> m_requesters s' = m_requesters s \<and> m_req_id s' = m_req_id s \<and> d_objs s' = d_objs s \<and>
    d_calling s' = d_calling s \<and> d_checking s' = d_checking s \<and> d_call s' = d_call s"
    "client_ok (m_http_client s')" "client_users (m_http_client s') = client_users (m_http_client s)"
    "om_find (m_e_curls (m_http_client s)) 0 \<noteq> None \<Longrightarrow> om_find (m_e_curls (m_http_client s')) 0 \<noteq> None"
proof -
  show "m_launcher s' = m_launcher s \<and> m_requesters s' = m_requesters s \<and> m_req_id s' = m_req_id s \<and> d_objs s' = d_objs s \<and>
    d_calling s' = d_calling s \<and> d_checking s' = d_checking s \<and> d_call s' = d_call s"
    using assms(1) by (auto split: disp_kick.splits kick_pc.splits if_splits)
  have "m_http_client s' = m_http_client s \<or>
      (\<exists>pc pc'. d_kick s = KickIn pc \<and> kick_touches (d_kick s) \<and> kick_step inp pc (m_http_client s) = Some (pc', m_http_client s'))"
    using assms(1) by (auto split: disp_kick.splits kick_pc.splits if_splits)
  then show "client_ok (m_http_client s')" "client_users (m_http_client s') = client_users (m_http_client s)"
    "om_find (m_e_curls (m_http_client s)) 0 \<noteq> None \<Longrightarrow> om_find (m_e_curls (m_http_client s')) 0 \<noteq> None"
    using assms(2,3) client_ok_kick_step client_users_kick_step null_stays by metis+
qed

lemma disp_act_ok:
  assumes "disp_act c s l s'" "ids_ok ls s" "calls_ok ls {#} s"
  shows "ids_ok (ls @ [l]) s' \<and> calls_ok (ls @ [l]) {#} s'"
proof -
  have client: "client_ok (m_http_client s)"
    using assms(3) by (simp add: calls_ok_def)
  have call: "as_call t = Some (rid, q) \<Longrightarrow> task_infos t = [call_info rid q] \<and> t \<noteq> OnRequesterFinishedTask i \<and> t \<noteq> AddRequesterTask a"
    for t rid q i a
    by (cases t) auto
  show ?thesis
    using assms(1)
  proof cases
    case (Add a)
    then show ?thesis
      using ids_ok_silent [OF assms(2), of Silent s'] silent_calls [OF assms(3), of s'] client
      by (auto simp: addRequester_def disp_add_def pending_def)
  next
    case (CallBegin i q)
    obtain rid rq where q: "q = (rid, rq)"
      by (cases q)
    have "pending s' = pending s"
      using mset_concat_pick [OF CallBegin(3), of task_infos] CallBegin(2,5) call [of _ rid rq] CallBegin(4)
      by (simp add: pending_def call_infos_def q ac_simps)
    then show ?thesis
      using CallBegin ids_ok_silent [OF assms(2), of Silent s'] silent_calls [OF assms(3), of s'] client
        set_without [of i "m_launcher s"] by auto
  next
    case (CallEnd q h took)
    then show ?thesis
      using call_end_ok [OF assms(2,3), of "fst q" "snd q" h took] by simp
  next
    case (Task i)
    then show ?thesis
      using task_ok [OF ids_ok_take [OF assms(2)] calls_ok_take_task [OF assms(3) Task(2)] Task(4)]
        ids_okD(8,9) [OF assms(2)] nth_mem [OF Task(2)] by (cases "m_launcher s ! i") auto
  next
    case (Callback i a ji)
    then show ?thesis
      using calls_ok_take_callback [OF assms(3) Callback(3,4)] callback_ok [of ls "s\<lparr>d_calling := without i (d_calling s)\<rparr>" ji a c] assms(2)
      by (auto simp: ids_ok_def callback_label_def)
  next
    case (Check i a)
    then show ?thesis
      using check_ok [OF assms(2,3) Check(3,4)] by simp
  next
    case KickBegin
    then show ?thesis
      using ids_ok_silent [OF assms(2), of Silent s'] silent_calls [OF assms(3), of s'] client by (simp add: pending_def)
  next
    case (Kick inp t)
    have "kick_touches (d_kick s) \<longrightarrow> libcurl_gives inp (m_http_client s)"
      using Kick by blast
    note keeps = kickTask_keeps [OF Kick(4) this client]
    then show ?thesis
      using Kick ids_ok_silent [OF assms(2), of Silent s'] silent_calls [OF assms(3), of s'] by (simp add: pending_def)
  next
    case (Handler i)
    note job = calls_ok_take_job [OF assms(3) Handler(3)]
    have "calls_ok (ls @ [l]) {#} s'"
      using Handler client assms(3) by (intro calls_ok_step [OF job])
        (auto simp: pending_def callHandler_def onCallDone_def disp_add_def client_ok_def client_users_def calls_ok_def)
    moreover have "ids_ok (ls @ [l]) s'"
      using Handler ids_ok_silent [OF assms(2), of Silent s'] by (auto simp: callHandler_def onCallDone_def disp_add_def)
    ultimately show ?thesis
      by simp
  next
    case Stop
    then show ?thesis
      using ids_ok_silent [OF assms(2), of Silent s'] silent_calls [OF assms(3), of s'] client
      by (auto simp: disp_stop_def pending_def)
  qed
qed

lemma disp_run_ok:
  "disp_run c (HttpOutRequestDisp_new objs) ls s \<Longrightarrow> Undefined \<notin> set ls \<Longrightarrow> ids_ok ls s \<and> calls_ok ls {#} s"
proof (induction "HttpOutRequestDisp_new objs" ls s rule: disp_run.induct)
  case Begin
  show ?case
    by (rule conjI [OF ids_ok_new calls_ok_new])
next
  case (Next ls s' l s'')
  then have ok: "ids_ok ls s'" "calls_ok ls {#} s'" and "l \<noteq> Undefined"
    by auto
  from Next(3) show ?case
  proof cases
    case Act
    then show ?thesis
      using disp_act_ok [OF _ ok] by blast
  qed (use \<open>l \<noteq> Undefined\<close> in simp)
qed

section \<open>Runs that can be computed\<close>

datatype disp_choice = DoAdd nat | DoCallBegin nat | DoCallEnd nat bool | DoTask nat | DoCallback nat | DoCheck nat
  | DoKickBegin | DoKick kick_input | DoHandler nat | DoStop

fun disp_do :: "'r requester_class \<Rightarrow> disp_choice \<Rightarrow> 'r disp \<Rightarrow> (disp_label \<times> 'r disp) option" where
  "disp_do c (DoAdd a) s = (if a < length (d_objs s) then Some (Silent, addRequester a s) else None)"
| "disp_do c (DoCallBegin i) s =
     (if i < length (m_launcher s) \<and> d_call s = None then
        map_option (\<lambda>q. (Silent, s\<lparr>m_launcher := without i (m_launcher s), d_call := Some q\<rparr>)) (as_call (m_launcher s ! i))
      else None)"
| "disp_do c (DoCallEnd h took) s =
     (case d_call s of
        None \<Rightarrow> None
      | Some q \<Rightarrow> if handle_given h (m_http_client s)
          then Some (call_label h q s, run_call h took q (s\<lparr>d_call := None\<rparr>)) else None)"
| "disp_do c (DoTask i) s =
     (if i < length (m_launcher s) \<and> (m_launcher s ! i = KickTask \<or> d_call s = None) then
        map_option (Pair (task_label c (m_launcher s ! i) s))
          (run_disp_task c (m_launcher s ! i) (s\<lparr>m_launcher := without i (m_launcher s)\<rparr>))
      else None)"
| "disp_do c (DoCallback i) s =
     (if i < length (d_calling s) then
        (case d_calling s ! i of (a, ji) \<Rightarrow>
           Some (callback_label c a ji s, requester_callback c a ji (s\<lparr>d_calling := without i (d_calling s)\<rparr>)))
      else None)"
| "disp_do c (DoCheck i) s =
     (if i < length (d_checking s) then
        Some (check_label (d_checking s ! i) s, check_finished (d_checking s ! i) (s\<lparr>d_checking := without i (d_checking s)\<rparr>))
      else None)"
| "disp_do c DoKickBegin s = (if kick_touches (d_kick s) then Some (Silent, s\<lparr>d_kick_in := True\<rparr>) else None)"
| "disp_do c (DoKick inp) s =
     (if kick_touches (d_kick s) \<longrightarrow> d_kick_in s \<and> libcurl_gives inp (m_http_client s)
      then map_option (\<lambda>s'. (Silent, s'\<lparr>d_kick_in := False\<rparr>)) (kickTask inp s) else None)"
| "disp_do c (DoHandler i) s =
     (if i < length (cl_tasks (m_http_client s)) then
        Some (Silent, callHandler (cl_tasks (m_http_client s) ! i)
          (s\<lparr>m_http_client := (m_http_client s)\<lparr>cl_tasks := without i (cl_tasks (m_http_client s))\<rparr>\<rparr>))
      else None)"
| "disp_do c DoStop s = Some (Silent, disp_stop s)"

lemma disp_do_act: "disp_do c ch s = Some (l, s') \<Longrightarrow> disp_act c s l s'"
  by (cases ch) (auto intro: disp_act.intros simp del: kickTask.simps split: if_splits prod.splits option.splits)

fun disp_exec :: "'r requester_class \<Rightarrow> disp_choice list \<Rightarrow> 'r disp \<Rightarrow> (disp_label list \<times> 'r disp) option" where
  "disp_exec c [] s = Some ([], s)"
| "disp_exec c (ch # chs) s =
     (if racing s then None
      else case disp_do c ch s of
        None \<Rightarrow> None
      | Some (l, s') \<Rightarrow> map_option (\<lambda>(ls, s''). (l # ls, s'')) (disp_exec c chs s'))"

lemma disp_run_Cons: "disp_run c s' ls s'' \<Longrightarrow> disp_step c s l s' \<Longrightarrow> disp_run c s (l # ls) s''"
proof (induction s' ls s'' rule: disp_run.induct)
  case (Begin s')
  show ?case
    using disp_run.Next [OF disp_run.Begin Begin] by simp
next
  case (Next s' ls s1 l' s2)
  show ?case
    using disp_run.Next [OF Next.IH [OF Next.prems] Next.hyps(2)] by simp
qed

lemma disp_exec_run: "disp_exec c chs s = Some (ls, s') \<Longrightarrow> disp_run c s ls s'"
proof (induction chs arbitrary: s ls)
  case Nil
  then show ?case
    by (simp add: disp_run.Begin)
next
  case (Cons ch chs)
  then show ?case
    using disp_step.Act [OF _ disp_do_act] disp_run_Cons by (fastforce split: option.splits if_splits)
qed

section \<open>The requesters of the library\<close>

text \<open>
  \<open>answers\<close> has what a requester has passed to its context: the response to \<^verbatim>\<open>m_onCalledOk\<close>, or
  the call of \<^verbatim>\<open>m_onCalledFail\<close>.
\<close>

datatype answer = CalledOk string | CalledFail

record simple_requester =
  m_call_url :: string
  m_post :: "string option"
  answers :: "answer list"

definition HttpSimpleRequester_new :: "string \<Rightarrow> simple_requester" where
  "HttpSimpleRequester_new url = \<lparr>m_call_url = url, m_post = None, answers = []\<rparr>"

definition HttpSimpleRequesterPost_new :: "string \<Rightarrow> string \<Rightarrow> simple_requester" where
  "HttpSimpleRequesterPost_new url pd = \<lparr>m_call_url = url, m_post = Some pd, answers = []\<rparr>"

definition simple_onCallDone :: "int \<Rightarrow> bool \<Rightarrow> string \<Rightarrow> bool \<Rightarrow> simple_requester \<Rightarrow> simple_requester req_result" where
  "simple_onCallDone callid ok rsp fin r =
     (if \<not> ok then (r\<lparr>answers := answers r @ [CalledFail]\<rparr>, True, [])
      else (r\<lparr>answers := answers r @ [CalledOk rsp]\<rparr>, True, []))"

definition HttpSimpleRequester_start :: "bool \<Rightarrow> simple_requester \<Rightarrow> simple_requester req_result" where
  "HttpSimpleRequester_start fin r = (r, fin, [Call 0 (m_call_url r)])"

definition HttpSimpleRequesterPost_start :: "bool \<Rightarrow> simple_requester \<Rightarrow> simple_requester req_result" where
  "HttpSimpleRequesterPost_start fin r = (r, fin, [CallPost 0 (m_call_url r) (case m_post r of None \<Rightarrow> [] | Some pd \<Rightarrow> pd)])"

definition simple_class :: "simple_requester requester_class" where
  "simple_class = \<lparr>op_start = (\<lambda>fin r. if m_post r = None then HttpSimpleRequester_start fin r else HttpSimpleRequesterPost_start fin r),
     op_onCallDone = simple_onCallDone\<rparr>"

lemma simple_start:
  "op_start simple_class fin r = (r, fin, snd (snd (op_start simple_class fin r)))"
  "map (call_info n) (snd (snd (op_start simple_class fin r))) = [OutRequestInfo_new n 0]"
  by (simp_all add: simple_class_def HttpSimpleRequester_start_def HttpSimpleRequesterPost_start_def)

lemma simple_done:
  "op_onCallDone simple_class callid ok rsp fin r = (r\<lparr>answers := answers r @ [if ok then CalledOk rsp else CalledFail]\<rparr>, True, [])"
  by (simp add: simple_class_def simple_onCallDone_def)

definition demo_requesters :: "simple_requester requester list" where
  "demo_requesters = [Requester_new 77 (HttpSimpleRequester_new ''http://h/''), Requester_new 78 (HttpSimpleRequesterPost_new ''http://h/'' ''x'')]"

definition demo_choices :: "disp_choice list" where
  "demo_choices = [DoAdd 0, DoTask 0, DoTask 0, DoCallBegin 0, DoCallEnd 1 True, DoKick (Entered 0), DoKickBegin, DoKick (Entered 5),
     DoKickBegin, DoKick (Selected 1 [(1, ''ab'')] 0), DoKickBegin, DoKick (Message (Some (1, True, True))), DoHandler 0,
     DoTask 0, DoCallback 0, DoCheck 0]"

definition demo_labels :: "disp_label list" where
  "demo_labels = [Silent, Silent, Started 0 1 [OutRequestInfo_new 1 0], Silent, Silent, Silent, Silent, Silent, Silent, Silent,
     Silent, Silent, Silent, Silent, Told 0 (OutRequestInfo_new 1 0) [], Finished 1]"

lemma demo_labels_facts:
  "issued demo_labels = [OutRequestInfo_new 1 0]" "started demo_labels = [(0, 1)]" "Undefined \<notin> set demo_labels"
  by (simp_all add: demo_labels_def log_defs)

lemma disp_demo_run:
  "\<exists>s. disp_run simple_class (HttpOutRequestDisp_new demo_requesters) demo_labels s \<and>
     pending s = {#} \<and> answers (r_state (d_objs s ! 0)) = [CalledOk ''ab''] \<and> m_requesters s 1 = Some 0"
proof -
  let ?r = "disp_exec simple_class demo_choices (HttpOutRequestDisp_new demo_requesters)"
  have "map_option fst ?r = Some demo_labels"
    by code_simp
  moreover have "map_option (\<lambda>r. (m_launcher (snd r), m_http_client (snd r), d_calling (snd r), d_call (snd r))) ?r =
      Some ([OnRequesterFinishedTask 1], HttpClientAsync_new, [], None)"
    by code_simp
  moreover have "map_option (\<lambda>r. (answers (r_state (d_objs (snd r) ! 0)), m_requesters (snd r) 1)) ?r = Some ([CalledOk ''ab''], Some 0)"
    by code_simp
  ultimately show ?thesis
    using disp_exec_run [of simple_class demo_choices "HttpOutRequestDisp_new demo_requesters"]
    by (cases ?r) (auto simp: pending_def client_users_def HttpClientAsync_new_def call_infos_def)
qed

section \<open>Properties\<close>

text \<open>
  C6: in every run without a data race in the client, with tasks, calls, callbacks and the steps
  of \<open>kickTask\<close> in any order, each call that a requester has made is on its way, or has been
  answered to it, or its answer was dropped, or it was lost: none is answered twice. A call is lost
  only when \<^verbatim>\<open>curl_easy_init\<close> has failed, and then the call for which it failed first stays on its way
  for ever. An answer is dropped only when the requester had been found to be finished, and goes to
  the requester that was started under the number of the call; numbers are not reused.
\<close>

theorem disp_answers_calls:
  assumes "disp_run c (HttpOutRequestDisp_new objs) ls s" "Undefined \<notin> set ls"
  shows "mset (issued ls) = mset (map snd (told ls)) + mset (dropped ls) + mset (lost ls) + pending s \<and>
    (lost ls \<noteq> [] \<longrightarrow> om_find (m_e_curls (m_http_client s)) 0 \<noteq> None) \<and>
    (\<forall>info \<in> set (dropped ls). reqid info \<in> set (finished ls)) \<and>
    (\<forall>(a, info) \<in> set (told ls). (a, reqid info) \<in> set (started ls)) \<and> distinct (map snd (started ls))"
  using disp_run_ok [OF assms] by (auto simp: ids_ok_def calls_ok_def)

theorem disp_answers_calls_witness:
  "\<exists>s. disp_run simple_class (HttpOutRequestDisp_new demo_requesters) demo_labels s \<and> issued demo_labels = [OutRequestInfo_new 1 0] \<and>
     mset (issued demo_labels) = mset (map snd (told demo_labels)) + mset (dropped demo_labels) + mset (lost demo_labels) + pending s"
  using disp_demo_run disp_answers_calls [OF _ demo_labels_facts(3)] demo_labels_facts(1) by blast

text \<open>
  C34: the table of the dispatcher in every run without a data race in the client: the numbers from
  1 to the counter have been given out, once each; an entry of the table is the address of the
  requester that was started under its number, and such a requester carries a number that was
  given out, and so do all calls that are on their way. The transfers of the client have different
  handles and each has its call in the client's table. No dangling pointer and no
  uninitialised number is ever used.
\<close>

theorem disp_table_well_formed:
  assumes "disp_run c (HttpOutRequestDisp_new objs) ls s" "Undefined \<notin> set ls"
  shows "map snd (started ls) = [1..m_req_id s] \<and>
    (\<forall>i a. m_requesters s i = Some a \<longrightarrow>
       (a, i) \<in> set (started ls) \<and> a < length (d_objs s) \<and> 1 \<le> m_id (d_objs s ! a) \<and> m_id (d_objs s ! a) \<le> m_req_id s) \<and>
    (\<forall>info \<in># pending s. 1 \<le> reqid info \<and> reqid info \<le> m_req_id s) \<and>
    distinct (map fst (m_multi (m_http_client s))) \<and>
    (\<forall>h \<in> fst ` set (m_multi (m_http_client s)). h \<noteq> 0 \<and> om_find (m_e_curls (m_http_client s)) h \<noteq> None)"
proof -
  have ids: "ids_ok ls s" and calls: "calls_ok ls {#} s"
    using disp_run_ok [OF assms] by blast+
  have "1 \<le> reqid info \<and> reqid info \<le> m_req_id s" if "info \<in># pending s" for info
    using calls that started_bounds [OF ids] by (fastforce simp: calls_ok_def)
  moreover have "(a, i) \<in> set (started ls) \<and> a < length (d_objs s) \<and> 1 \<le> m_id (d_objs s ! a) \<and> m_id (d_objs s ! a) \<le> m_req_id s"
    if "m_requesters s i = Some a" for i a
    using ids_okD(4) [OF ids that] ids_okD(6,7) [OF ids] started_bounds [OF ids] by blast
  ultimately show ?thesis
    using ids_okD(3) [OF ids] calls unfolding calls_ok_def client_ok_def by blast
qed

theorem disp_table_well_formed_witness:
  "\<exists>s. disp_run simple_class (HttpOutRequestDisp_new demo_requesters) demo_labels s \<and> m_requesters s 1 = Some 0 \<and>
     1 \<le> m_id (d_objs s ! 0) \<and> m_id (d_objs s ! 0) \<le> m_req_id s"
  using disp_demo_run disp_table_well_formed [OF _ demo_labels_facts(3)] by meson

text \<open>What the requesters of the library add: they make one call each, and are finished by its answer.\<close>

definition simple_ok :: "disp_label list \<Rightarrow> simple_requester disp \<Rightarrow> bool" where
  "simple_ok ls s \<longleftrightarrow> issued ls = map (\<lambda>p. OutRequestInfo_new (snd p) 0) (started ls) \<and>
     (\<forall>i \<in> set (finished ls). \<exists>p \<in> set (told ls). (fst p, i) \<in> set (started ls)) \<and>
     (\<forall>a < length (d_objs s). length (answers (r_state (d_objs s ! a))) = count_list (map fst (told ls)) a) \<and>
     set (d_checking s) \<subseteq> fst ` set (told ls)"

lemma simple_ok_silent:
  "simple_ok ls s \<Longrightarrow> issued_by l = [] \<Longrightarrow> told_by l = [] \<Longrightarrow> finished_by l = [] \<Longrightarrow> started_by l = [] \<Longrightarrow>
     d_objs s' = d_objs s \<Longrightarrow> d_checking s' = d_checking s \<Longrightarrow> simple_ok (ls @ [l]) s'"
  by (simp add: simple_ok_def)

lemma simple_ok_callback:
  assumes "simple_ok ls s" "a < length (d_objs s)" "(a, m_id (d_objs s ! a)) \<in> set (started ls)"
  shows "simple_ok (ls @ [callback_label simple_class a ji s]) (requester_callback simple_class a ji (s\<lparr>d_calling := cs\<rparr>))"
proof -
  have "callback_label simple_class a ji s = Told a (userdata ji) []"
    by (simp add: callback_label_def simple_done)
  moreover have "length (d_objs (requester_callback simple_class a ji (s\<lparr>d_calling := cs\<rparr>))) = length (d_objs s) \<and>
    length (answers (r_state (d_objs (requester_callback simple_class a ji (s\<lparr>d_calling := cs\<rparr>)) ! b))) =
      length (answers (r_state (d_objs s ! b))) + (if b = a then 1 else 0)" for b
    using assms(2) by (simp add: requester_callback_def simple_done requester_ran_code nth_list_update)
  moreover have "d_checking (requester_callback simple_class a ji (s\<lparr>d_calling := cs\<rparr>)) = d_checking s @ [a]"
    by (simp add: requester_callback_def simple_done requester_ran_code)
  ultimately show ?thesis
    using assms by (auto simp: simple_ok_def)
qed

lemma simple_ok_add:
  assumes "simple_ok ls s" "a < length (d_objs s)" "addRequesterTask simple_class a (s\<lparr>m_launcher := q\<rparr>) = Some s'"
  shows "simple_ok (ls @ [task_label simple_class (AddRequesterTask a) s]) s'"
proof -
  let ?calls = "snd (snd (op_start simple_class (m_isfinished (d_objs s ! a)) (r_state (d_objs s ! a))))"
  have "d_objs s' = (d_objs s)[a := (d_objs s ! a)\<lparr>m_id := m_req_id s + 1\<rparr>]"
    using addRequesterTask_code [OF assms(3), of "r_state (d_objs s ! a)" "m_isfinished (d_objs s ! a)" ?calls] assms(2) simple_start(1)
    by simp
  moreover have "d_checking s' = d_checking s"
    using addRequesterTask_code [OF assms(3), of "r_state (d_objs s ! a)" "m_isfinished (d_objs s ! a)" ?calls] assms(2) simple_start(1)
    by simp
  moreover have "task_label simple_class (AddRequesterTask a) s = Started a (m_req_id s + 1) [OutRequestInfo_new (m_req_id s + 1) 0]"
    by (simp add: simple_start(2))
  ultimately show ?thesis
    using assms(1,2) by (auto simp: simple_ok_def nth_list_update)
qed

lemma simple_ok_check:
  assumes "simple_ok ls s" "ids_ok ls s" "i < length (d_checking s)"
  shows "simple_ok (ls @ [check_label (d_checking s ! i) s]) (check_finished (d_checking s ! i) (s\<lparr>d_checking := without i (d_checking s)\<rparr>))"
proof -
  let ?a = "d_checking s ! i"
  have a: "?a \<in> set (d_checking s)"
    using assms(3) by simp
  then have "?a \<in> fst ` set (told ls)" "(?a, m_id (d_objs s ! ?a)) \<in> set (started ls)"
    using assms(1) ids_okD(1) [OF assms(2) a] ids_okD(7) [OF assms(2), of ?a] by (auto simp: simple_ok_def)
  then have "\<exists>p \<in> set (told ls). (fst p, m_id (d_objs s ! ?a)) \<in> set (started ls)"
    by (metis imageE)
  moreover have "set (without i (d_checking s)) \<subseteq> fst ` set (told ls)"
    using assms(1) set_without [of i "d_checking s"] by (auto simp: simple_ok_def)
  ultimately show ?thesis
    using assms(1)
    by (cases "m_isfinished (d_objs s ! ?a)")
      (simp_all add: simple_ok_def check_label_def check_finished_def onRequesterFinished_def disp_add_def)
qed

lemma simple_ok_act:
  assumes "disp_act simple_class s l s'" "ids_ok ls s" "calls_ok ls {#} s" "simple_ok ls s"
  shows "simple_ok (ls @ [l]) s'"
  using assms(1)
proof cases
  case (CallEnd q h took)
  then show ?thesis
    using simple_ok_silent [OF assms(4), of l s'] run_call_fields [of h took "fst q" "snd q" "s\<lparr>d_call := None\<rparr>"]
    by (cases "om_find (m_e_curls (m_http_client s)) h") (simp_all add: call_label_def)
next
  case (Task i)
  have t: "m_launcher s ! i \<in> set (m_launcher s)"
    using Task(2) by simp
  show ?thesis
  proof (cases "\<exists>a. m_launcher s ! i = AddRequesterTask a")
    case True
    then obtain a where a: "m_launcher s ! i = AddRequesterTask a"
      by blast
    then have "a < length (d_objs s)"
      using t ids_okD(9) [OF assms(2)] by simp
    then show ?thesis
      using simple_ok_add [OF assms(4), of a _ s'] Task a by (simp del: task_label.simps)
  next
    case False
    then have "d_objs s' = d_objs s \<and> d_checking s' = d_checking s \<and> issued_by l = [] \<and> told_by l = [] \<and> finished_by l = [] \<and> started_by l = []"
      using Task by (cases "m_launcher s ! i") (auto simp: onCallDoneTask_def onRequesterFinishedTask_def split: option.splits)
    then show ?thesis
      using simple_ok_silent [OF assms(4)] by blast
  qed
next
  case (Callback i a ji)
  have "(a, reqid (userdata ji)) \<in> set (started ls)"
    using calls_ok_take_callback [OF assms(3) Callback(3,4)] by blast
  then show ?thesis
    using simple_ok_callback [OF assms(4)] Callback ids_okD(6,7) [OF assms(2)] by blast
next
  case (Check i a)
  then show ?thesis
    using simple_ok_check [OF assms(4,2)] by blast
next
  case (Kick inp t)
  then have "d_objs s' = d_objs s \<and> d_checking s' = d_checking s"
    by (auto split: disp_kick.splits kick_pc.splits if_splits)
  then show ?thesis
    using simple_ok_silent [OF assms(4)] Kick by simp
qed (use simple_ok_silent [OF assms(4)] in \<open>auto simp: addRequester_def callHandler_def onCallDone_def disp_add_def disp_stop_def\<close>)

lemma simple_ok_run:
  assumes "disp_run simple_class (HttpOutRequestDisp_new objs) ls s" "\<forall>q \<in> set objs. answers (r_state q) = []"
    "Undefined \<notin> set ls"
  shows "simple_ok ls s"
  using assms(1,3)
proof (induction "HttpOutRequestDisp_new objs" ls s rule: disp_run.induct)
  case Begin
  show ?case
    using assms(2) by (simp add: simple_ok_def HttpOutRequestDisp_new_def)
next
  case (Next ls s l s')
  from Next(3) show ?case
  proof cases
    case Act
    then show ?thesis
      using Next simple_ok_act disp_run_ok [OF Next(1)] by auto
  qed (use Next(4) in simp)
qed

lemma answered_once:
  fixes st :: "(nat \<times> int) list" and tl :: "(nat \<times> req_info) list"
  assumes cons: "mset (map (\<lambda>p. OutRequestInfo_new (snd p) 0) st) = mset (map snd tl @ dr)"
    and st: "distinct (map snd st)" "distinct (map fst st)"
    and tl: "\<And>p. p \<in> set tl \<Longrightarrow> (fst p, reqid (snd p)) \<in> set st"
    and dr: "\<And>info. info \<in> set dr \<Longrightarrow> \<exists>p \<in> set tl. (fst p, reqid info) \<in> set st"
  shows "dr = [] \<and> (\<forall>a \<in> fst ` set st. count_list (map fst tl) a = 1)"
proof -
  have "distinct (map (\<lambda>p. OutRequestInfo_new (snd p) 0) st)"
    using st(1) by (auto simp: distinct_map inj_on_def OutRequestInfo_new_def)
  then have dist: "distinct (map snd tl @ dr)"
    using mset_eq_imp_distinct_iff [OF cons] by simp
  have infos: "info = OutRequestInfo_new (reqid info) 0" if "info \<in> set (map snd tl @ dr)" for info
  proof -
    from that obtain p where "info = OutRequestInfo_new (snd p) 0"
      unfolding mset_eq_setD [OF cons, symmetric] by auto
    then show ?thesis
      by (simp add: OutRequestInfo_new_def)
  qed
  have same: "x = y" if "x \<in> set (map snd tl @ dr)" "y \<in> set (map snd tl @ dr)" "reqid x = reqid y" for x y
    using infos [OF that(1)] infos [OF that(2)] that(3) by metis
  have fst_inj: "i = j" if "(a, i) \<in> set st" "(a, j) \<in> set st" for a i j
    using st(2) that by (rule eq_key_imp_eq_value)
  have "info \<notin> set dr" for info
  proof
    assume info: "info \<in> set dr"
    then obtain p where p: "p \<in> set tl" "(fst p, reqid info) \<in> set st"
      using dr by blast
    then have "snd p = info"
      using same [of "snd p" info] fst_inj [OF tl [OF p(1)] p(2)] p(1) info by simp
    then show False
      using dist p(1) info by auto
  qed
  then have "dr = []"
    by (cases dr) auto
  have "inj_on fst (set tl)"
  proof (rule inj_onI)
    fix p q assume p: "p \<in> set tl" "q \<in> set tl" "fst p = fst q"
    then have "reqid (snd p) = reqid (snd q)"
      using tl [OF p(1)] tl [OF p(2)] fst_inj by simp
    then show "p = q"
      using same [of "snd p" "snd q"] p by (simp add: prod_eq_iff)
  qed
  then have "distinct (map fst tl)"
    using dist by (simp add: distinct_map)
  moreover have "a \<in> fst ` set tl" if "(a, i) \<in> set st" for a i
  proof -
    have "OutRequestInfo_new i 0 \<in> snd ` set tl"
    proof -
      have "OutRequestInfo_new i 0 \<in> set (map (\<lambda>p. OutRequestInfo_new (snd p) 0) st)"
        using that by force
      then show ?thesis
        unfolding mset_eq_setD [OF cons] by (simp add: \<open>dr = []\<close>)
    qed
    then obtain q where q: "q \<in> set tl" "snd q = OutRequestInfo_new i 0"
      by (metis imageE)
    then have "(fst q, i) \<in> set st"
      using tl [OF q(1)] by (simp add: OutRequestInfo_new_def)
    then show ?thesis
      using st(1) that q(1) by (metis distinct_map image_eqI inj_on_eq_iff prod.inject prod.sel(2))
  qed
  ultimately show ?thesis
    using \<open>dr = []\<close> by (auto simp: distinct_count_atmost_1 simp flip: count_mset)
qed

text \<open>
  C21: requesters of the library, each added at most once, in a run without a data race in the
  client: when nothing is on its way any more, every one that was started has called its context
  exactly once, with a response or with a failure, and no answer was dropped and no call lost.
\<close>

theorem simple_requesters_answered:
  assumes run: "disp_run simple_class (HttpOutRequestDisp_new objs) ls s" "Undefined \<notin> set ls"
    and fresh: "\<forall>q \<in> set objs. answers (r_state q) = []"
    and once: "distinct (map fst (started ls))" and quiet: "pending s = {#}"
  shows "dropped ls = [] \<and> lost ls = [] \<and> (\<forall>a \<in> fst ` set (started ls). length (answers (r_state (d_objs s ! a))) = 1)"
proof -
  have ids: "ids_ok ls s" and calls: "calls_ok ls {#} s" and simple: "simple_ok ls s"
    using disp_run_ok [OF run] simple_ok_run [OF run(1) fresh run(2)] by blast+
  have "m_e_curls (m_http_client s) = []"
    using quiet by (simp add: pending_def client_users_def)
  then have none: "lost ls = []"
    using calls by (auto simp: calls_ok_def om_find_def)
  have "dropped ls = [] \<and> (\<forall>a \<in> fst ` set (started ls). count_list (map fst (told ls)) a = 1)"
  proof (rule answered_once [OF _ _ once])
    have "issued ls = map (\<lambda>p. OutRequestInfo_new (snd p) 0) (started ls)"
      using simple by (simp add: simple_ok_def)
    moreover have "mset (issued ls) = mset (map snd (told ls)) + mset (dropped ls)"
      using calls quiet none unfolding calls_ok_def by auto
    ultimately show "mset (map (\<lambda>p. OutRequestInfo_new (snd p) 0) (started ls)) = mset (map snd (told ls) @ dropped ls)"
      by simp
    show "distinct (map snd (started ls))"
      using ids by (simp add: ids_ok_def)
    show "(fst p, reqid (snd p)) \<in> set (started ls)" if "p \<in> set (told ls)" for p
      using calls that unfolding calls_ok_def by blast
    show "\<exists>p \<in> set (told ls). (fst p, reqid info) \<in> set (started ls)" if "info \<in> set (dropped ls)" for info
      using calls simple that unfolding calls_ok_def simple_ok_def by blast
  qed
  then show ?thesis
    using none simple ids_okD(6) [OF ids] unfolding simple_ok_def by fastforce
qed

theorem simple_requesters_answered_witness:
  "\<exists>s. disp_run simple_class (HttpOutRequestDisp_new demo_requesters) demo_labels s \<and> started demo_labels = [(0, 1)] \<and>
     length (answers (r_state (d_objs s ! 0))) = 1"
proof -
  obtain s where run: "disp_run simple_class (HttpOutRequestDisp_new demo_requesters) demo_labels s" and quiet: "pending s = {#}"
    using disp_demo_run by blast
  have "\<forall>q \<in> set demo_requesters. answers (r_state q) = []"
    by (simp add: demo_requesters_def Requester_new_def HttpSimpleRequester_new_def HttpSimpleRequesterPost_new_def)
  from simple_requesters_answered [OF run demo_labels_facts(3) this _ quiet]
  have "length (answers (r_state (d_objs s ! 0))) = 1"
    by (simp add: demo_labels_facts(2))
  then show ?thesis
    using run demo_labels_facts(2) by blast
qed

section \<open>The data race\<close>

text \<open>
  Nothing in the code keeps a call task and \<open>kickTask\<close> from using the client at the same time:
  whenever a call task can begin while \<open>kickTask\<close> is in the client, the run can go on to a data
  race, and from there to any state, with any calls lost.
\<close>

lemma call_races_with_kick:
  assumes "disp_run c s0 ls s" "\<not> racing s" "d_kick_in s" "i < length (m_launcher s)" "as_call (m_launcher s ! i) \<noteq> None" "d_call s = None"
  shows "\<exists>s1. disp_run c s0 (ls @ [Silent]) s1 \<and> racing s1 \<and> (\<forall>s'. disp_run c s0 (ls @ [Silent, Undefined]) s')"
proof -
  obtain q where q: "as_call (m_launcher s ! i) = Some q"
    using assms(5) by blast
  let ?s = "s\<lparr>m_launcher := without i (m_launcher s), d_call := Some q\<rparr>"
  have "disp_run c s0 (ls @ [Silent]) ?s"
    using disp_run.Next [OF assms(1) disp_step.Act [OF assms(2) disp_act.CallBegin [OF assms(4) q assms(6)]]] by simp
  moreover have "racing ?s"
    using assms(3) by (simp add: racing_def)
  ultimately show ?thesis
    using disp_run.Next [OF _ disp_step.Race, of c s0 "ls @ [Silent]" ?s] by (intro exI [of _ ?s]) simp
qed

lemma call_races_with_kick_witness:
  "\<exists>ls s. disp_run simple_class (HttpOutRequestDisp_new demo_requesters) ls s \<and> racing s"
proof -
  let ?r = "disp_exec simple_class [DoAdd 0, DoTask 0, DoTask 0, DoKick (Entered 0), DoKickBegin] (HttpOutRequestDisp_new demo_requesters)"
  have "map_option (\<lambda>r. (racing (snd r), d_kick_in (snd r), length (m_launcher (snd r)), as_call (m_launcher (snd r) ! 0), d_call (snd r))) ?r =
      Some (False, True, 1, Some (1, Call 0 ''http://h/''), None)"
    by code_simp
  then obtain ls s where "?r = Some (ls, s)" "\<not> racing s" "d_kick_in s" "length (m_launcher s) = 1"
      "as_call (m_launcher s ! 0) \<noteq> None" "d_call s = None"
    by (cases ?r) (auto simp del: disp_exec.simps)
  then show ?thesis
    using call_races_with_kick [OF disp_exec_run, of simple_class _ _ ls s 0] by fastforce
qed

section \<open>The kick task and the end\<close>

text \<open>
  \<open>kickTask\<close> does not return while the dispatcher lives, so it keeps a slot of the launcher: one
  that runs at most one task runs nothing else.
\<close>

lemma one_slot_only_kicks:
  assumes "\<forall>n. SetMaxParallel n \<notin> set es" "\<forall>ret. RunTask 0 ret \<notin> set es"
  shows "in_pool (launcher_run (AddTask KickTask # es) (TaskLauncher_new 1)) = [KickTask]"
proof -
  have step: "in_pool (launcher_step e s) = [k] \<and> countRunning (launcher_step e s) = 1 \<and> max_parallel (launcher_step e s) = 1"
    if "in_pool s = [k]" "countRunning s = 1" "max_parallel s = 1" "\<forall>n. e \<noteq> SetMaxParallel n" "\<forall>ret. e \<noteq> RunTask 0 ret"
    for e s and k :: disp_task
  proof (cases e)
    case (AddTask t)
    then show ?thesis
      using that by (simp add: addTask_def checkLaunch.simps countRunning_def)
  next
    case (RunTask i ret)
    then show ?thesis
      using that by (cases i) auto
  qed (use that in \<open>auto simp: setNoMoreTasks_def countRunning_def\<close>)
  have run: "in_pool (launcher_run es s) = [k]" if "in_pool s = [k]" "countRunning s = 1" "max_parallel s = 1" for s and k :: disp_task
    using that assms
  proof (induction es arbitrary: s)
    case (Cons e es)
    have "\<forall>n. e \<noteq> SetMaxParallel n" "\<forall>ret. e \<noteq> RunTask 0 ret"
      using Cons.prems(4,5) by auto
    from step [OF Cons.prems(1-3) this] show ?case
      using Cons.IH [of "launcher_step e s"] Cons.prems(4,5) by (simp add: launcher_run_def)
  qed (simp add: launcher_run_def)
  have "checkLaunch \<lparr>task_q = [KickTask], tasks_launched = 0, tasks_finished = 0, all_tasks_finished = False,
      max_parallel = 1, no_more_tasks = False, finish_lock = False, in_pool = [], on_finished_calls = 0\<rparr> =
    \<lparr>task_q = [], tasks_launched = 1, tasks_finished = 0, all_tasks_finished = False,
      max_parallel = 1, no_more_tasks = False, finish_lock = False, in_pool = [KickTask], on_finished_calls = 0\<rparr>"
    by (subst checkLaunch.simps) (simp add: countRunning_def launch_def, subst checkLaunch.simps, simp add: countRunning_def)
  then show ?thesis
    using run [of "addTask KickTask (TaskLauncher_new 1)" KickTask]
    by (simp add: launcher_run_def addTask_def TaskLauncher_new_def countRunning_def)
qed

text \<open>The destructor can return while tasks that use the dispatcher are in the launcher.\<close>

lemma destroyed_with_tasks:
  "\<exists>ls s. disp_run simple_class (HttpOutRequestDisp_new demo_requesters) ls s \<and> isKickStopped s \<and> m_launcher s = [AddRequesterTask 0]"
proof -
  let ?r = "disp_exec simple_class [DoAdd 0, DoTask 0, DoStop, DoKick (Entered 0)] (HttpOutRequestDisp_new demo_requesters)"
  have "map_option (\<lambda>r. (isKickStopped (snd r), m_launcher (snd r))) ?r = Some (True, [AddRequesterTask 0])"
    by code_simp
  then show ?thesis
    using disp_exec_run by (cases ?r) fastforce+
qed

end
