(* ===== verification/Locks.thy ===== *)
theory Locks
  imports Hi_Prelude "HOL-Library.Multiset"
begin

text \<open>
  \<^verbatim>\<open>threads/locks.cpp\<close>: the mutexes with tickets (\<open>hAutoLock\<close>, \<open>hLockTicket\<close>), the plain mutex
  \<open>hLock\<close>, the read-write lock with its guards (\<open>hRWLock\<close>) and the condition variable
  \<open>hCondWaiter\<close>. The mutexes of POSIX are a parameter with the laws of the locales \<open>mutex\<close> and
  \<open>rwlock\<close>; threads are numbers. An operation gives what happens: it returns, it waits, or it
  is undefined.
\<close>

section \<open>The mutexes of POSIX\<close>

datatype 'a outcome = Returns 'a | Waits | Undefined

text \<open>
  A mutex of the default kind, over its states \<open>'m\<close>; \<open>mx_owner\<close> is the thread that holds it. A
  thread that locks what it holds waits for itself, as on Linux; POSIX leaves that undefined.
\<close>

record 'm mutex_ops =
  mx_init :: 'm
  mx_lock :: "nat \<Rightarrow> 'm \<Rightarrow> 'm outcome"
  mx_trylock :: "nat \<Rightarrow> 'm \<Rightarrow> 'm option"
  mx_unlock :: "nat \<Rightarrow> 'm \<Rightarrow> 'm outcome"
  mx_owner :: "'m \<Rightarrow> nat option"

locale mutex =
  fixes ops :: "'m mutex_ops"
  assumes init: "mx_owner ops (mx_init ops) = None"
    and lock_free: "mx_owner ops m = None \<Longrightarrow> \<exists>m'. mx_lock ops t m = Returns m' \<and> mx_owner ops m' = Some t"
    and lock_held: "mx_owner ops m \<noteq> None \<Longrightarrow> mx_lock ops t m = Waits"
    and trylock_free: "mx_owner ops m = None \<Longrightarrow> \<exists>m'. mx_trylock ops t m = Some m' \<and> mx_owner ops m' = Some t"
    and trylock_held: "mx_owner ops m \<noteq> None \<Longrightarrow> mx_trylock ops t m = None"
    and unlock_own: "mx_owner ops m = Some t \<Longrightarrow> \<exists>m'. mx_unlock ops t m = Returns m' \<and> mx_owner ops m' = None"
    and unlock_other: "mx_owner ops m \<noteq> Some t \<Longrightarrow> mx_unlock ops t m = Undefined"

text \<open>
  A read-write lock: the threads that read, once for each time, and the one that writes. A call
  that returns an error gives \<open>None\<close>: \<^verbatim>\<open>EDEADLK\<close> when the thread has the lock itself, or \<^verbatim>\<open>EAGAIN\<close>
  when there is no room for one more reader (\<open>rw_full\<close>).
\<close>

record 'w rwlock_ops =
  rw_init :: 'w
  rw_full :: "'w \<Rightarrow> bool"
  rw_rdlock :: "nat \<Rightarrow> 'w \<Rightarrow> 'w option outcome"
  rw_wrlock :: "nat \<Rightarrow> 'w \<Rightarrow> 'w option outcome"
  rw_unlock :: "nat \<Rightarrow> 'w \<Rightarrow> 'w outcome"
  rw_readers :: "'w \<Rightarrow> nat multiset"
  rw_writer :: "'w \<Rightarrow> nat option"

locale rwlock =
  fixes ops :: "'w rwlock_ops"
  assumes init: "rw_readers ops (rw_init ops) = {#}" "rw_writer ops (rw_init ops) = None"
    and rdlock: "rw_rdlock ops t w = Returns (Some w') \<Longrightarrow>
      rw_writer ops w = None \<and> rw_writer ops w' = None \<and> rw_readers ops w' = add_mset t (rw_readers ops w)"
    and rdlock_error: "rw_rdlock ops t w = Returns None \<Longrightarrow> rw_writer ops w = Some t \<or> rw_full ops w"
    and rdlock_defined: "rw_rdlock ops t w \<noteq> Undefined"
    and wrlock: "rw_wrlock ops t w = Returns (Some w') \<Longrightarrow>
      rw_writer ops w = None \<and> rw_readers ops w = {#} \<and> rw_writer ops w' = Some t \<and> rw_readers ops w' = {#}"
    and wrlock_error: "rw_wrlock ops t w = Returns None \<Longrightarrow> rw_writer ops w = Some t \<or> t \<in># rw_readers ops w"
    and wrlock_defined: "rw_wrlock ops t w \<noteq> Undefined"
    and unlock_writer: "rw_writer ops w = Some t \<Longrightarrow>
      \<exists>w'. rw_unlock ops t w = Returns w' \<and> rw_writer ops w' = None \<and> rw_readers ops w' = rw_readers ops w"
    and unlock_reader: "rw_writer ops w \<noteq> Some t \<Longrightarrow> t \<in># rw_readers ops w \<Longrightarrow>
      \<exists>w'. rw_unlock ops t w = Returns w' \<and> rw_writer ops w' = rw_writer ops w \<and> rw_readers ops w' = rw_readers ops w - {#t#}"
    and unlock_other: "rw_writer ops w \<noteq> Some t \<Longrightarrow> t \<notin># rw_readers ops w \<Longrightarrow> rw_unlock ops t w = Undefined"

text \<open>Both on the plainest states.\<close>

definition plain_mutex :: "nat option mutex_ops" where
  "plain_mutex = \<lparr>mx_init = None, mx_lock = (\<lambda>t m. if m = None then Returns (Some t) else Waits),
     mx_trylock = (\<lambda>t m. if m = None then Some (Some t) else None),
     mx_unlock = (\<lambda>t m. if m = Some t then Returns None else Undefined), mx_owner = (\<lambda>m. m)\<rparr>"

interpretation plain_mutex: mutex plain_mutex
  by unfold_locales (auto simp: plain_mutex_def)

definition plain_rwlock :: "nat \<Rightarrow> (nat list \<times> nat option) rwlock_ops" where
  "plain_rwlock max_readers = \<lparr>rw_init = ([], None), rw_full = (\<lambda>w. max_readers \<le> length (fst w)),
     rw_rdlock = (\<lambda>t w. if snd w = Some t \<or> max_readers \<le> length (fst w) then Returns None
       else if snd w = None then Returns (Some (t # fst w, None)) else Waits),
     rw_wrlock = (\<lambda>t w. if snd w = Some t then Returns None
       else if snd w = None \<and> fst w = [] then Returns (Some ([], Some t)) else Waits),
     rw_unlock = (\<lambda>t w. if snd w = Some t then Returns (fst w, None)
       else if t \<in> set (fst w) then Returns (remove1 t (fst w), snd w) else Undefined),
     rw_readers = (\<lambda>w. mset (fst w)), rw_writer = snd\<rparr>"

interpretation plain_rwlock: rwlock "plain_rwlock n" for n
  by unfold_locales (auto simp: plain_rwlock_def split: if_splits)

section \<open>Tickets\<close>

text \<open>A ticket, with the thread that got it; \<open>tk_alive\<close> until its last shared pointer goes.\<close>

record ticket =
  tk_thread :: nat
  m_locked :: int
  tk_alive :: bool

record 'm auto_lock =
  m_lock :: 'm
  al_tickets :: "ticket list"

definition hAutoLock_new :: "'m mutex_ops \<Rightarrow> 'm auto_lock" where
  "hAutoLock_new ops = \<lparr>m_lock = mx_init ops, al_tickets = []\<rparr>"

definition hLockTicket_new :: "'m mutex_ops \<Rightarrow> nat \<Rightarrow> bool \<Rightarrow> 'm \<Rightarrow> ('m \<times> ticket) outcome" where
  "hLockTicket_new ops t locked m =
     (if \<not> locked then
        (case mx_lock ops t m of
           Returns m \<Rightarrow> Returns (m, \<lparr>tk_thread = t, m_locked = 1, tk_alive = True\<rparr>)
         | Waits \<Rightarrow> Waits
         | Undefined \<Rightarrow> Undefined)
      else Returns (m, \<lparr>tk_thread = t, m_locked = 1, tk_alive = True\<rparr>))"

text \<open>The methods of \<open>hAutoLock\<close> give the new ticket its number, or the empty pointer.\<close>

definition hAutoLock_lock :: "'m mutex_ops \<Rightarrow> nat \<Rightarrow> 'm auto_lock \<Rightarrow> (nat option \<times> 'm auto_lock) outcome" where
  "hAutoLock_lock ops t s =
     (case hLockTicket_new ops t False (m_lock s) of
        Returns (m, tk) \<Rightarrow> Returns (Some (length (al_tickets s)), s\<lparr>m_lock := m, al_tickets := al_tickets s @ [tk]\<rparr>)
      | Waits \<Rightarrow> Waits
      | Undefined \<Rightarrow> Undefined)"

definition hAutoLock_tryLock :: "'m mutex_ops \<Rightarrow> nat \<Rightarrow> 'm auto_lock \<Rightarrow> (nat option \<times> 'm auto_lock) outcome" where
  "hAutoLock_tryLock ops t s =
     (case mx_trylock ops t (m_lock s) of
        Some m \<Rightarrow>
          (case hLockTicket_new ops t True m of
             Returns (m, tk) \<Rightarrow> Returns (Some (length (al_tickets s)), s\<lparr>m_lock := m, al_tickets := al_tickets s @ [tk]\<rparr>)
           | Waits \<Rightarrow> Waits
           | Undefined \<Rightarrow> Undefined)
      | None \<Rightarrow> Returns (None, s))"

definition hLockTicket_unlock :: "'m mutex_ops \<Rightarrow> nat \<Rightarrow> nat \<Rightarrow> 'm auto_lock \<Rightarrow> 'm auto_lock outcome" where
  "hLockTicket_unlock ops t k s =
     (if m_locked (al_tickets s ! k) \<noteq> 0 then
        (case mx_unlock ops t (m_lock s) of
           Returns m \<Rightarrow> Returns (s\<lparr>m_lock := m, al_tickets := (al_tickets s)[k := (al_tickets s ! k)\<lparr>m_locked := 0\<rparr>]\<rparr>)
         | Waits \<Rightarrow> Waits
         | Undefined \<Rightarrow> Undefined)
      else Returns s)"

definition hLockTicket_delete :: "'m mutex_ops \<Rightarrow> nat \<Rightarrow> nat \<Rightarrow> 'm auto_lock \<Rightarrow> 'm auto_lock outcome" where
  "hLockTicket_delete ops t k s =
     (let dead = s\<lparr>al_tickets := (al_tickets s)[k := (al_tickets s ! k)\<lparr>tk_alive := False\<rparr>]\<rparr>
      in if m_locked (al_tickets s ! k) \<noteq> 0 then
           (case mx_unlock ops t (m_lock s) of
              Returns m \<Rightarrow> Returns (dead\<lparr>m_lock := m\<rparr>)
            | Waits \<Rightarrow> Waits
            | Undefined \<Rightarrow> Undefined)
         else Returns dead)"

text \<open>\<open>hLock\<close> adds nothing to the mutex.\<close>

definition hLock_lock :: "'m mutex_ops \<Rightarrow> nat \<Rightarrow> 'm \<Rightarrow> 'm outcome" where
  "hLock_lock ops t m = mx_lock ops t m"

definition hLock_trylock :: "'m mutex_ops \<Rightarrow> nat \<Rightarrow> 'm \<Rightarrow> bool \<times> 'm" where
  "hLock_trylock ops t m = (case mx_trylock ops t m of Some m' \<Rightarrow> (True, m') | None \<Rightarrow> (False, m))"

definition hLock_unlock :: "'m mutex_ops \<Rightarrow> nat \<Rightarrow> 'm \<Rightarrow> 'm outcome" where
  "hLock_unlock ops t m = mx_unlock ops t m"

text \<open>
  What threads do with an \<open>hAutoLock\<close>: a thread uses the tickets it got, until it drops them. A
  call that waits is not made yet; \<open>None\<close>: the step is not one that this thread can take now.
\<close>

datatype lock_call = CallLock | CallTryLock | CallUnlock nat | CallDelete nat

definition usable :: "nat \<Rightarrow> nat \<Rightarrow> 'm auto_lock \<Rightarrow> bool" where
  "usable t k s \<longleftrightarrow> k < length (al_tickets s) \<and> tk_alive (al_tickets s ! k) \<and> tk_thread (al_tickets s ! k) = t"

fun map_outcome :: "('a \<Rightarrow> 'b) \<Rightarrow> 'a outcome \<Rightarrow> 'b outcome" where
  "map_outcome f (Returns x) = Returns (f x)"
| "map_outcome f Waits = Waits"
| "map_outcome f Undefined = Undefined"

fun lock_step :: "'m mutex_ops \<Rightarrow> nat \<times> lock_call \<Rightarrow> 'm auto_lock \<Rightarrow> 'm auto_lock outcome" where
  "lock_step ops (t, CallLock) s = map_outcome snd (hAutoLock_lock ops t s)"
| "lock_step ops (t, CallTryLock) s = map_outcome snd (hAutoLock_tryLock ops t s)"
| "lock_step ops (t, CallUnlock k) s = (if usable t k s then hLockTicket_unlock ops t k s else Waits)"
| "lock_step ops (t, CallDelete k) s = (if usable t k s then hLockTicket_delete ops t k s else Waits)"

text \<open>Steps that wait are tried again later: they change nothing.\<close>

fun lock_run :: "'m mutex_ops \<Rightarrow> (nat \<times> lock_call) list \<Rightarrow> 'm auto_lock \<Rightarrow> 'm auto_lock outcome" where
  "lock_run ops [] s = Returns s"
| "lock_run ops (e # es) s =
     (case lock_step ops e s of
        Returns s' \<Rightarrow> lock_run ops es s'
      | Waits \<Rightarrow> lock_run ops es s
      | Undefined \<Rightarrow> Undefined)"

text \<open>The tickets that hold the mutex.\<close>

definition holding :: "'m auto_lock \<Rightarrow> ticket list" where
  "holding s = filter (\<lambda>tk. tk_alive tk \<and> m_locked tk \<noteq> 0) (al_tickets s)"

definition auto_ok :: "'m mutex_ops \<Rightarrow> 'm auto_lock \<Rightarrow> bool" where
  "auto_ok ops s \<longleftrightarrow>
     (case mx_owner ops (m_lock s) of
        None \<Rightarrow> holding s = []
      | Some t \<Rightarrow> map tk_thread (holding s) = [t])"

lemma filter_update_out:
  "k < length xs \<Longrightarrow> P (xs ! k) \<Longrightarrow> \<not> P y \<Longrightarrow> length (filter P xs) \<le> 1 \<Longrightarrow> filter P (xs[k := y]) = []"
proof (induction xs arbitrary: k)
  case (Cons x xs)
  show ?case
  proof (cases k)
    case 0
    then have "filter P xs = []"
      using Cons.prems(2,4) by simp
    then show ?thesis
      using 0 Cons.prems(3) by simp
  next
    case (Suc k')
    then have k': "k' < length xs" "P (xs ! k')"
      using Cons.prems(1,2) by simp_all
    then have "filter P xs \<noteq> []"
      by (auto simp: filter_empty_conv)
    then have "\<not> P x"
      using Cons.prems(4) by (cases "filter P xs") auto
    then show ?thesis
      using Cons.IH [OF k' Cons.prems(3)] Cons.prems(4) Suc by simp
  qed
qed simp

lemma filter_update_same: "\<not> P (xs ! k) \<Longrightarrow> \<not> P y \<Longrightarrow> filter P (xs[k := y]) = filter P xs"
proof (induction xs arbitrary: k)
  case (Cons x xs)
  then show ?case
    by (cases k) auto
qed simp

context mutex
begin

lemma new_ok: "auto_ok ops (hAutoLock_new ops)"
  by (simp add: auto_ok_def hAutoLock_new_def init holding_def)

lemma holder:
  assumes "auto_ok ops s" "usable t k s" "m_locked (al_tickets s ! k) \<noteq> 0"
  shows "mx_owner ops (m_lock s) = Some t" "length (holding s) \<le> 1"
proof -
  have "al_tickets s ! k \<in> set (holding s)"
    using assms(2,3) by (simp add: holding_def usable_def)
  then show "mx_owner ops (m_lock s) = Some t" "length (holding s) \<le> 1"
    using assms(1,2) by (auto simp: auto_ok_def usable_def map_eq_Cons_conv split: option.splits)
qed

lemma step_ok:
  assumes ok: "auto_ok ops s"
  shows "lock_step ops e s \<noteq> Undefined \<and> (\<forall>s'. lock_step ops e s = Returns s' \<longrightarrow> auto_ok ops s')"
proof -
  obtain t call where e: "e = (t, call)"
    by (cases e)
  show ?thesis
  proof (cases call)
    case CallLock
    then show ?thesis
      using e ok lock_free [of "m_lock s" t] lock_held [of "m_lock s" t]
      by (cases "mx_owner ops (m_lock s)") (auto simp: hAutoLock_lock_def hLockTicket_new_def auto_ok_def holding_def)
  next
    case CallTryLock
    then show ?thesis
      using e ok trylock_free [of "m_lock s" t] trylock_held [of "m_lock s" t]
      by (cases "mx_owner ops (m_lock s)") (auto simp: hAutoLock_tryLock_def hLockTicket_new_def auto_ok_def holding_def)
  next
    case (CallUnlock k)
    show ?thesis
    proof (cases "usable t k s \<and> m_locked (al_tickets s ! k) \<noteq> 0")
      case True
      then obtain m where m: "mx_unlock ops t (m_lock s) = Returns m" "mx_owner ops m = None"
        using unlock_own holder(1) [OF ok] by blast
      have "filter (\<lambda>tk. tk_alive tk \<and> m_locked tk \<noteq> 0) ((al_tickets s)[k := (al_tickets s ! k)\<lparr>m_locked := 0\<rparr>]) = []"
        using True holder(2) [OF ok] by (intro filter_update_out) (auto simp: usable_def holding_def)
      then show ?thesis
        using True m e CallUnlock by (simp add: hLockTicket_unlock_def auto_ok_def holding_def)
    qed (use e ok CallUnlock in \<open>auto simp: hLockTicket_unlock_def\<close>)
  next
    case (CallDelete k)
    show ?thesis
    proof (cases "usable t k s \<and> m_locked (al_tickets s ! k) \<noteq> 0")
      case True
      then obtain m where m: "mx_unlock ops t (m_lock s) = Returns m" "mx_owner ops m = None"
        using unlock_own holder(1) [OF ok] by blast
      have "filter (\<lambda>tk. tk_alive tk \<and> m_locked tk \<noteq> 0) ((al_tickets s)[k := (al_tickets s ! k)\<lparr>tk_alive := False\<rparr>]) = []"
        using True holder(2) [OF ok] by (intro filter_update_out) (auto simp: usable_def holding_def)
      then show ?thesis
        using True m e CallDelete by (simp add: hLockTicket_delete_def auto_ok_def holding_def Let_def)
    next
      case False
      then have "filter (\<lambda>tk. tk_alive tk \<and> m_locked tk \<noteq> 0) ((al_tickets s)[k := (al_tickets s ! k)\<lparr>tk_alive := False\<rparr>]) = holding s"
        if "usable t k s"
        unfolding holding_def using that by (intro filter_update_same) auto
      then show ?thesis
        using False e ok CallDelete
        by (auto simp: hLockTicket_delete_def auto_ok_def holding_def Let_def split: option.splits)
    qed
  qed
qed

lemma run_ok: "auto_ok ops s \<Longrightarrow> \<exists>s'. lock_run ops es s = Returns s' \<and> auto_ok ops s'"
proof (induction es arbitrary: s)
  case (Cons e es)
  then show ?case
    using step_ok [OF Cons.prems, of e] by (cases "lock_step ops e s") auto
qed simp

end

text \<open>
  C17: an \<open>hAutoLock\<close> excludes: whatever the threads do with their tickets, at most one ticket
  holds the mutex, and then the mutex is owned by the thread of that ticket; with no such
  ticket the mutex is free; no ticket unlocks what is not locked, however often \<open>unlock\<close> is
  called before it is dropped.
\<close>

theorem auto_lock_excludes:
  assumes "mutex ops"
  shows "\<exists>s. lock_run ops es (hAutoLock_new ops) = Returns s \<and> length (holding s) \<le> 1 \<and>
    (mx_owner ops (m_lock s) = (case holding s of [] \<Rightarrow> None | tk # _ \<Rightarrow> Some (tk_thread tk)))"
proof -
  obtain s where s: "lock_run ops es (hAutoLock_new ops) = Returns s" "auto_ok ops s"
    using mutex.run_ok [OF assms mutex.new_ok [OF assms], of es] by blast
  then show ?thesis
    by (intro exI [of _ s]) (auto simp: auto_ok_def split: option.splits list.splits)
qed

theorem auto_lock_excludes_witness:
  "\<exists>s. lock_run plain_mutex [(1, CallLock), (2, CallTryLock), (2, CallLock), (1, CallUnlock 0), (2, CallLock), (1, CallDelete 0)]
     (hAutoLock_new plain_mutex) = Returns s \<and> length (holding s) \<le> 1"
  using auto_lock_excludes [OF plain_mutex.mutex_axioms, of "[(1, CallLock), (2, CallTryLock), (2, CallLock), (1, CallUnlock 0), (2, CallLock), (1, CallDelete 0)]"]
  by blast

section \<open>The read-write lock\<close>

text \<open>
  A guard, with the thread that made it; \<open>rg_locked\<close> is \<^verbatim>\<open>m_locked\<close> of a write guard, and of no
  meaning for a read guard, which has no such member.
\<close>

record rw_guard =
  rg_thread :: nat
  rg_write :: bool
  rg_locked :: int
  rg_alive :: bool

text \<open>The constructors ignore the error: the guard is made, and the lock stays as it is.\<close>

record 'w rw_sys =
  rw_lock :: 'w
  rw_guards :: "rw_guard list"

definition hRWLock_new :: "'w rwlock_ops \<Rightarrow> 'w rw_sys" where
  "hRWLock_new ops = \<lparr>rw_lock = rw_init ops, rw_guards = []\<rparr>"

definition hRWLock_read :: "'w rwlock_ops \<Rightarrow> nat \<Rightarrow> 'w rw_sys \<Rightarrow> 'w rw_sys outcome" where
  "hRWLock_read ops t s = map_outcome (\<lambda>r. s\<lparr>rw_lock := (case r of Some w \<Rightarrow> w | None \<Rightarrow> rw_lock s),
     rw_guards := rw_guards s @ [\<lparr>rg_thread = t, rg_write = False, rg_locked = 0, rg_alive = True\<rparr>]\<rparr>) (rw_rdlock ops t (rw_lock s))"

definition hRWLock_write :: "'w rwlock_ops \<Rightarrow> nat \<Rightarrow> 'w rw_sys \<Rightarrow> 'w rw_sys outcome" where
  "hRWLock_write ops t s = map_outcome (\<lambda>r. s\<lparr>rw_lock := (case r of Some w \<Rightarrow> w | None \<Rightarrow> rw_lock s),
     rw_guards := rw_guards s @ [\<lparr>rg_thread = t, rg_write = True, rg_locked = 1, rg_alive = True\<rparr>]\<rparr>) (rw_wrlock ops t (rw_lock s))"

text \<open>Both copy constructors copy the members and lock nothing.\<close>

definition hRWLockGuard_copy :: "nat \<Rightarrow> 'w rw_sys \<Rightarrow> 'w rw_sys" where
  "hRWLockGuard_copy k s = s\<lparr>rw_guards := rw_guards s @ [rw_guards s ! k]\<rparr>"

definition hRWLockRead_delete :: "'w rwlock_ops \<Rightarrow> nat \<Rightarrow> nat \<Rightarrow> 'w rw_sys \<Rightarrow> 'w rw_sys outcome" where
  "hRWLockRead_delete ops t k s = map_outcome (\<lambda>w. s\<lparr>rw_lock := w,
     rw_guards := (rw_guards s)[k := (rw_guards s ! k)\<lparr>rg_alive := False\<rparr>]\<rparr>) (rw_unlock ops t (rw_lock s))"

definition hRWLockRead_unlock :: "'w rwlock_ops \<Rightarrow> nat \<Rightarrow> nat \<Rightarrow> 'w rw_sys \<Rightarrow> 'w rw_sys outcome" where
  "hRWLockRead_unlock ops t k s = map_outcome (\<lambda>w. s\<lparr>rw_lock := w\<rparr>) (rw_unlock ops t (rw_lock s))"

definition hRWLockWrite_delete :: "'w rwlock_ops \<Rightarrow> nat \<Rightarrow> nat \<Rightarrow> 'w rw_sys \<Rightarrow> 'w rw_sys outcome" where
  "hRWLockWrite_delete ops t k s =
     (let dead = s\<lparr>rw_guards := (rw_guards s)[k := (rw_guards s ! k)\<lparr>rg_alive := False\<rparr>]\<rparr>
      in if rg_locked (rw_guards s ! k) \<noteq> 0 then map_outcome (\<lambda>w. dead\<lparr>rw_lock := w\<rparr>) (rw_unlock ops t (rw_lock s))
         else Returns dead)"

definition hRWLockWrite_unlock :: "'w rwlock_ops \<Rightarrow> nat \<Rightarrow> nat \<Rightarrow> 'w rw_sys \<Rightarrow> 'w rw_sys outcome" where
  "hRWLockWrite_unlock ops t k s = map_outcome (\<lambda>w. s\<lparr>rw_lock := w,
     rw_guards := (rw_guards s)[k := (rw_guards s ! k)\<lparr>rg_locked := 0\<rparr>]\<rparr>) (rw_unlock ops t (rw_lock s))"

datatype rw_call = CallRead | CallWrite | CallCopy nat | CallRwUnlock nat | CallRwDelete nat

definition rw_usable :: "nat \<Rightarrow> nat \<Rightarrow> 'w rw_sys \<Rightarrow> bool" where
  "rw_usable t k s \<longleftrightarrow> k < length (rw_guards s) \<and> rg_alive (rw_guards s ! k) \<and> rg_thread (rw_guards s ! k) = t"

fun rw_step :: "'w rwlock_ops \<Rightarrow> nat \<times> rw_call \<Rightarrow> 'w rw_sys \<Rightarrow> 'w rw_sys outcome" where
  "rw_step ops (t, CallRead) s = hRWLock_read ops t s"
| "rw_step ops (t, CallWrite) s = hRWLock_write ops t s"
| "rw_step ops (t, CallCopy k) s = (if rw_usable t k s then Returns (hRWLockGuard_copy k s) else Waits)"
| "rw_step ops (t, CallRwUnlock k) s =
     (if rw_usable t k s then
        (if rg_write (rw_guards s ! k) then hRWLockWrite_unlock ops t k s else hRWLockRead_unlock ops t k s)
      else Waits)"
| "rw_step ops (t, CallRwDelete k) s =
     (if rw_usable t k s then
        (if rg_write (rw_guards s ! k) then hRWLockWrite_delete ops t k s else hRWLockRead_delete ops t k s)
      else Waits)"

fun rw_run :: "'w rwlock_ops \<Rightarrow> (nat \<times> rw_call) list \<Rightarrow> 'w rw_sys \<Rightarrow> 'w rw_sys outcome" where
  "rw_run ops [] s = Returns s"
| "rw_run ops (e # es) s =
     (case rw_step ops e s of
        Returns s' \<Rightarrow> rw_run ops es s'
      | Waits \<Rightarrow> rw_run ops es s
      | Undefined \<Rightarrow> Undefined)"

text \<open>The threads of the guards that read, and of those that write.\<close>

definition reading :: "'w rw_sys \<Rightarrow> nat multiset" where
  "reading s = mset (map rg_thread (filter (\<lambda>g. rg_alive g \<and> \<not> rg_write g) (rw_guards s)))"

definition writing :: "'w rw_sys \<Rightarrow> nat multiset" where
  "writing s = mset (map rg_thread (filter (\<lambda>g. rg_alive g \<and> rg_write g \<and> rg_locked g \<noteq> 0) (rw_guards s)))"

text \<open>
  The lock has what the guards hold. Within the rules a thread does not read while it writes, nor
  write while it has a guard, nor read when the lock has no room for a reader; unlocking a write
  guard by hand is within them, once.
\<close>

definition rw_ok :: "'w rwlock_ops \<Rightarrow> 'w rw_sys \<Rightarrow> bool" where
  "rw_ok ops s \<longleftrightarrow> rw_readers ops (rw_lock s) = reading s \<and> writing s = (case rw_writer ops (rw_lock s) of None \<Rightarrow> {#} | Some t \<Rightarrow> {#t#}) \<and>
     (rw_writer ops (rw_lock s) \<noteq> None \<longrightarrow> reading s = {#})"

definition by_the_rules :: "'w rwlock_ops \<Rightarrow> nat \<times> rw_call \<Rightarrow> 'w rw_sys \<Rightarrow> bool" where
  "by_the_rules ops e s \<longleftrightarrow>
     (case snd e of
        CallRead \<Rightarrow> fst e \<notin># writing s \<and> \<not> rw_full ops (rw_lock s)
      | CallWrite \<Rightarrow> fst e \<notin># writing s \<and> fst e \<notin># reading s
      | CallCopy k \<Rightarrow> False
      | CallRwUnlock k \<Rightarrow> rg_write (rw_guards s ! k) \<and> rg_locked (rw_guards s ! k) \<noteq> 0
      | _ \<Rightarrow> True)"

fun rules_kept :: "'w rwlock_ops \<Rightarrow> (nat \<times> rw_call) list \<Rightarrow> 'w rw_sys \<Rightarrow> bool" where
  "rules_kept ops [] s = True"
| "rules_kept ops (e # es) s =
     (by_the_rules ops e s \<and>
      (case rw_step ops e s of Returns s' \<Rightarrow> rules_kept ops es s' | Waits \<Rightarrow> rules_kept ops es s | Undefined \<Rightarrow> True))"

lemma mset_filter_update:
  "k < length xs \<Longrightarrow> \<not> P y \<Longrightarrow>
    mset (map f (filter P xs)) = (if P (xs ! k) then {#f (xs ! k)#} else {#}) + mset (map f (filter P (xs[k := y])))"
proof (induction xs arbitrary: k)
  case (Cons x xs)
  then show ?case
    by (cases k) auto
qed simp

lemma guard_gone:
  assumes "k < length (rw_guards s)" "rg_alive (rw_guards s ! k)"
    "g = (rw_guards s ! k)\<lparr>rg_alive := False\<rparr> \<or> rg_write (rw_guards s ! k) \<and> g = (rw_guards s ! k)\<lparr>rg_locked := 0\<rparr>"
  defines "s' w \<equiv> s\<lparr>rw_lock := w, rw_guards := (rw_guards s)[k := g]\<rparr>"
  shows "reading s = (if rg_write (rw_guards s ! k) then {#} else {#rg_thread (rw_guards s ! k)#}) + reading (s' w)"
    "writing s = (if rg_write (rw_guards s ! k) \<and> rg_locked (rw_guards s ! k) \<noteq> 0 then {#rg_thread (rw_guards s ! k)#} else {#}) +
      writing (s' w)"
proof -
  have g: "\<not> (rg_alive g \<and> \<not> rg_write g)" "\<not> (rg_alive g \<and> rg_write g \<and> rg_locked g \<noteq> 0)"
    using assms(3) by auto
  show "reading s = (if rg_write (rw_guards s ! k) then {#} else {#rg_thread (rw_guards s ! k)#}) + reading (s' w)"
    using mset_filter_update [of k "rw_guards s" "\<lambda>g. rg_alive g \<and> \<not> rg_write g" g rg_thread, OF assms(1) g(1)] assms(2)
    by (simp add: reading_def s'_def del: mset_map mset_filter)
  show "writing s = (if rg_write (rw_guards s ! k) \<and> rg_locked (rw_guards s ! k) \<noteq> 0 then {#rg_thread (rw_guards s ! k)#} else {#}) +
      writing (s' w)"
    using mset_filter_update [of k "rw_guards s" "\<lambda>g. rg_alive g \<and> rg_write g \<and> rg_locked g \<noteq> 0" g rg_thread, OF assms(1) g(2)] assms(2)
    by (simp add: writing_def s'_def del: mset_map mset_filter)
qed

lemma guards_lock [simp]: "reading (s\<lparr>rw_lock := w\<rparr>) = reading s" "writing (s\<lparr>rw_lock := w\<rparr>) = writing s"
  by (simp_all add: reading_def writing_def)

lemma guards_swap: "s\<lparr>rw_guards := gs, rw_lock := w\<rparr> = s\<lparr>rw_lock := w, rw_guards := gs\<rparr>"
  by simp

context rwlock
begin

lemma rw_new_ok: "rw_ok ops (hRWLock_new ops)"
  by (simp add: rw_ok_def hRWLock_new_def init reading_def writing_def)

lemma map_outcome_Returns: "map_outcome f x = Returns y \<longleftrightarrow> (\<exists>z. x = Returns z \<and> y = f z)"
  by (cases x) auto

lemma map_outcome_Undefined: "map_outcome f x = Undefined \<longleftrightarrow> x = Undefined"
  by (cases x) auto

lemma delete_ok:
  assumes ok: "rw_ok ops s" and k: "rw_usable t k s" and locked: "rg_write (rw_guards s ! k) \<Longrightarrow> rg_locked (rw_guards s ! k) \<noteq> 0"
    and g: "g = (rw_guards s ! k)\<lparr>rg_alive := False\<rparr> \<or> rg_write (rw_guards s ! k) \<and> g = (rw_guards s ! k)\<lparr>rg_locked := 0\<rparr>"
  shows "\<exists>w. rw_unlock ops t (rw_lock s) = Returns w \<and> rw_ok ops (s\<lparr>rw_lock := w, rw_guards := (rw_guards s)[k := g]\<rparr>)"
proof -
  have alive: "k < length (rw_guards s)" "rg_alive (rw_guards s ! k)" and t: "rg_thread (rw_guards s ! k) = t"
    using k by (auto simp: rw_usable_def)
  note gone = guard_gone [OF alive g]
  show ?thesis
  proof (cases "rg_write (rw_guards s ! k)")
    case True
    then have w: "writing s = {#t#} + writing (s\<lparr>rw_lock := w, rw_guards := (rw_guards s)[k := g]\<rparr>)"
      "reading s = reading (s\<lparr>rw_lock := w, rw_guards := (rw_guards s)[k := g]\<rparr>)" for w
      using gone [of w] locked t by simp_all
    then have "rw_writer ops (rw_lock s) = Some t"
      using ok by (auto simp: rw_ok_def split: option.splits)
    from unlock_writer [OF this] show ?thesis
      using ok w \<open>rw_writer ops (rw_lock s) = Some t\<close> by (fastforce simp: rw_ok_def)
  next
    case False
    then have r: "reading s = {#t#} + reading (s\<lparr>rw_lock := w, rw_guards := (rw_guards s)[k := g]\<rparr>)"
      "writing s = writing (s\<lparr>rw_lock := w, rw_guards := (rw_guards s)[k := g]\<rparr>)" for w
      using gone [of w] t by simp_all
    then have "t \<in># reading s"
      by (metis add_mset_add_single union_commute union_single_eq_member)
    then have "rw_writer ops (rw_lock s) = None" "t \<in># rw_readers ops (rw_lock s)"
      using ok by (auto simp: rw_ok_def)
    then obtain w where "rw_unlock ops t (rw_lock s) = Returns w" "rw_writer ops w = None" "rw_readers ops w = rw_readers ops (rw_lock s) - {#t#}"
      using unlock_reader [of "rw_lock s" t] by auto
    then show ?thesis
      using ok r [of w] \<open>rw_writer ops (rw_lock s) = None\<close> by (auto simp: rw_ok_def)
  qed
qed

lemma rw_step_ok:
  assumes ok: "rw_ok ops s" and rules: "by_the_rules ops e s"
  shows "rw_step ops e s \<noteq> Undefined \<and> (\<forall>s'. rw_step ops e s = Returns s' \<longrightarrow> rw_ok ops s')"
proof -
  obtain t call where e: "e = (t, call)"
    by (cases e)
  show ?thesis
  proof (cases call)
    case CallRead
    then show ?thesis
      using e ok rules rdlock [of t "rw_lock s"] rdlock_error [of t "rw_lock s"] rdlock_defined [of t "rw_lock s"]
      by (cases "rw_rdlock ops t (rw_lock s)")
        (auto simp: hRWLock_read_def by_the_rules_def rw_ok_def reading_def writing_def split: option.splits)
  next
    case CallWrite
    then show ?thesis
      using e ok rules wrlock [of t "rw_lock s"] wrlock_error [of t "rw_lock s"] wrlock_defined [of t "rw_lock s"]
      by (cases "rw_wrlock ops t (rw_lock s)")
        (auto simp: hRWLock_write_def by_the_rules_def rw_ok_def reading_def writing_def split: option.splits)
  next
    case (CallRwUnlock k)
    then show ?thesis
      using e ok rules delete_ok [OF ok, of t k "(rw_guards s ! k)\<lparr>rg_locked := 0\<rparr>"]
      by (auto simp: by_the_rules_def hRWLockWrite_unlock_def)
  next
    case (CallRwDelete k)
    show ?thesis
    proof (cases "rw_usable t k s \<and> rg_write (rw_guards s ! k) \<and> rg_locked (rw_guards s ! k) = 0")
      case True
      then have "reading s = reading (s\<lparr>rw_guards := (rw_guards s)[k := (rw_guards s ! k)\<lparr>rg_alive := False\<rparr>]\<rparr>)"
        "writing s = writing (s\<lparr>rw_guards := (rw_guards s)[k := (rw_guards s ! k)\<lparr>rg_alive := False\<rparr>]\<rparr>)"
        using guard_gone [of k s "(rw_guards s ! k)\<lparr>rg_alive := False\<rparr>" "rw_lock s"] by (auto simp: rw_usable_def)
      then show ?thesis
        using True e CallRwDelete ok by (simp add: hRWLockWrite_delete_def rw_ok_def Let_def)
    next
      case False
      then show ?thesis
        using e ok CallRwDelete delete_ok [OF ok, of t k "(rw_guards s ! k)\<lparr>rg_alive := False\<rparr>"]
        by (auto simp: hRWLockWrite_delete_def hRWLockRead_delete_def Let_def guards_swap)
    qed
  qed (use e rules in \<open>simp add: by_the_rules_def\<close>)
qed

lemma rw_run_ok: "rw_ok ops s \<Longrightarrow> rules_kept ops es s \<Longrightarrow> \<exists>s'. rw_run ops es s = Returns s' \<and> rw_ok ops s'"
proof (induction es arbitrary: s)
  case (Cons e es)
  then show ?case
    using rw_step_ok [OF Cons.prems(1), of e] by (cases "rw_step ops e s") auto
qed simp

text \<open>A guard that unlocks what its thread does not hold any more.\<close>

lemma unlock_again:
  assumes "rw_unlock ops t w = Returns w'" "count (rw_readers ops w) t + (if rw_writer ops w = Some t then 1 else 0) = 1"
  shows "rw_unlock ops t w' = Undefined"
proof (cases "rw_writer ops w = Some t")
  case True
  then show ?thesis
    using unlock_writer [OF True] assms unlock_other [of w' t] by (auto simp: not_in_iff)
next
  case False
  then show ?thesis
    using unlock_reader [OF False] assms unlock_other [of w' t] by (auto simp: not_in_iff simp flip: count_greater_zero_iff)
qed

end

text \<open>
  C25: an \<open>hRWLock\<close> excludes when no thread asks for it while it has it for writing, nor for
  writing while it has it for reading, nor for reading beyond the number of readers of the
  system, when guards are not copied, and only write guards are unlocked by hand, once: nothing
  undefined happens, every guard holds the lock (no call has failed unseen), and either there is
  one guard that writes and none that reads, or none that writes.
\<close>

theorem rw_lock_excludes:
  assumes "rwlock ops" "rules_kept ops es (hRWLock_new ops)"
  shows "\<exists>s. rw_run ops es (hRWLock_new ops) = Returns s \<and> size (writing s) \<le> 1 \<and> (writing s \<noteq> {#} \<longrightarrow> reading s = {#}) \<and>
    rw_readers ops (rw_lock s) = reading s \<and> set_option (rw_writer ops (rw_lock s)) = set_mset (writing s)"
proof -
  obtain s where s: "rw_run ops es (hRWLock_new ops) = Returns s" "rw_ok ops s"
    using rwlock.rw_run_ok [OF assms(1) rwlock.rw_new_ok [OF assms(1)] assms(2)] by blast
  then show ?thesis
    by (intro exI [of _ s]) (auto simp: rw_ok_def split: option.splits)
qed

theorem rw_lock_excludes_witness:
  "\<exists>s. rw_run (plain_rwlock 10) [(1, CallRead), (2, CallWrite), (3, CallRead), (1, CallRwDelete 0), (3, CallRwDelete 1), (2, CallWrite), (2, CallRwUnlock 2), (2, CallRwDelete 2)]
     (hRWLock_new (plain_rwlock 10)) = Returns s \<and> size (writing s) \<le> 1"
proof -
  have "rules_kept (plain_rwlock 10) [(1, CallRead), (2, CallWrite), (3, CallRead), (1, CallRwDelete 0), (3, CallRwDelete 1), (2, CallWrite), (2, CallRwUnlock 2), (2, CallRwDelete 2)]
      (hRWLock_new (plain_rwlock 10))"
    by code_simp
  from rw_lock_excludes [OF plain_rwlock.rwlock_axioms this] show ?thesis
    by blast
qed

text \<open>
  without those rules the guards unlock twice: a read guard that is unlocked by hand and
  then destroyed, a write guard unlocked by hand twice, and a guard of either kind that is
  copied (as the return value of \<open>read\<close> or \<open>write\<close> may be) before both are destroyed.
\<close>

lemma rw_guards_unlock_twice:
  assumes "rwlock ops" "rules_kept ops es (hRWLock_new ops)" "rw_run ops es (hRWLock_new ops) = Returns s"
    "t \<notin># reading s" "hRWLock_read ops t s = Returns r" "hRWLock_write ops t' s = Returns w"
    "by_the_rules ops (t, CallRead) s" "by_the_rules ops (t', CallWrite) s"
  defines "k \<equiv> length (rw_guards s)"
  shows "rw_run ops [(t, CallRwUnlock k), (t, CallRwDelete k)] r = Undefined \<and>
    rw_run ops [(t, CallCopy k), (t, CallRwDelete (k + 1)), (t, CallRwDelete k)] r = Undefined \<and>
    rw_run ops [(t', CallRwUnlock k), (t', CallRwUnlock k)] w = Undefined \<and>
    rw_run ops [(t', CallCopy k), (t', CallRwDelete (k + 1)), (t', CallRwDelete k)] w = Undefined"
proof -
  have ok: "rw_ok ops s"
    using rwlock.rw_run_ok [OF assms(1) rwlock.rw_new_ok [OF assms(1)] assms(2)] assms(3) by auto
  obtain rr ww where rr: "rw_rdlock ops t (rw_lock s) = Returns rr" "r = s\<lparr>rw_lock := (case rr of Some w \<Rightarrow> w | None \<Rightarrow> rw_lock s),
      rw_guards := rw_guards s @ [\<lparr>rg_thread = t, rg_write = False, rg_locked = 0, rg_alive = True\<rparr>]\<rparr>"
    and ww: "rw_wrlock ops t' (rw_lock s) = Returns ww" "w = s\<lparr>rw_lock := (case ww of Some w \<Rightarrow> w | None \<Rightarrow> rw_lock s),
      rw_guards := rw_guards s @ [\<lparr>rg_thread = t', rg_write = True, rg_locked = 1, rg_alive = True\<rparr>]\<rparr>"
    using assms(5,6) by (auto simp: hRWLock_read_def hRWLock_write_def rwlock.map_outcome_Returns [OF assms(1)])
  have "rr \<noteq> None" "ww \<noteq> None"
    using assms(7,8) ok rwlock.rdlock_error [OF assms(1), of t "rw_lock s"] rwlock.wrlock_error [OF assms(1), of t' "rw_lock s"] rr(1) ww(1)
    by (auto simp: by_the_rules_def rw_ok_def split: option.splits)
  then obtain rl wl where r: "rw_rdlock ops t (rw_lock s) = Returns (Some rl)"
      "r = s\<lparr>rw_lock := rl, rw_guards := rw_guards s @ [\<lparr>rg_thread = t, rg_write = False, rg_locked = 0, rg_alive = True\<rparr>]\<rparr>"
    and w: "rw_wrlock ops t' (rw_lock s) = Returns (Some wl)"
      "w = s\<lparr>rw_lock := wl, rw_guards := rw_guards s @ [\<lparr>rg_thread = t', rg_write = True, rg_locked = 1, rg_alive = True\<rparr>]\<rparr>"
    using rr ww by auto
  have rl: "rw_writer ops rl = None" "rw_readers ops rl = add_mset t (rw_readers ops (rw_lock s))"
    and wl: "rw_writer ops wl = Some t'" "rw_readers ops wl = {#}"
    using rwlock.rdlock [OF assms(1) r(1)] rwlock.wrlock [OF assms(1) w(1)] by auto
  have "t \<notin># rw_readers ops (rw_lock s)"
    using ok assms(4) by (simp add: rw_ok_def)
  then obtain rl' where rl': "rw_unlock ops t rl = Returns rl'" "rw_unlock ops t rl' = Undefined"
    using rwlock.unlock_reader [OF assms(1), of rl t] rwlock.unlock_again [OF assms(1), of t rl] rl by (auto simp: not_in_iff)
  obtain wl' where wl': "rw_unlock ops t' wl = Returns wl'" "rw_unlock ops t' wl' = Undefined"
    using rwlock.unlock_writer [OF assms(1) wl(1)] rwlock.unlock_again [OF assms(1), of t' wl] wl by auto
  show ?thesis
    using rl' wl' unfolding r(2) w(2) k_def
    by (simp add: rw_usable_def hRWLockRead_unlock_def hRWLockRead_delete_def hRWLockWrite_unlock_def hRWLockWrite_delete_def
        hRWLockGuard_copy_def nth_append)
qed

lemma rw_guards_unlock_twice_witness:
  "rw_run (plain_rwlock 10) [(1, CallRwUnlock 0), (1, CallRwDelete 0)]
     ((hRWLock_new (plain_rwlock 10))\<lparr>rw_lock := ([1], None), rw_guards := [\<lparr>rg_thread = 1, rg_write = False, rg_locked = 0, rg_alive = True\<rparr>]\<rparr>) = Undefined"
proof -
  let ?r = "(hRWLock_new (plain_rwlock 10))\<lparr>rw_lock := ([1], None), rw_guards := [\<lparr>rg_thread = 1, rg_write = False, rg_locked = 0, rg_alive = True\<rparr>]\<rparr>"
  let ?w = "(hRWLock_new (plain_rwlock 10))\<lparr>rw_lock := ([], Some 1), rw_guards := [\<lparr>rg_thread = 1, rg_write = True, rg_locked = 1, rg_alive = True\<rparr>]\<rparr>"
  have "hRWLock_read (plain_rwlock 10) 1 (hRWLock_new (plain_rwlock 10)) = Returns ?r" "hRWLock_write (plain_rwlock 10) 1 (hRWLock_new (plain_rwlock 10)) = Returns ?w"
    by (simp_all add: hRWLock_read_def hRWLock_write_def hRWLock_new_def plain_rwlock_def)
  from rw_guards_unlock_twice [OF plain_rwlock.rwlock_axioms, of 10 "[]", OF _ _ _ this] show ?thesis
    by (simp add: hRWLock_new_def reading_def writing_def by_the_rules_def plain_rwlock_def)
qed

text \<open>
  Nor is a writer alone that asks for reading as well: the call fails, which nobody sees, and when
  the read guard is destroyed it releases the lock of the write guard.
\<close>

lemma rw_read_while_writing:
  assumes "rwlock ops" "rules_kept ops es (hRWLock_new ops)" "rw_run ops es (hRWLock_new ops) = Returns s"
    "t \<in># writing s" "rw_rdlock ops t (rw_lock s) = Returns None"
  shows "\<exists>r d. hRWLock_read ops t s = Returns r \<and> t \<in># reading r \<and> t \<in># writing r \<and>
    hRWLockRead_delete ops t (length (rw_guards s)) r = Returns d \<and> t \<in># writing d \<and> rw_writer ops (rw_lock d) = None"
proof -
  have ok: "rw_ok ops s"
    using rwlock.rw_run_ok [OF assms(1) rwlock.rw_new_ok [OF assms(1)] assms(2)] assms(3) by auto
  then have "rw_writer ops (rw_lock s) = Some t"
    using assms(4) by (auto simp: rw_ok_def split: option.splits)
  from rwlock.unlock_writer [OF assms(1) this] obtain w where w: "rw_unlock ops t (rw_lock s) = Returns w" "rw_writer ops w = None"
    by blast
  let ?g = "\<lparr>rg_thread = t, rg_write = False, rg_locked = 0, rg_alive = True\<rparr>"
  let ?r = "s\<lparr>rw_guards := rw_guards s @ [?g]\<rparr>"
    and ?d = "s\<lparr>rw_lock := w, rw_guards := rw_guards s @ [?g\<lparr>rg_alive := False\<rparr>]\<rparr>"
  have "hRWLock_read ops t s = Returns ?r" "hRWLockRead_delete ops t (length (rw_guards s)) ?r = Returns ?d"
    using assms(5) w(1) by (simp_all add: hRWLock_read_def hRWLockRead_delete_def)
  moreover have "reading ?r = add_mset t (reading s)" "writing ?r = writing s" "writing ?d = writing s"
    by (simp_all add: reading_def writing_def)
  ultimately show ?thesis
    using assms(4) w(2) by (intro exI [of _ ?r] exI [of _ ?d]) simp
qed

lemma rw_read_while_writing_witness:
  "\<exists>r d. hRWLock_read (plain_rwlock 10) 1 ((hRWLock_new (plain_rwlock 10))\<lparr>rw_lock := ([], Some 1),
       rw_guards := [\<lparr>rg_thread = 1, rg_write = True, rg_locked = 1, rg_alive = True\<rparr>]\<rparr>) = Returns r \<and>
     hRWLockRead_delete (plain_rwlock 10) 1 1 r = Returns d \<and> 1 \<in># writing d \<and> rw_writer (plain_rwlock 10) (rw_lock d) = None"
proof -
  let ?s = "(hRWLock_new (plain_rwlock 10))\<lparr>rw_lock := ([], Some 1),
    rw_guards := [\<lparr>rg_thread = 1, rg_write = True, rg_locked = 1, rg_alive = True\<rparr>]\<rparr>"
  have "rules_kept (plain_rwlock 10) [(1, CallWrite)] (hRWLock_new (plain_rwlock 10))"
      "rw_run (plain_rwlock 10) [(1, CallWrite)] (hRWLock_new (plain_rwlock 10)) = Returns ?s"
    by (simp_all add: by_the_rules_def hRWLock_write_def hRWLock_new_def plain_rwlock_def writing_def reading_def)
  moreover have "1 \<in># writing ?s" "rw_rdlock (plain_rwlock 10) 1 (rw_lock ?s) = Returns None" "length (rw_guards ?s) = 1"
    by (simp_all add: writing_def plain_rwlock_def)
  ultimately show ?thesis
    using rw_read_while_writing [OF plain_rwlock.rwlock_axioms, of 10 "[(1, CallWrite)]" ?s 1] by metis
qed

section \<open>The condition variable\<close>

text \<open>
  Threads in \<open>hCondWaiter::wait\<close>, and those that change the condition as the callers in the
  library do: \<open>lock\<close>, the change, \<open>unlock\<close>, \<open>kick\<close>. Each call of POSIX is a step; the one that
  waits releases the mutex and falls asleep at once.
\<close>

datatype cw_pc = CwEnter | CwTest | CwWait | CwAsleep | CwWoken | CwDestroy | CwInit | CwLeave | CwDone
  | CkLock | CkSet | CkUnlock | CkKick | CkDone

text \<open>\<open>cw_cond\<close> has the threads asleep, \<open>None\<close> when the condition variable is destroyed.\<close>

record cond_waiter =
  cw_owner :: "nat option"
  cw_cond :: "nat list option"
  cw_state_ok :: bool
  cw_pcs :: "cw_pc list"

definition hCondWaiter_new :: "cw_pc list \<Rightarrow> cond_waiter" where
  "hCondWaiter_new pcs = \<lparr>cw_owner = None, cw_cond = Some [], cw_state_ok = False, cw_pcs = pcs\<rparr>"

definition cw_goto :: "nat \<Rightarrow> cw_pc \<Rightarrow> cond_waiter \<Rightarrow> cond_waiter" where
  "cw_goto i pc s = s\<lparr>cw_pcs := (cw_pcs s)[i := pc]\<rparr>"

definition cw_take :: "nat \<Rightarrow> cw_pc \<Rightarrow> cond_waiter \<Rightarrow> cond_waiter outcome" where
  "cw_take i pc s = (if cw_owner s = None then Returns (cw_goto i pc (s\<lparr>cw_owner := Some i\<rparr>)) else Waits)"

text \<open>The methods, each with the points of the code it goes through.\<close>

definition hCondWaiter_wait :: "nat \<Rightarrow> cw_pc \<Rightarrow> cond_waiter \<Rightarrow> cond_waiter outcome" where
  "hCondWaiter_wait i pc s =
     (case pc of
        CwEnter \<Rightarrow> cw_take i CwTest s
      | CwTest \<Rightarrow> Returns (cw_goto i (if \<not> cw_state_ok s then CwWait else CwDestroy) s)
      | CwWait \<Rightarrow>
          (case cw_cond s of
             None \<Rightarrow> Undefined
           | Some ts \<Rightarrow> Returns (cw_goto i CwAsleep (s\<lparr>cw_owner := None, cw_cond := Some (ts @ [i])\<rparr>)))
      | CwWoken \<Rightarrow> cw_take i CwTest s
      | CwDestroy \<Rightarrow> (if cw_cond s \<noteq> Some [] then Undefined else Returns (cw_goto i CwInit (s\<lparr>cw_cond := None\<rparr>)))
      | CwInit \<Rightarrow> Returns (cw_goto i CwLeave (s\<lparr>cw_cond := Some []\<rparr>))
      | CwLeave \<Rightarrow> Returns (cw_goto i CwDone (s\<lparr>cw_owner := None\<rparr>))
      | _ \<Rightarrow> Waits)"

definition hCondWaiter_lock :: "nat \<Rightarrow> cond_waiter \<Rightarrow> cond_waiter outcome" where
  "hCondWaiter_lock i s = cw_take i CkSet s"

definition hCondWaiter_unlock :: "nat \<Rightarrow> cond_waiter \<Rightarrow> cond_waiter" where
  "hCondWaiter_unlock i s = cw_goto i CkKick (s\<lparr>cw_owner := None\<rparr>)"

text \<open>The signal wakes the sleeper at place \<open>j\<close>, if there is one.\<close>

definition hCondWaiter_kick :: "nat \<Rightarrow> nat \<Rightarrow> cond_waiter \<Rightarrow> cond_waiter outcome" where
  "hCondWaiter_kick i j s =
     (case cw_cond s of
        None \<Rightarrow> Undefined
      | Some ts \<Rightarrow>
          if ts = [] then Returns (cw_goto i CkDone s)
          else (let t = ts ! (j mod length ts)
                in Returns (cw_goto i CkDone (cw_goto t CwWoken (s\<lparr>cw_cond := Some (remove1 t ts)\<rparr>)))))"

text \<open>A step of thread \<open>i\<close>, or with \<open>Spurious\<close> a wake-up that nobody asked for.\<close>

datatype cw_event = Runs nat nat | Spurious nat

fun cw_step :: "cw_event \<Rightarrow> cond_waiter \<Rightarrow> cond_waiter outcome" where
  "cw_step (Runs i j) s =
     (if i < length (cw_pcs s) then
        (case cw_pcs s ! i of
           CkLock \<Rightarrow> hCondWaiter_lock i s
         | CkSet \<Rightarrow> Returns (cw_goto i CkUnlock (s\<lparr>cw_state_ok := True\<rparr>))
         | CkUnlock \<Rightarrow> Returns (hCondWaiter_unlock i s)
         | CkKick \<Rightarrow> hCondWaiter_kick i j s
         | CkDone \<Rightarrow> Waits
         | pc \<Rightarrow> hCondWaiter_wait i pc s)
      else Waits)"
| "cw_step (Spurious i) s =
     (case cw_cond s of
        None \<Rightarrow> Waits
      | Some ts \<Rightarrow> if i \<in> set ts then Returns (cw_goto i CwWoken (s\<lparr>cw_cond := Some (remove1 i ts)\<rparr>)) else Waits)"

fun cw_run :: "cw_event list \<Rightarrow> cond_waiter \<Rightarrow> cond_waiter outcome" where
  "cw_run [] s = Returns s"
| "cw_run (e # es) s = (case cw_step e s of Returns s' \<Rightarrow> cw_run es s' | Waits \<Rightarrow> cw_run es s | Undefined \<Rightarrow> Undefined)"

text \<open>One thread waits, one changes the condition: what the state is when they are at \<open>w\<close> and \<open>k\<close>.\<close>

definition cw_at :: "cw_pc \<Rightarrow> cw_pc \<Rightarrow> cond_waiter" where
  "cw_at w k = \<lparr>cw_owner = (if w \<in> {CwTest, CwWait, CwDestroy, CwInit, CwLeave} then Some 0 else if k \<in> {CkSet, CkUnlock} then Some 1 else None),
     cw_cond = (if w = CwInit then None else if w = CwAsleep then Some [0] else Some []),
     cw_state_ok = (k \<in> {CkUnlock, CkKick, CkDone}), cw_pcs = [w, k]\<rparr>"

definition cw_valid :: "cw_pc \<Rightarrow> cw_pc \<Rightarrow> bool" where
  "cw_valid w k \<longleftrightarrow>
     (case w of
        CwEnter \<Rightarrow> k \<in> {CkLock, CkSet, CkUnlock, CkKick, CkDone}
      | CwTest \<Rightarrow> k \<in> {CkLock, CkKick, CkDone}
      | CwWait \<Rightarrow> k = CkLock
      | CwAsleep \<Rightarrow> k \<in> {CkLock, CkSet, CkUnlock, CkKick}
      | CwWoken \<Rightarrow> k \<in> {CkLock, CkSet, CkUnlock, CkKick, CkDone}
      | CwDestroy \<Rightarrow> k \<in> {CkKick, CkDone}
      | CwInit \<Rightarrow> k \<in> {CkKick, CkDone}
      | CwLeave \<Rightarrow> k \<in> {CkKick, CkDone}
      | CwDone \<Rightarrow> k \<in> {CkKick, CkDone}
      | _ \<Rightarrow> False)"

definition cw_ok :: "cond_waiter \<Rightarrow> bool" where
  "cw_ok s \<longleftrightarrow> s = cw_at (cw_pcs s ! 0) (cw_pcs s ! 1) \<and> cw_valid (cw_pcs s ! 0) (cw_pcs s ! 1)"

lemma cw_ok_new: "cw_ok (hCondWaiter_new [CwEnter, CkLock])"
  by (simp add: cw_ok_def hCondWaiter_new_def cw_at_def cw_valid_def)

lemmas cw_code = hCondWaiter_wait_def hCondWaiter_lock_def hCondWaiter_unlock_def hCondWaiter_kick_def cw_take_def cw_goto_def Let_def

lemma cw_step_waiter: "cw_valid w k \<Longrightarrow> cw_step (Runs 0 j) (cw_at w k) = Returns s' \<Longrightarrow> cw_ok s'"
  by (cases w; cases k; simp add: cw_valid_def; simp add: cw_at_def cw_code split: if_splits;
      auto simp: cw_ok_def cw_at_def cw_valid_def)

lemma cw_step_notifier: "cw_valid w k \<Longrightarrow> cw_step (Runs 1 j) (cw_at w k) = Returns s' \<Longrightarrow> cw_ok s'"
  by (cases w; cases k; simp add: cw_valid_def; simp add: cw_at_def cw_code split: if_splits;
      auto simp: cw_ok_def cw_at_def cw_valid_def)

lemma cw_step_spurious: "cw_valid w k \<Longrightarrow> cw_step (Spurious i) (cw_at w k) = Returns s' \<Longrightarrow> cw_ok s'"
  by (cases w; cases k; simp add: cw_valid_def; simp add: cw_at_def cw_code split: if_splits;
      auto simp: cw_ok_def cw_at_def cw_valid_def)

lemma cw_step_ok:
  assumes "cw_ok s" "cw_step e s = Returns s'"
  shows "cw_ok s'"
proof -
  obtain w k where s: "s = cw_at w k" "cw_valid w k"
    using assms(1) unfolding cw_ok_def by blast
  show ?thesis
  proof (cases e)
    case (Runs i j)
    then have "i = 0 \<or> i = 1"
      using assms(2) s(1) by (auto simp: cw_at_def split: if_splits)
    then show ?thesis
      using assms(2) s Runs cw_step_waiter [OF s(2), of j s'] cw_step_notifier [OF s(2), of j s'] by auto
  qed (use assms(2) s cw_step_spurious [OF s(2)] in auto)
qed

lemma cw_run_ok: "cw_ok s \<Longrightarrow> cw_run es s = Returns s' \<Longrightarrow> cw_ok s'"
  by (induction es arbitrary: s) (auto split: outcome.splits intro: cw_step_ok)

text \<open>
  no wake-up is lost: one thread waits and one changes the condition and kicks; whatever
  the order of their steps, with spurious wake-ups, when neither can take another step both
  are through.
\<close>

lemma cond_waiter_wakes:
  assumes "cw_run es (hCondWaiter_new [CwEnter, CkLock]) = Returns s" "cw_step (Runs 0 0) s = Waits" "cw_step (Runs 1 0) s = Waits"
  shows "cw_pcs s = [CwDone, CkDone]"
proof -
  have "cw_ok s"
    using cw_run_ok [OF cw_ok_new assms(1)] .
  then obtain w k where s: "s = cw_at w k" "cw_valid w k"
    unfolding cw_ok_def by blast
  then show ?thesis
    using assms(2,3) by (cases w; cases k; simp add: cw_valid_def; simp add: cw_at_def cw_code)
qed

lemma cond_waiter_wakes_witness:
  "\<exists>s. cw_run [Runs 0 0, Runs 0 0, Runs 0 0, Runs 1 0, Runs 1 0, Runs 1 0, Runs 1 0, Runs 0 0, Runs 0 0, Runs 0 0, Runs 0 0, Runs 0 0]
     (hCondWaiter_new [CwEnter, CkLock]) = Returns s \<and> cw_pcs s = [CwDone, CkDone]"
proof -
  let ?es = "[Runs 0 0, Runs 0 0, Runs 0 0, Runs 1 0, Runs 1 0, Runs 1 0, Runs 1 0, Runs 0 0, Runs 0 0, Runs 0 0, Runs 0 0, Runs 0 0]"
  have run: "cw_run ?es (hCondWaiter_new [CwEnter, CkLock]) =
      Returns \<lparr>cw_owner = None, cw_cond = Some [], cw_state_ok = True, cw_pcs = [CwDone, CkDone]\<rparr>"
    by code_simp
  show ?thesis
    using cond_waiter_wakes [OF run] run by (simp add: cw_code)
qed

text \<open>
  \<open>wait\<close> destroys the condition variable that others may use: a kick that comes after the
  mutex is released can meet the destroyed variable, with one waiter already; and with two
  waiters the first to wake destroys it under the second.
\<close>

lemma cond_waiter_destroyed_in_use:
  "cw_run [Runs 1 0, Runs 1 0, Runs 1 0, Runs 0 0, Runs 0 0, Runs 0 0, Runs 1 0] (hCondWaiter_new [CwEnter, CkLock]) = Undefined \<and>
   cw_run [Runs 0 0, Runs 0 0, Runs 0 0, Runs 1 0, Runs 1 0, Runs 1 0, Runs 2 0, Runs 2 0, Runs 2 0, Runs 2 0, Runs 0 0, Runs 0 0, Runs 0 0]
     (hCondWaiter_new [CwEnter, CwEnter, CkLock]) = Undefined"
  by code_simp

end
