(* ===== verification/RegularTask.thy ===== *)
theory RegularTask
  imports Locks
begin

text \<open>
  \<^verbatim>\<open>tools/RegularTask.cpp\<close>: a task that is run when it is checked and its period is over. Threads
  call \<open>checkRun\<close> concurrently; its steps are the \<open>tryLock\<close>, whose result it does not look at, the
  time, the test, the store, the task, and the end, where a ticket is dropped.
\<close>

section \<open>The code\<close>

datatype check_pc = CheckTry | CheckTime "nat option" | CheckTest "nat option" u64 | CheckStore "nat option" u64
  | CheckTask "nat option" u64 | CheckDrop "nat option" | CheckEnd

record 'm regular_task =
  m_last_launch_ts :: u64
  m_period :: u64
  rt_lock :: "'m auto_lock"
  rt_pcs :: "check_pc list"
  rt_launches :: "u64 list"

definition RegularTask_new :: "'m mutex_ops \<Rightarrow> u64 \<Rightarrow> check_pc list \<Rightarrow> 'm regular_task" where
  "RegularTask_new ops period pcs =
     \<lparr>m_last_launch_ts = 0, m_period = period, rt_lock = hAutoLock_new ops, rt_pcs = pcs, rt_launches = []\<rparr>"

definition check_goto :: "nat \<Rightarrow> check_pc \<Rightarrow> 'm regular_task \<Rightarrow> 'm regular_task" where
  "check_goto i pc s = s\<lparr>rt_pcs := (rt_pcs s)[i := pc]\<rparr>"

text \<open>A step of thread \<open>i\<close>, when the time is \<open>now\<close>; \<open>rt_launches\<close> has the times of the launches.\<close>

definition checkRun :: "'m mutex_ops \<Rightarrow> nat \<Rightarrow> u64 \<Rightarrow> 'm regular_task \<Rightarrow> 'm regular_task outcome" where
  "checkRun ops i now s =
     (case rt_pcs s ! i of
        CheckTry \<Rightarrow> map_outcome (\<lambda>(ticket, l). check_goto i (CheckTime ticket) (s\<lparr>rt_lock := l\<rparr>)) (hAutoLock_tryLock ops i (rt_lock s))
      | CheckTime ticket \<Rightarrow> Returns (check_goto i (CheckTest ticket now) s)
      | CheckTest ticket t \<Rightarrow>
          Returns (check_goto i (if t - m_last_launch_ts s > m_period s then CheckStore ticket t else CheckDrop ticket) s)
      | CheckStore ticket t \<Rightarrow> Returns (check_goto i (CheckTask ticket t) (s\<lparr>m_last_launch_ts := t\<rparr>))
      | CheckTask ticket t \<Rightarrow> Returns (check_goto i (CheckDrop ticket) (s\<lparr>rt_launches := rt_launches s @ [t]\<rparr>))
      | CheckDrop None \<Rightarrow> Returns (check_goto i CheckEnd s)
      | CheckDrop (Some k) \<Rightarrow> map_outcome (\<lambda>l. check_goto i CheckEnd (s\<lparr>rt_lock := l\<rparr>)) (hLockTicket_delete ops i k (rt_lock s))
      | CheckEnd \<Rightarrow> Waits)"

fun check_run :: "'m mutex_ops \<Rightarrow> (nat \<times> u64) list \<Rightarrow> 'm regular_task \<Rightarrow> 'm regular_task outcome" where
  "check_run ops [] s = Returns s"
| "check_run ops (e # es) s =
     (if fst e < length (rt_pcs s) then
        (case checkRun ops (fst e) (snd e) s of
           Returns s' \<Rightarrow> check_run ops es s'
         | Waits \<Rightarrow> check_run ops es s
         | Undefined \<Rightarrow> Undefined)
      else check_run ops es s)"

section \<open>One thread\<close>

text \<open>The launch times when one thread makes one check after the other.\<close>

fun launches :: "u64 \<Rightarrow> u64 \<Rightarrow> u64 list \<Rightarrow> u64 list" where
  "launches period lst [] = []"
| "launches period lst (now # ts) = (if now - lst > period then now # launches period now ts else launches period lst ts)"

definition check_steps :: "u64 \<Rightarrow> (nat \<times> u64) list" where
  "check_steps now = replicate 6 (0, now)"

text \<open>The lock is free between the calls.\<close>

lemma check_alone:
  assumes "mutex ops" "auto_ok ops (rt_lock s)" "holding (rt_lock s) = []" "rt_pcs s = [CheckTry]"
  shows "\<exists>s'. check_run ops (check_steps now) s = Returns s' \<and> rt_pcs s' = [CheckEnd] \<and> m_period s' = m_period s \<and>
    auto_ok ops (rt_lock s') \<and> holding (rt_lock s') = [] \<and>
    (if now - m_last_launch_ts s > m_period s
     then m_last_launch_ts s' = now \<and> rt_launches s' = rt_launches s @ [now]
     else m_last_launch_ts s' = m_last_launch_ts s \<and> rt_launches s' = rt_launches s)"
proof -
  have free: "mx_owner ops (m_lock (rt_lock s)) = None"
    using assms(2,3) by (auto simp: auto_ok_def split: option.splits)
  obtain m where m: "mx_trylock ops 0 (m_lock (rt_lock s)) = Some m" "mx_owner ops m = Some 0"
    using mutex.trylock_free [OF assms(1) free] by blast
  obtain m' where m': "mx_unlock ops 0 m = Returns m'" "mx_owner ops m' = None"
    using mutex.unlock_own [OF assms(1) m(2)] by blast
  let ?tk = "\<lparr>tk_thread = 0, m_locked = 1, tk_alive = True\<rparr>"
  have "hAutoLock_tryLock ops 0 (rt_lock s) =
      Returns (Some (length (al_tickets (rt_lock s))), (rt_lock s)\<lparr>m_lock := m, al_tickets := al_tickets (rt_lock s) @ [?tk]\<rparr>)"
    by (simp add: hAutoLock_tryLock_def hLockTicket_new_def m)
  moreover have "hLockTicket_delete ops 0 (length (al_tickets (rt_lock s))) ((rt_lock s)\<lparr>m_lock := m, al_tickets := al_tickets (rt_lock s) @ [?tk]\<rparr>) =
      Returns ((rt_lock s)\<lparr>m_lock := m', al_tickets := al_tickets (rt_lock s) @ [?tk\<lparr>tk_alive := False\<rparr>]\<rparr>)" (is "_ = Returns ?l")
    by (simp add: hLockTicket_delete_def m' Let_def nth_append)
  moreover have "auto_ok ops ?l" "holding ?l = []"
    using assms(3) m'(2) by (simp_all add: auto_ok_def holding_def)
  ultimately show ?thesis
    using assms(4) by (simp add: check_steps_def checkRun_def check_goto_def numeral_eq_Suc)
qed

text \<open>A thread that checks at the times \<open>ts\<close>.\<close>

fun check_all :: "'m mutex_ops \<Rightarrow> u64 list \<Rightarrow> 'm regular_task \<Rightarrow> 'm regular_task outcome" where
  "check_all ops [] s = Returns s"
| "check_all ops (now # ts) s =
     (case check_run ops (check_steps now) (s\<lparr>rt_pcs := [CheckTry]\<rparr>) of
        Returns s' \<Rightarrow> check_all ops ts s'
      | Waits \<Rightarrow> Waits
      | Undefined \<Rightarrow> Undefined)"

lemma check_all_launches:
  assumes "mutex ops" "auto_ok ops (rt_lock s)" "holding (rt_lock s) = []"
  shows "\<exists>s'. check_all ops ts s = Returns s' \<and> rt_launches s' = rt_launches s @ launches (m_period s) (m_last_launch_ts s) ts"
  using assms(2,3)
proof (induction ts arbitrary: s)
  case (Cons now ts)
  obtain s' where s': "check_run ops (check_steps now) (s\<lparr>rt_pcs := [CheckTry]\<rparr>) = Returns s'" "m_period s' = m_period s"
    "auto_ok ops (rt_lock s')" "holding (rt_lock s') = []"
    "if now - m_last_launch_ts s > m_period s then m_last_launch_ts s' = now \<and> rt_launches s' = rt_launches s @ [now]
     else m_last_launch_ts s' = m_last_launch_ts s \<and> rt_launches s' = rt_launches s"
    using check_alone [OF assms(1), of "s\<lparr>rt_pcs := [CheckTry]\<rparr>" now] Cons.prems by auto
  show ?case
    using Cons.IH [OF s'(3,4)] s' by (auto split: if_splits)
qed simp

lemma launches_after: "sorted (map unat (lst # ts)) \<Longrightarrow> l \<in> set (launches period lst ts) \<Longrightarrow> unat lst + unat period < unat l"
proof (induction ts arbitrary: lst)
  case (Cons now ts)
  have le: "lst \<le> now"
    using Cons.prems(1) by (simp add: word_le_nat_alt)
  then have "unat (now - lst) = unat now - unat lst"
    by (rule unat_sub)
  then have diff: "now - lst > period \<longleftrightarrow> unat lst + unat period < unat now"
    by (auto simp: word_less_nat_alt)
  have "unat lst \<le> unat now" "sorted (map unat (now # ts))" "sorted (map unat (lst # ts))"
    using Cons.prems(1) by auto
  then show ?case
    using Cons.IH [of now] Cons.IH [of lst] Cons.prems(2) diff by (fastforce split: if_splits)
qed simp

lemma launches_sorted: "sorted (map unat (lst # ts)) \<Longrightarrow>
    sorted_wrt (\<lambda>a b. unat a + unat period < unat b) (launches period lst ts)"
proof (induction ts arbitrary: lst)
  case (Cons now ts)
  have "sorted (map unat (now # ts))" "sorted (map unat (lst # ts))"
    using Cons.prems by auto
  then show ?case
    using Cons.IH [of now] Cons.IH [of lst] launches_after [of now ts] by auto
qed simp

lemma launches_often:
  "sorted (map unat (lst # ts)) \<Longrightarrow> t \<in> set ts \<Longrightarrow>
    \<exists>l \<in> insert lst (set (launches period lst ts)). unat l \<le> unat t \<and> unat t \<le> unat l + unat period"
proof (induction ts arbitrary: lst)
  case (Cons now ts)
  have le: "lst \<le> now"
    using Cons.prems(1) by (simp add: word_le_nat_alt)
  then have "unat (now - lst) = unat now - unat lst"
    by (rule unat_sub)
  then have diff: "now - lst > period \<longleftrightarrow> unat lst + unat period < unat now"
    by (auto simp: word_less_nat_alt)
  have s: "sorted (map unat (now # ts))" "sorted (map unat (lst # ts))" "unat lst \<le> unat now"
    using Cons.prems(1) by auto
  show ?case
  proof (cases "t = now")
    case True
    then show ?thesis
      using s(3) diff by (cases "now - lst > period") auto
  next
    case False
    then have "t \<in> set ts"
      using Cons.prems(2) by simp
    then show ?thesis
      using Cons.IH [OF s(1)] Cons.IH [OF s(2)] by (cases "now - lst > period") auto
  qed
qed simp

text \<open>
  a thread that checks at times that do not go back launches the task with more than the
  period between two launches, and is never further than the period behind: at each check the
  last launch, or the start of the epoch, is at most the period ago.
\<close>

lemma regular_task_period:
  assumes "mutex ops" "sorted (map unat ts)"
  shows "\<exists>s. check_all ops ts (RegularTask_new ops period []) = Returns s \<and>
    sorted_wrt (\<lambda>a b. unat a + unat period < unat b) (rt_launches s) \<and>
    (\<forall>t \<in> set ts. \<exists>l \<in> insert 0 (set (rt_launches s)). unat l \<le> unat t \<and> unat t \<le> unat l + unat period)"
proof -
  have "sorted (map unat (0 # ts))"
    using assms(2) by simp
  moreover obtain s where "check_all ops ts (RegularTask_new ops period []) = Returns s" "rt_launches s = launches period 0 ts"
    using check_all_launches [OF assms(1), of "RegularTask_new ops period []" ts] mutex.new_ok [OF assms(1)]
    by (auto simp: RegularTask_new_def holding_def hAutoLock_new_def)
  ultimately show ?thesis
    using launches_sorted [of 0 ts period] launches_often [of 0 ts _ period] by auto
qed

lemma regular_task_period_witness:
  "\<exists>s. check_all plain_mutex [100, 105, 111, 111, 130] (RegularTask_new plain_mutex 10 []) = Returns s \<and>
     sorted_wrt (\<lambda>a b. unat a + 10 < unat b) (rt_launches s)"
  using regular_task_period [OF plain_mutex.mutex_axioms, of "[100, 105, 111, 111, 130]" 10] by auto

section \<open>Two threads\<close>

text \<open>
  two threads run the task at the same time: the second does not get the lock and goes on all
  the same, and both have tested the time before either has stored it.
\<close>

lemma regular_task_overlaps:
  "map_outcome rt_pcs (check_run plain_mutex [(0, 100), (1, 100), (0, 100), (1, 100), (0, 100), (1, 100), (0, 100), (1, 100)]
     (RegularTask_new plain_mutex 10 [CheckTry, CheckTry])) = Returns [CheckTask (Some 0) 100, CheckTask None 100]"
  by code_simp

text \<open>When the clock goes back by a second the unsigned difference is larger than any usual period.\<close>

lemma clock_back_launches: "period < - 1 \<Longrightarrow> launches period 100 [99] = [99]"
  by simp

end
