(* ===== verification/LoadConf.thy ===== *)
theory LoadConf
  imports StringUtils
begin

text \<open>
  \<^verbatim>\<open>loadconf/loadconf.cpp\<close>: a configuration file is read, references to the environment in it are
  replaced, and it is parsed as JSON, from which the parameters are taken. The file system, the
  environment and the JSON library are parameters.
\<close>

section \<open>The code\<close>

text \<open>What is thrown: a string, or anything else.\<close>

datatype conf_exn = StringExn string | OtherExn

text \<open>\<open>None\<close>: the file cannot be opened; \<^verbatim>\<open>errno\<close> is thrown, a number.\<close>

definition getFileContents :: "(string \<Rightarrow> string option) \<Rightarrow> string \<Rightarrow> conf_exn + string" where
  "getFileContents files filename = (case files filename of None \<Rightarrow> Inl OtherExn | Some contents \<Rightarrow> Inr contents)"

definition find_from :: "char \<Rightarrow> string \<Rightarrow> nat \<Rightarrow> nat option" where
  "find_from c s pos = map_option (\<lambda>i. pos + i) (str_find c (drop pos s))"

lemma find_from_bounds: "find_from c s pos = Some i \<Longrightarrow> pos \<le> i \<and> i < length s"
  using str_find_less [of c "drop pos s"] by (auto simp: find_from_def)

text \<open>
  The loop over the dollar signs: the position of the next, the place after the last brace and
  what is written so far. A name whose length is less than zero is the rest of the text.
\<close>

function env_loop :: "(string \<Rightarrow> string option) \<Rightarrow> string \<Rightarrow> nat option \<Rightarrow> nat \<Rightarrow> string \<Rightarrow> conf_exn + nat \<times> string" where
  "env_loop getenv text None prev_close ret = Inr (prev_close, ret)"
| "env_loop getenv text (Some doll_pos) prev_close ret =
     (case find_from CHR ''}'' text doll_pos of
        None \<Rightarrow> Inl (StringExn ''LoadConf::replaceEnvParams '}' not found'')
      | Some close_pos \<Rightarrow>
          (let var = substr text (doll_pos + 2) (if close_pos < doll_pos + 2 then length text else close_pos - doll_pos - 2);
               ret = ret @ substr text prev_close (doll_pos - prev_close)
           in case getenv (cstr var) of
                None \<Rightarrow> Inl (StringExn (''LoadConf::replaceEnvParams variable '' @ var @ '' not set''))
              | Some v \<Rightarrow> env_loop getenv text (find_from CHR ''$'' text (close_pos + 1)) (close_pos + 1) (ret @ v)))"
  by pat_completeness auto
termination
proof (relation "measure (\<lambda>(_, text, d, _, _). case d of None \<Rightarrow> 0 | Some d \<Rightarrow> Suc (length text) - d)", goal_cases)
  case (2 getenv s doll_pos prev_close ret close_pos var r v)
  then show ?case
    using find_from_bounds [of "CHR ''}''" s doll_pos close_pos] find_from_bounds [of "CHR ''$''" s "close_pos + 1"]
    by (cases "find_from CHR ''$'' s (close_pos + 1)") fastforce+
qed simp

definition replaceEnvParams :: "(string \<Rightarrow> string option) \<Rightarrow> string \<Rightarrow> conf_exn + string" where
  "replaceEnvParams getenv text =
     (case env_loop getenv text (find_from CHR ''$'' text 0) 0 [] of
        Inl e \<Rightarrow> Inl e
      | Inr (prev_close, ret) \<Rightarrow> Inr (ret @ substr text prev_close (length text - prev_close - 1)))"

text \<open>
  The JSON library: parsing, the member of a value (\<open>None\<close>: it throws, since the value has no
  members), whether a value is a string, and its conversion (\<open>None\<close>: it throws).
\<close>

record 'j json_ops =
  js_parse :: "string \<Rightarrow> 'j option"
  js_member :: "'j \<Rightarrow> string \<Rightarrow> 'j option"
  js_is_string :: "'j \<Rightarrow> bool"
  js_asString :: "'j \<Rightarrow> string option"

type_synonym conf_params = "(string, string) omap"

definition parseFile ::
  "'j json_ops \<Rightarrow> (string \<Rightarrow> string option) \<Rightarrow> (string \<Rightarrow> string option) \<Rightarrow> string \<Rightarrow> conf_exn + 'j" where
  "parseFile js files getenv filename =
     (case (case getFileContents files filename of Inl e \<Rightarrow> Inl e | Inr content \<Rightarrow> replaceEnvParams getenv content) of
        Inl (StringExn e) \<Rightarrow> Inl (StringExn (''LoadConf::load could not parse file '' @ filename @ '' error: '' @ e))
      | Inl OtherExn \<Rightarrow> Inl (StringExn (''LoadConf::load could not open file '' @ filename))
      | Inr content \<Rightarrow>
          (case js_parse js content of
             None \<Rightarrow> Inl (StringExn (''LoadConf::load could not parse file '' @ filename))
           | Some root \<Rightarrow> Inr root))"

fun doLoadRequired :: "'j json_ops \<Rightarrow> 'j \<Rightarrow> string list \<Rightarrow> conf_params \<Rightarrow> string \<Rightarrow> conf_exn + conf_params" where
  "doLoadRequired js root [] params config_file = Inr params"
| "doLoadRequired js root (r # required) params config_file =
     (case js_member js root r of
        None \<Rightarrow> Inl OtherExn
      | Some v \<Rightarrow>
          if \<not> js_is_string js v then Inl (StringExn (''LoadConf::load '' @ config_file @ '' : '' @ r @ '' not set''))
          else (case js_asString js v of
                  None \<Rightarrow> Inl OtherExn
                | Some s \<Rightarrow> doLoadRequired js root required (om_put r s params) config_file))"

fun doLoadOptional :: "'j json_ops \<Rightarrow> 'j \<Rightarrow> string list \<Rightarrow> conf_params \<Rightarrow> conf_exn + conf_params" where
  "doLoadOptional js root [] params = Inr params"
| "doLoadOptional js root (r # optional) params =
     (case js_member js root r of
        None \<Rightarrow> Inl OtherExn
      | Some v \<Rightarrow>
          (case js_asString js v of
             None \<Rightarrow> Inl OtherExn
           | Some s \<Rightarrow> doLoadOptional js root optional (om_put r s params)))"

definition LoadConf_load_required ::
  "'j json_ops \<Rightarrow> (string \<Rightarrow> string option) \<Rightarrow> (string \<Rightarrow> string option) \<Rightarrow> string \<Rightarrow> string list \<Rightarrow> conf_exn + conf_params" where
  "LoadConf_load_required js files getenv config_file required =
     (case parseFile js files getenv config_file of
        Inl e \<Rightarrow> Inl e
      | Inr root \<Rightarrow> doLoadRequired js root required [] config_file)"

definition LoadConf_load ::
  "'j json_ops \<Rightarrow> (string \<Rightarrow> string option) \<Rightarrow> (string \<Rightarrow> string option) \<Rightarrow> string \<Rightarrow> string list \<Rightarrow> string list \<Rightarrow>
     conf_exn + conf_params" where
  "LoadConf_load js files getenv config_file required optional =
     (case parseFile js files getenv config_file of
        Inl e \<Rightarrow> Inl e
      | Inr root \<Rightarrow>
          (case doLoadRequired js root required [] config_file of
             Inl e \<Rightarrow> Inl e
           | Inr params \<Rightarrow> doLoadOptional js root optional params))"

section \<open>The environment\<close>

text \<open>A text with references to the environment, and what it means.\<close>

fun template :: "(string \<times> string) list \<Rightarrow> string" where
  "template [] = []"
| "template ((l, v) # segs) = l @ ''${'' @ v @ ''}'' @ template segs"

fun expanded :: "(string \<Rightarrow> string option) \<Rightarrow> (string \<times> string) list \<Rightarrow> string" where
  "expanded getenv [] = []"
| "expanded getenv ((l, v) # segs) = l @ the (getenv v) @ expanded getenv segs"

definition segs_ok :: "(string \<times> string) list \<Rightarrow> bool" where
  "segs_ok segs \<longleftrightarrow> list_all (\<lambda>(l, v). CHR ''$'' \<notin> set l \<and> CHR ''}'' \<notin> set v \<and> CHR 0x00 \<notin> set v) segs"

lemma find_from_append: "find_from c (pre @ s) (length pre) = map_option (\<lambda>i. length pre + i) (str_find c s)"
  by (simp add: find_from_def)

lemma str_find_in: "c \<notin> set s \<Longrightarrow> str_find c (s @ c # t) = Some (length s)"
  by (simp add: str_find_Some_iff)

lemma cstr_same: "CHR 0x00 \<notin> set v \<Longrightarrow> cstr v = v"
  by (auto simp: cstr_def takeWhile_eq_all_conv)

lemma env_loop_round:
  assumes "CHR ''$'' \<notin> set l" "CHR ''}'' \<notin> set v" "CHR 0x00 \<notin> set v"
  shows "env_loop getenv (pre @ l @ ''${'' @ v @ ''}'' @ s) (find_from CHR ''$'' (pre @ l @ ''${'' @ v @ ''}'' @ s) (length pre)) (length pre) ret =
    (case getenv v of
       None \<Rightarrow> Inl (StringExn (''LoadConf::replaceEnvParams variable '' @ v @ '' not set''))
     | Some x \<Rightarrow> env_loop getenv (pre @ l @ ''${'' @ v @ ''}'' @ s)
         (find_from CHR ''$'' (pre @ l @ ''${'' @ v @ ''}'' @ s) (length (pre @ l @ ''${'' @ v @ ''}'')))
         (length (pre @ l @ ''${'' @ v @ ''}'')) (ret @ l @ x))"
proof -
  define t where "t = pre @ l @ ''${'' @ v @ ''}'' @ s"
  define d where "d = length pre + length l"
  have doll: "find_from CHR ''$'' t (length pre) = Some d"
    using str_find_in [OF assms(1)] by (simp add: find_from_append t_def d_def)
  have "str_find CHR ''}'' (''${'' @ v @ ''}'' @ s) = Some (length v + 2)"
    using str_find_in [OF assms(2)] by simp
  then have close: "find_from CHR ''}'' t d = Some (d + 2 + length v)"
    using find_from_append [of "CHR ''}''" "pre @ l" "''${'' @ v @ ''}'' @ s"] by (simp add: t_def d_def)
  have parts: "substr t (Suc (Suc d)) (length v) = v" "substr t (length pre) (d - length pre) = l"
    by (simp_all add: substr_def t_def d_def)
  have len: "length (pre @ l @ ''${'' @ v @ ''}'') = d + 2 + length v + 1"
    by (simp add: d_def)
  show ?thesis
    unfolding t_def [symmetric] len doll env_loop.simps close option.case Let_def
    by (simp add: parts cstr_same [OF assms(3)] split: option.split)
qed

lemma env_loop_template:
  assumes "segs_ok segs" "\<forall>v \<in> snd ` set segs. getenv v \<noteq> None" "CHR ''$'' \<notin> set rest"
  shows "env_loop getenv (pre @ template segs @ rest) (find_from CHR ''$'' (pre @ template segs @ rest) (length pre)) (length pre) ret =
    Inr (length (pre @ template segs), ret @ expanded getenv segs)"
  using assms(1,2)
proof (induction segs arbitrary: pre ret)
  case Nil
  have "str_find CHR ''$'' rest = None"
    using assms(3) by (simp add: str_find_None_iff)
  then show ?case
    by (simp add: find_from_append)
next
  case (Cons seg segs)
  obtain l v where seg: "seg = (l, v)"
    by (cases seg)
  obtain x where x: "getenv v = Some x"
    using Cons.prems(2) seg by auto
  have "CHR ''$'' \<notin> set l" "CHR ''}'' \<notin> set v" "CHR 0x00 \<notin> set v"
    using Cons.prems(1) seg by (simp_all add: segs_ok_def)
  note round = env_loop_round [OF this, of getenv pre "template segs @ rest" ret]
  show ?case
    using Cons.IH [of "pre @ l @ ''${'' @ v @ ''}''" "ret @ l @ x"] Cons.prems round
    by (simp add: seg x segs_ok_def)
qed

lemma replaceEnvParams_template:
  assumes "segs_ok segs" "\<forall>v \<in> snd ` set segs. getenv v \<noteq> None" "CHR ''$'' \<notin> set rest"
  shows "replaceEnvParams getenv (template segs @ rest) = Inr (expanded getenv segs @ butlast rest)"
  using env_loop_template [OF assms, of "[]" "[]"] by (simp add: replaceEnvParams_def substr_def butlast_conv_take)

text \<open>
  every reference to a variable is replaced by its value, and the rest of the text is kept,
  but for its last character, which is lost when it is not part of a reference.
\<close>

lemma env_params_replaced:
  assumes "segs_ok segs" "\<forall>v \<in> snd ` set segs. getenv v \<noteq> None" "CHR ''$'' \<notin> set rest"
  shows "replaceEnvParams getenv (template segs @ rest) = Inr (expanded getenv segs @ butlast rest)"
  by (rule replaceEnvParams_template [OF assms])

lemma env_params_replaced_witness:
  "replaceEnvParams (\<lambda>v. if v = ''HOME'' then Some ''/h'' else None) ''{\"log\": \"${HOME}/l\"}'' = Inr ''{\"log\": \"/h/l\"''"
  using env_params_replaced [of "[(''{\"log\": \"'', ''HOME'')]" "\<lambda>v. if v = ''HOME'' then Some ''/h'' else None" "''/l\"}''"]
  by (simp add: segs_ok_def)

text \<open>The first variable that is not set ends it with an error that names it.\<close>

lemma env_param_not_set:
  assumes "CHR ''$'' \<notin> set l" "CHR ''}'' \<notin> set v" "CHR 0x00 \<notin> set v" "getenv v = None"
  shows "replaceEnvParams getenv (l @ ''${'' @ v @ ''}'' @ rest) =
    Inl (StringExn (''LoadConf::replaceEnvParams variable '' @ v @ '' not set''))"
  using env_loop_round [OF assms(1-3), of getenv "[]" rest "[]"] assms(4) by (simp add: replaceEnvParams_def)

text \<open>A file that ends with its last brace, and no newline, reaches the JSON library without it.\<close>

lemma last_brace_lost:
  "CHR ''$'' \<notin> set s \<Longrightarrow> replaceEnvParams getenv (s @ ''}'') = Inr s"
  using env_loop_template [of "[]" getenv "s @ ''}''" "[]" "[]"] by (simp add: segs_ok_def replaceEnvParams_def substr_def)

section \<open>The parameters\<close>

lemma doLoadRequired_params:
  assumes "om_inv params" "doLoadRequired js root required params f = Inr params'"
  shows "om_inv params' \<and> (\<forall>k. om_find params' k =
      (if k \<in> set required then Option.bind (js_member js root k) (js_asString js) else om_find params k)) \<and>
    (\<forall>k \<in> set required. \<exists>v s. js_member js root k = Some v \<and> js_is_string js v \<and> js_asString js v = Some s)"
  using assms
proof (induction required arbitrary: params)
  case (Cons r required)
  obtain v s where v: "js_member js root r = Some v" "js_is_string js v" "js_asString js v = Some s"
    "doLoadRequired js root required (om_put r s params) f = Inr params'"
    using Cons.prems(2) by (auto split: option.splits if_splits)
  show ?case
    using Cons.IH [OF _ v(4)] Cons.prems(1) v(1-3) by auto
qed simp

lemma doLoadOptional_params:
  assumes "om_inv params" "doLoadOptional js root optional params = Inr params'"
  shows "om_inv params' \<and> (\<forall>k. om_find params' k =
      (if k \<in> set optional then Option.bind (js_member js root k) (js_asString js) else om_find params k))"
  using assms
proof (induction optional arbitrary: params)
  case (Cons r optional)
  obtain v s where v: "js_member js root r = Some v" "js_asString js v = Some s"
    "doLoadOptional js root optional (om_put r s params) = Inr params'"
    using Cons.prems(2) by (auto split: option.splits)
  show ?case
    using Cons.IH [OF _ v(3)] Cons.prems(1) v(1,2) by auto
qed simp

lemma doLoadRequired_returns:
  "(\<exists>params'. doLoadRequired js root required params f = Inr params') \<longleftrightarrow>
     (\<forall>k \<in> set required. \<exists>v s. js_member js root k = Some v \<and> js_is_string js v \<and> js_asString js v = Some s)"
  by (induction required arbitrary: params) (auto split: option.split)

lemma doLoadOptional_returns:
  "(\<exists>params'. doLoadOptional js root optional params = Inr params') \<longleftrightarrow>
     (\<forall>k \<in> set optional. \<exists>v s. js_member js root k = Some v \<and> js_asString js v = Some s)"
  by (induction optional arbitrary: params) (auto split: option.split)

lemma load_has_required:
  assumes "LoadConf_load js files getenv f required optional = Inr params" "k \<in> set required"
  shows "om_find params k \<noteq> None"
proof -
  obtain root ps where ps: "doLoadRequired js root required [] f = Inr ps" "doLoadOptional js root optional ps = Inr params"
    using assms(1) by (auto simp: LoadConf_load_def split: sum.splits)
  from doLoadRequired_params [OF _ ps(1)] doLoadOptional_params [OF _ ps(2)] assms(2) show ?thesis
    by fastforce
qed

text \<open>
  C40: \<open>load\<close> returns when every required member of the parsed file is there and is a string, and
  every optional one is something that the JSON library turns into a string, and throws otherwise.
  What it returns is the strings of these members, each under its own name, and nothing else.
\<close>

theorem load_gives_params:
  assumes "parseFile js files getenv f = Inr root"
  shows "((\<exists>params. LoadConf_load js files getenv f required optional = Inr params) \<longleftrightarrow>
      (\<forall>k \<in> set required. \<exists>v s. js_member js root k = Some v \<and> js_is_string js v \<and> js_asString js v = Some s) \<and>
      (\<forall>k \<in> set optional. \<exists>v s. js_member js root k = Some v \<and> js_asString js v = Some s)) \<and>
    (\<forall>params k. LoadConf_load js files getenv f required optional = Inr params \<longrightarrow>
      om_find params k = (if k \<in> set required \<union> set optional then Option.bind (js_member js root k) (js_asString js) else None))"
proof (intro conjI allI impI)
  have code: "LoadConf_load js files getenv f required optional =
      (case doLoadRequired js root required [] f of Inl e \<Rightarrow> Inl e | Inr params \<Rightarrow> doLoadOptional js root optional params)"
    using assms by (simp add: LoadConf_load_def)
  show "(\<exists>params. LoadConf_load js files getenv f required optional = Inr params) \<longleftrightarrow>
      (\<forall>k \<in> set required. \<exists>v s. js_member js root k = Some v \<and> js_is_string js v \<and> js_asString js v = Some s) \<and>
      (\<forall>k \<in> set optional. \<exists>v s. js_member js root k = Some v \<and> js_asString js v = Some s)"
    unfolding code doLoadRequired_returns [of js root required "[]" f, symmetric]
    using doLoadOptional_returns [of js root optional] by (cases "doLoadRequired js root required [] f") simp_all
  fix params k assume "LoadConf_load js files getenv f required optional = Inr params"
  then obtain ps where ps: "doLoadRequired js root required [] f = Inr ps" "doLoadOptional js root optional ps = Inr params"
    unfolding code by (auto split: sum.splits)
  from doLoadRequired_params [OF _ ps(1)] doLoadOptional_params [OF _ ps(2)]
  show "om_find params k = (if k \<in> set required \<union> set optional then Option.bind (js_member js root k) (js_asString js) else None)"
    by simp
qed

definition demo_json :: "(string \<Rightarrow> string option) json_ops" where
  "demo_json = \<lparr>js_parse = (\<lambda>s. if s = [] then None else Some (\<lambda>k. if k = ''log'' then Some s else None)),
     js_member = (\<lambda>j k. Some (\<lambda>_. j k)), js_is_string = (\<lambda>v. v [] \<noteq> None), js_asString = (\<lambda>v. case v [] of None \<Rightarrow> Some [] | Some s \<Rightarrow> Some s)\<rparr>"

theorem load_gives_params_witness:
  "\<exists>params. LoadConf_load demo_json (\<lambda>_. Some ''x${A}\<newline>'') (\<lambda>_. Some ''y'') ''f'' [''log''] [''port''] = Inr params \<and>
     om_find params ''log'' = Some ''xy'' \<and> om_find params ''port'' = Some [] \<and> om_find params ''other'' = None"
proof -
  have parse: "parseFile demo_json (\<lambda>_. Some ''x${A}\<newline>'') (\<lambda>_. Some ''y'') ''f'' = Inr (\<lambda>k. if k = ''log'' then Some ''xy'' else None)"
    using replaceEnvParams_template [of "[(''x'', ''A'')]" "\<lambda>_. Some ''y''" "''\<newline>''"]
    by (simp add: parseFile_def getFileContents_def segs_ok_def demo_json_def)
  have load: "\<exists>params. LoadConf_load demo_json (\<lambda>_. Some ''x${A}\<newline>'') (\<lambda>_. Some ''y'') ''f'' [''log''] [''port''] = Inr params"
    by (simp add: LoadConf_load_def parse) (simp add: demo_json_def)
  show ?thesis
    using load load_gives_params [OF parse, of "[''log'']" "[''port'']"] by (auto simp: demo_json_def)
qed

end
