(* ===== verification/Descriptors.thy ===== *)
theory Descriptors
  imports Hi_Prelude
begin

text \<open>
  The table of descriptors of a process, from descriptors to what they refer to. A call of POSIX
  that opens a descriptor takes the lowest one free.
\<close>

definition lowest_free :: "(nat, 'f) omap \<Rightarrow> nat" where
  "lowest_free t = hd (filter (\<lambda>n. om_find t n = None) [0..<length t + 1])"

lemma lowest_free_None: "om_find t (lowest_free t) = None"
proof -
  have "\<exists>n \<in> set [0..<length t + 1]. om_find t n = None"
  proof (rule ccontr)
    assume "\<not> (\<exists>n \<in> set [0..<length t + 1]. om_find t n = None)"
    then have "{..length t} \<subseteq> fst ` set t"
      by (auto simp: om_find_def map_of_eq_None_iff simp del: upt_Suc)
    then have "card {..length t} \<le> card (fst ` set t)"
      by (intro card_mono) auto
    then show False
      using card_image_le [of "set t" fst] card_length [of t] by simp
  qed
  then have "filter (\<lambda>n. om_find t n = None) [0..<length t + 1] \<noteq> []"
    by (simp only: filter_empty_conv) blast
  from hd_in_set [OF this] show ?thesis
    by (simp add: lowest_free_def del: upt_Suc)
qed

lemma lowest_freeI:
  assumes "om_find t n = None" "\<And>k. k < n \<Longrightarrow> om_find t k \<noteq> None" "om_inv t"
  shows "lowest_free t = n"
proof -
  have "{..<n} \<subseteq> fst ` set t"
    using assms(2) by (force simp: om_find_def map_of_eq_None_iff)
  then have "card {..<n} \<le> card (fst ` set t)"
    by (intro card_mono) auto
  then have "n \<le> length t"
    using card_image_le [of "set t" fst] card_length [of t] by simp
  then have "[0..<length t + 1] = [0..<n] @ n # [Suc n..<length t + 1]"
    by (metis le_add2 le_imp_less_Suc upt_add_eq_append upt_conv_Cons add.commute le_Suc_eq plus_1_eq_Suc zero_le le_add_diff_inverse)
  then show ?thesis
    using assms(1,2) by (simp add: lowest_free_def)
qed

lemma lowest_free_least: "om_find t n = None \<Longrightarrow> om_inv t \<Longrightarrow> lowest_free t \<le> n"
proof (induction n rule: less_induct)
  case (less n)
  show ?case
  proof (cases "\<exists>k < n. om_find t k = None")
    case True
    then show ?thesis
      using less.IH less.prems(2) by fastforce
  next
    case False
    then show ?thesis
      using lowest_freeI [of t n] less.prems by auto
  qed
qed

lemma length_om_put: "om_inv t \<Longrightarrow> length (om_put n f t) = (if om_find t n = None then length t + 1 else length t)"
proof (induction t)
  case (Cons e t)
  then show ?case
    by (cases e) (force simp: om_inv_def om_find_def map_of_eq_None_iff)
qed (simp add: om_find_def)

text \<open>When all descriptors are below a limit, one of them is free as long as they are fewer.\<close>

lemma lowest_free_limit:
  assumes inv: "om_inv t" and below: "\<forall>n. om_find t n \<noteq> None \<longrightarrow> n < limit"
  shows "lowest_free t < limit \<longleftrightarrow> length t < limit"
proof -
  have keys: "{n. om_find t n \<noteq> None} = fst ` set t" "card (fst ` set t) = length t"
    using inv distinct_card [of "map fst t"]
    by (auto simp: om_find_def om_inv_def strict_sorted_iff map_of_eq_None_iff)
  then have sub: "fst ` set t \<subseteq> {..<limit}"
    using below by blast
  show ?thesis
  proof
    assume "lowest_free t < limit"
    moreover have "lowest_free t \<notin> fst ` set t"
      using lowest_free_None [of t] unfolding keys(1) [symmetric] by simp
    ultimately have "fst ` set t \<subset> {..<limit}"
      using sub by blast
    then show "length t < limit"
      using psubset_card_mono [of "{..<limit}" "fst ` set t"] keys(2) by simp
  next
    assume less: "length t < limit"
    show "lowest_free t < limit"
    proof (rule ccontr)
      assume not: "\<not> lowest_free t < limit"
      have "om_find t n \<noteq> None" if "n < limit" for n
        using lowest_free_least [OF _ inv, of n] not that by linarith
      then have "{..<limit} \<subseteq> fst ` set t"
        using keys(1) by blast
      then show False
        using card_mono [of "fst ` set t" "{..<limit}"] keys(2) less by simp
    qed
  qed
qed

end
