(* ===== verification/Daemon.thy ===== *)
theory Daemon
  imports LoadConf Descriptors
begin

text \<open>
  \<^verbatim>\<open>tools/Daemon.cpp\<close>: the start of a service from its command line and configuration, the file
  with the number of its process, the descriptors of the daemon, and the loop that watches the
  worker and starts it again. System calls are parameters, one result per call; a descriptor
  that is opened is the lowest one free, as POSIX has it.
\<close>

section \<open>The worker and its watcher\<close>

text \<open>\<open>doStart\<close> returns or throws something, whose text is printed; the result is what the process exits with.\<close>

datatype worker_end = Finishes | ThrowsText string | ThrowsUnknown

fun startWorker :: "worker_end \<Rightarrow> int" where
  "startWorker Finishes = 0"
| "startWorker (ThrowsText s) = 1"
| "startWorker ThrowsUnknown = 1"

datatype watch_signal = SIGQUIT | SIGINT | SIGTERM | SIGCHLD

text \<open>What a round of the loop gets: from \<^verbatim>\<open>fork\<close>, if it is called, from \<^verbatim>\<open>sigwait\<close>, and the statuses from \<^verbatim>\<open>waitpid\<close>.\<close>

record watch_input =
  in_fork :: int
  in_sig :: watch_signal
  in_statuses :: "int list"

record watcher =
  child_pid :: int
  need_start :: bool

datatype watch_result = Again watcher | InChild | Exits int | KillsChild int

text \<open>The state before the loop, where \<open>child_pid\<close> is uninitialised.\<close>

definition watcher_new :: "int \<Rightarrow> watcher" where
  "watcher_new junk = \<lparr>child_pid = junk, need_start = True\<rparr>"

definition startWatcher_round :: "watch_input \<Rightarrow> watcher \<Rightarrow> watch_result" where
  "startWatcher_round i w =
     (let w = (if need_start w then w\<lparr>child_pid := in_fork i\<rparr> else w);
          w = w\<lparr>need_start := False\<rparr>
      in if child_pid w = - 1 then Again w
         else if child_pid w = 0 then InChild
         else if in_sig i = SIGCHLD then
           (let w = fold (\<lambda>status w. if status \<noteq> 0 then w\<lparr>need_start := True\<rparr> else w) (in_statuses i) w
            in if \<not> need_start w then Exits 0 else Again w)
         else KillsChild (child_pid w))"

text \<open>The loop over its inputs, with the number of times it called \<^verbatim>\<open>fork\<close>; \<open>Inl\<close>: it goes on.\<close>

fun startWatcher :: "watch_input list \<Rightarrow> watcher \<Rightarrow> nat \<Rightarrow> nat \<times> (watcher + watch_result)" where
  "startWatcher [] w n = (n, Inl w)"
| "startWatcher (i # is) w n =
     (let n = (if need_start w then n + 1 else n)
      in case startWatcher_round i w of
           Again w \<Rightarrow> startWatcher is w n
         | r \<Rightarrow> (n, Inr r))"

section \<open>The file of the process number\<close>

text \<open>
  The results of \<^verbatim>\<open>open\<close> and \<^verbatim>\<open>lockf\<close>; what is written includes the NUL that ends the number.
  \<open>Inl\<close>: it exits; the buffer has 16 characters.
\<close>

definition checkLockFile :: "int \<Rightarrow> int \<Rightarrow> nat \<Rightarrow> (int + int \<times> string) option" where
  "checkLockFile lockfile_fd lockf_result pid =
     (if lockfile_fd < 0 then Some (Inl 1)
      else if lockf_result < 0 then Some (Inl 1)
      else let buf = dec_str pid
           in if length buf < 16 then Some (Inr (lockfile_fd, buf @ [CHR 0x00])) else None)"

text \<open>The command that is passed to \<^verbatim>\<open>system\<close>, from the contents of the file.\<close>

definition doStop :: "string \<Rightarrow> string" where
  "doStop contents =
     (let pidstr = takeWhile (\<lambda>c. \<not> is_space c) (dropWhile is_space contents)
      in cstr (''kill '' @ pidstr))"

section \<open>The descriptors of the daemon\<close>

datatype fd_file = Inherited nat | LockFile | DevNull | LogFile

type_synonym fd_table = "(nat, fd_file) omap"

definition fd_open :: "fd_file \<Rightarrow> fd_table \<Rightarrow> nat \<times> fd_table" where
  "fd_open f t = (let n = lowest_free t in (n, om_put n f t))"

definition fd_dup :: "nat \<Rightarrow> fd_table \<Rightarrow> fd_table" where
  "fd_dup n t = (case om_find t n of None \<Rightarrow> t | Some f \<Rightarrow> snd (fd_open f t))"

fun close_loop :: "nat list \<Rightarrow> nat \<Rightarrow> fd_table \<Rightarrow> fd_table" where
  "close_loop [] lockfile_fd t = t"
| "close_loop (i # is) lockfile_fd t = close_loop is lockfile_fd (if i \<noteq> lockfile_fd then om_erase i t else t)"

text \<open>
  The results of the calls of \<open>daemonize\<close>: \<open>None\<close> when \<^verbatim>\<open>getrlimit\<close> fails, \<open>Some None\<close> for no
  limit; then of those that it does not look at: whether \<^verbatim>\<open>/dev/null\<close> can be opened, whether each
  \<^verbatim>\<open>dup\<close> has a descriptor left, and whether the log can be opened.
\<close>

record daemonize_env =
  env_rlim :: "nat option option"
  env_fork1 :: int
  env_sigaction :: int
  env_fork2 :: int
  env_open :: bool
  env_lockf :: int
  env_pid :: nat
  env_null :: bool
  env_dup1 :: bool
  env_dup2 :: bool
  env_log :: bool

text \<open>\<^verbatim>\<open>freopen\<close> of the standard output closes descriptor 1 also when it fails.\<close>

definition fd_reopen :: "bool \<Rightarrow> fd_file \<Rightarrow> fd_table \<Rightarrow> fd_table" where
  "fd_reopen ok f t = (let t = om_erase 1 t in if ok then snd (fd_open f t) else t)"

definition daemonize :: "daemonize_env \<Rightarrow> fd_table \<Rightarrow> (int + fd_table) option" where
  "daemonize env t =
     (case env_rlim env of
        None \<Rightarrow> Some (Inl 1)
      | Some rlim_max \<Rightarrow>
          if env_fork1 env < 0 then Some (Inl 1)
          else if env_fork1 env \<noteq> 0 then Some (Inl 0)
          else if env_sigaction env < 0 then Some (Inl 1)
          else if env_fork2 env < 0 then Some (Inl 1)
          else if env_fork2 env \<noteq> 0 then Some (Inl 0)
          else
            (let (fd, t) = (if env_open env then (case fd_open LockFile t of (n, t) \<Rightarrow> (int n, t)) else (- 1, t))
             in case checkLockFile fd (env_lockf env) (env_pid env) of
                  None \<Rightarrow> None
                | Some (Inl code) \<Rightarrow> Some (Inl code)
                | Some (Inr (lockfile_fd, contents)) \<Rightarrow>
                    (let rlim_max = (case rlim_max of None \<Rightarrow> 1024 | Some n \<Rightarrow> n);
                         t = close_loop [0..<rlim_max] (nat lockfile_fd) t;
                         t = (if env_null env then snd (fd_open DevNull t) else t);
                         t = (if env_dup1 env then fd_dup 0 t else t);
                         t = (if env_dup2 env then fd_dup 0 t else t);
                         t = fd_reopen (env_log env) LogFile t
                     in Some (Inr t))))"

section \<open>The start\<close>

record cmd_options =
  opt_help :: bool
  opt_stop :: bool
  opt_restart :: bool
  opt_interactive :: bool
  opt_config :: string

datatype daemon_command = START | STOP | RESTART

text \<open>What the start does, in order.\<close>

datatype daemon_action = ShowOptions | FallDown string | Daemonize string string | Watch | Work | StopService string | SleepTwo

definition parseConfig :: "(conf_exn + conf_params) \<Rightarrow> string \<Rightarrow> string + conf_params" where
  "parseConfig loaded config_file =
     (case loaded of
        Inl (StringExn s) \<Rightarrow> Inl s
      | Inl OtherExn \<Rightarrow> Inl (''Daemon::parseConfig: Could not parse config file: '' @ config_file)
      | Inr config \<Rightarrow> Inr config)"

text \<open>
  \<open>setParamsList\<close> is that of the derived class. A command line that cannot be parsed is \<open>None\<close>:
  the options are printed and the start goes on.
\<close>

definition Daemon_loadConfig ::
  "(string list \<times> string list \<Rightarrow> string list \<times> string list) \<Rightarrow> (string \<Rightarrow> string list \<Rightarrow> string list \<Rightarrow> conf_exn + conf_params) \<Rightarrow>
     string \<Rightarrow> string + conf_params" where
  "Daemon_loadConfig setParamsList load config_file =
     (let (required, optional) = setParamsList ([''log'', ''pidfile''], [])
      in parseConfig (load config_file required optional) config_file)"

definition param :: "conf_params \<Rightarrow> string \<Rightarrow> string" where
  "param config k = (case om_find config k of None \<Rightarrow> [] | Some v \<Rightarrow> v)"

definition Daemon_start ::
  "(string list \<times> string list \<Rightarrow> string list \<times> string list) \<Rightarrow> (string \<Rightarrow> string list \<Rightarrow> string list \<Rightarrow> conf_exn + conf_params) \<Rightarrow>
     string \<Rightarrow> cmd_options option \<Rightarrow> daemon_action list" where
  "Daemon_start setParamsList load config_name parsed =
     (case parsed of
        Some opts \<Rightarrow> if opt_help opts then [ShowOptions] else []
      | None \<Rightarrow> [ShowOptions]) @
     (if (case parsed of Some opts \<Rightarrow> opt_help opts | None \<Rightarrow> False) then []
      else
        (let stop = (case parsed of None \<Rightarrow> False | Some opts \<Rightarrow> opt_stop opts);
             restart = (case parsed of None \<Rightarrow> False | Some opts \<Rightarrow> opt_restart opts);
             interactive = (case parsed of None \<Rightarrow> False | Some opts \<Rightarrow> opt_interactive opts);
             command = (if restart then RESTART else if stop then STOP else START);
             path = (case parsed of None \<Rightarrow> [] | Some opts \<Rightarrow> opt_config opts);
             path = (if path = [] then config_name else path)
         in case Daemon_loadConfig setParamsList load path of
              Inl s \<Rightarrow> [FallDown s]
            | Inr config \<Rightarrow>
                (case command of
                   START \<Rightarrow> if \<not> interactive then [Daemonize (param config ''pidfile'') (param config ''log''), Watch] else [Work]
                 | STOP \<Rightarrow> [StopService (param config ''pidfile'')]
                 | RESTART \<Rightarrow> [StopService (param config ''pidfile''), SleepTwo] @
                     (if \<not> interactive then [Daemonize (param config ''pidfile'') (param config ''log'')] else []) @ [Watch])))"

section \<open>Lemmas\<close>

definition crashes :: "watch_input \<Rightarrow> bool" where
  "crashes i \<longleftrightarrow> in_fork i > 0 \<and> in_sig i = SIGCHLD \<and> (\<exists>status \<in> set (in_statuses i). status \<noteq> 0)"

lemma need_start_fold: "need_start (fold (\<lambda>status w. if status \<noteq> 0 then w\<lparr>need_start := True\<rparr> else w) sts w) \<longleftrightarrow>
    need_start w \<or> (\<exists>status \<in> set sts. status \<noteq> 0)"
  by (induction sts arbitrary: w) auto

lemma child_pid_fold: "child_pid (fold (\<lambda>status w. if status \<noteq> 0 then w\<lparr>need_start := True\<rparr> else w) sts w) = child_pid w"
  by (induction sts arbitrary: w) auto

lemma round_crash: "crashes i \<Longrightarrow> need_start w \<Longrightarrow> \<exists>w'. startWatcher_round i w = Again w' \<and> need_start w'"
  using need_start_fold [of "in_statuses i" "w\<lparr>child_pid := in_fork i, need_start := False\<rparr>"]
  by (auto simp: startWatcher_round_def crashes_def Let_def)

lemma watcher_crashes:
  "list_all crashes is \<Longrightarrow> need_start w \<Longrightarrow> \<exists>w'. startWatcher (is @ js) w n = startWatcher js w' (n + length is) \<and> need_start w'"
proof (induction "is" arbitrary: w n)
  case (Cons i "is")
  then obtain w' where w': "startWatcher_round i w = Again w'" "need_start w'"
    using round_crash by fastforce
  then show ?case
    using Cons.IH [of w' "n + 1"] Cons.prems by simp
qed auto

text \<open>
  C29: the worker is started again as often as it ends with a status other than zero, and the
  watcher ends when it ends with zero, or kills it when it gets another signal.
\<close>

theorem watcher_supervises:
  assumes "list_all crashes is" "in_fork i > 0"
  shows "fst (startWatcher is (watcher_new junk) 0) = length is \<and>
    (in_sig i = SIGCHLD \<and> (\<forall>status \<in> set (in_statuses i). status = 0) \<longrightarrow>
       startWatcher (is @ [i]) (watcher_new junk) 0 = (length is + 1, Inr (Exits 0))) \<and>
    (in_sig i \<noteq> SIGCHLD \<longrightarrow> startWatcher (is @ [i]) (watcher_new junk) 0 = (length is + 1, Inr (KillsChild (in_fork i))))"
proof -
  have new: "need_start (watcher_new junk)"
    by (simp add: watcher_new_def)
  obtain w where w: "startWatcher (is @ [i]) (watcher_new junk) 0 = startWatcher [i] w (length is)" "need_start w"
    using watcher_crashes [OF assms(1) new, of "[i]" 0] by auto
  have "fst (startWatcher is (watcher_new junk) 0) = length is"
    using watcher_crashes [OF assms(1) new, of "[]" 0] by auto
  moreover have "startWatcher_round i w = Exits 0" if "in_sig i = SIGCHLD" "\<forall>status \<in> set (in_statuses i). status = 0"
    using that assms(2) w(2) need_start_fold [of "in_statuses i" "w\<lparr>child_pid := in_fork i, need_start := False\<rparr>"]
    by (simp add: startWatcher_round_def Let_def)
  moreover have "startWatcher_round i w = KillsChild (in_fork i)" if "in_sig i \<noteq> SIGCHLD"
    using that assms(2) w(2) by (simp add: startWatcher_round_def Let_def)
  ultimately show ?thesis
    using w by simp
qed

theorem watcher_supervises_witness:
  "startWatcher [\<lparr>in_fork = 7, in_sig = SIGCHLD, in_statuses = [0, 256]\<rparr>, \<lparr>in_fork = 8, in_sig = SIGTERM, in_statuses = []\<rparr>] (watcher_new 99) 0 =
     (2, Inr (KillsChild 8))"
  using watcher_supervises [of "[\<lparr>in_fork = 7, in_sig = SIGCHLD, in_statuses = [0, 256]\<rparr>]" "\<lparr>in_fork = 8, in_sig = SIGTERM, in_statuses = []\<rparr>" 99]
  by (simp add: crashes_def)

text \<open>
  after one failure of \<^verbatim>\<open>fork\<close> the loop runs for ever without a worker: it never calls
  \<^verbatim>\<open>fork\<close> again, nor waits for a signal, nor exits.
\<close>

lemma watcher_spins_after_fork_failure:
  assumes "list_all crashes is" "in_fork i = - 1"
  shows "\<exists>w. \<forall>js. startWatcher (is @ i # js) (watcher_new junk) 0 = (length is + 1, Inl w)"
proof -
  let ?w = "\<lparr>child_pid = - 1, need_start = False\<rparr>"
  obtain w where w: "\<And>js. startWatcher (is @ i # js) (watcher_new junk) 0 = startWatcher js ?w (length is + 1)"
  proof -
    have "startWatcher (is @ i # js) (watcher_new junk) 0 = startWatcher js ?w (length is + 1)" for js
    proof -
      obtain w where w: "startWatcher (is @ i # js) (watcher_new junk) 0 = startWatcher (i # js) w (length is)" "need_start w"
        using watcher_crashes [OF assms(1), of "watcher_new junk" "i # js" 0] by (auto simp: watcher_new_def)
      have "startWatcher_round i w = Again ?w"
        using assms(2) w(2) by (simp add: startWatcher_round_def Let_def)
      then show ?thesis
        using w by simp
    qed
    then show ?thesis
      using that by blast
  qed
  have "startWatcher js ?w n = (n, Inl ?w)" for js n
    by (induction js) (simp_all add: startWatcher_round_def Let_def)
  then show ?thesis
    using w by auto
qed

lemma watcher_spins_after_fork_failure_witness:
  "\<exists>w. \<forall>js. startWatcher ([\<lparr>in_fork = 7, in_sig = SIGCHLD, in_statuses = [256]\<rparr>] @ \<lparr>in_fork = - 1, in_sig = SIGCHLD, in_statuses = []\<rparr> # js)
     (watcher_new 99) 0 = (2, Inl w)"
  using watcher_spins_after_fork_failure [of "[\<lparr>in_fork = 7, in_sig = SIGCHLD, in_statuses = [256]\<rparr>]" "\<lparr>in_fork = - 1, in_sig = SIGCHLD, in_statuses = []\<rparr>" 99]
  by (simp add: crashes_def numeral_2_eq_2 del: startWatcher.simps append_Cons)

section \<open>Stopping\<close>

lemma digits_not_space: "c \<in> set (dec_str n) \<Longrightarrow> \<not> is_space c \<and> c \<noteq> CHR 0x00"
  using dec_str_digit [of c n] by (auto simp: is_digit_def is_space_def)

text \<open>
  the command that stops the service is \<^verbatim>\<open>kill\<close> with the number of the process that has
  locked the file, whatever follows in the file after a NUL or a space; so the NUL that is
  written with the number does no harm.
\<close>

lemma stop_kills_the_locker:
  assumes "checkLockFile fd lk pid = Some (Inr (fd', contents))" "rest = [] \<or> is_space (hd rest)"
  shows "doStop (contents @ rest) = ''kill '' @ dec_str pid"
proof -
  have contents: "contents = dec_str pid @ [CHR 0x00]"
    using assms(1) by (auto simp: checkLockFile_def Let_def split: if_splits)
  have "dropWhile is_space (contents @ rest) = contents @ rest"
    using digits_not_space [of _ pid] dec_str_not_Nil [of pid] unfolding contents by (cases "dec_str pid") auto
  moreover have "takeWhile (\<lambda>c. \<not> is_space c) (contents @ rest) = contents"
    using digits_not_space [of _ pid] assms(2) unfolding contents
    by (cases rest) (auto simp: takeWhile_append is_space_def)
  moreover have "cstr (''kill '' @ contents) = ''kill '' @ dec_str pid"
    using digits_not_space [of _ pid] unfolding contents cstr_def by (subst append_assoc [symmetric], subst takeWhile_append2) auto
  ultimately show ?thesis
    by (simp add: doStop_def Let_def)
qed

lemma stop_kills_the_locker_witness: "doStop (''47'' @ [CHR 0x00] @ '' x'') = ''kill 47''"
proof -
  have dec: "dec_str 47 = ''47''"
    by code_simp
  have "checkLockFile 5 0 47 = Some (Inr (5, ''47'' @ [CHR 0x00]))"
    by (simp add: checkLockFile_def dec)
  from stop_kills_the_locker [OF this, of "'' x''"] show ?thesis
    by (simp add: dec is_space_def)
qed

text \<open>Without a file, or with an empty one, the command has no argument.\<close>

lemma stop_without_file: "doStop [] = ''kill ''"
  by code_simp

section \<open>Descriptors\<close>

lemma om_find_close_loop: "om_find (close_loop is k t) n = (if n \<in> set is \<and> n \<noteq> k then None else om_find t n)"
  by (induction "is" arbitrary: t) auto

lemma om_inv_close_loop: "om_inv t \<Longrightarrow> om_inv (close_loop is k t)"
  by (induction "is" arbitrary: t) auto



text \<open>
  Without \<^verbatim>\<open>/dev/null\<close> nothing is copied, and the log takes descriptor 0: the daemon has its log as
  input and neither output nor error.
\<close>

lemma daemonize_without_null:
  assumes "om_inv t" "\<forall>n < 3. om_find t n \<noteq> None" "\<forall>n. om_find t n \<noteq> None \<longrightarrow> n < rlim"
    "env_rlim env = Some (Some rlim)" "\<not> env_null env" "env_log env" "daemonize env t = Some (Inr t')"
  shows "om_find t' 0 = Some LogFile \<and> om_find t' 1 = None \<and> om_find t' 2 = None"
proof -
  let ?l = "lowest_free t"
  define t0 where "t0 = close_loop [0..<rlim] ?l (om_put ?l LockFile t)"
  have "\<not> ?l < 3"
    using lowest_free_None [of t] assms(2) by blast
  then have l: "?l \<noteq> 0" "?l \<noteq> 1" "?l \<noteq> 2"
    by auto
  have inv0: "om_inv t0"
    using assms(1) by (simp add: t0_def om_inv_close_loop)
  have find0: "om_find t0 n = (if n = ?l then Some LockFile else None)" for n
    using assms(1,3) by (auto simp: t0_def om_find_close_loop)
  have "lowest_free (om_erase 1 t0) = 0"
    using lowest_freeI [of "om_erase 1 t0" 0] inv0 find0 l by simp
  moreover have "fd_dup 0 t0 = t0"
    using find0 l by (simp add: fd_dup_def)
  ultimately have "t' = om_put 0 LogFile (om_erase 1 t0)"
    using assms(5-7) unfolding daemonize_def assms(4)
    by (auto simp: checkLockFile_def fd_open_def fd_reopen_def Let_def simp flip: t0_def split: if_splits)
  then show ?thesis
    using inv0 find0 l by simp
qed

text \<open>
  A process that starts with its input closed gets the locked file as descriptor 0, so the two
  copies of descriptor 0 are copies of it, and its error output goes to the file of its number.
\<close>

lemma daemonize_without_input:
  "map_option (map_sum (\<lambda>c. c) (\<lambda>t. (om_find t 0, om_find t 2)))
     (daemonize \<lparr>env_rlim = Some (Some 8), env_fork1 = 0, env_sigaction = 0, env_fork2 = 0, env_open = True, env_lockf = 0, env_pid = 47,
       env_null = True, env_dup1 = True, env_dup2 = True, env_log = True\<rparr>
       [(1, Inherited 1), (2, Inherited 2)]) = Some (Inr (Some LockFile, Some LockFile))"
  by code_simp

section \<open>The start uses its configuration\<close>

text \<open>
  a service is daemonized or stopped only with parameters that its configuration sets: when
  the derived class keeps the two that are required, the file of the number and the log are
  strings of the file, and without them the start ends with a message.
\<close>

lemma start_uses_configuration:
  assumes "{''log'', ''pidfile''} \<subseteq> set (fst (setParamsList ([''log'', ''pidfile''], [])))"
    "act \<in> set (Daemon_start setParamsList (LoadConf_load js files getenv) config_name parsed)"
    "act = Daemonize p l \<or> act = StopService p"
  shows "\<exists>path required optional params. LoadConf_load js files getenv path required optional = Inr params \<and>
    om_find params ''pidfile'' = Some p \<and> (act = Daemonize p l \<longrightarrow> om_find params ''log'' = Some l)"
proof -
  obtain required optional where s: "setParamsList ([''log'', ''pidfile''], []) = (required, optional)"
    by (cases "setParamsList ([''log'', ''pidfile''], [])")
  let ?path = "let path = (case parsed of None \<Rightarrow> [] | Some opts \<Rightarrow> opt_config opts) in if path = [] then config_name else path"
  obtain params where params: "LoadConf_load js files getenv ?path required optional = Inr params"
    "p = param params ''pidfile''" "act = Daemonize p l \<longrightarrow> l = param params ''log''"
    using assms(2,3) s
    by (auto simp: Daemon_start_def Daemon_loadConfig_def parseConfig_def Let_def split: option.splits if_splits sum.splits conf_exn.splits)
  then have "om_find params k \<noteq> None" if "k \<in> set required" for k
    using load_has_required that by blast
  then show ?thesis
    using params assms(1) s by (intro exI [of _ ?path] exI [of _ required] exI [of _ optional] exI [of _ params])
      (auto simp: param_def split: option.split)
qed

end
