(* ===== verification/RefParser.thy ===== *)
theory RefParser
  imports StringUtils StringUtf8
begin

text \<open>
  \<^verbatim>\<open>strings/RefParser.cpp\<close>: the query of a search engine from the referer of a request. The
  unescaping of URLs is that of libcurl, a parameter. Strings are shorter than \<open>2^31\<close>, so that
  the positions fit an \<^verbatim>\<open>int\<close>. A result \<open>None\<close> is undefined or an exception.
\<close>

section \<open>The code\<close>

definition RefParser_init :: "(string, string) omap \<Rightarrow> (string, string) omap" where
  "RefParser_init m_engines =
     fold (\<lambda>(e, p). om_put e p)
       [(''bing.com/search'', ''q=''), (''ask.com/search/'', ''searchfor=''), (''google.ru'', ''q=''), (''mail.ru/search'', ''q=''),
        (''nigma.ru'', ''s=''), (''qip.ru/search'', ''query=''), (''rambler.ru'', ''query=''), (''sputnik.ru'', ''q=''),
        (''webalta.ru/search'', ''q=''), (''yahoo.com/search'', ''p=''), (''yandex.'', ''text='')] m_engines"

text \<open>The result holds the query; \<open>Some None\<close> is \<^verbatim>\<open>false\<close>.\<close>

definition parseEngineReferer ::
  "(string \<Rightarrow> string option) \<Rightarrow> string \<Rightarrow> string \<Rightarrow> string \<Rightarrow> string option option" where
  "parseEngineReferer unescape ref engine param =
     (if find_str engine ref = None then Some None
      else
        (case find_str param ref of
           None \<Rightarrow> Some None
         | Some i \<Rightarrow>
             (let bpos = i + length param;
                  qry = substr ref bpos (length ref - bpos);
                  qry = (case str_find CHR ''&'' qry of None \<Rightarrow> qry | Some epos \<Rightarrow> substr qry 0 epos)
              in case unescapeUrl unescape qry of
                   None \<Rightarrow> None
                 | Some qry \<Rightarrow>
                     (case toLowerUtf8 (map byte_of qry) of
                        None \<Rightarrow> None
                      | Some bs \<Rightarrow>
                          (case replaceCharUtf8 bs 0x2B 0x20 of
                             None \<Rightarrow> None
                           | Some bs \<Rightarrow> Some (Some (map chr_of bs)))))))"

fun parse_loop :: "(string \<Rightarrow> string option) \<Rightarrow> string \<Rightarrow> (string \<times> string) list \<Rightarrow> string option option" where
  "parse_loop unescape ref [] = Some None"
| "parse_loop unescape ref ((e, p) # engines) =
     (case parseEngineReferer unescape ref e p of
        None \<Rightarrow> None
      | Some (Some qry) \<Rightarrow> Some (Some qry)
      | Some None \<Rightarrow> parse_loop unescape ref engines)"

definition RefParser_parse :: "(string \<Rightarrow> string option) \<Rightarrow> (string, string) omap \<Rightarrow> string \<Rightarrow> string option option" where
  "RefParser_parse unescape m_engines ref =
     (case unescapeUrl unescape ref of
        None \<Rightarrow> None
      | Some ref \<Rightarrow> parse_loop unescape ref m_engines)"

section \<open>Lemmas\<close>

text \<open>The engines are tried in the order of their names.\<close>

lemma engines_in_order: "map fst (RefParser_init []) =
    [''ask.com/search/'', ''bing.com/search'', ''google.ru'', ''mail.ru/search'', ''nigma.ru'', ''qip.ru/search'',
     ''rambler.ru'', ''sputnik.ru'', ''webalta.ru/search'', ''yahoo.com/search'', ''yandex.'']"
  by code_simp

definition applies :: "string \<Rightarrow> string \<times> string \<Rightarrow> bool" where
  "applies ref ep \<longleftrightarrow> sublist (fst ep) ref \<and> sublist (snd ep) ref"

text \<open>The part of the referer that is taken for the query of an engine that applies.\<close>

definition raw_query :: "string \<Rightarrow> string \<Rightarrow> string" where
  "raw_query param ref = takeWhile (\<lambda>c. c \<noteq> CHR ''&'') (drop (the (find_str param ref) + length param) ref)"

lemma cut_amp: "(case str_find c s of None \<Rightarrow> s | Some i \<Rightarrow> substr s 0 i) = takeWhile (\<lambda>x. x \<noteq> c) s"
proof (induction s)
  case (Cons x s)
  then show ?case
    by (cases "str_find c s") (auto simp: substr_def)
qed simp

lemma parseEngineReferer_not: "\<not> applies ref (e, p) \<Longrightarrow> parseEngineReferer unescape ref e p = Some None"
  using find_str_iff [of e ref] find_str_iff [of p ref] by (auto simp: parseEngineReferer_def applies_def)

lemma parse_loop_first:
  "parse_loop unescape ref engines =
    (case find (applies ref) engines of
       None \<Rightarrow> Some None
     | Some (e, p) \<Rightarrow> parseEngineReferer unescape ref e p)"
proof (induction engines)
  case (Cons ep engines)
  obtain e p where ep: "ep = (e, p)"
    by (cases ep)
  show ?case
  proof (cases "applies ref ep")
    case True
    then have "parseEngineReferer unescape ref e p \<noteq> Some None"
      using find_str_iff [of e ref] find_str_iff [of p ref] ep
      by (auto simp: parseEngineReferer_def applies_def Let_def split: option.splits)
    then show ?thesis
      using True ep by (auto split: option.splits)
  next
    case False
    then show ?thesis
      using Cons.IH ep parseEngineReferer_not by simp
  qed
qed simp

text \<open>
  the engine is the first, in the order of the names, whose name and parameter occur anywhere
  in the unescaped referer; the query is what follows the first occurrence of the parameter, up
  to an ampersand, unescaped a second time, in lower case and with spaces for plus signs.
\<close>

lemma refparser_first_engine:
  assumes "unescape ref = Some r" "find (applies r) m_engines = Some (e, p)"
  shows "RefParser_parse unescape m_engines ref =
    Option.bind (unescape (raw_query p r)) (\<lambda>q. Option.bind (toLowerUtf8 (map byte_of q))
      (\<lambda>bs. map_option (\<lambda>bs. Some (map chr_of bs)) (replaceCharUtf8 bs 0x2B 0x20)))"
proof -
  have "applies r (e, p)"
    using assms(2) by (metis find_Some_iff)
  then have "sublist e r" "sublist p r"
    by (simp_all add: applies_def)
  then obtain i j where "find_str e r = Some i" "find_str p r = Some j"
    using find_str_iff [of e r] find_str_iff [of p r] by auto
  then have "parseEngineReferer unescape r e p = Option.bind (unescape (raw_query p r)) (\<lambda>q. Option.bind (toLowerUtf8 (map byte_of q))
      (\<lambda>bs. map_option (\<lambda>bs. Some (map chr_of bs)) (replaceCharUtf8 bs 0x2B 0x20)))"
    by (simp add: parseEngineReferer_def Let_def cut_amp raw_query_def unescapeUrl_def substr_def split: option.split)
  then show ?thesis
    using assms by (simp add: RefParser_parse_def unescapeUrl_def parse_loop_first)
qed

lemma refparser_first_engine_witness:
  "RefParser_parse Some (RefParser_init []) ''http://google.ru/?q=Ab+c&x=1'' = Some (Some ''ab c'')"
proof -
  have "find (applies ''http://google.ru/?q=Ab+c&x=1'') (RefParser_init []) = Some (''google.ru'', ''q='')"
    by code_simp
  from refparser_first_engine [OF _ this, of Some "''http://google.ru/?q=Ab+c&x=1''"]
  have "RefParser_parse Some (RefParser_init []) ''http://google.ru/?q=Ab+c&x=1'' =
    Option.bind (toLowerUtf8 (map byte_of (raw_query ''q='' ''http://google.ru/?q=Ab+c&x=1'')))
      (\<lambda>bs. map_option (\<lambda>bs. Some (map chr_of bs)) (replaceCharUtf8 bs 0x2B 0x20))"
    by simp
  also have "\<dots> = Some (Some ''ab c'')"
    by code_simp
  finally show ?thesis .
qed

text \<open>No engine: \<^verbatim>\<open>false\<close>.\<close>

lemma refparser_no_engine:
  "unescape ref = Some r \<Longrightarrow> find (applies r) m_engines = None \<Longrightarrow> RefParser_parse unescape m_engines ref = Some None"
  by (simp add: RefParser_parse_def unescapeUrl_def parse_loop_first)

text \<open>The parameter is found inside the name of another: the query of \<open>oq\<close> is taken for that of \<open>q\<close>.\<close>

lemma refparser_other_parameter: "raw_query ''q='' ''http://google.ru/?oq=old&q=new'' = ''old''"
  by code_simp

text \<open>
  An ampersand in the query, escaped, ends it, since the whole referer is unescaped first:
  \<open>unescape\<close> makes \<open>a&b\<close> of \<open>a%26b\<close> before the ampersand is looked for.
\<close>

lemma refparser_cuts_ampersand: "raw_query ''q='' ''http://google.ru/?q=a&b'' = ''a''"
  by code_simp

end
