(* ===== verification/ServerUtils.thy ===== *)
theory ServerUtils
  imports Descriptors
begin

text \<open>
  \<^verbatim>\<open>network/HttpServer/ServerUtils.cpp\<close>: the sockets that the server listens on and the client
  connects. The table of descriptors of the process is the state. What depends on the platform
  (bits of flags, the size of a path) and what the other system calls give are parameters.
\<close>

section \<open>Descriptors that are sockets\<close>

datatype address = Inet u32 "16 word" | UnixPath string

text \<open>A descriptor: its status flags, and of a socket its own address, the backlog and the peer.\<close>

record descriptor =
  de_flags :: u32
  de_addr :: "address option"
  de_backlog :: "int option"
  de_peer :: "address option"

type_synonym descriptors = "(nat, descriptor) omap"

record platform =
  pf_nonblock :: u32
  pf_setfl :: u32
  pf_sun_path :: nat
  pf_inet_addr :: "string \<Rightarrow> u32"

text \<open>
  What the system makes of one call: the number of descriptors it allows, whether
  \<^verbatim>\<open>setsockopt\<close> (twice), \<^verbatim>\<open>bind\<close>, \<^verbatim>\<open>listen\<close> and \<^verbatim>\<open>connect\<close> succeed, and the text of \<^verbatim>\<open>errno\<close>.
\<close>

record net_env =
  ne_limit :: nat
  ne_reuse :: bool
  ne_nodelay :: bool
  ne_bind :: bool
  ne_listen :: bool
  ne_connect :: bool
  ne_errno :: string

definition sys_socket :: "net_env \<Rightarrow> descriptors \<Rightarrow> int \<times> descriptors" where
  "sys_socket env t =
     (let n = lowest_free t
      in if n < ne_limit env
         then (int n, om_put n \<lparr>de_flags = 0, de_addr = None, de_backlog = None, de_peer = None\<rparr> t) else (- 1, t))"

definition sys_update :: "int \<Rightarrow> (descriptor \<Rightarrow> descriptor) \<Rightarrow> descriptors \<Rightarrow> descriptors" where
  "sys_update fd f t =
     (if fd < 0 then t else case om_find t (nat fd) of None \<Rightarrow> t | Some d \<Rightarrow> om_put (nat fd) (f d) t)"

text \<open>\<^verbatim>\<open>F_GETFL\<close> fails with -1; \<^verbatim>\<open>F_SETFL\<close> changes the bits of \<open>pf_setfl\<close>.\<close>

definition sys_getfl :: "int \<Rightarrow> descriptors \<Rightarrow> u32" where
  "sys_getfl fd t = (if fd < 0 then - 1 else case om_find t (nat fd) of None \<Rightarrow> - 1 | Some d \<Rightarrow> de_flags d)"

definition sys_setfl :: "platform \<Rightarrow> int \<Rightarrow> u32 \<Rightarrow> descriptors \<Rightarrow> descriptors" where
  "sys_setfl pf fd v =
     sys_update fd (\<lambda>d. d\<lparr>de_flags := (de_flags d AND NOT (pf_setfl pf)) OR (v AND pf_setfl pf)\<rparr>)"

section \<open>The code\<close>

text \<open>\<open>&= !O_NONBLOCK\<close> has the logical negation.\<close>

definition setSocketBlock :: "platform \<Rightarrow> int \<Rightarrow> bool \<Rightarrow> descriptors \<Rightarrow> descriptors" where
  "setSocketBlock pf fd isblock t =
     (let flags = sys_getfl fd t;
          flags = (if \<not> isblock then flags OR pf_nonblock pf else flags AND (if pf_nonblock pf = 0 then 1 else 0))
      in sys_setfl pf fd flags t)"

text \<open>How a call ends that does not return: what is thrown, the exit of the process, or undefined behaviour.\<close>

datatype net_end = ThrowsString string | CannotConnectEx string | ExitsProcess int | OverflowsPath

definition htons :: "int \<Rightarrow> 16 word" where
  "htons port = word_of_int port"

definition startListening_port :: "platform \<Rightarrow> net_env \<Rightarrow> int \<Rightarrow> descriptors \<Rightarrow> (net_end + int) \<times> descriptors" where
  "startListening_port pf env port t =
     (let (sockfd, t) = sys_socket env t;
          t = setSocketBlock pf sockfd False t
      in if sockfd < 0 then (Inl (ThrowsString ''hsock_t::server: ERROR opening server socket''), t)
         else if \<not> ne_reuse env then (Inl (ExitsProcess 1), t)
         else if \<not> ne_nodelay env then (Inl (ExitsProcess 1), t)
         else if \<not> ne_bind env then (Inl (ThrowsString ''hsock_t::server: Error server binding''), t)
         else
           (let t = sys_update sockfd (\<lambda>d. d\<lparr>de_addr := Some (Inet 0 (htons port))\<rparr>) t;
                t = (if ne_listen env then sys_update sockfd (\<lambda>d. d\<lparr>de_backlog := Some 1024\<rparr>) t else t)
            in (Inr sockfd, t)))"

definition createLocalSocket :: "platform \<Rightarrow> net_env \<Rightarrow> string \<Rightarrow> descriptors \<Rightarrow> (net_end + int) \<times> descriptors" where
  "createLocalSocket pf env localsocket t =
     (let sun_path = cstr localsocket
      in if length sun_path \<ge> pf_sun_path pf then (Inl OverflowsPath, t)
         else
           (let (fd, t) = sys_socket env t
            in if fd < 0 then (Inl (ExitsProcess 1), t)
               else if \<not> ne_bind env then (Inl (ExitsProcess 1), t)
               else (Inr fd, sys_update fd (\<lambda>d. d\<lparr>de_addr := Some (UnixPath sun_path)\<rparr>) t)))"

definition startListening_local :: "platform \<Rightarrow> net_env \<Rightarrow> string \<Rightarrow> descriptors \<Rightarrow> (net_end + int) \<times> descriptors" where
  "startListening_local pf env localsocket t =
     (case createLocalSocket pf env localsocket t of
        (Inl e, t) \<Rightarrow> (Inl e, t)
      | (Inr fd, t) \<Rightarrow>
          (let t = setSocketBlock pf fd False t;
               t = (if ne_listen env then sys_update fd (\<lambda>d. d\<lparr>de_backlog := Some 1024\<rparr>) t else t)
           in (Inr fd, t)))"

text \<open>\<^verbatim>\<open>bind\<close> to port 0 leaves the address to the system: it is not kept here.\<close>

definition connectSocket :: "platform \<Rightarrow> net_env \<Rightarrow> string \<Rightarrow> int \<Rightarrow> descriptors \<Rightarrow> (net_end + int) \<times> descriptors" where
  "connectSocket pf env ip port t =
     (let (sockfd, t) = sys_socket env t
      in if sockfd = - 1 then (Inl (CannotConnectEx []), t)
         else if \<not> ne_bind env then (Inl (CannotConnectEx (ne_errno env)), t)
         else if \<not> ne_connect env then (Inl (CannotConnectEx (ne_errno env)), t)
         else
           (let t = sys_update sockfd (\<lambda>d. d\<lparr>de_peer := Some (Inet (pf_inet_addr pf (cstr ip)) (htons port))\<rparr>) t
            in (Inr sockfd, setSocketBlock pf sockfd False t)))"

section \<open>Flags\<close>

definition platform_ok :: "platform \<Rightarrow> bool" where
  "platform_ok pf \<longleftrightarrow> pf_nonblock pf \<noteq> 0 \<and> pf_nonblock pf AND pf_setfl pf = pf_nonblock pf"

definition linux :: platform where
  "linux = \<lparr>pf_nonblock = 0x800, pf_setfl = 0x46c00, pf_sun_path = 108,
     pf_inet_addr = (\<lambda>s. if s = ''127.0.0.1'' then 0x100007f else - 1)\<rparr>"

lemma linux_ok: "platform_ok linux"
  by (simp add: platform_ok_def linux_def)

lemma sys_update_find:
  "om_inv t \<Longrightarrow> om_find (sys_update (int n) f t) k = (if k = n then map_option f (om_find t n) else om_find t k)"
  by (auto simp: sys_update_def split: option.splits)

lemma sys_update_inv: "om_inv t \<Longrightarrow> om_inv (sys_update fd f t)"
  by (simp add: sys_update_def split: option.split)

lemma sys_update_length: "om_inv t \<Longrightarrow> length (sys_update fd f t) = length t"
  by (simp add: sys_update_def length_om_put split: option.split)

lemma setSocketBlock_inv: "om_inv t \<Longrightarrow> om_inv (setSocketBlock pf fd b t)"
  by (simp add: setSocketBlock_def sys_setfl_def sys_update_inv Let_def)

text \<open>
  To be not blocking sets the one flag. To be blocking clears every flag that can be set,
  as the code takes the logical negation of \<^verbatim>\<open>O_NONBLOCK\<close>.
\<close>

lemma set_nonblock_bits:
  assumes "n AND m = (n :: u32)"
  shows "(f AND NOT m) OR ((f OR n) AND m) = f OR n"
proof (rule bit_word_eqI)
  fix i
  assume i: "i < LENGTH(32)"
  have "bit (n AND m) i = bit n i"
    by (simp add: assms)
  then show "bit ((f AND NOT m) OR ((f OR n) AND m)) i = bit (f OR n) i"
    using i by (auto simp: bit_simps)
qed

lemma setSocketBlock_flags:
  assumes "platform_ok pf" "om_inv t" "om_find t n = Some d"
  shows "om_find (setSocketBlock pf (int n) False t) n = Some (d\<lparr>de_flags := de_flags d OR pf_nonblock pf\<rparr>) \<and>
    om_find (setSocketBlock pf (int n) True t) n = Some (d\<lparr>de_flags := de_flags d AND NOT (pf_setfl pf)\<rparr>) \<and>
    (k \<noteq> n \<longrightarrow> om_find (setSocketBlock pf (int n) b t) k = om_find t k)"
  using assms set_nonblock_bits [of "pf_nonblock pf" "pf_setfl pf" "de_flags d"]
  by (simp add: setSocketBlock_def sys_setfl_def sys_update_find sys_getfl_def platform_ok_def Let_def)

lemma setSocketBlock_find:
  assumes "platform_ok pf" "om_inv t"
  shows "om_find (setSocketBlock pf (int n) False t) k =
    (if k = n then map_option (\<lambda>d. d\<lparr>de_flags := de_flags d OR pf_nonblock pf\<rparr>) (om_find t n) else om_find t k)"
  using assms setSocketBlock_flags [OF assms]
  by (cases "om_find t n") (auto simp: setSocketBlock_def sys_setfl_def sys_update_find Let_def)

lemmas socket_code = sys_update_find setSocketBlock_find sys_update_inv setSocketBlock_inv lowest_free_None

lemma sys_socket_inv: "om_inv t \<Longrightarrow> om_inv (snd (sys_socket env t))"
  by (simp add: sys_socket_def Let_def)

section \<open>Properties\<close>

text \<open>
  when \<open>startListening\<close> returns, its result is a new descriptor: a socket that does not block
  and is bound to the port modulo \<open>2^16\<close>, or to the path up to its first NUL; it listens
  unless \<^verbatim>\<open>listen\<close> failed, which is not looked at. All other descriptors are as before. A path that
  does not fit its array is written past its end.
\<close>

lemma startListening_listens:
  assumes ok: "platform_ok pf" "om_inv t"
  shows "(\<forall>fd t'. startListening_port pf env port t = (Inr fd, t') \<longrightarrow>
      (\<exists>n. fd = int n \<and> om_find t n = None \<and> (\<forall>k. k \<noteq> n \<longrightarrow> om_find t' k = om_find t k) \<and>
        om_find t' n = Some \<lparr>de_flags = pf_nonblock pf, de_addr = Some (Inet 0 (word_of_int (port mod 2 ^ 16))),
          de_backlog = (if ne_listen env then Some 1024 else None), de_peer = None\<rparr>)) \<and>
    (\<forall>fd t'. startListening_local pf env path t = (Inr fd, t') \<longrightarrow>
      (\<exists>n. fd = int n \<and> om_find t n = None \<and> (\<forall>k. k \<noteq> n \<longrightarrow> om_find t' k = om_find t k) \<and>
        om_find t' n = Some \<lparr>de_flags = pf_nonblock pf, de_addr = Some (UnixPath (cstr path)),
          de_backlog = (if ne_listen env then Some 1024 else None), de_peer = None\<rparr>)) \<and>
    (fst (startListening_local pf env path t) = Inl OverflowsPath \<longleftrightarrow> pf_sun_path pf \<le> length (cstr path))"
proof -
  have port: "htons port = word_of_int (port mod 2 ^ 16)"
    by (simp add: htons_def word_of_int_eq_iff take_bit_eq_mod)
  show ?thesis
    using ok unfolding port [symmetric]
    by (auto simp: startListening_port_def startListening_local_def createLocalSocket_def sys_socket_def Let_def socket_code
        split: if_splits)
qed

lemma startListening_listens_witness:
  "\<exists>t'. startListening_port linux \<lparr>ne_limit = 4, ne_reuse = True, ne_nodelay = True, ne_bind = True, ne_listen = True,
       ne_connect = True, ne_errno = []\<rparr> 65616 [] = (Inr 0, t') \<and>
     map_option de_addr (om_find t' 0) = Some (Some (Inet 0 80))"
proof -
  let ?env = "\<lparr>ne_limit = 4, ne_reuse = True, ne_nodelay = True, ne_bind = True, ne_listen = True, ne_connect = True, ne_errno = []\<rparr>"
  have "fst (startListening_port linux ?env 65616 []) = Inr 0"
    by code_simp
  then obtain t' where t': "startListening_port linux ?env 65616 [] = (Inr 0, t')"
    by (metis prod.collapse)
  then show ?thesis
    using startListening_listens [OF linux_ok, of "[]" ?env 65616 "[]"] by (fastforce simp: om_inv_def)
qed

text \<open>What \<open>connectSocket\<close> returns is connected and does not block.\<close>

lemma connectSocket_connects:
  assumes "platform_ok pf" "om_inv t" "connectSocket pf env ip port t = (Inr fd, t')"
  shows "\<exists>n. fd = int n \<and> om_find t n = None \<and> (\<forall>k. k \<noteq> n \<longrightarrow> om_find t' k = om_find t k) \<and>
    om_find t' n = Some \<lparr>de_flags = pf_nonblock pf, de_addr = None, de_backlog = None,
      de_peer = Some (Inet (pf_inet_addr pf (cstr ip)) (htons port))\<rparr>"
  using assms by (auto simp: connectSocket_def sys_socket_def Let_def socket_code split: if_splits)

text \<open>One that throws after \<^verbatim>\<open>socket\<close> leaves the descriptor open, and nobody knows it.\<close>

fun connect_tries :: "platform \<Rightarrow> string \<Rightarrow> int \<Rightarrow> net_env list \<Rightarrow> descriptors \<Rightarrow> descriptors" where
  "connect_tries pf ip port [] t = t"
| "connect_tries pf ip port (env # envs) t = connect_tries pf ip port envs (snd (connectSocket pf env ip port t))"

lemma connectSocket_fails:
  assumes "om_inv t" "\<forall>n. om_find t n \<noteq> None \<longrightarrow> n < limit" "ne_limit env = limit" "\<not> (ne_bind env \<and> ne_connect env)"
    "connectSocket pf env ip port t = (r, t')"
  shows "om_inv t' \<and> (\<forall>n. om_find t' n \<noteq> None \<longrightarrow> n < limit) \<and> length t' = min limit (length t + 1) \<and>
    (\<exists>e. r = Inl (CannotConnectEx e))"
proof -
  have "length t \<le> limit"
    using lowest_free_limit [of t "Suc limit"] lowest_free_limit [OF assms(1,2)] lowest_free_least [of t limit]
      assms(1,2) by (metis less_Suc_eq less_Suc_eq_le less_irrefl not_less_eq)
  then show ?thesis
    using assms lowest_free_limit [OF assms(1,2)] lowest_free_None [of t]
    by (auto simp: connectSocket_def sys_socket_def Let_def length_om_put split: if_splits)
qed

text \<open>
  C37: failed connects use up the descriptors of the process: after \<open>n\<close> of them there are \<open>n\<close> more,
  up to the limit; from then on \<open>connectSocket\<close> throws whatever the server does. The binary
  client connects again after each failure.
\<close>

theorem failed_connects_leak:
  assumes "om_inv t" "\<forall>n. om_find t n \<noteq> None \<longrightarrow> n < limit"
    and "\<forall>env \<in> set envs. ne_limit env = limit \<and> \<not> (ne_bind env \<and> ne_connect env)"
  shows "length (connect_tries pf ip port envs t) = min limit (length t + length envs) \<and>
    (length t + length envs \<ge> limit \<longrightarrow> ne_limit env = limit \<longrightarrow>
       connectSocket pf env ip port (connect_tries pf ip port envs t) = (Inl (CannotConnectEx []), connect_tries pf ip port envs t))"
proof -
  have run: "om_inv (connect_tries pf ip port envs t) \<and> (\<forall>n. om_find (connect_tries pf ip port envs t) n \<noteq> None \<longrightarrow> n < limit) \<and>
      length (connect_tries pf ip port envs t) = min limit (length t + length envs)"
    if "length t \<le> limit"
    using assms that
  proof (induction envs arbitrary: t)
    case (Cons e envs)
    obtain r t' where c: "connectSocket pf e ip port t = (r, t')"
      by (metis surj_pair)
    then show ?case
      using connectSocket_fails [OF Cons.prems(1,2) _ _ c] Cons.IH [of t'] Cons.prems(3,4) by auto
  qed simp
  have "length t \<le> limit"
    using lowest_free_limit [of t "Suc limit"] lowest_free_limit [OF assms(1,2)] lowest_free_least [of t limit]
      assms(1,2) by (metis less_Suc_eq less_Suc_eq_le less_irrefl not_less_eq)
  then show ?thesis
    using run lowest_free_limit [of "connect_tries pf ip port envs t" limit]
    by (simp add: connectSocket_def sys_socket_def Let_def)
qed

theorem failed_connects_leak_witness:
  "length (connect_tries linux ''127.0.0.1'' 80
     (replicate 1021 \<lparr>ne_limit = 1024, ne_reuse = True, ne_nodelay = True, ne_bind = True, ne_listen = True,
        ne_connect = False, ne_errno = ''refused''\<rparr>)
     [(0, \<lparr>de_flags = 0, de_addr = None, de_backlog = None, de_peer = None\<rparr>)]) = 1022"
  using failed_connects_leak [of "[(0, \<lparr>de_flags = 0, de_addr = None, de_backlog = None, de_peer = None\<rparr>)]" 1024
      "replicate 1021 \<lparr>ne_limit = 1024, ne_reuse = True, ne_nodelay = True, ne_bind = True, ne_listen = True, ne_connect = False, ne_errno = ''refused''\<rparr>"]
  by (simp add: om_inv_def om_find_def)

end
