(* ===== verification/Pg.thy ===== *)
theory Pg
  imports StringUtils
begin

text \<open>
  \<^verbatim>\<open>pg/pg.cpp\<close>: a connection to PostgreSQL. libpq is a parameter: the state of its connection,
  which is also that of the server behind it, and its calls. Results that the code neither
  returns nor clears are in \<open>pg_lost\<close>.
\<close>

section \<open>The code\<close>

datatype exec_status = PGRES_EMPTY_QUERY | PGRES_COMMAND_OK | PGRES_TUPLES_OK | PGRES_COPY_OUT | PGRES_COPY_IN
  | PGRES_BAD_RESPONSE | PGRES_NONFATAL_ERROR | PGRES_FATAL_ERROR

text \<open>\<open>pq_status\<close> is whether the status is \<^verbatim>\<open>CONNECTION_OK\<close>; \<^verbatim>\<open>NULL\<close> is \<open>None\<close>.\<close>

record ('c, 'r) libpq =
  pq_connectdb :: "string \<Rightarrow> 'c option"
  pq_status :: "'c \<Rightarrow> bool"
  pq_exec :: "'c \<Rightarrow> string \<Rightarrow> 'r \<times> 'c"
  pq_resultStatus :: "'r \<Rightarrow> exec_status"
  pq_reset :: "'c \<Rightarrow> 'c"
  pq_escapeLiteral :: "'c \<Rightarrow> string \<Rightarrow> string option"

datatype pg_exn = PGNoConnEx | PGCantQueryEx

record ('c, 'r) pg =
  m_host :: string
  m_port :: "32 word"
  m_db :: string
  m_user :: string
  m_pass :: string
  m_conn :: 'c
  pg_lost :: "'r list"

definition quoted :: "string \<Rightarrow> string" where
  "quoted s = CHR 0x27 # s @ [CHR 0x27]"

definition PG_new ::
  "('c, 'r) libpq \<Rightarrow> string \<Rightarrow> 32 word \<Rightarrow> string \<Rightarrow> string \<Rightarrow> string \<Rightarrow> pg_exn + ('c, 'r) pg" where
  "PG_new pq host port db user pass =
     (let params = ''hostaddr = '' @ quoted host @ '' port = '' @ quoted (inttostr port) @ '' dbname = '' @ quoted db @
          '' user = '' @ quoted user @ '' password = '' @ quoted pass @ '' connect_timeout = '' @ quoted ''10''
      in case pq_connectdb pq (cstr params) of
           None \<Rightarrow> Inl PGNoConnEx
         | Some conn \<Rightarrow>
             if \<not> pq_status pq conn then Inl PGNoConnEx
             else Inr \<lparr>m_host = host, m_port = port, m_db = db, m_user = user, m_pass = pass, m_conn = conn, pg_lost = []\<rparr>)"

function doCheckDbConn :: "('c, 'r) libpq \<Rightarrow> nat \<Rightarrow> 'c \<Rightarrow> bool \<times> 'c" where
  "doCheckDbConn pq attempt conn =
     (if attempt > 10 then (False, conn)
      else if \<not> pq_status pq conn then doCheckDbConn pq (attempt + 1) (pq_reset pq conn)
      else (True, conn))"
  by pat_completeness auto
termination
  by (relation "measure (\<lambda>(pq, attempt, conn). 11 - attempt)") auto

declare doCheckDbConn.simps [simp del]

definition checkDbConn :: "('c, 'r) libpq \<Rightarrow> 'c \<Rightarrow> bool \<times> 'c" where
  "checkDbConn pq conn = doCheckDbConn pq 0 conn"

definition status_accepted :: "exec_status \<Rightarrow> bool" where
  "status_accepted status \<longleftrightarrow> \<not> (status \<noteq> PGRES_TUPLES_OK \<and> status \<noteq> PGRES_COMMAND_OK \<and>
     status \<noteq> PGRES_EMPTY_QUERY \<and> status \<noteq> PGRES_NONFATAL_ERROR)"

function doQuery :: "('c, 'r) libpq \<Rightarrow> string \<Rightarrow> nat \<Rightarrow> ('c, 'r) pg \<Rightarrow> (pg_exn + 'r) \<times> ('c, 'r) pg" where
  "doQuery pq q attempt s =
     (if attempt > 10 then (Inl PGCantQueryEx, s)
      else
        (case pq_exec pq (m_conn s) (cstr q) of (res, conn) \<Rightarrow>
           if \<not> status_accepted (pq_resultStatus pq res) then
             (case checkDbConn pq conn of (alive, conn) \<Rightarrow>
                if alive then doQuery pq q (attempt + 1) (s\<lparr>m_conn := conn, pg_lost := pg_lost s @ [res]\<rparr>)
                else (Inl PGCantQueryEx, s\<lparr>m_conn := conn, pg_lost := pg_lost s @ [res]\<rparr>))
           else (Inr res, s\<lparr>m_conn := conn\<rparr>)))"
  by pat_completeness auto
termination
  by (relation "measure (\<lambda>(pq, q, attempt, s). 11 - attempt)") auto

declare doQuery.simps [simp del]

definition PG_query :: "('c, 'r) libpq \<Rightarrow> string \<Rightarrow> ('c, 'r) pg \<Rightarrow> (pg_exn + 'r) \<times> ('c, 'r) pg" where
  "PG_query pq q s = doQuery pq q 0 s"

text \<open>\<open>None\<close>: libpq gives \<^verbatim>\<open>NULL\<close>, of which no string can be made.\<close>

definition PG_escapeString :: "('c, 'r) libpq \<Rightarrow> string \<Rightarrow> ('c, 'r) pg \<Rightarrow> string option" where
  "PG_escapeString pq str s = map_option cstr (pq_escapeLiteral pq (m_conn s) str)"

section \<open>The check of the connection\<close>

text \<open>It is given up after eleven resets, the last of which is not looked at.\<close>

lemma doCheckDbConn_resets:
  assumes "\<And>j. j < n \<Longrightarrow> \<not> pq_status pq ((pq_reset pq ^^ j) conn)" "attempt + n \<le> 11"
  shows "doCheckDbConn pq attempt conn = doCheckDbConn pq (attempt + n) ((pq_reset pq ^^ n) conn)"
  using assms
proof (induction n)
  case (Suc n)
  have "doCheckDbConn pq (attempt + n) ((pq_reset pq ^^ n) conn) = doCheckDbConn pq (attempt + Suc n) ((pq_reset pq ^^ Suc n) conn)"
    using Suc.prems(1) [of n] Suc.prems(2) by (subst doCheckDbConn.simps) simp
  then show ?case
    using Suc by simp
qed simp

lemma checkDbConn_alive:
  assumes "\<And>j. j < n \<Longrightarrow> \<not> pq_status pq ((pq_reset pq ^^ j) conn)" "n \<le> 10" "pq_status pq ((pq_reset pq ^^ n) conn)"
  shows "checkDbConn pq conn = (True, (pq_reset pq ^^ n) conn)"
proof -
  have "doCheckDbConn pq 0 conn = doCheckDbConn pq n ((pq_reset pq ^^ n) conn)"
    using doCheckDbConn_resets [of n pq conn 0] assms(1,2) by simp
  also have "\<dots> = (True, (pq_reset pq ^^ n) conn)"
    using assms(2,3) by (subst doCheckDbConn.simps) simp
  finally show ?thesis
    by (simp add: checkDbConn_def)
qed

lemma doCheckDbConn_over: "attempt = 11 \<Longrightarrow> doCheckDbConn pq attempt conn = (False, conn)"
  by (subst doCheckDbConn.simps) simp

lemma checkDbConn_dead:
  assumes "\<And>j. j < n \<Longrightarrow> \<not> pq_status pq ((pq_reset pq ^^ j) conn)" "n = 11"
  shows "checkDbConn pq conn = (False, (pq_reset pq ^^ n) conn)"
proof -
  have "doCheckDbConn pq 0 conn = doCheckDbConn pq n ((pq_reset pq ^^ n) conn)"
    using doCheckDbConn_resets [of n pq conn 0] assms by simp
  also have "\<dots> = (False, (pq_reset pq ^^ n) conn)"
    using doCheckDbConn_over [of n pq] assms(2) by blast
  finally show ?thesis
    by (simp add: checkDbConn_def)
qed

lemma checkDbConn_true: "pq_status pq conn \<Longrightarrow> checkDbConn pq conn = (True, conn)"
  using checkDbConn_alive [of 0 pq conn] by simp

section \<open>Queries\<close>

lemma doQuery_accepted:
  "attempt \<le> 10 \<Longrightarrow> pq_exec pq (m_conn s) (cstr q) = (res, conn) \<Longrightarrow> status_accepted (pq_resultStatus pq res) \<Longrightarrow>
   doQuery pq q attempt s = (Inr res, s\<lparr>m_conn := conn\<rparr>)"
  by (subst doQuery.simps) simp

lemma doQuery_again:
  "attempt \<le> 10 \<Longrightarrow> pq_exec pq (m_conn s) (cstr q) = (res, conn) \<Longrightarrow> \<not> status_accepted (pq_resultStatus pq res) \<Longrightarrow>
   checkDbConn pq conn = (True, conn') \<Longrightarrow>
   doQuery pq q attempt s = doQuery pq q (attempt + 1) (s\<lparr>m_conn := conn', pg_lost := pg_lost s @ [res]\<rparr>)"
  by (subst doQuery.simps) simp

lemma doQuery_dead:
  "attempt \<le> 10 \<Longrightarrow> pq_exec pq (m_conn s) (cstr q) = (res, conn) \<Longrightarrow> \<not> status_accepted (pq_resultStatus pq res) \<Longrightarrow>
   checkDbConn pq conn = (False, conn') \<Longrightarrow>
   doQuery pq q attempt s = (Inl PGCantQueryEx, s\<lparr>m_conn := conn', pg_lost := pg_lost s @ [res]\<rparr>)"
  by (subst doQuery.simps) simp

lemma doQuery_outcome:
  assumes "doQuery pq q attempt s = (r, s')" "attempt \<le> 11"
  shows "\<exists>lost. pg_lost s' = pg_lost s @ lost \<and> attempt + length lost \<le> 11 \<and>
    (\<forall>res \<in> set lost. \<not> status_accepted (pq_resultStatus pq res)) \<and>
    (\<forall>res. r = Inr res \<longrightarrow> status_accepted (pq_resultStatus pq res) \<and> attempt + length lost \<le> 10) \<and>
    (\<forall>e. r = Inl e \<longrightarrow> e = PGCantQueryEx \<and> (attempt \<le> 10 \<longrightarrow> lost \<noteq> []))"
  using assms
proof (induction pq q attempt s rule: doQuery.induct)
  case (1 pq q attempt s)
  obtain res conn where ex: "pq_exec pq (m_conn s) (cstr q) = (res, conn)"
    by (cases "pq_exec pq (m_conn s) (cstr q)")
  obtain alive conn' where ch: "checkDbConn pq conn = (alive, conn')"
    by (cases "checkDbConn pq conn")
  let ?s = "s\<lparr>m_conn := conn', pg_lost := pg_lost s @ [res]\<rparr>"
  show ?case
  proof (cases "attempt > 10")
    case False
    show ?thesis
    proof (cases "status_accepted (pq_resultStatus pq res) \<or> \<not> alive")
      case True
      then show ?thesis
        using 1(2) False ex ch by (auto simp: doQuery.simps [of pq q attempt] split: if_splits)
    next
      case again: False
      then have "doQuery pq q (attempt + 1) ?s = (r, s')"
        using 1(2) False ex ch by (simp add: doQuery.simps [of pq q attempt])
      from 1(1) [OF False ex [symmetric] _ ch [symmetric] _ this] again False
      obtain lost where "pg_lost s' = pg_lost s @ res # lost \<and> attempt + Suc (length lost) \<le> 11 \<and>
          (\<forall>res \<in> set lost. \<not> status_accepted (pq_resultStatus pq res)) \<and>
          (\<forall>res. r = Inr res \<longrightarrow> status_accepted (pq_resultStatus pq res) \<and> attempt + Suc (length lost) \<le> 10) \<and>
          (\<forall>e. r = Inl e \<longrightarrow> e = PGCantQueryEx)"
        by auto
      then show ?thesis
        using again by (intro exI [of _ "res # lost"]) auto
    qed
  next
    case True
    then show ?thesis
      using 1(2,3) by (auto simp: doQuery.simps [of pq q attempt])
  qed
qed

text \<open>
  a query returns after at most eleven executions, with the first result that is
  accepted, or throws \<open>PGCantQueryEx\<close>; the results of the failed executions are never cleared.
\<close>

lemma query_bounded:
  "case PG_query pq q s of (r, s') \<Rightarrow>
     (\<exists>lost. pg_lost s' = pg_lost s @ lost \<and> length lost \<le> 11 \<and> (\<forall>res \<in> set lost. \<not> status_accepted (pq_resultStatus pq res)) \<and>
       (case r of Inr res \<Rightarrow> status_accepted (pq_resultStatus pq res) \<and> length lost \<le> 10
        | Inl e \<Rightarrow> e = PGCantQueryEx \<and> lost \<noteq> []))"
proof -
  obtain r s' where q: "PG_query pq q s = (r, s')"
    by (cases "PG_query pq q s")
  then show ?thesis
    using doQuery_outcome [of pq q 0 s r s'] by (cases r) (auto simp: PG_query_def)
qed

text \<open>A database of counters: a statement adds one, and the link breaks before the answer, once.\<close>

definition demo_pq :: "(nat \<times> bool \<times> bool, exec_status) libpq" where
  "demo_pq = \<lparr>pq_connectdb = (\<lambda>_. Some (0, True, True)), pq_status = (\<lambda>(n, up, breaks). up),
     pq_exec = (\<lambda>(n, up, breaks) q. if up then (if breaks then (PGRES_FATAL_ERROR, (n + 1, False, False))
                                                else (PGRES_COMMAND_OK, (n + 1, True, False)))
                                    else (PGRES_FATAL_ERROR, (n, up, breaks))),
     pq_resultStatus = (\<lambda>r. r), pq_reset = (\<lambda>(n, up, breaks). (n, True, breaks)), pq_escapeLiteral = (\<lambda>c s. Some s)\<rparr>"

definition demo_pg :: "(nat \<times> bool \<times> bool, exec_status) pg" where
  "demo_pg = \<lparr>m_host = ''10.0.0.1'', m_port = 5432, m_db = ''d'', m_user = ''u'', m_pass = ''p'', m_conn = (0, True, True), pg_lost = []\<rparr>"

lemma query_bounded_witness:
  "\<exists>lost. pg_lost (snd (PG_query demo_pq ''q'' demo_pg)) = lost \<and> length lost \<le> 11"
  using query_bounded [where pq = demo_pq and q = "''q''" and s = demo_pg] by (auto simp: demo_pg_def split: prod.splits)

text \<open>
  C38: a query during which the connection is lost returns the result of the next execution,
  if one of the first ten resets brings the connection back; when none of them does, it throws,
  though the eleventh may have. So the statement is executed twice, whatever the first
  execution did.
\<close>

theorem query_survives_reset:
  assumes first: "pq_exec pq (m_conn s) (cstr q) = (lost, conn)" "\<not> status_accepted (pq_resultStatus pq lost)"
    and down: "\<forall>j < n. \<not> pq_status pq ((pq_reset pq ^^ j) conn)"
  shows "(n \<le> 10 \<longrightarrow> pq_status pq ((pq_reset pq ^^ n) conn) \<longrightarrow>
      pq_exec pq ((pq_reset pq ^^ n) conn) (cstr q) = (res, conn') \<longrightarrow> status_accepted (pq_resultStatus pq res) \<longrightarrow>
      PG_query pq q s = (Inr res, s\<lparr>m_conn := conn', pg_lost := pg_lost s @ [lost]\<rparr>)) \<and>
    (n > 10 \<longrightarrow> PG_query pq q s = (Inl PGCantQueryEx, s\<lparr>m_conn := (pq_reset pq ^^ 11) conn, pg_lost := pg_lost s @ [lost]\<rparr>))"
proof -
  have alive: "checkDbConn pq conn = (True, (pq_reset pq ^^ n) conn)" if "n \<le> 10" "pq_status pq ((pq_reset pq ^^ n) conn)"
    by (rule checkDbConn_alive [OF _ that]) (rule down [rule_format])
  have dead: "checkDbConn pq conn = (False, (pq_reset pq ^^ 11) conn)" if "n > 10"
  proof (rule checkDbConn_dead [OF _ refl])
    fix j :: nat
    assume "j < 11"
    then have "j < n"
      using that by linarith
    then show "\<not> pq_status pq ((pq_reset pq ^^ j) conn)"
      using down by blast
  qed
  have "PG_query pq q s = (Inr res, s\<lparr>m_conn := conn', pg_lost := pg_lost s @ [lost]\<rparr>)"
    if "n \<le> 10" "pq_status pq ((pq_reset pq ^^ n) conn)" "pq_exec pq ((pq_reset pq ^^ n) conn) (cstr q) = (res, conn')"
      "status_accepted (pq_resultStatus pq res)"
    unfolding PG_query_def using doQuery_again [OF _ first alive [OF that(1,2)], of 0] doQuery_accepted [OF _ _ that(4)] that(3)
    by simp
  moreover have "PG_query pq q s = (Inl PGCantQueryEx, s\<lparr>m_conn := (pq_reset pq ^^ 11) conn, pg_lost := pg_lost s @ [lost]\<rparr>)" if "n > 10"
    unfolding PG_query_def by (rule doQuery_dead [OF _ first dead [OF that]]) simp
  ultimately show ?thesis
    by blast
qed

text \<open>The counter of the database is two.\<close>

theorem query_survives_reset_witness:
  "PG_query demo_pq ''q'' demo_pg = (Inr PGRES_COMMAND_OK, demo_pg\<lparr>m_conn := (2, True, False), pg_lost := [PGRES_FATAL_ERROR]\<rparr>)"
  using query_survives_reset [of demo_pq demo_pg "''q''" PGRES_FATAL_ERROR "(1, False, False)" 1 PGRES_COMMAND_OK "(2, True, False)"]
  by (simp add: demo_pq_def demo_pg_def status_accepted_def)

text \<open>A statement that the server refuses is executed eleven times over a live connection.\<close>

lemma doQuery_refused:
  assumes "\<And>c. c \<in> C \<Longrightarrow> pq_status pq (snd (pq_exec pq c (cstr q))) \<and> snd (pq_exec pq c (cstr q)) \<in> C \<and>
      \<not> status_accepted (pq_resultStatus pq (fst (pq_exec pq c (cstr q))))" "m_conn s \<in> C" "attempt + n = 11"
  shows "fst (doQuery pq q attempt s) = Inl PGCantQueryEx \<and> length (pg_lost (snd (doQuery pq q attempt s))) = length (pg_lost s) + n"
  using assms(2,3)
proof (induction n arbitrary: attempt s)
  case 0
  then show ?case
    by (simp add: doQuery.simps)
next
  case (Suc n)
  obtain res conn where ex: "pq_exec pq (m_conn s) (cstr q) = (res, conn)"
    by (cases "pq_exec pq (m_conn s) (cstr q)")
  have "doQuery pq q attempt s = doQuery pq q (attempt + 1) (s\<lparr>m_conn := conn, pg_lost := pg_lost s @ [res]\<rparr>)"
    using assms(1) [OF Suc.prems(1)] Suc.prems(2) ex by (subst doQuery.simps) (simp add: checkDbConn_true)
  then show ?case
    using Suc.IH [of "s\<lparr>m_conn := conn, pg_lost := pg_lost s @ [res]\<rparr>" "attempt + 1"] assms(1) [OF Suc.prems(1)] Suc.prems(2) ex by simp
qed

lemma query_refused:
  assumes "\<And>c. c \<in> C \<Longrightarrow> pq_status pq (snd (pq_exec pq c (cstr q))) \<and> snd (pq_exec pq c (cstr q)) \<in> C \<and>
      \<not> status_accepted (pq_resultStatus pq (fst (pq_exec pq c (cstr q))))" "m_conn s \<in> C"
  shows "fst (PG_query pq q s) = Inl PGCantQueryEx \<and> length (pg_lost (snd (PG_query pq q s))) = length (pg_lost s) + 11"
  using doQuery_refused [OF assms, of 0 11] by (simp add: PG_query_def)

end
