(* ===== verification/Ct.thy ===== *)
theory Ct
  imports StringUtils
begin

text \<open>
  \<^verbatim>\<open>ct/CtObj.cpp\<close> and \<^verbatim>\<open>ct/ct.cpp\<close>: objects with types and fields, read from a dump in JSON. The
  JSON library is a parameter.
\<close>

section \<open>The code\<close>

datatype value_type = NullValue | IntValue | UintValue | RealValue | StringValue | BooleanValue | ArrayValue | ObjectValue

text \<open>
  A result \<open>None\<close> means: the parser refuses the text, or the call throws. \<open>cj_keys\<close> are the keys
  that the iteration over a value meets, and \<open>cj_elems\<close> the elements of an array.
\<close>

record 'j ct_json =
  cj_parse :: "string \<Rightarrow> 'j option"
  cj_member :: "'j \<Rightarrow> string \<Rightarrow> 'j option"
  cj_type :: "'j \<Rightarrow> value_type"
  cj_elems :: "'j \<Rightarrow> 'j list"
  cj_keys :: "'j \<Rightarrow> string list"
  cj_asInt :: "'j \<Rightarrow> 32 word option"
  cj_asString :: "'j \<Rightarrow> string option"

datatype ct_exn = CtEx string | JsonEx

type_synonym ct_types = "(u64, unit) omap"
type_synonym ct_fields = "(string, string) omap"

record ct_obj =
  ct_id :: u64
  ct_grp :: "32 word"
  obj_types :: ct_types
  obj_fields :: ct_fields
  dump :: string

text \<open>\<^verbatim>\<open>std::stoi\<close>; \<open>None\<close>: it throws.\<close>

definition stoi :: "string \<Rightarrow> 32 word option" where
  "stoi s =
     (case scan_dec s of
        None \<Rightarrow> None
      | Some v \<Rightarrow> if - (2 ^ 31) \<le> v \<and> v < 2 ^ 31 then Some (word_of_int v) else None)"

definition CtTypeIdFromString :: "string \<Rightarrow> u64 option" where
  "CtTypeIdFromString s = map_option scast (stoi s)"

definition CtObjIdFromString :: "string \<Rightarrow> u64 option" where
  "CtObjIdFromString s = map_option scast (stoi s)"

fun types_loop :: "'j ct_json \<Rightarrow> 'j list \<Rightarrow> ct_types \<Rightarrow> ct_exn + ct_types" where
  "types_loop js [] ts = Inr ts"
| "types_loop js (j # jtypes) ts =
     (case cj_asInt js j of None \<Rightarrow> Inl JsonEx | Some i \<Rightarrow> types_loop js jtypes (om_ins (scast i) () ts))"

definition field_text :: "'j ct_json \<Rightarrow> 'j \<Rightarrow> ct_exn + string" where
  "field_text js v =
     (if cj_type js v = IntValue \<or> cj_type js v = UintValue \<or> cj_type js v = RealValue
      then (case cj_asInt js v of None \<Rightarrow> Inl JsonEx | Some i \<Rightarrow> Inr (inttostr i))
      else if cj_type js v = StringValue
      then (case cj_asString js v of None \<Rightarrow> Inl JsonEx | Some s \<Rightarrow> Inr s)
      else Inl (CtEx ''CtObj::parseDump wrong field''))"

fun fields_loop :: "'j ct_json \<Rightarrow> 'j \<Rightarrow> string list \<Rightarrow> ct_fields \<Rightarrow> ct_exn + ct_fields" where
  "fields_loop js jfields [] fs = Inr fs"
| "fields_loop js jfields (k # it) fs =
     (case cj_member js jfields k of
        None \<Rightarrow> Inl JsonEx
      | Some v \<Rightarrow>
          (case field_text js v of Inl e \<Rightarrow> Inl e | Inr s \<Rightarrow> fields_loop js jfields it (om_put k s fs)))"

definition parseDump :: "'j ct_json \<Rightarrow> string \<Rightarrow> ct_obj \<Rightarrow> ct_exn + ct_obj" where
  "parseDump js d obj =
     (case cj_parse js d of
        None \<Rightarrow> Inl (CtEx ''CtObj::parseDump cant parse'')
      | Some root \<Rightarrow>
          (case cj_member js root ''types'' of
             None \<Rightarrow> Inl JsonEx
           | Some jtypes \<Rightarrow>
               if cj_type js jtypes \<noteq> ArrayValue then Inl (CtEx ''CtObj::parseDump root[\"types\"] not array'')
               else
                 (case types_loop js (cj_elems js jtypes) (obj_types obj) of
                    Inl e \<Rightarrow> Inl e
                  | Inr ts \<Rightarrow>
                      (case cj_member js root ''fields'' of
                         None \<Rightarrow> Inl JsonEx
                       | Some jfields \<Rightarrow>
                           (case fields_loop js jfields (cj_keys js jfields) (obj_fields obj) of
                              Inl e \<Rightarrow> Inl e
                            | Inr fs \<Rightarrow> Inr (obj\<lparr>obj_types := ts, obj_fields := fs\<rparr>))))))"

text \<open>Without a group, \<open>grp\<close> stays uninitialised.\<close>

definition CtObj_new :: "'j ct_json \<Rightarrow> 32 word \<Rightarrow> u64 \<Rightarrow> string \<Rightarrow> ct_exn + ct_obj" where
  "CtObj_new js junk i d = parseDump js d \<lparr>ct_id = i, ct_grp = junk, obj_types = [], obj_fields = [], dump = d\<rparr>"

definition CtObj_new_grp :: "'j ct_json \<Rightarrow> u64 \<Rightarrow> string \<Rightarrow> 32 word \<Rightarrow> ct_exn + ct_obj" where
  "CtObj_new_grp js i d g = parseDump js d \<lparr>ct_id = i, ct_grp = g, obj_types = [], obj_fields = [], dump = d\<rparr>"

definition inType :: "u64 \<Rightarrow> ct_obj \<Rightarrow> bool" where
  "inType t obj \<longleftrightarrow> om_find (obj_types obj) t \<noteq> None"

definition CtObjCmp :: "ct_obj \<Rightarrow> ct_obj \<Rightarrow> bool" where
  "CtObjCmp a b \<longleftrightarrow> ct_id a < ct_id b"

section \<open>Numbers\<close>

text \<open>An identifier has 64 bits, but the text of one is read as an \<^verbatim>\<open>int\<close>: from \<open>2^31\<close> on it throws.\<close>

lemma CtObjIdFromString_range:
  "CtObjIdFromString (dec_str n) = (if n < 2 ^ 31 then Some (word_of_nat n) else None)"
proof -
  have "scast (word_of_int (int n) :: 32 word) = (word_of_nat n :: u64)" if "n < 2 ^ 31"
  proof -
    have "sint (word_of_int (int n) :: 32 word) = int n"
      by (subst sint_sbintrunc') (use that in \<open>simp add: signed_take_bit_int_eq_self\<close>)
    then show ?thesis
      by (simp add: scast_eq)
  qed
  then show ?thesis
    by (simp add: CtObjIdFromString_def stoi_def scan_dec_str)
qed

section \<open>Dumps\<close>

lemma types_loop_ok:
  assumes "map (cj_asInt js) es = map Some is" "om_inv ts"
  shows "\<exists>ts'. types_loop js es ts = Inr ts' \<and> om_inv ts' \<and>
    (\<forall>t. om_find ts' t \<noteq> None \<longleftrightarrow> om_find ts t \<noteq> None \<or> t \<in> scast ` set is)"
  using assms
proof (induction es arbitrary: "is" ts)
  case (Cons e es)
  then obtain i is' where i: "is = i # is'" "cj_asInt js e = Some i" "map (cj_asInt js) es = map Some is'"
    by (cases "is") auto
  have inv: "om_inv (om_ins (scast i) () ts)"
    using Cons.prems(2) by simp
  show ?case
    using Cons.IH [OF i(3) inv] i(1,2) Cons.prems(2) by auto
qed simp

lemma fields_loop_ok:
  assumes "\<forall>k \<in> set ks. \<exists>v. cj_member js jf k = Some v \<and> field_text js v = Inr (f k)" "om_inv fs"
  shows "\<exists>fs'. fields_loop js jf ks fs = Inr fs' \<and> om_inv fs' \<and>
    (\<forall>k. om_find fs' k = (if k \<in> set ks then Some (f k) else om_find fs k))"
  using assms
proof (induction ks arbitrary: fs)
  case (Cons k ks)
  then obtain v where v: "cj_member js jf k = Some v" "field_text js v = Inr (f k)"
    by auto
  have "om_inv (om_put k (f k) fs)"
    using Cons.prems(2) by simp
  then show ?case
    using Cons.IH [of "om_put k (f k) fs"] Cons.prems v by auto
qed simp

lemma fields_loop_wrong:
  assumes "k \<in> set ks" "\<forall>k \<in> set ks. \<exists>v. cj_member js jf k = Some v \<and> (\<exists>s. field_text js v = Inr s) \<or>
      cj_member js jf k = Some v \<and> field_text js v = Inl (CtEx e)"
    and "\<exists>v. cj_member js jf k = Some v \<and> field_text js v = Inl (CtEx e)"
  shows "fields_loop js jf ks fs = Inl (CtEx e)"
  using assms
proof (induction ks arbitrary: fs)
  case (Cons k' ks)
  then obtain v where v: "cj_member js jf k' = Some v" "(\<exists>s. field_text js v = Inr s) \<or> field_text js v = Inl (CtEx e)"
    by auto
  show ?case
  proof (cases "field_text js v")
    case (Inr s)
    then have "k \<in> set ks"
      using Cons.prems(1,3) v(1) by auto
    then show ?thesis
      using Cons.IH Cons.prems(2,3) v(1) Inr by simp
  qed (use v in auto)
qed simp

section \<open>Properties\<close>

text \<open>
  from a dump whose types are an array of integers and whose fields are numbers and strings
  an object is made that is of exactly these types, as 64-bit numbers, and has exactly these
  fields, the numbers as decimal text; a field of another kind is refused with a message, and so
  is a dump without an array of types.
\<close>

lemma object_of_dump:
  assumes parse: "cj_parse js d = Some root" "cj_member js root ''types'' = Some jtypes" "cj_member js root ''fields'' = Some jfields"
    and ints: "map (cj_asInt js) (cj_elems js jtypes) = map Some is"
  shows "(cj_type js jtypes = ArrayValue \<longrightarrow>
      (\<forall>k \<in> set (cj_keys js jfields). \<exists>v. cj_member js jfields k = Some v \<and> field_text js v = Inr (f k)) \<longrightarrow>
      (\<exists>obj. CtObj_new js junk i d = Inr obj \<and> ct_id obj = i \<and> dump obj = d \<and> (\<forall>t. inType t obj \<longleftrightarrow> t \<in> scast ` set is) \<and>
         (\<forall>k. om_find (obj_fields obj) k = (if k \<in> set (cj_keys js jfields) then Some (f k) else None)))) \<and>
    (cj_type js jtypes \<noteq> ArrayValue \<longrightarrow>
      CtObj_new js junk i d = Inl (CtEx ''CtObj::parseDump root[\"types\"] not array''))"
proof -
  obtain ts where ts: "types_loop js (cj_elems js jtypes) [] = Inr ts" "\<forall>t. om_find ts t \<noteq> None \<longleftrightarrow> t \<in> scast ` set is"
    using types_loop_ok [OF ints, of "[]"] by (auto simp: om_inv_def om_find_def)
  show ?thesis
    using fields_loop_ok [of "cj_keys js jfields" js jfields f "[]"] parse ts
    by (auto simp: CtObj_new_def parseDump_def inType_def om_inv_def om_find_def)
qed

text \<open>Objects with a field that is a list.\<close>

lemma object_wrong_field:
  assumes "cj_parse js d = Some root" "cj_member js root ''types'' = Some jtypes" "cj_member js root ''fields'' = Some jfields"
    and "map (cj_asInt js) (cj_elems js jtypes) = map Some is" "cj_type js jtypes = ArrayValue"
    and "cj_keys js jfields = [k]" "cj_member js jfields k = Some v" "cj_type js v = ArrayValue"
  shows "CtObj_new js junk i d = Inl (CtEx ''CtObj::parseDump wrong field'')"
  using types_loop_ok [OF assms(4), of "[]"] assms(1-3,5-8)
  by (auto simp: CtObj_new_def parseDump_def om_inv_def field_text_def)

text \<open>An instance with one text, \<open>{"types":[-1],"fields":{"a":7,"b":"x"}}\<close>.\<close>

datatype demo_value = DInt "32 word" | DString string | DArray "demo_value list" | DObject "(string \<times> demo_value) list"

definition demo_ct :: "demo_value ct_json" where
  "demo_ct = \<lparr>cj_parse = (\<lambda>s. if s = [] then None else Some (DObject [(''types'', DArray [DInt (- 1)]), (''fields'', DObject [(''a'', DInt 7), (''b'', DString s)])])),
     cj_member = (\<lambda>j k. case j of DObject es \<Rightarrow> map_of es k | _ \<Rightarrow> None),
     cj_type = (\<lambda>j. case j of DInt _ \<Rightarrow> IntValue | DString _ \<Rightarrow> StringValue | DArray _ \<Rightarrow> ArrayValue | DObject _ \<Rightarrow> ObjectValue),
     cj_elems = (\<lambda>j. case j of DArray js \<Rightarrow> js | _ \<Rightarrow> []), cj_keys = (\<lambda>j. case j of DObject es \<Rightarrow> map fst es | _ \<Rightarrow> []),
     cj_asInt = (\<lambda>j. case j of DInt i \<Rightarrow> Some i | _ \<Rightarrow> None), cj_asString = (\<lambda>j. case j of DString s \<Rightarrow> Some s | _ \<Rightarrow> None)\<rparr>"

lemma object_of_dump_witness:
  "\<exists>obj. CtObj_new demo_ct 9 5 ''x'' = Inr obj \<and> inType (- 1) obj \<and> om_find (obj_fields obj) ''a'' = Some ''7'' \<and> om_find (obj_fields obj) ''b'' = Some ''x''"
proof -
  let ?f = "\<lambda>k. if k = ''a'' then ''7'' else ''x''"
  have seven: "inttostr 7 = ''7''"
    by code_simp
  have m: "cj_parse demo_ct ''x'' = Some (DObject [(''types'', DArray [DInt (- 1)]), (''fields'', DObject [(''a'', DInt 7), (''b'', DString ''x'')])])"
    by (simp add: demo_ct_def)
  have "\<exists>obj. CtObj_new demo_ct 9 5 ''x'' = Inr obj \<and> ct_id obj = 5 \<and> dump obj = ''x'' \<and> (\<forall>t. inType t obj \<longleftrightarrow> t \<in> scast ` set [- 1 :: 32 word]) \<and>
      (\<forall>k. om_find (obj_fields obj) k = (if k \<in> set [''a'', ''b''] then Some (?f k) else None))"
    using object_of_dump [OF m, of "DArray [DInt (- 1)]" "DObject [(''a'', DInt 7), (''b'', DString ''x'')]" "[- 1]" ?f 9 5] seven
    by (simp add: demo_ct_def field_text_def)
  then show ?thesis
    by auto
qed

end
