(* ===== verification/BinCalls.thy ===== *)
theory BinCalls
  imports BinClientA HttpConnection
begin

text \<open>
  The binary client and the HTTP server together: \<^verbatim>\<open>HttpApi/BinClient\<close> on one side of a
  connection, \<^verbatim>\<open>HttpServer/Connection.impl\<close> with the parser of \<^verbatim>\<open>HttpApi/BinServer\<close> on the other.
\<close>

section \<open>A call of the client at the server\<close>

lemma fold_om_put_sorted:
  "om_inv (ps' @ ps) \<Longrightarrow> fold (\<lambda>(k, v) m. om_put k v m) ps ps' = ps' @ ps"
proof (induction ps arbitrary: ps')
  case (Cons p ps)
  obtain k v where p: "p = (k, v)"
    by (cases p)
  have "om_put k v ps' = ps' @ [(k, v)]"
    using Cons.prems unfolding p
  proof (induction ps')
    case (Cons q ps')
    then show ?case
      by (cases q) (auto simp: om_inv_def)
  qed simp
  then show ?case
    using Cons.IH [of "ps' @ [p]"] Cons.prems by (simp add: p)
qed simp

text \<open>A connection that reads several times; \<open>None\<close>: an exception leaves one of the reads, or it is not defined.\<close>

fun conn_reads ::
  "('c, 'r) custom_ops \<Rightarrow> ('p \<Rightarrow> string \<Rightarrow> 'p \<times> callback list) \<Rightarrow> (string \<Rightarrow> string option) \<Rightarrow> (u64 \<times> recv_call list) list \<Rightarrow>
     ('p, 'c, 'r) http_conn \<Rightarrow> ('p, 'c, 'r) http_conn option" where
  "conn_reads ops execute unescape [] c = Some c"
| "conn_reads ops execute unescape ((now, rs) # reads) c =
     (case conn_performRecv ops execute unescape now rs c of
        Some (c, False) \<Rightarrow> conn_reads ops execute unescape reads c
      | _ \<Rightarrow> None)"

lemma server_feed_Inl: "foldl (server_feed junk pb) (Inl x) css = Inl x"
  by (induction css) (simp_all add: server_feed_def)

lemma conn_reads_bin:
  assumes "is_custom c" "m_custom_parser c = Some p" "list_all2 (\<lambda>(now, rs) d. conn_recv_loop rs [] = Some d \<and> d \<noteq> []) reads ds"
    "foldl (server_feed junk pb) (Inr (p, custom_requests c)) ds = Inr (q, reqs)"
  shows "\<exists>c'. conn_reads (bin_ops junk pb) execute unescape reads c = Some c' \<and> custom_requests c' = reqs \<and> m_custom_parser c' = Some q"
  using assms(3,1,2,4)
proof (induction arbitrary: c p rule: list_all2_induct)
  case (Cons r reads d ds)
  obtain now rs where r: "r = (now, rs)"
    by (cases r)
  obtain p' reqs' where feed: "server_feed junk pb (Inr (p, custom_requests c)) d = Inr (p', reqs')"
    using Cons.prems(3) server_feed_Inl [of junk pb _ ds] by (cases "server_feed junk pb (Inr (p, custom_requests c)) d") auto
  let ?c = "c\<lparr>last_activity_ts := now, custom_requests := reqs', m_custom_parser := Some p'\<rparr>"
  have "conn_performRecv (bin_ops junk pb) execute unescape now rs c = Some (?c, False)"
    using performRecv_bin [OF Cons.prems(1,2), of rs d junk pb execute unescape now] Cons.hyps(1) feed by (simp add: r)
  moreover have "is_custom ?c"
    using Cons.prems(1) by simp
  ultimately show ?case
    using Cons.IH [of ?c p'] Cons.prems(3) feed by (simp add: r)
qed simp

text \<open>
  C10: from the call of a method to the queue of the server: what the binary client was asked to
  call on a connection, with which parameters, is what the connection of the HTTP server has
  queued after the upgrade, in order, however the sockets cut the bytes on both sides, when the
  client has sent all it has. That Protocol Buffers reads back what it writes is assumed.
\<close>

theorem calls_reach_server:
  assumes reach: "conn_reach size0 junk s" "bc_send_buffer (cs_conn s) = []"
    and calls: "map rq_data (cs_added s) = map (\<lambda>(method, ps). buildRequest ser method ps) calls"
    and pb: "\<forall>(method, ps) \<in> set calls. om_inv ps \<and> pb (ser method ps) = (method, ps) \<and> length (ser method ps) \<le> 3 * 1024 * 1024"
    and conn: "is_custom c" "m_custom_parser c = Some (server_parser_init j)" "custom_requests c = []"
    and reads: "list_all2 (\<lambda>(now, rs) d. conn_recv_loop rs [] = Some d \<and> d \<noteq> []) reads ds" "upgrade_request @ concat ds = cs_wire s"
  shows "\<exists>c'. conn_reads (bin_ops junk' pb) execute unescape reads c = Some c' \<and>
    map (map_option (\<lambda>r. (rq_method r, rq_params r))) (custom_requests c') = map Some calls"
proof -
  have "\<forall>r \<in> set (cs_added s). length (rq_data r) \<le> 3 * 1024 * 1024"
  proof
    fix r
    assume "r \<in> set (cs_added s)"
    then have "rq_data r \<in> set (map (\<lambda>(method, ps). buildRequest ser method ps) calls)"
      by (simp flip: calls)
    then show "length (rq_data r) \<le> 3 * 1024 * 1024"
      using pb by (auto simp: buildRequest_def)
  qed
  then obtain q where "foldl (server_feed junk' pb) (Inr (server_parser_init j, custom_requests c)) ds =
      Inr (q, map (\<lambda>r. Some (mk_request pb (rq_data r))) (cs_added s))"
    using server_receives_added [OF reach _ reads(2), of junk' pb j] conn(3) by auto
  from conn_reads_bin [OF conn(1,2) reads(1) this]
  obtain c' where c': "conn_reads (bin_ops junk' pb) execute unescape reads c = Some c'"
      "custom_requests c' = map (\<lambda>d. Some (mk_request pb d)) (map rq_data (cs_added s))"
    by (auto simp: comp_def)
  have "map (map_option (\<lambda>r. (rq_method r, rq_params r))) (custom_requests c') =
      map (\<lambda>(method, ps). Some (rq_method (mk_request pb (ser method ps)), rq_params (mk_request pb (ser method ps)))) calls"
    unfolding c'(2) calls by (auto simp: buildRequest_def)
  also have "\<dots> = map Some calls"
  proof (rule map_cong [OF refl])
    fix x
    assume x: "x \<in> set calls"
    obtain mt ps where m: "x = (mt, ps)"
      by (cases x)
    then have "om_inv ps" "pb (ser mt ps) = (mt, ps)"
      using pb x by auto
    then show "(case x of (mt, ps) \<Rightarrow> Some (rq_method (mk_request pb (ser mt ps)), rq_params (mk_request pb (ser mt ps)))) = Some x"
      using fold_om_put_sorted [of "[]" ps] by (simp add: m mk_request_def)
  qed
  finally show ?thesis
    using c'(1) by blast
qed

theorem calls_reach_server_witness:
  "\<exists>c'. conn_reads (bin_ops (\<lambda>_. 3) (\<lambda>d. (d, []))) demo_execute Some [(5, [Received (frame ''ab''), Received (frame []), NothingThere])]
      (demo_conn\<lparr>is_custom := True, m_custom_parser := Some (server_parser_init 7)\<rparr>) = Some c' \<and>
    map (map_option (\<lambda>r. (rq_method r, rq_params r))) (custom_requests c') = [Some (''ab'', []), Some ([], [])]"
proof -
  obtain s where s: "conn_reach 0 (\<lambda>_. 0) s" "cs_added s = demo_requests" "bc_send_buffer (cs_conn s) = []"
      "cs_wire s = upgrade_request @ frame ''ab'' @ frame []"
    using demo_run by blast
  have "frame ''ab'' @ frame [] \<noteq> []"
    by (simp add: frame_def)
  then show ?thesis
    using calls_reach_server [OF s(1,3), of "\<lambda>m ps. m" "[(''ab'', []), ([], [])]" "\<lambda>d. (d, [])"
        "demo_conn\<lparr>is_custom := True, m_custom_parser := Some (server_parser_init 7)\<rparr>" 7
        "[(5, [Received (frame ''ab''), Received (frame []), NothingThere])]" "[frame ''ab'' @ frame []]" "\<lambda>_. 3" demo_execute Some] s
    by (simp add: demo_requests_def buildRequest_def om_inv_def demo_conn_def HttpConnection_new_def)
qed

end
