(* ===== verification/ApiCalls.thy ===== *)
theory ApiCalls
  imports HttpServer HttpApi
begin

text \<open>
  A signed call over HTTP: the URL of \<^verbatim>\<open>HttpApiClient.cpp\<close>, the connection and the server of
  \<^verbatim>\<open>HttpServer\<close>, and the API of \<^verbatim>\<open>HttpApi.impl\<close> as the handler of its requests.
\<close>

text \<open>
  The handler that a server is given for an API: an asynchronous method answers later, or not.
  There is no answer either when the handler is undefined.
\<close>

definition api_request_hdl ::
  "(string \<Rightarrow> (string \<times> string) list option) \<Rightarrow> sign_memory \<Rightarrow> ('h \<Rightarrow> field_map \<Rightarrow> string) \<Rightarrow> ('h, 'a) http_api \<Rightarrow>
     http_request \<Rightarrow> http_response option" where
  "api_request_hdl pb_fields mem run api req =
     (case api_handle pb_fields mem run api req of Some (SendHttp resp) \<Rightarrow> Some resp | _ \<Rightarrow> None)"

lemma fold_om_ins_absent:
  "\<forall>(k, v, r) \<in> set hs. k \<noteq> x \<Longrightarrow> om_inv m \<Longrightarrow> om_find (fold (\<lambda>(k, v, r). om_ins k v) hs m) x = om_find m x"
  by (induction hs arbitrary: m) auto

lemma api_request_sync:
  assumes "checkFields mem api fs = None" "om_find fs ''method'' = Some meth" "\<not> isAsync meth api"
    "om_find (m_methods_callbacks api) meth = Some h" "pb_fields [] = None \<or> pb_fields [] = Some []"
    "values_GET req = fs" "body req = []"
  shows "api_request_hdl pb_fields mem run api req = Some (HttpResponse_new 200 (run h fs))"
proof -
  have "base64_decode [] = Some []"
    by code_simp
  then have "mergePostParams pb_fields [] fs = Some fs"
    using assms(5) by (auto simp: mergePostParams_def)
  then show ?thesis
    using assms by (simp add: api_request_hdl_def api_handle_def handleRequest_def Let_def)
qed

text \<open>A request that arrives whole on a new connection is given to the handler, and its answer is queued.\<close>

lemma new_connection_handles:
  fixes hc :: "('p, 'c, 'r) server_code"
  assumes conn: "om_find (m_reading_connections s) fd = Some a" "conns s a = Some (HttpConnection_new (sc_parser hc) t0 fd (sc_resp_info hc))"
    and free: "\<not> m_sendq_locked s" "now - t0 \<le> 2"
    and recv: "conn_recv_loop rs [] = Some bytes" "bytes \<noteq> []"
      "sc_execute hc (sc_parser hc) bytes = (p, message_callbacks target urest hs keep [] [])"
    and req: "no_nul target" "CHR '' '' \<notin> set target" "list_all (\<lambda>(k, v, _). no_nul k \<and> no_nul v) hs"
      "\<forall>(k, v, r) \<in> set hs. k \<noteq> ''Upgrade''" "parseGET (sc_unescape hc) target [] = Some fs"
    and hdl: "sc_request_hdl hc (message_request target fs hs []) = Some resp"
  shows "\<exists>f. server_performRecv hc now rs fd s = Some
    (s\<lparr>conns := (conns s)(a := Some ((HttpConnection_new p t0 fd (sc_resp_info hc))
         \<lparr>last_activity_ts := now, keepalive := keep, m_cur_header_field := f, waiting_last_handling := True\<rparr>)),
       handled_http := handled_http s @ [(a, message_request target fs hs [], False)],
       m_resp_queue := m_resp_queue s @ [(a, resp)]\<rparr>)"
proof -
  let ?c = "(HttpConnection_new p t0 fd (sc_resp_info hc) :: ('p, 'c, 'r) http_conn)\<lparr>last_activity_ts := now\<rparr>"
  let ?req = "message_request target fs hs []"
  obtain f where f: "run_callbacks (sc_unescape hc) (message_callbacks target urest hs keep [] []) ?c =
    Some (?c\<lparr>keepalive := keep, m_cur_header_field := f, request_finished := True, m_cur_http_request := ?req\<rparr>)"
    using run_message [OF req(1-3) _ req(5), of "[]" ?c urest keep "[]"] by (auto simp: no_nul_def HttpConnection_new_def)
  let ?d = "?c\<lparr>keepalive := keep, m_cur_header_field := f, http_requests := [?req]\<rparr>"
  have "conn_performRecv (sc_ops hc) (sc_execute hc) (sc_unescape hc) now rs
      (HttpConnection_new (sc_parser hc) t0 fd (sc_resp_info hc)) = Some (?d, False)"
    using recv f by (simp add: conn_performRecv_def conn_execute_def conn_take_requests_def HttpConnection_new_def)
  moreover have "notDead now ?d"
    using free(2) by (simp add: notDead_def HttpConnection_new_def)
  moreover have "om_find (headers ?req) ''Upgrade'' = None"
    using fold_om_ins_absent [OF req(4), of "[]"] by (simp add: message_request_def om_inv_def om_find_def)
  ultimately show ?thesis
    using conn free(1) hdl
    by (intro exI [of _ f])
      (simp add: server_performRecv_def handleWaitingRequests_def checkUpgrade_def request_hdl_def onSendResponse_def set_conn_def
        HttpConnection_new_def)
qed

text \<open>The answer to the one request of a connection is sent, when the socket takes it all.\<close>

lemma answer_is_sent:
  assumes "m_resp_queue s = [(a, resp)]" "m_custom_resp_queue s = []" "conns s a = Some c"
    and "m_send_buffer c = []" "m_resps c = []" "\<not> ever_sent c" "http_requests c = []" "custom_requests c = []"
    and "out = renderResponse now resp c"
  shows "\<exists>s'. handle_queues hc now [(int (length out), False)] s = Some s' \<and> wire s' = wire s @ [(a, out)] \<and>
    m_resp_queue s' = [] \<and> \<not> m_sendq_locked s'"
proof -
  have out: "0 < length out"
    by (simp add: assms(9) renderResponse_def Let_def)
  let ?s = "s\<lparr>m_sendq_locked := True\<rparr>"
  let ?sent = "c\<lparr>m_resps := [], m_send_buffer := [], waiting_last_handling := False, ever_sent := True, last_activity_ts := now\<rparr>"
  have send: "conn_performSend now (int (length out)) False ((addResponse now resp c)\<lparr>waiting_last_handling := False\<rparr>) = (?sent, out, True)"
    using assms(4-6,9) out by (simp add: conn_performSend_def addResponse_def)
  let ?t = "?s\<lparr>conns := (conns s)(a := Some ?sent), wire := wire s @ [(a, out)], answered := answered s @ [a]\<rparr>"
  have "with_conn a (addResponse now resp) ?s = Some (set_conn a (addResponse now resp c) ?s)"
    using assms(3) by (simp add: with_conn_def)
  moreover have "handleResponse hc now (int (length out)) False a (set_conn a (addResponse now resp c) ?s) = Some ?t"
    using assms(7,8) send by (simp add: handleResponse_def set_conn_def handleWaitingRequests_def Let_def)
  ultimately have "resp_loop hc now [(int (length out), False)] ?s = resp_loop hc now [] (?t\<lparr>m_resp_queue := tl (m_resp_queue ?t)\<rparr>)"
    using assms(1) by (subst resp_loop.simps) simp
  also have "\<dots> = Some ([], ?t\<lparr>m_resp_queue := []\<rparr>)"
    using assms(1) by (subst resp_loop.simps) simp
  finally show ?thesis
    using assms(2) by (simp add: handle_queues_def custom_resp_loop.simps [of hc now "[]"])
qed

section \<open>Property\<close>

text \<open>
  C11: a signed call from end to end: the URL that the client builds, sent as a request on a new
  connection to a server whose handler is the API, runs the method with the parameters of the
  call (decoded), and the answer that the method gives is written to the connection as one
  HTTP response. The request may come in any pieces; libcurl strips scheme and host of the URL.
\<close>

theorem signed_call_answered:
  fixes hc :: "('p, 'c, 'r) server_code"
  assumes url: "buildRequestUrlSigned mem ts meth ps cli = Some (host @ target)" "m_url cli = host @ pth" "mem_ok mem" "mem_ok mem'"
    and plain: "plain pth" "plain meth" "plain (m_api_userid cli)" "list_all (\<lambda>(k, v). plain k \<and> plain v) ps"
      "ps \<noteq> [] \<longrightarrow> snd (last ps) \<noteq> []" "length (host @ target) < 2 ^ 31" "\<forall>k \<in> fst ` set ps. k \<notin> {''method'', ''api_userid'', ''ts'', ''sign''}"
      "length (meth @ uint64_to_string ts @ m_api_key cli) < 2 ^ 28"
    and unescape: "\<And>x. sc_unescape hc x = Some (dec x)"
      "\<And>x. x \<in> {meth, m_api_userid cli, uint64_to_string ts, fips_hex (meth @ uint64_to_string ts @ m_api_key cli)} \<Longrightarrow> dec (dec x) = x"
    and api: "om_find (m_methods_args api) meth = Some args" "set args \<subseteq> fst ` set ps"
      "om_find (m_keys api) (m_api_userid cli) = Some (m_api_key cli)" "\<not> isAsync meth api"
      "om_find (m_methods_callbacks api) meth = Some h" "pb_fields [] = None \<or> pb_fields [] = Some []"
      "sc_request_hdl hc = api_request_hdl pb_fields mem' run api"
    and conn: "om_find (m_reading_connections s) fd = Some a" "conns s a = Some (HttpConnection_new (sc_parser hc) t0 fd (sc_resp_info hc))"
      "\<not> m_sendq_locked s" "m_resp_queue s = []" "m_custom_resp_queue s = []" "now - t0 \<le> 2"
    and recv: "conn_recv_loop rs [] = Some bytes" "bytes \<noteq> []"
      "sc_execute hc (sc_parser hc) bytes = (p, message_callbacks target urest hs keep [] [])"
      "no_nul target" "CHR '' '' \<notin> set target" "list_all (\<lambda>(k, v, _). no_nul k \<and> no_nul v) hs" "\<forall>(k, v, r) \<in> set hs. k \<noteq> ''Upgrade''"
  shows "\<exists>fs c s1 s2. (\<forall>k v. map_of (rev ps) k = Some v \<longrightarrow> om_find fs k = Some (dec (dec v))) \<and>
    server_performRecv hc now rs fd s = Some s1 \<and> conns s1 a = Some c \<and>
    handle_queues hc now' [(int (length (renderResponse now' (HttpResponse_new 200 (run h fs)) c)), False)] s1 = Some s2 \<and>
    wire s2 = wire s @ [(a, renderResponse now' (HttpResponse_new 200 (run h fs)) c)]"
proof -
  obtain fs where fs: "parseGET (sc_unescape hc) target [] = Some fs" "checkFields mem' api fs = None" "om_find fs ''method'' = Some meth"
      "\<forall>k v. map_of (rev ps) k = Some v \<longrightarrow> om_find fs k = Some (dec (dec v))"
    using client_url [OF url(1,3,4) unescape(1) url(2) plain(1-5) unescape(2) plain(7,8) api(1-3) plain(6)] by auto
  let ?req = "message_request target fs hs []" and ?resp = "HttpResponse_new 200 (run h fs)"
  have "sc_request_hdl hc ?req = Some ?resp"
    unfolding api(7) by (rule api_request_sync [where pb_fields = pb_fields, OF fs(2,3) api(4-6)]) (simp_all add: message_request_def)
  from new_connection_handles [OF conn(1-3,6) recv(1-7) fs(1) this]
  obtain f where recvd: "server_performRecv hc now rs fd s = Some
    (s\<lparr>conns := (conns s)(a := Some ((HttpConnection_new p t0 fd (sc_resp_info hc))
         \<lparr>last_activity_ts := now, keepalive := keep, m_cur_header_field := f, waiting_last_handling := True\<rparr>)),
       handled_http := handled_http s @ [(a, ?req, False)], m_resp_queue := m_resp_queue s @ [(a, ?resp)]\<rparr>)" (is "_ = Some ?s1")
    by blast
  define c where "c = (HttpConnection_new p t0 fd (sc_resp_info hc) :: ('p, 'c, 'r) http_conn)
      \<lparr>last_activity_ts := now, keepalive := keep, m_cur_header_field := f, waiting_last_handling := True\<rparr>"
  have fresh: "m_send_buffer c = []" "m_resps c = []" "\<not> ever_sent c" "http_requests c = []" "custom_requests c = []"
    by (simp_all add: c_def HttpConnection_new_def)
  have s1: "m_resp_queue ?s1 = [(a, ?resp)]" "m_custom_resp_queue ?s1 = []" "conns ?s1 a = Some c"
    using conn(4,5) by (simp_all add: c_def)
  from answer_is_sent [OF s1 fresh refl]
  obtain s2 where "handle_queues hc now' [(int (length (renderResponse now' ?resp c)), False)] ?s1 = Some s2"
      "wire s2 = wire ?s1 @ [(a, renderResponse now' ?resp c)]"
    by blast
  then show ?thesis
    using recvd fs(4) s1(3) by (intro exI [of _ fs] exI [of _ c] exI [of _ ?s1] exI [of _ s2]) simp
qed

text \<open>The service of the example: the API of one method, with the key of one user.\<close>

definition demo_target :: string where
  "demo_target = ''/api?method=get&api_userid=u&ts=9&sign='' @ fips_hex ''get9k'' @ ''&id=7''"

definition demo_hdl :: "nat \<Rightarrow> field_map \<Rightarrow> string" where
  "demo_hdl h fs = (case om_find fs ''id'' of Some v \<Rightarrow> v | None \<Rightarrow> [])"

definition demo_service :: "(unit, server_parser, bin_request option) server_code" where
  "demo_service = \<lparr>sc_parser = (), sc_execute = (\<lambda>p b. (p, message_callbacks demo_target ''HTTP/1.1'' [] True [] [])),
     sc_unescape = Some, sc_ops = bin_ops (\<lambda>_. 0) (\<lambda>s. (s, [])),
     sc_request_hdl = api_request_hdl (\<lambda>_. Some []) demo_mem demo_hdl demo_api, sc_resp_info = demo_info\<rparr>"

definition demo_accepted :: "(unit, server_parser, bin_request option) http_server" where
  "demo_accepted = performAccept demo_service 9 [Accepted 5] (HttpServer_new 3)"

lemma hex_byte_printable: "no_nul (hex_byte b) \<and> CHR '' '' \<notin> set (hex_byte b)"
proof -
  have "list_all (\<lambda>n. hexDigits ! n \<noteq> CHR 0x00 \<and> hexDigits ! n \<noteq> CHR '' '') [0..<16]"
    by code_simp
  then have digit: "n < 16 \<Longrightarrow> hexDigits ! n \<noteq> CHR 0x00 \<and> hexDigits ! n \<noteq> CHR '' ''" for n
    by (simp add: list_all_iff)
  have "unat b div 16 < 16"
    using unat_byte_less [of b] by auto
  then show ?thesis
    using digit [of "unat b div 16"] digit [of "unat b mod 16"] by (auto simp: hex_byte_def no_nul_def)
qed

lemma demo_target_printable: "no_nul demo_target" "CHR '' '' \<notin> set demo_target"
  using hex_byte_printable by (auto simp: demo_target_def fips_hex_def no_nul_def)

theorem signed_call_answered_witness:
  "\<exists>fs c s1 s2. om_find fs ''id'' = Some ''7'' \<and>
    server_performRecv demo_service 9 [Received ''GET''] 5 demo_accepted = Some s1 \<and> conns s1 0 = Some c \<and>
    handle_queues demo_service 9 [(int (length (renderResponse 9 (HttpResponse_new 200 (demo_hdl 1 fs)) c)), False)] s1 = Some s2 \<and>
    wire s2 = wire demo_accepted @ [(0, renderResponse 9 (HttpResponse_new 200 (demo_hdl 1 fs)) c)]"
proof -
  let ?cli = "HttpApiClient_new ''http://h/api'' ''u'' ''k''"
  have ts: "uint64_to_string 9 = ''9''"
    by code_simp
  have url: "buildRequestUrlSigned demo_mem 9 ''get'' [(''id'', ''7'')] ?cli = Some (''http://h'' @ demo_target)"
    using sign_of_fips [OF demo_mem_ok, of "''get9k''"]
    by (simp add: buildRequestUrlSigned_def buildPostRequestUrlSigned_def HttpApiClient_new_def Let_def ts demo_target_def)
  have m_url: "m_url ?cli = ''http://h'' @ ''/api''"
    by (simp add: HttpApiClient_new_def)
  have api: "om_find (m_methods_args demo_api) ''get'' = Some [''id'']" "om_find (m_keys demo_api) (m_api_userid ?cli) = Some (m_api_key ?cli)"
    "\<not> isAsync ''get'' demo_api" "om_find (m_methods_callbacks demo_api) ''get'' = Some 1"
    by (simp_all add: demo_api_fields HttpApiClient_new_def isAsync_def demo_api_def setUserToken_def addMethodSigned_def HttpApi_new_def om_find_def)
  have conn: "om_find (m_reading_connections demo_accepted) 5 = Some 0"
    "conns demo_accepted 0 = Some (HttpConnection_new (sc_parser demo_service) 9 5 (sc_resp_info demo_service))"
    "\<not> m_sendq_locked demo_accepted" "m_resp_queue demo_accepted = []" "m_custom_resp_queue demo_accepted = []"
    by (simp_all add: demo_accepted_def HttpServer_new_def Let_def set_conn_def watch_def om_ins_def om_find_def)
  have len: "length (''http://h'' @ demo_target) < 2 ^ 31"
    by (simp add: demo_target_def length_fips_hex)
  have recv: "conn_recv_loop [Received ''GET''] [] = Some ''GET''"
    by (simp add: conn_recv_loop.simps)
  have "\<exists>fs c s1 s2. (\<forall>k v. map_of (rev [(''id'', ''7'')]) k = Some v \<longrightarrow> om_find fs k = Some v) \<and>
    server_performRecv demo_service 9 [Received ''GET''] 5 demo_accepted = Some s1 \<and> conns s1 0 = Some c \<and>
    handle_queues demo_service 9 [(int (length (renderResponse 9 (HttpResponse_new 200 (demo_hdl 1 fs)) c)), False)] s1 = Some s2 \<and>
    wire s2 = wire demo_accepted @ [(0, renderResponse 9 (HttpResponse_new 200 (demo_hdl 1 fs)) c)]"
    by (rule signed_call_answered [OF url m_url demo_mem_ok demo_mem_ok _ _ _ _ _ len _ _ _ _ api(1) _ api(2-4) _ _ conn _ recv,
          where dec = "\<lambda>x. x" and hs = "[]" and keep = True and urest = "''HTTP/1.1''" and p = "()" and pb_fields = "\<lambda>_. Some []"])
      (simp_all add: plain_def ts HttpApiClient_new_def demo_service_def demo_target_printable)
  moreover have "om_find fs ''id'' = Some ''7''" if "\<forall>k v. map_of (rev [(''id'', ''7'')]) k = Some v \<longrightarrow> om_find fs k = Some v" for fs
    using that by simp
  ultimately show ?thesis
    by blast
qed

end
