(* ===== verification/BorTree.thy ===== *)
theory BorTree
  imports AhoCorasick
begin

text \<open>
  The operations of \<^verbatim>\<open>strings/AhoCorasick.cpp\<close> that go down the trie: the destructor of a node, which
  deletes its children and runs when the shared pointer \<^verbatim>\<open>m_root\<close> of the automaton goes, and
  \<open>print\<close>. A recursion that meets its own children again would not end, and would free a node
  twice: on the automata that the constructor builds it ends, and frees every node once.
\<close>

section \<open>The code\<close>

text \<open>
  \<^verbatim>\<open>delete\<close> of a list of nodes, in order: the destructor of each deletes the children of the node,
  and then its memory is freed. The result has the addresses in the order in which they are freed.
\<close>

partial_function (option) delete_nodes :: "bor \<Rightarrow> nat list \<Rightarrow> nat list option" where
  "delete_nodes st as = (case as of
     [] \<Rightarrow> Some []
   | a # it \<Rightarrow>
       Option.bind (delete_nodes st (children_of st a)) (\<lambda>below.
       Option.bind (delete_nodes st it) (\<lambda>rest.
       Some (below @ a # rest))))"

lemma delete_nodes_simps [simp]:
  "delete_nodes st [] = Some []"
  "delete_nodes st (a # it) =
     Option.bind (delete_nodes st (children_of st a)) (\<lambda>below.
     Option.bind (delete_nodes st it) (\<lambda>rest. Some (below @ a # rest)))"
  by (subst delete_nodes.simps, simp)+

definition AhoCorasick_delete :: "bor \<Rightarrow> nat list option" where
  "AhoCorasick_delete st = delete_nodes st [0]"

definition tabs :: "nat \<Rightarrow> string" where
  "tabs n = replicate n (CHR 0x09)"

text \<open>
  The lines of one node, around those of its children. The identifier counts the nodes that the
  process has made; \<open>fst p\<close> were there before this automaton, whose nodes are the store
  \<open>snd p\<close>. A fail link that is not set is \<open>None\<close>.
\<close>

definition node_text :: "nat \<times> bor \<Rightarrow> nat \<Rightarrow> nat \<Rightarrow> string \<Rightarrow> string option" where
  "node_text p n a below =
     (case bn_fail (snd p ! a) of
        None \<Rightarrow> None
      | Some f \<Rightarrow> Some (
          tabs n @ ''id: '' @ dec_str (fst p + a) @ [CHR 0x0A] @
          tabs n @ ''children: '' @ [CHR 0x0A] @ below @ [CHR 0x0A] @
          tabs n @ ''matches: '' @ [CHR 0x0A] @
          tabs n @ concat (map (\<lambda>w. w @ '', '') (bn_matches (snd p ! a))) @ [CHR 0x0A] @
          tabs n @ ''fallnode: '' @ dec_str (fst p + f) @ [CHR 0x0A] @
          tabs n @ ''___________'' @ [CHR 0x0A]))"

text \<open>The loop over the children.\<close>

partial_function (option) print_children ::
  "nat \<times> bor \<Rightarrow> nat \<Rightarrow> (map_char \<times> nat) list \<Rightarrow> string option" where
  "print_children p n kids = (case kids of
     [] \<Rightarrow> Some []
   | e # it \<Rightarrow>
       Option.bind (print_children p (n + 1) (bn_children (snd p ! snd e))) (\<lambda>below.
       Option.bind (node_text p (n + 1) (snd e) below) (\<lambda>t.
       Option.bind (print_children p n it) (\<lambda>rest.
       Some (tabs n @ [map_key (fst e), CHR 0x0A] @ t @ rest)))))"

lemma print_children_simps [simp]:
  "print_children p n [] = Some []"
  "print_children p n ((k, b) # it) =
     Option.bind (print_children p (n + 1) (bn_children (snd p ! b))) (\<lambda>below.
     Option.bind (node_text p (n + 1) b below) (\<lambda>t.
     Option.bind (print_children p n it) (\<lambda>rest.
     Some (tabs n @ [map_key k, CHR 0x0A] @ t @ rest))))"
  by (subst print_children.simps, simp)+

definition BorNode_print :: "nat \<times> bor \<Rightarrow> nat \<Rightarrow> nat \<Rightarrow> string option" where
  "BorNode_print p n a = Option.bind (print_children p n (bn_children (snd p ! a))) (node_text p n a)"

definition AhoCorasick_print :: "nat \<Rightarrow> bor \<Rightarrow> string option" where
  "AhoCorasick_print base st = BorNode_print (base, st) 0 0"

section \<open>The nodes below\<close>

text \<open>Nodes of one level of the trie, and what is below them.\<close>

definition below :: "bor \<Rightarrow> string list \<Rightarrow> nat set \<Rightarrow> nat set" where
  "below st L A = {b. b < length st \<and> (\<exists>a \<in> A. prefix (L ! a) (L ! b))}"

definition level :: "bor \<Rightarrow> string list \<Rightarrow> nat \<Rightarrow> nat list \<Rightarrow> bool" where
  "level st L d as \<longleftrightarrow> distinct as \<and> (\<forall>a \<in> set as. a < length st \<and> length (L ! a) = d)"

text \<open>Every node is freed after its children.\<close>

definition children_first :: "bor \<Rightarrow> nat list \<Rightarrow> bool" where
  "children_first st freed \<longleftrightarrow> (\<forall>i < length freed. set (children_of st (freed ! i)) \<subseteq> set (take i freed))"

lemma children_first_append:
  assumes "children_first st xs" "children_first st ys"
  shows "children_first st (xs @ ys)"
  unfolding children_first_def
proof (intro allI impI)
  fix i
  assume "i < length (xs @ ys)"
  then consider "i < length xs" | "\<not> i < length xs" "i - length xs < length ys"
    by fastforce
  then show "set (children_of st ((xs @ ys) ! i)) \<subseteq> set (take i (xs @ ys))"
    using assms by cases (auto simp: children_first_def nth_append)
qed

lemma children_first_one: "children_first st xs \<Longrightarrow> set (children_of st a) \<subseteq> set xs \<Longrightarrow> children_first st (xs @ [a])"
  by (auto simp: children_first_def nth_append less_Suc_eq)

lemma label_prefix: "labelled st L \<Longrightarrow> u @ v \<in> set L \<Longrightarrow> u \<in> set L"
proof (induction v rule: rev_induct)
  case (snoc x v)
  then have "(u @ v) @ [x] \<in> set L"
    by simp
  then have "u @ v \<in> set L"
    using snoc.prems(1) unfolding labelled_def by blast
  then show ?case
    using snoc by simp
qed simp

lemma children_level: "labelled st L \<Longrightarrow> a < length st \<Longrightarrow> level st L (Suc (length (L ! a))) (children_of st a)"
  unfolding level_def by (intro conjI children_distinct ballI) (simp_all add: children_set, auto)

text \<open>A node is below another when it is the other, or below one of its children.\<close>

lemma below_node:
  assumes "labelled st L" "a < length st"
  shows "below st L {a} = insert a (below st L (set (children_of st a)))"
proof -
  have "(\<exists>c. c < length st \<and> (\<exists>x. L ! c = L ! a @ [x]) \<and> prefix (L ! c) (L ! b))"
    if b: "b < length st" "prefix (L ! a) (L ! b)" "b \<noteq> a" for b
  proof -
    obtain u where u: "L ! b = L ! a @ u"
      using b(2) by (auto simp: prefix_def)
    moreover have "u \<noteq> []"
      using labelled_same [OF assms(1) b(1) assms(2)] u b(3) by auto
    ultimately obtain x v where v: "L ! b = (L ! a @ [x]) @ v"
      by (cases u) auto
    have "L ! a @ [x] \<in> set L"
      using label_prefix [OF assms(1)] labelled_in [OF assms(1) b(1)] v by metis
    then obtain c where "c < length st" "L ! c = L ! a @ [x]"
      using assms(1) by (auto simp: labelled_def in_set_conv_nth)
    then show ?thesis
      using v by auto
  qed
  then have "b \<in> below st L {a} \<longleftrightarrow> b = a \<or> b \<in> below st L (set (children_of st a))" for b
    using children_set [OF assms] assms(2) by (cases "b = a") (auto simp: below_def prefix_def)
  then show ?thesis
    by auto
qed

lemma below_disjoint:
  assumes "labelled st L" "level st L d (a # as)"
  shows "below st L {a} \<inter> below st L (set as) = {}"
proof -
  have "\<not> prefix (L ! c) (L ! b)" if "prefix (L ! a) (L ! b)" "c \<in> set as" for b c
    using that assms(2) labelled_same [OF assms(1), of a c] prefix_same_cases [of "L ! a" "L ! b" "L ! c"]
    by (auto simp: level_def prefix_def)
  then show ?thesis
    by (auto simp: below_def)
qed

lemma delete_level:
  assumes "labelled st L" "\<And>a. a < length st \<Longrightarrow> length (L ! a) \<le> N" "level st L d as" "d + k = Suc N"
  shows "\<exists>freed. delete_nodes st as = Some freed \<and> distinct freed \<and> set freed = below st L (set as) \<and> children_first st freed"
  using assms(3,4)
proof (induction k arbitrary: d as)
  case 0
  then have "as = []"
    using assms(2) by (cases as) (force simp: level_def)+
  then show ?case
    by (simp add: below_def children_first_def)
next
  case (Suc k)
  note outer = Suc.IH
  show ?case
    using Suc.prems(1)
  proof (induction as)
    case Nil
    then show ?case
      by (simp add: below_def children_first_def)
  next
    case (Cons a as)
    then have a: "a < length st" "length (L ! a) = d" and as: "level st L d as"
      by (auto simp: level_def)
    obtain xs where xs: "delete_nodes st (children_of st a) = Some xs" "distinct xs"
        "set xs = below st L (set (children_of st a))" "children_first st xs"
      using outer [of "Suc d" "children_of st a"] children_level [OF assms(1) a(1)] a(2) Suc.prems(2) by auto
    obtain ys where ys: "delete_nodes st as = Some ys" "distinct ys" "set ys = below st L (set as)" "children_first st ys"
      using Cons.IH [OF as] by blast
    have kids: "set (children_of st a) \<subseteq> set xs"
      using xs(3) children_set [OF assms(1) a(1)] by (auto simp: below_def)
    have new: "a \<notin> set xs"
    proof
      assume "a \<in> set xs"
      then obtain b where "b \<in> set (children_of st a)" "prefix (L ! b) (L ! a)"
        unfolding xs(3) below_def by blast
      then show False
        using children_level [OF assms(1) a(1)] prefix_length_le [of "L ! b" "L ! a"] by (simp add: level_def)
    qed
    have split: "set (xs @ [a]) = below st L {a}"
      using xs(3) below_node [OF assms(1) a(1)] by simp
    have "delete_nodes st (a # as) = Some ((xs @ [a]) @ ys)"
      using xs(1) ys(1) by simp
    moreover have "distinct ((xs @ [a]) @ ys)"
      using xs(2) ys(2,3) new split below_disjoint [OF assms(1) Cons.prems] by (simp only: distinct_append) simp
    moreover have "set ((xs @ [a]) @ ys) = below st L (set (a # as))"
      using split ys(3) by (auto simp: below_def)
    moreover have "children_first st ((xs @ [a]) @ ys)"
      by (rule children_first_append [OF children_first_one [OF xs(4) kids] ys(4)])
    ultimately show ?case
      by blast
  qed
qed

lemma print_level:
  assumes "labelled st L" "\<And>a. a < length st \<Longrightarrow> length (L ! a) \<le> N \<and> bn_fail (st ! a) \<noteq> None"
    "level st L d (map snd kids)" "d + k = Suc N"
  shows "print_children (base, st) n kids \<noteq> None"
  using assms(3,4)
proof (induction k arbitrary: d kids n)
  case 0
  then have "kids = []"
    using assms(2) by (cases kids) (force simp: level_def)+
  then show ?case
    by simp
next
  case (Suc k)
  note outer = Suc.IH
  show ?case
    using Suc.prems(1)
  proof (induction kids)
    case Nil
    then show ?case
      by simp
  next
    case (Cons e kids)
    obtain c b where e: "e = (c, b)"
      by (cases e)
    have b: "b < length st" "length (L ! b) = d" and kids: "level st L d (map snd kids)"
      using Cons.prems by (auto simp: level_def e)
    obtain t where t: "print_children (base, st) (n + 1) (bn_children (st ! b)) = Some t"
      using outer [of "Suc d" "bn_children (st ! b)" "n + 1"] children_level [OF assms(1) b(1)] b(2) Suc.prems(2)
      by (auto simp: children_of_def)
    obtain u where "node_text (base, st) (n + 1) b t = Some u"
      using assms(2) [OF b(1)] by (auto simp: node_text_def)
    then show ?case
      using t Cons.IH [OF kids] by (auto simp: e)
  qed
qed

section \<open>The property\<close>

lemma below_root: "labelled st L \<Longrightarrow> below st L {0} = {..<length st}"
  by (auto simp: below_def labelled_def)

lemma print_returns:
  assumes "labelled st L" "\<And>a. a < length st \<Longrightarrow> length (L ! a) \<le> N \<and> bn_fail (st ! a) \<noteq> None"
  shows "AhoCorasick_print base st \<noteq> None"
proof -
  have root: "0 < length st" "length (L ! 0) = 0"
    using assms(1) by (auto simp: labelled_def)
  have "print_children (base, st) 0 (bn_children (st ! 0)) \<noteq> None"
    using print_level [OF assms, of 1 "bn_children (st ! 0)" N] children_level [OF assms(1) root(1)] root(2)
    by (simp add: children_of_def)
  then show ?thesis
    using assms(2) [OF root(1)] by (auto simp: AhoCorasick_print_def BorNode_print_def node_text_def)
qed

text \<open>
  C27: when the automaton of a dictionary goes, the destructors return, and they free every node
  that its construction made exactly once, each after its children, so that no table of children
  is read after it is freed and nothing leaks; and \<open>print\<close> returns and meets no fail link that is
  not set.
\<close>

theorem trie_freed_once:
  assumes "[] \<notin> set dict"
  shows "\<exists>st freed. AhoCorasick_new dict = Some st \<and> AhoCorasick_delete st = Some freed \<and>
    distinct freed \<and> set freed = {..<length st} \<and>
    (\<forall>i < length freed. set (children_of st (freed ! i)) \<subseteq> set (take i freed)) \<and>
    (\<forall>base. AhoCorasick_print base st \<noteq> None)"
proof -
  obtain st L where st: "AhoCorasick_new dict = Some st" "labelled st L" "\<forall>a < length st. fixed st L dict a"
    using AhoCorasick_new_fixed [OF assms] by blast
  let ?N = "sum_list (map length L)"
  have deep: "length (L ! a) \<le> ?N \<and> bn_fail (st ! a) \<noteq> None" if "a < length st" for a
    using st(2,3) that by (auto simp: labelled_def fixed_def fail_ok_def intro!: member_le_sum_list)
  have root: "level st L 0 [0]"
    using st(2) by (auto simp: level_def labelled_def)
  obtain freed where "AhoCorasick_delete st = Some freed" "distinct freed" "set freed = below st L {0}" "children_first st freed"
    using delete_level [OF st(2) _ root, of ?N "Suc ?N"] deep by (auto simp: AhoCorasick_delete_def simp del: delete_nodes_simps)
  then show ?thesis
    using st(1) print_returns [OF st(2) deep] below_root [OF st(2)] by (auto simp: children_first_def)
qed

theorem trie_freed_once_witness:
  "\<exists>st freed. AhoCorasick_new [''he'', ''she''] = Some st \<and> AhoCorasick_delete st = Some freed \<and> distinct freed \<and>
    set freed = {..<length st} \<and> AhoCorasick_print 0 st \<noteq> None"
proof -
  have "[] \<notin> set [''he'', ''she'']"
    by simp
  from trie_freed_once [OF this] show ?thesis
    by blast
qed

end
