(* ===== verification/LauncherSteps.thy ===== *)
theory LauncherSteps
  imports TaskLauncher
begin

text \<open>
  \<^verbatim>\<open>threads/tasklauncher.cpp\<close> again, with its calls interleaved. \<open>TaskLauncher\<close> takes each call of a
  method as one step; here each load and store of an atomic counter, each critical section of
  the queue and each call of the pool is one. A call in progress is an agent: a thread of the
  user in \<open>addTask\<close>, or a thread of the pool in \<open>Task\<close>. The pool may start the tasks it was
  given in any order. The counters are those of fewer than \<open>2^64\<close> launches.
\<close>

section \<open>The code\<close>

text \<open>Where \<open>checkLaunch\<close> returns to: the caller of \<open>addTask\<close>, \<open>Task\<close> behind its \<open>addTask\<close>, or behind its own \<open>checkLaunch\<close>.\<close>

datatype after = Return | FinishTask | CheckFinished

datatype 't agent = RunBody 't | Push 't after | ReadLaunched after | ReadFinished nat after | PopTask after
  | IncLaunched 't after | GivePool 't after | IncFinished
  | FinLaunched | FinFinished nat | FinNoMore | FinQueue | FinTrylock | FinAll | FinSet | FinCall | FinUnlock | Gone

record 't launch_state =
  l_queue :: "'t list"
  l_launched :: nat
  l_finished :: nat
  l_all_finished :: bool
  l_max :: nat
  l_no_more :: bool
  l_finish_lock :: bool
  l_pool :: "'t list"
  l_agents :: "'t agent list"
  l_done :: "'t list"
  l_calls :: nat

definition launch_new :: "nat \<Rightarrow> 't launch_state" where
  "launch_new max_par = \<lparr>l_queue = [], l_launched = 0, l_finished = 0, l_all_finished = False, l_max = max_par,
     l_no_more = False, l_finish_lock = False, l_pool = [], l_agents = [], l_done = [], l_calls = 0\<rparr>"

fun leave :: "after \<Rightarrow> 't agent" where
  "leave Return = Gone"
| "leave FinishTask = IncFinished"
| "leave CheckFinished = FinLaunched"

text \<open>The difference of the counters is one of \<^verbatim>\<open>size_t\<close>: when the second load sees more than the first, it wraps.\<close>

definition running :: "nat \<Rightarrow> nat \<Rightarrow> nat" where
  "running launched finished = (if finished \<le> launched then launched - finished else 2 ^ 64 - (finished - launched))"

fun agent_step :: "'t agent \<Rightarrow> 't launch_state \<Rightarrow> ('t agent \<times> 't launch_state) option" where
  "agent_step (RunBody t) s = None"
| "agent_step (Push t k) s = Some (ReadLaunched k, s\<lparr>l_queue := l_queue s @ [t]\<rparr>)"
| "agent_step (ReadLaunched k) s = Some (ReadFinished (l_launched s) k, s)"
| "agent_step (ReadFinished n k) s = Some (if running n (l_finished s) < l_max s then PopTask k else leave k, s)"
| "agent_step (PopTask k) s = Some (case l_queue s of
     [] \<Rightarrow> (leave k, s) | f # q \<Rightarrow> (IncLaunched f k, s\<lparr>l_queue := q\<rparr>))"
| "agent_step (IncLaunched f k) s = Some (GivePool f k, s\<lparr>l_launched := l_launched s + 1\<rparr>)"
| "agent_step (GivePool f k) s = Some (ReadLaunched k, s\<lparr>l_pool := l_pool s @ [f]\<rparr>)"
| "agent_step IncFinished s = Some (ReadLaunched CheckFinished, s\<lparr>l_finished := l_finished s + 1\<rparr>)"
| "agent_step FinLaunched s = Some (FinFinished (l_launched s), s)"
| "agent_step (FinFinished n) s = Some (if n = l_finished s then FinNoMore else Gone, s)"
| "agent_step FinNoMore s = Some (if l_no_more s then FinQueue else Gone, s)"
| "agent_step FinQueue s = Some (if l_queue s = [] then FinTrylock else Gone, s)"
| "agent_step FinTrylock s = Some (if l_finish_lock s then (Gone, s) else (FinAll, s\<lparr>l_finish_lock := True\<rparr>))"
| "agent_step FinAll s = Some (if l_all_finished s then Gone else FinSet, s)"
| "agent_step FinSet s = Some (FinCall, s\<lparr>l_all_finished := True\<rparr>)"
| "agent_step FinCall s = Some (FinUnlock, s\<lparr>l_calls := l_calls s + 1\<rparr>)"
| "agent_step FinUnlock s = Some (Gone, s\<lparr>l_finish_lock := False\<rparr>)"
| "agent_step Gone s = None"

text \<open>
  What happens: a call of \<open>addTask\<close>, \<open>setNoMoreTasks\<close> or \<open>setMaxParallel\<close>; the pool starts the task at a
  place; a task returns; a call in progress moves.
\<close>

datatype 't launch_event = CallAddTask 't | CallNoMoreTasks | CallMaxParallel nat | PoolStarts nat | BodyEnds nat task_ret | Moves nat

definition put_agent :: "nat \<Rightarrow> 't agent \<Rightarrow> 't launch_state \<Rightarrow> 't launch_state" where
  "put_agent i a s = s\<lparr>l_agents := (l_agents s)[i := a]\<rparr>"

definition new_agent :: "'t agent \<Rightarrow> 't launch_state \<Rightarrow> 't launch_state" where
  "new_agent a s = s\<lparr>l_agents := l_agents s @ [a]\<rparr>"

fun launch_step :: "'t launch_event \<Rightarrow> 't launch_state \<Rightarrow> 't launch_state option" where
  "launch_step (CallAddTask t) s = Some (new_agent (Push t Return) s)"
| "launch_step CallNoMoreTasks s = Some (s\<lparr>l_no_more := True\<rparr>)"
| "launch_step (CallMaxParallel n) s = Some (s\<lparr>l_max := n\<rparr>)"
| "launch_step (PoolStarts k) s =
     (if k < length (l_pool s)
      then Some (new_agent (RunBody (l_pool s ! k)) (s\<lparr>l_pool := take k (l_pool s) @ drop (k + 1) (l_pool s)\<rparr>))
      else None)"
| "launch_step (BodyEnds i ret) s =
     (if i < length (l_agents s) then
        (case l_agents s ! i of
           RunBody t \<Rightarrow> Some (case ret of
             RELAUNCH \<Rightarrow> put_agent i (Push t FinishTask) s
           | NO_RELAUNCH \<Rightarrow> put_agent i IncFinished (s\<lparr>l_done := l_done s @ [t]\<rparr>))
         | _ \<Rightarrow> None)
      else None)"
| "launch_step (Moves i) s =
     (if i < length (l_agents s) then
        (case agent_step (l_agents s ! i) s of None \<Rightarrow> None | Some (a, s') \<Rightarrow> Some (put_agent i a s'))
      else None)"

fun launch_run :: "'t launch_event list \<Rightarrow> 't launch_state \<Rightarrow> 't launch_state option" where
  "launch_run [] s = Some s"
| "launch_run (e # es) s = (case launch_step e s of None \<Rightarrow> None | Some s \<Rightarrow> launch_run es s)"

section \<open>Sums over the agents\<close>

definition over :: "('t agent \<Rightarrow> 'b::comm_monoid_add) \<Rightarrow> 't launch_state \<Rightarrow> 'b" where
  "over f s = (\<Sum>a\<leftarrow>l_agents s. f a)"

lemma over_set: "i < length (l_agents s) \<Longrightarrow> over f (put_agent i a s) + f (l_agents s ! i) = over f s + f a"
  by (simp add: over_def put_agent_def sum_list_put)

lemma over_new [simp]: "over f (new_agent a s) = over f s + f a"
  by (simp add: over_def new_agent_def)

lemma over_agents: "l_agents s' = l_agents s \<Longrightarrow> over f s' = over f s"
  by (simp add: over_def)

lemma over_fields [simp]:
  "over f (s\<lparr>l_pool := p\<rparr>) = over f s" "over f (s\<lparr>l_done := d\<rparr>) = over f s" "over f (s\<lparr>l_no_more := b\<rparr>) = over f s"
  "over f (s\<lparr>l_max := n\<rparr>) = over f s"
  by (simp_all add: over_def)

lemma agent_fields [simp]:
  "l_queue (put_agent i a s) = l_queue s" "l_queue (new_agent a s) = l_queue s"
  "l_launched (put_agent i a s) = l_launched s" "l_launched (new_agent a s) = l_launched s"
  "l_finished (put_agent i a s) = l_finished s" "l_finished (new_agent a s) = l_finished s"
  "l_all_finished (put_agent i a s) = l_all_finished s" "l_all_finished (new_agent a s) = l_all_finished s"
  "l_max (put_agent i a s) = l_max s" "l_max (new_agent a s) = l_max s"
  "l_finish_lock (put_agent i a s) = l_finish_lock s" "l_finish_lock (new_agent a s) = l_finish_lock s"
  "l_pool (put_agent i a s) = l_pool s" "l_pool (new_agent a s) = l_pool s"
  "l_done (put_agent i a s) = l_done s" "l_done (new_agent a s) = l_done s"
  "l_calls (put_agent i a s) = l_calls s" "l_calls (new_agent a s) = l_calls s"
  "l_agents (put_agent i a s) = (l_agents s)[i := a]" "l_agents (new_agent a s) = l_agents s @ [a]"
  by (simp_all add: put_agent_def new_agent_def)

lemma agent_step_agents: "agent_step a s = Some (a', s') \<Longrightarrow> l_agents s' = l_agents s \<and> l_max s' = l_max s \<and> l_done s' = l_done s"
  by (cases "(a, s)" rule: agent_step.cases) (auto split: list.splits if_splits)

section \<open>Where the tasks are\<close>

fun hand :: "'t agent \<Rightarrow> 't multiset" where
  "hand (RunBody t) = {#t#}"
| "hand (Push t k) = {#t#}"
| "hand (IncLaunched t k) = {#t#}"
| "hand (GivePool t k) = {#t#}"
| "hand _ = {#}"

definition all_tasks :: "'t launch_state \<Rightarrow> 't multiset" where
  "all_tasks s = mset (l_queue s) + mset (l_pool s) + over hand s + mset (l_done s)"

fun given :: "'t launch_event list \<Rightarrow> 't multiset" where
  "given [] = {#}"
| "given (CallAddTask t # es) = add_mset t (given es)"
| "given (_ # es) = given es"

lemma hand_leave [simp]: "hand (leave k) = {#}"
  by (cases k) simp_all

lemma agent_step_tasks:
  "agent_step a s = Some (a', s') \<Longrightarrow>
    mset (l_queue s') + mset (l_pool s') + hand a' = mset (l_queue s) + mset (l_pool s) + hand a"
  by (cases "(a, s)" rule: agent_step.cases) (auto split: list.splits if_splits)

lemma put_agent_tasks: "i < length (l_agents s) \<Longrightarrow> all_tasks (put_agent i a s) + hand (l_agents s ! i) = all_tasks s + hand a"
  using over_set [of i s hand a] by (simp add: all_tasks_def ac_simps)

lemma launch_step_tasks:
  assumes "launch_step e s = Some s'"
  shows "all_tasks s' = all_tasks s + given [e]"
proof (cases e)
  case (PoolStarts k)
  then show ?thesis
    using assms mset_without [of k "l_pool s"] by (auto simp: all_tasks_def ac_simps split: if_splits)
next
  case (BodyEnds i ret)
  then obtain t where t: "i < length (l_agents s)" "l_agents s ! i = RunBody t"
    using assms by (auto split: if_splits agent.splits)
  show ?thesis
    using assms BodyEnds t put_agent_tasks [OF t(1), of "Push t FinishTask"]
      put_agent_tasks [of i "s\<lparr>l_done := l_done s @ [t]\<rparr>" IncFinished]
    by (cases ret) (auto simp: all_tasks_def)
next
  case (Moves i)
  then obtain a t where i: "i < length (l_agents s)" "agent_step (l_agents s ! i) s = Some (a, t)" "s' = put_agent i a t"
    using assms by (auto split: if_splits option.splits)
  note t = agent_step_agents [OF i(2)] agent_step_tasks [OF i(2)]
  have "all_tasks s' + hand (l_agents s ! i) = all_tasks t + hand a"
    using put_agent_tasks [of i t a] i(1,3) t(1) by simp
  also have "\<dots> = (mset (l_queue t) + mset (l_pool t) + hand a) + (over hand s + mset (l_done s))"
    using over_agents [of t s] t(1) by (simp add: all_tasks_def ac_simps)
  also have "\<dots> = all_tasks s + hand (l_agents s ! i)"
    unfolding t(2) by (simp add: all_tasks_def ac_simps)
  finally show ?thesis
    using Moves by simp
qed (use assms in \<open>auto simp: all_tasks_def\<close>)

section \<open>The counters\<close>

text \<open>Launches that an agent still has to count as finished, itself or through the pool.\<close>

fun rest_of :: "after \<Rightarrow> nat" where
  "rest_of FinishTask = 1"
| "rest_of _ = 0"

fun owes :: "'t agent \<Rightarrow> nat" where
  "owes (RunBody t) = 1"
| "owes (Push t k) = rest_of k"
| "owes (ReadLaunched k) = rest_of k"
| "owes (ReadFinished n k) = rest_of k"
| "owes (PopTask k) = rest_of k"
| "owes (IncLaunched t k) = rest_of k"
| "owes (GivePool t k) = 1 + rest_of k"
| "owes IncFinished = 1"
| "owes _ = 0"

definition counters_inv :: "'t launch_state \<Rightarrow> bool" where
  "counters_inv s \<longleftrightarrow> l_launched s = l_finished s + length (l_pool s) + over owes s"

lemma owes_leave [simp]: "owes (leave k) = rest_of k"
  by (cases k) simp_all

lemma agent_step_counters:
  "agent_step a s = Some (a', s') \<Longrightarrow>
    l_launched s' + l_finished s + length (l_pool s) + owes a = l_launched s + l_finished s' + length (l_pool s') + owes a'"
  by (cases "(a, s)" rule: agent_step.cases) (auto split: list.splits if_splits)

lemma launch_step_counters:
  assumes "launch_step e s = Some s'" "counters_inv s"
  shows "counters_inv s'"
proof (cases e)
  case (BodyEnds i ret)
  then obtain t where t: "i < length (l_agents s)" "l_agents s ! i = RunBody t"
    using assms by (auto split: if_splits agent.splits)
  show ?thesis
    using assms BodyEnds t over_set [OF t(1), of owes "Push t FinishTask"]
      over_set [of i "s\<lparr>l_done := l_done s @ [t]\<rparr>" owes IncFinished]
    by (cases ret) (auto simp: counters_inv_def)
next
  case (Moves i)
  then obtain a t where i: "i < length (l_agents s)" "agent_step (l_agents s ! i) s = Some (a, t)" "s' = put_agent i a t"
    using assms(1) by (auto split: if_splits option.splits)
  have "over owes s' + owes (l_agents s ! i) = over owes s + owes a"
    using over_set [of i t owes a] over_agents [of t s owes] agent_step_agents [OF i(2)] i(1,3) by simp
  then show ?thesis
    using agent_step_counters [OF i(2)] assms(2) i(3) by (simp add: counters_inv_def)
qed (use assms in \<open>auto simp: counters_inv_def split: if_splits\<close>)

section \<open>No task is forgotten\<close>

text \<open>
  An agent that will look at the queue again with fresh counters. When tasks wait, there is one,
  or a task that the pool has, or an agent between its two loads whose first is up to date.
\<close>

fun busy :: "'t agent \<Rightarrow> bool" where
  "busy (RunBody t) = True"
| "busy (Push t k) = True"
| "busy (ReadLaunched k) = True"
| "busy (ReadFinished n k) = (k = FinishTask)"
| "busy (PopTask k) = True"
| "busy (IncLaunched t k) = True"
| "busy (GivePool t k) = True"
| "busy IncFinished = True"
| "busy _ = False"

definition looks :: "'t launch_state \<Rightarrow> 't agent \<Rightarrow> bool" where
  "looks s a \<longleftrightarrow> busy a \<or> (\<exists>k. a = ReadFinished (l_launched s) k)"

definition served :: "'t launch_state \<Rightarrow> bool" where
  "served s \<longleftrightarrow> l_queue s = [] \<or> l_pool s \<noteq> [] \<or> (\<exists>a \<in> set (l_agents s). looks s a)"

lemma owes_busy: "\<not> busy a \<Longrightarrow> owes a = 0"
  by (cases a rule: busy.cases) (auto, metis after.exhaust rest_of.simps(2,3))

lemma agent_step_looks:
  assumes "agent_step a s = Some (a', s')"
  shows "l_queue s' = [] \<or> looks s' a' \<or>
    \<not> busy a \<and> l_queue s' = l_queue s \<and> l_pool s' = l_pool s \<and> l_launched s' = l_launched s \<and>
      (\<forall>n k. a = ReadFinished n k \<longrightarrow> \<not> running n (l_finished s) < l_max s)"
proof -
  have leave: "busy (leave k) = (k = FinishTask)" for k
    by (cases k) simp_all
  show ?thesis
    using assms by (cases "(a, s)" rule: agent_step.cases) (auto simp: looks_def leave split: list.splits if_splits)
qed

lemma over_only:
  "i < length (l_agents s) \<Longrightarrow> \<forall>j < length (l_agents s). j \<noteq> i \<longrightarrow> f (l_agents s ! j) = 0 \<Longrightarrow> over f s = f (l_agents s ! i)"
proof -
  assume i: "i < length (l_agents s)" and zero: "\<forall>j < length (l_agents s). j \<noteq> i \<longrightarrow> f (l_agents s ! j) = 0"
  have "over f s = (\<Sum>j = 0..<length (l_agents s). f (l_agents s ! j))"
    by (simp add: over_def sum_list_sum_nth)
  also have "\<dots> = (\<Sum>j \<in> {i}. f (l_agents s ! j))"
    by (rule sum.mono_neutral_right) (use i zero in auto)
  finally show ?thesis
    by simp
qed

lemma moves_served:
  assumes step: "i < length (l_agents s)" "agent_step (l_agents s ! i) s = Some (a, t)"
    and inv: "served s" "counters_inv s" "0 < l_max s"
  shows "served (put_agent i a t)"
proof -
  note agents = agent_step_agents [OF step(2)]
  let ?b = "l_agents s ! i"
  consider "l_queue t = []" | "looks t a" | "\<not> busy ?b" "l_queue t = l_queue s" "l_pool t = l_pool s" "l_launched t = l_launched s"
      "\<forall>n k. ?b = ReadFinished n k \<longrightarrow> \<not> running n (l_finished s) < l_max s"
    using agent_step_looks [OF step(2)] by blast
  then show ?thesis
  proof cases
    case 2
    then show ?thesis
      using step(1) agents by (auto simp: served_def looks_def set_update_memI)
  next
    case 3
    show ?thesis
    proof (cases "\<exists>j < length (l_agents s). j \<noteq> i \<and> looks s (l_agents s ! j)")
      case True
      then obtain j where j: "j < length (l_agents s)" "j \<noteq> i" "looks s (l_agents s ! j)"
        by blast
      then have "l_agents s ! j \<in> set (l_agents (put_agent i a t))"
        using agents by (metis agent_fields(19) length_list_update nth_list_update_neq nth_mem)
      then show ?thesis
        using j(3) 3 by (auto simp: served_def looks_def)
    next
      case False
      then have "\<forall>j < length (l_agents s). j \<noteq> i \<longrightarrow> owes (l_agents s ! j) = 0"
        using owes_busy by (auto simp: looks_def)
      then have "over owes s = owes ?b"
        using over_only [OF step(1), of owes] by blast
      then have "over owes s = 0"
        using owes_busy [OF 3(1)] by simp
      then have idle: "l_launched s = l_finished s" if "l_pool s = []"
        using inv(2) that by (simp add: counters_inv_def)
      have "l_queue s = [] \<or> l_pool s \<noteq> []"
      proof (rule ccontr)
        assume "\<not> ?thesis"
        then obtain b where b: "b \<in> set (l_agents s)" "looks s b" "l_pool s = []"
          using inv(1) by (auto simp: served_def)
        then have "looks s ?b"
          using False by (metis in_set_conv_nth)
        then obtain k where "?b = ReadFinished (l_launched s) k"
          using 3(1) by (auto simp: looks_def)
        then show False
          using 3(5) idle [OF b(3)] inv(3) by (simp add: running_def)
      qed
      then show ?thesis
        using 3(2,3) by (auto simp: served_def)
    qed
  qed (auto simp: served_def)
qed

lemma launch_step_served:
  assumes "launch_step e s = Some s'" "served s" "counters_inv s" "0 < l_max s"
  shows "served s'"
proof (cases e)
  case (PoolStarts k)
  then show ?thesis
    using assms(1) by (auto simp: served_def looks_def split: if_splits)
next
  case (BodyEnds i ret)
  then obtain t where t: "i < length (l_agents s)" "l_agents s ! i = RunBody t"
    using assms by (auto split: if_splits agent.splits)
  have "served (put_agent i a u)" if "busy a" "l_agents u = l_agents s" for a u
    using that t(1) by (auto simp: served_def looks_def set_update_memI)
  then show ?thesis
    using assms(1) BodyEnds t by (cases ret) auto
next
  case (Moves i)
  then show ?thesis
    using assms moves_served [of i s] by (auto split: if_splits option.splits)
qed (use assms in \<open>auto simp: served_def looks_def\<close>)

section \<open>The end is reported once\<close>

fun in_lock :: "'t agent \<Rightarrow> nat" where
  "in_lock FinAll = 1" | "in_lock FinSet = 1" | "in_lock FinCall = 1" | "in_lock FinUnlock = 1" | "in_lock _ = 0"

fun at_set :: "'t agent \<Rightarrow> nat" where
  "at_set FinSet = 1" | "at_set _ = 0"

fun at_call :: "'t agent \<Rightarrow> nat" where
  "at_call FinCall = 1" | "at_call _ = 0"

definition finish_inv :: "'t launch_state \<Rightarrow> bool" where
  "finish_inv s \<longleftrightarrow> over in_lock s \<le> of_bool (l_finish_lock s) \<and> (0 < over at_set s \<longrightarrow> \<not> l_all_finished s) \<and>
     l_calls s + over at_call s = of_bool (l_all_finished s)"

lemma leave_lock [simp]: "in_lock (leave k) = 0" "at_set (leave k) = 0" "at_call (leave k) = 0"
  by (cases k; simp)+

lemma at_set_in_lock:
  fixes s :: "'t launch_state"
  shows "over at_set s \<le> over in_lock s"
proof -
  have "at_set a \<le> in_lock a" for a :: "'t agent"
    by (cases a rule: in_lock.cases) simp_all
  then show ?thesis
    unfolding over_def by (intro sum_list_mono) simp
qed

lemma moves_finish:
  assumes step: "i < length (l_agents s)" "agent_step (l_agents s ! i) s = Some (a, t)" and inv: "finish_inv s"
  shows "finish_inv (put_agent i a t)"
proof -
  note agents = agent_step_agents [OF step(2)]
  have over: "over f (put_agent i a t) + f (l_agents s ! i) = over f s + f a" for f :: "_ \<Rightarrow> nat"
    using over_set [of i t f a] over_agents [of t s f] agents step(1) by simp
  note sums = over [of in_lock] over [of at_set] over [of at_call]
  show ?thesis
    using step(2) inv sums at_set_in_lock [of s] unfolding finish_inv_def
    by (cases "(l_agents s ! i, s)" rule: agent_step.cases; cases "l_finish_lock s") (auto split: list.splits if_splits)
qed

lemma launch_step_finish:
  assumes "launch_step e s = Some s'" "finish_inv s"
  shows "finish_inv s'"
proof (cases e)
  case (BodyEnds i ret)
  then obtain t where t: "i < length (l_agents s)" "l_agents s ! i = RunBody t"
    using assms by (auto split: if_splits agent.splits)
  have over: "over f (put_agent i a s) + f (RunBody t) = over f s + f a" for f :: "_ \<Rightarrow> nat" and a
    using over_set [OF t(1), of f a] t(2) by simp
  have same: "over f (put_agent i a (s\<lparr>l_done := d\<rparr>)) = over f (put_agent i a s)" for f :: "_ \<Rightarrow> nat" and a d
    by (simp add: over_def)
  show ?thesis
    using assms BodyEnds t over [of in_lock] over [of at_set] over [of at_call]
    by (cases ret) (auto simp: finish_inv_def same)
next
  case (Moves i)
  then show ?thesis
    using assms moves_finish [of i s] by (auto split: if_splits option.splits)
qed (use assms in \<open>auto simp: finish_inv_def split: if_splits\<close>)

section \<open>Properties\<close>

lemma launch_new_inv: "counters_inv (launch_new m)" "served (launch_new m)" "finish_inv (launch_new m)" "all_tasks (launch_new m) = {#}"
  by (simp_all add: counters_inv_def served_def finish_inv_def all_tasks_def over_def launch_new_def)

fun limits :: "'t launch_event list \<Rightarrow> nat list" where
  "limits [] = []"
| "limits (CallMaxParallel n # es) = n # limits es"
| "limits (_ # es) = limits es"

lemma launch_step_max: "launch_step e s = Some s' \<Longrightarrow> 0 < l_max s \<Longrightarrow> 0 \<notin> set (limits [e]) \<Longrightarrow> 0 < l_max s'"
  by (cases e) (auto dest: agent_step_agents split: if_splits agent.splits option.splits task_ret.splits)

lemma given_Cons: "given (e # es) = given [e] + given es"
  by (cases e) simp_all

lemma limits_Cons: "limits (e # es) = limits [e] @ limits es"
  by (cases e) simp_all

lemma launch_run_tasks: "launch_run es s = Some s' \<Longrightarrow> all_tasks s' = all_tasks s + given es"
proof (induction es arbitrary: s)
  case (Cons e es)
  then show ?case
    using launch_step_tasks [of e s] given_Cons [of e es] by (auto simp: ac_simps split: option.splits)
qed simp

lemma launch_run_finish: "launch_run es s = Some s' \<Longrightarrow> finish_inv s \<Longrightarrow> finish_inv s'"
  by (induction es arbitrary: s) (auto dest: launch_step_finish split: option.splits)

lemma launch_run_served:
  "launch_run es s = Some s' \<Longrightarrow> served s \<Longrightarrow> counters_inv s \<Longrightarrow> 0 < l_max s \<Longrightarrow> 0 \<notin> set (limits es) \<Longrightarrow> served s'"
proof (induction es arbitrary: s)
  case (Cons e es)
  then show ?case
    using launch_step_served [of e s] launch_step_counters [of e s] launch_step_max [of e s] limits_Cons [of e es]
    by (auto split: option.splits)
qed simp

text \<open>Nothing is in progress: every call has returned and the pool has no task of the launcher.\<close>

definition at_rest :: "'t launch_state \<Rightarrow> bool" where
  "at_rest s \<longleftrightarrow> l_pool s = [] \<and> (\<forall>a \<in> set (l_agents s). a = Gone)"

lemma hand_Gone: "\<forall>a \<in> set as. a = Gone \<Longrightarrow> (\<Sum>a\<leftarrow>as. hand a) = {#}"
  by (induction as) auto

text \<open>
  C13: whatever the interleaving of the threads that add tasks and of those that run them, every
  task that was added is at any moment in the queue, with the pool, in the hands of one thread, or
  done, once; and none is forgotten: when nothing is in progress any more the queue is empty and
  all tasks are done (while the limit was above zero). The function for the end is called at most
  once.
\<close>

theorem launcher_serves_tasks:
  assumes "launch_run es (launch_new max_par) = Some s" "0 < max_par" "0 \<notin> set (limits es)"
  shows "mset (l_queue s) + mset (l_pool s) + (\<Sum>a\<leftarrow>l_agents s. hand a) + mset (l_done s) = given es \<and>
    (at_rest s \<longrightarrow> l_queue s = [] \<and> mset (l_done s) = given es) \<and> l_calls s \<le> 1"
proof -
  have tasks: "all_tasks s = given es"
    using launch_run_tasks [OF assms(1)] by (simp add: launch_new_inv)
  have "served s"
    using launch_run_served [OF assms(1) launch_new_inv(2,1)] assms(2,3) by (simp add: launch_new_def)
  moreover have "over hand s = {#}" if "at_rest s"
    using that hand_Gone [of "l_agents s"] unfolding at_rest_def over_def by blast
  moreover have "l_calls s \<le> 1"
    using launch_run_finish [OF assms(1) launch_new_inv(3)] by (simp add: finish_inv_def of_bool_def split: if_splits)
  ultimately show ?thesis
    using tasks by (auto simp: all_tasks_def over_def served_def at_rest_def looks_def)
qed

text \<open>The tasks 1, 3 and 2 are added, one call after the other; the pool runs the first two as agents 3 and 4.\<close>

definition early_run :: "nat launch_event list" where
  "early_run = [CallAddTask 1] @ replicate 9 (Moves 0) @ [CallAddTask 3] @ replicate 8 (Moves 1) @
     [CallAddTask 2] @ replicate 3 (Moves 2) @ [CallNoMoreTasks, PoolStarts 0, PoolStarts 0] @
     [BodyEnds 3 NO_RELAUNCH] @ replicate 4 (Moves 3) @ [BodyEnds 4 NO_RELAUNCH] @ replicate 12 (Moves 4)"

lemma early_run_ends:
  "map_option (\<lambda>s. (l_calls s, l_done s, l_agents s)) (launch_run early_run (launch_new 2)) =
     Some (1, [1, 3], [Gone, Gone, Gone, IncLaunched 2 CheckFinished, FinUnlock])"
  by code_simp

theorem launcher_serves_tasks_witness:
  "\<exists>s. launch_run early_run (launch_new 2) = Some s \<and> l_calls s \<le> 1 \<and>
     mset (l_queue s) + mset (l_pool s) + (\<Sum>a\<leftarrow>l_agents s. hand a) + mset (l_done s) = {#1, 3, 2#}"
proof -
  obtain s where s: "launch_run early_run (launch_new 2) = Some s"
    using early_run_ends by (cases "launch_run early_run (launch_new 2)") auto
  have "limits early_run = []" "given early_run = {#1, 3, 2#}"
    by (simp_all add: early_run_def numeral_eq_Suc)
  then show ?thesis
    using launcher_serves_tasks [OF s] s by auto
qed

text \<open>
  the end is reported too early in some interleaving: the last task has been taken from the
  queue by a thread of the pool and is not counted as launched yet, and a second thread, whose own
  task ends, sees equal counters and an empty queue and calls the function for the end, although
  that task has not run.
\<close>

lemma launcher_ends_early:
  "\<exists>es s. launch_run es (launch_new 2) = Some s \<and> l_calls s = 1 \<and> given es = {#1, 3, 2#} \<and>
     mset (l_done s) = {#1, 3 :: nat#} \<and> IncLaunched 2 CheckFinished \<in> set (l_agents s)"
proof -
  obtain s where s: "launch_run early_run (launch_new 2) = Some s" "l_calls s = 1" "l_done s = [1, 3]"
      "l_agents s = [Gone, Gone, Gone, IncLaunched 2 CheckFinished, FinUnlock]"
    using early_run_ends by (cases "launch_run early_run (launch_new 2)") auto
  have "given early_run = {#1, 3, 2#}"
    by (simp add: early_run_def numeral_eq_Suc)
  then show ?thesis
    using s by (intro exI [of _ early_run] exI [of _ s]) simp
qed

text \<open>Two calls of \<open>addTask\<close> that both see no task running start two, although the limit is one.\<close>

lemma launcher_exceeds_limit:
  "map_option l_pool (launch_run ([CallAddTask 1, CallAddTask 2] @ replicate 3 (Moves 0) @ replicate 6 (Moves 1) @ replicate 3 (Moves 0))
     (launch_new 1)) = Some [1, 2 :: nat]"
  by code_simp

section \<open>Calls one after the other\<close>

text \<open>The state of \<open>TaskLauncher\<close>, with the agents that are there besides.\<close>

definition as_state :: "'t agent list \<Rightarrow> 't list \<Rightarrow> 't launcher \<Rightarrow> 't launch_state" where
  "as_state as d s = \<lparr>l_queue = task_q s, l_launched = tasks_launched s, l_finished = tasks_finished s,
     l_all_finished = all_tasks_finished s, l_max = max_parallel s, l_no_more = no_more_tasks s,
     l_finish_lock = finish_lock s, l_pool = in_pool s, l_agents = as, l_done = d, l_calls = on_finished_calls s\<rparr>"

lemma as_state_fields [simp]:
  "l_agents (as_state as d s) = as" "l_queue (as_state as d s) = task_q s" "l_launched (as_state as d s) = tasks_launched s"
  "l_finished (as_state as d s) = tasks_finished s" "l_max (as_state as d s) = max_parallel s" "l_pool (as_state as d s) = in_pool s"
  "l_no_more (as_state as d s) = no_more_tasks s" "l_finish_lock (as_state as d s) = finish_lock s"
  "l_all_finished (as_state as d s) = all_tasks_finished s" "l_done (as_state as d s) = d" "l_calls (as_state as d s) = on_finished_calls s"
  "put_agent i a (as_state as d s) = as_state (as[i := a]) d s"
  by (simp_all add: as_state_def put_agent_def)

lemma launch_run_append: "launch_run (xs @ ys) s = Option.bind (launch_run xs s) (launch_run ys)"
  by (induction xs arbitrary: s) (auto split: option.split)

lemma alone_checkLaunch:
  assumes "i < length as"
  shows "tasks_finished s \<le> tasks_launched s \<Longrightarrow>
    \<exists>n. launch_run (replicate n (Moves i)) (as_state (as[i := ReadLaunched k]) d s) = Some (as_state (as[i := leave k]) d (checkLaunch s))"
proof (induction s rule: checkLaunch.induct)
  case (1 s)
  show ?case
  proof (cases "countRunning s < max_parallel s")
    case False
    then have "launch_run (replicate 2 (Moves i)) (as_state (as[i := ReadLaunched k]) d s) = Some (as_state (as[i := leave k]) d (checkLaunch s))"
      using 1(2) assms by (simp add: numeral_2_eq_2 running_def countRunning_def checkLaunch.simps [of s])
    then show ?thesis
      by blast
  next
    case True
    note first = this
    show ?thesis
    proof (cases "task_q s")
      case Nil
      then have "launch_run (replicate 3 (Moves i)) (as_state (as[i := ReadLaunched k]) d s) = Some (as_state (as[i := leave k]) d (checkLaunch s))"
        using 1(2) assms first by (simp add: numeral_3_eq_3 running_def countRunning_def checkLaunch.simps [of s])
      then show ?thesis
        by blast
    next
      case (Cons f q)
      let ?s = "launch f (s\<lparr>task_q := q\<rparr>)"
      obtain n where "launch_run (replicate n (Moves i)) (as_state (as[i := ReadLaunched k]) d ?s) = Some (as_state (as[i := leave k]) d (checkLaunch ?s))"
        using 1(1) [OF first Cons] 1(2) by (auto simp: launch_def)
      moreover have "launch_run (replicate 5 (Moves i)) (as_state (as[i := ReadLaunched k]) d s) = Some (as_state (as[i := ReadLaunched k]) d ?s)"
        using 1(2) assms first Cons
        by (simp add: numeral_eq_Suc running_def countRunning_def launch_def) (simp add: as_state_def put_agent_def)
      moreover have "checkLaunch s = checkLaunch ?s"
        using first Cons by (simp add: checkLaunch.simps [of s])
      ultimately have "launch_run (replicate (5 + n) (Moves i)) (as_state (as[i := ReadLaunched k]) d s) = Some (as_state (as[i := leave k]) d (checkLaunch s))"
        by (simp only: replicate_add launch_run_append) simp
      then show ?thesis
        by blast
    qed
  qed
qed

lemma alone_addTask:
  assumes "tasks_finished s \<le> tasks_launched s"
  shows "\<exists>n. launch_run (CallAddTask t # replicate n (Moves (length as))) (as_state as d s) = Some (as_state (as @ [Gone]) d (addTask t s))"
proof -
  let ?s = "s\<lparr>task_q := task_q s @ [t]\<rparr>" and ?i = "length as"
  have set: "(as @ [a])[?i := b] = as @ [b]" for a b
    by simp
  obtain n where "launch_run (replicate n (Moves ?i)) (as_state (as @ [ReadLaunched Return]) d ?s) = Some (as_state (as @ [Gone]) d (addTask t s))"
    using alone_checkLaunch [of ?i "as @ [Gone]" ?s Return d] assms by (auto simp: addTask_def)
  then have "launch_run (CallAddTask t # replicate (Suc n) (Moves ?i)) (as_state as d s) = Some (as_state (as @ [Gone]) d (addTask t s))"
    by (simp add: new_agent_def as_state_def put_agent_def)
  then show ?thesis
    by blast
qed

lemma alone_checkFinished:
  assumes "i < length as"
  shows "\<exists>n. launch_run (replicate n (Moves i)) (as_state (as[i := FinLaunched]) d s) = Some (as_state (as[i := Gone]) d (checkFinished s))"
proof -
  let ?n = "if tasks_launched s \<noteq> tasks_finished s then 2 else if \<not> no_more_tasks s then 3 else if task_q s \<noteq> [] then 4
    else if finish_lock s then 5 else if all_tasks_finished s then 6 else 9"
  have "launch_run (replicate ?n (Moves i)) (as_state (as[i := FinLaunched]) d s) = Some (as_state (as[i := Gone]) d (checkFinished s))"
    using assms by (auto simp: numeral_eq_Suc checkFinished_def) (simp_all add: as_state_def put_agent_def)
  then show ?thesis
    by blast
qed

text \<open>Behind the function of the task, and its \<open>addTask\<close> when it is launched again.\<close>

lemma alone_after_body:
  assumes "i < length as" "tasks_finished s < tasks_launched s"
  shows "\<exists>n. launch_run (replicate n (Moves i)) (as_state (as[i := IncFinished]) d s) =
    Some (as_state (as[i := Gone]) d (checkFinished (checkLaunch (s\<lparr>tasks_finished := tasks_finished s + 1\<rparr>))))"
proof -
  let ?s = "s\<lparr>tasks_finished := tasks_finished s + 1\<rparr>"
  have first: "launch_run (replicate 1 (Moves i)) (as_state (as[i := IncFinished]) d s) = Some (as_state (as[i := ReadLaunched CheckFinished]) d ?s)"
    using assms(1) by (simp add: as_state_def put_agent_def)
  obtain n where n: "launch_run (replicate n (Moves i)) (as_state (as[i := ReadLaunched CheckFinished]) d ?s) =
      Some (as_state (as[i := FinLaunched]) d (checkLaunch ?s))"
    using alone_checkLaunch [OF assms(1), of ?s CheckFinished d] assms(2) by auto
  obtain m where "launch_run (replicate m (Moves i)) (as_state (as[i := FinLaunched]) d (checkLaunch ?s)) =
      Some (as_state (as[i := Gone]) d (checkFinished (checkLaunch ?s)))"
    using alone_checkFinished [OF assms(1)] by blast
  then have "launch_run (replicate (1 + n + m) (Moves i)) (as_state (as[i := IncFinished]) d s) =
      Some (as_state (as[i := Gone]) d (checkFinished (checkLaunch ?s)))"
    by (simp only: replicate_add launch_run_append first n bind.bind_lunit)
  then show ?thesis
    by blast
qed

lemma alone_Task:
  assumes "counters_ok 0 s" "k < length (in_pool s)"
  shows "\<exists>es d'. launch_run es (as_state as d s) = Some (as_state (as @ [Gone]) d' (run_Task k ret s))"
proof -
  let ?i = "length as" and ?t = "in_pool s ! k"
  let ?s = "s\<lparr>in_pool := take k (in_pool s) @ drop (k + 1) (in_pool s)\<rparr>"
  have less: "tasks_finished s < tasks_launched s"
    using assms by (auto simp: counters_ok_def)
  have starts: "launch_run [PoolStarts k] (as_state as d s) = Some (as_state (as @ [RunBody ?t]) d ?s)"
    using assms(2) by (simp add: new_agent_def as_state_def)
  show ?thesis
  proof (cases ret)
    case NO_RELAUNCH
    obtain n where n: "launch_run (replicate n (Moves ?i)) (as_state (as @ [IncFinished]) (d @ [?t]) ?s) =
        Some (as_state (as @ [Gone]) (d @ [?t]) (run_Task k ret s))"
      using alone_after_body [of ?i "as @ [Gone]" ?s "d @ [?t]"] less NO_RELAUNCH by (auto simp: run_Task_def)
    have "launch_run [BodyEnds ?i ret] (as_state (as @ [RunBody ?t]) d ?s) = Some (as_state (as @ [IncFinished]) (d @ [?t]) ?s)"
      using NO_RELAUNCH by simp (simp add: as_state_def put_agent_def)
    with n have "launch_run ([PoolStarts k] @ [BodyEnds ?i ret] @ replicate n (Moves ?i)) (as_state as d s) =
        Some (as_state (as @ [Gone]) (d @ [?t]) (run_Task k ret s))"
      by (simp only: launch_run_append starts bind.bind_lunit)
    then show ?thesis
      by blast
  next
    case RELAUNCH
    let ?q = "?s\<lparr>task_q := task_q s @ [?t]\<rparr>"
    have "counters_ok 1 ?s"
      using assms by (simp add: counters_ok_def)
    then have later: "tasks_finished (addTask ?t ?s) < tasks_launched (addTask ?t ?s)"
      using addTask_props [of 1 ?s ?t] by (simp add: counters_ok_def)
    obtain m where m: "launch_run (replicate m (Moves ?i)) (as_state (as @ [ReadLaunched FinishTask]) d ?q) =
        Some (as_state (as @ [IncFinished]) d (addTask ?t ?s))"
      using alone_checkLaunch [of ?i "as @ [Gone]" ?q FinishTask d] less by (auto simp: addTask_def)
    obtain n where n: "launch_run (replicate n (Moves ?i)) (as_state (as @ [IncFinished]) d (addTask ?t ?s)) =
        Some (as_state (as @ [Gone]) d (run_Task k ret s))"
      using alone_after_body [of ?i "as @ [Gone]" "addTask ?t ?s" d] later RELAUNCH by (auto simp: run_Task_def Let_def)
    have "launch_run [BodyEnds ?i ret, Moves ?i] (as_state (as @ [RunBody ?t]) d ?s) = Some (as_state (as @ [ReadLaunched FinishTask]) d ?q)"
      using RELAUNCH by simp (simp add: as_state_def put_agent_def)
    with m n have "launch_run ([PoolStarts k] @ [BodyEnds ?i ret, Moves ?i] @ replicate m (Moves ?i) @ replicate n (Moves ?i)) (as_state as d s) =
        Some (as_state (as @ [Gone]) d (run_Task k ret s))"
      by (simp only: launch_run_append starts bind.bind_lunit)
    then show ?thesis
      by blast
  qed
qed

text \<open>
  Each step of \<open>TaskLauncher\<close> is a run of the steps here, in which one call goes from its start to
  its end: what is shown there holds when the calls do not overlap.
\<close>

lemma launcher_step_is_run:
  assumes "launcher_inv s"
  shows "\<exists>es as' d'. launch_run es (as_state as d s) = Some (as_state as' d' (launcher_step e s))"
proof (cases e)
  case (AddTask t)
  have "tasks_finished s \<le> tasks_launched s"
    using assms by (simp add: launcher_inv_def counters_ok_def)
  from alone_addTask [OF this, of t as d] show ?thesis
    unfolding AddTask launcher_step.simps by blast
next
  case (RunTask i ret)
  show ?thesis
  proof (cases "i < length (in_pool s)")
    case True
    then show ?thesis
      using alone_Task [of s i as d ret] assms RunTask by (auto simp: launcher_inv_def)
  next
    case False
    then have "launch_run [] (as_state as d s) = Some (as_state as d (launcher_step e s))"
      using RunTask by simp
    then show ?thesis
      by blast
  qed
next
  case (SetMaxParallel n)
  have "launch_run [CallMaxParallel n] (as_state as d s) = Some (as_state as d (launcher_step e s))"
    using SetMaxParallel by (simp add: as_state_def setMaxParallel_def)
  then show ?thesis
    by blast
next
  case SetNoMoreTasks
  have "launch_run [CallNoMoreTasks] (as_state as d s) = Some (as_state as d (launcher_step e s))"
    using SetNoMoreTasks by (simp add: as_state_def setNoMoreTasks_def)
  then show ?thesis
    by blast
qed

lemma launcher_run_is_run:
  "launcher_inv s \<Longrightarrow> \<exists>es' as' d'. launch_run es' (as_state as d s) = Some (as_state as' d' (launcher_run es s))"
proof (induction es arbitrary: s as d)
  case Nil
  have "launch_run [] (as_state as d s) = Some (as_state as d s)"
    by simp
  then show ?case
    unfolding launcher_run_def by (metis fold_simps(1))
next
  case (Cons e es)
  obtain es1 as1 d1 where 1: "launch_run es1 (as_state as d s) = Some (as_state as1 d1 (launcher_step e s))"
    using launcher_step_is_run [OF Cons.prems] by blast
  obtain es2 as2 d2 where "launch_run es2 (as_state as1 d1 (launcher_step e s)) = Some (as_state as2 d2 (launcher_run es (launcher_step e s)))"
    using Cons.IH [OF launcher_step_inv [OF Cons.prems]] by blast
  then have "launch_run (es1 @ es2) (as_state as d s) = Some (as_state as2 d2 (launcher_run (e # es) s))"
    using 1 by (simp add: launch_run_append launcher_run_def)
  then show ?case
    by blast
qed

end
