(* ===== verification/ServerEvents.thy ===== *)
theory ServerEvents
  imports HttpServer
begin

text \<open>
  The HTTP server over the watcher of \<^verbatim>\<open>events/EventWatcherKqueue.cpp\<close>: the calls that the server makes
  to its watcher (\<open>watch_log\<close>) are given to the watcher, and what the kernel then reports is
  compared with the table of connections.
\<close>

section \<open>What the system ensures\<close>

text \<open>The sockets that a loop over \<^verbatim>\<open>accept\<close> gets.\<close>

fun accepted :: "accept_result list \<Rightarrow> int list" where
  "accepted [] = []"
| "accepted (NoneWaiting # rs) = []"
| "accepted (AcceptInterrupted # rs) = accepted rs"
| "accepted (Accepted fd # rs) = fd # accepted rs"

text \<open>
  \<^verbatim>\<open>accept\<close> gives descriptors that are not open; those in the table are, since a connection closes
  its socket when it is destroyed and the table holds it. Of the socket \<open>l\<close> that listens the
  watcher reports no read (its mask has \<^verbatim>\<open>HI_ACCEPT\<close>) and no error.
\<close>

fun system_ok :: "int \<Rightarrow> ('c, 'r) server_op \<Rightarrow> ('p, 'c, 'r) http_server \<Rightarrow> bool" where
  "system_ok l (Event now (EvAccept rs)) s \<longleftrightarrow> distinct (accepted rs) \<and>
     (\<forall>fd \<in> set (accepted rs). fd \<noteq> l \<and> om_find (m_reading_connections s) fd = None)"
| "system_ok l (Event now (EvRead fd rs)) s \<longleftrightarrow> fd \<noteq> l"
| "system_ok l (Event now (EvError fd)) s \<longleftrightarrow> fd \<noteq> l"
| "system_ok l _ s \<longleftrightarrow> True"

fun run_system_ok :: "('p, 'c, 'r) server_code \<Rightarrow> int \<Rightarrow> ('c, 'r) server_op list \<Rightarrow> ('p, 'c, 'r) http_server \<Rightarrow> bool" where
  "run_system_ok hc l [] s \<longleftrightarrow> True"
| "run_system_ok hc l (op # ops) s \<longleftrightarrow> system_ok l op s \<and>
     (case server_step hc op s of None \<Rightarrow> True | Some s' \<Rightarrow> run_system_ok hc l ops s')"

section \<open>The invariant\<close>

lemma wanted_append: "wanted (xs @ ys) r = Option.bind (wanted xs r) (wanted ys)"
proof (induction xs arbitrary: r)
  case (Cons op xs)
  then show ?case
    by (cases op) (simp_all add: fun_upd_def)
qed simp

text \<open>
  What the server has asked for: reads of its table and of \<open>l\<close>, and of \<open>l\<close> only as accepts.
\<close>

definition asks :: "int \<Rightarrow> (int, nat) omap \<Rightarrow> watch_op list \<Rightarrow> bool" where
  "asks l table log \<longleftrightarrow> (\<exists>r. wanted log (\<lambda>_. None) = Some r \<and>
     (\<forall>fd. r fd \<noteq> None \<longleftrightarrow> fd = l \<or> om_find table fd \<noteq> None) \<and>
     (\<forall>fd m. r fd = Some m \<longrightarrow> has_bit m HI_READ \<and> (has_bit m HI_ACCEPT \<longleftrightarrow> fd = l) \<and> (fd = l \<longrightarrow> \<not> has_bit m HI_WRITE)))"

lemma accept_bits [simp]:
  "has_bit (m OR (HI_READ OR HI_WRITE)) HI_ACCEPT = has_bit m HI_ACCEPT" "\<not> has_bit HI_READ HI_ACCEPT"
  "has_bit HI_READ HI_READ" "has_bit (HI_READ OR HI_ACCEPT) HI_ACCEPT" "\<not> has_bit HI_READ HI_WRITE" "\<not> has_bit HI_ACCEPT HI_WRITE"
proof -
  have accept: "has_bit m HI_ACCEPT = bit m 0" for m
    unfolding has_bit_def HI_ACCEPT_def by (simp only: bit_iff_and_push_bit_not_eq_0)
  show "has_bit (m OR (HI_READ OR HI_WRITE)) HI_ACCEPT = has_bit m HI_ACCEPT" "\<not> has_bit HI_READ HI_ACCEPT"
    "has_bit HI_READ HI_READ" "has_bit (HI_READ OR HI_ACCEPT) HI_ACCEPT" "\<not> has_bit HI_READ HI_WRITE" "\<not> has_bit HI_ACCEPT HI_WRITE"
    by (simp_all add: accept bit_or_iff) (simp_all add: has_bit_def HI_READ_def HI_WRITE_def HI_ACCEPT_def)
qed

lemma asks_new: "asks l [] [Add l (HI_READ OR HI_ACCEPT)]"
  by (auto simp: asks_def om_find_def)

lemma asks_add:
  assumes "asks l t log" "om_inv t" "fd \<noteq> l" "om_find t fd = None"
  shows "asks l (om_ins fd a t) (log @ [Add fd HI_READ])"
proof -
  obtain r where r: "wanted log (\<lambda>_. None) = Some r" "\<forall>fd. r fd \<noteq> None \<longleftrightarrow> fd = l \<or> om_find t fd \<noteq> None"
    "\<forall>fd m. r fd = Some m \<longrightarrow> has_bit m HI_READ \<and> (has_bit m HI_ACCEPT \<longleftrightarrow> fd = l) \<and> (fd = l \<longrightarrow> \<not> has_bit m HI_WRITE)"
    using assms(1) by (auto simp: asks_def)
  have "r fd = None"
    using r(2) assms(3,4) by blast
  then show ?thesis
    unfolding asks_def using r assms(2-4) by (intro exI [of _ "r(fd := Some HI_READ)"]) (auto simp: wanted_append)
qed

lemma asks_enable:
  assumes "asks l t log" "fd \<noteq> l"
  shows "asks l t (log @ [Enable fd (HI_READ OR HI_WRITE)])"
proof -
  obtain r where r: "wanted log (\<lambda>_. None) = Some r" "\<forall>fd. r fd \<noteq> None \<longleftrightarrow> fd = l \<or> om_find t fd \<noteq> None"
    "\<forall>fd m. r fd = Some m \<longrightarrow> has_bit m HI_READ \<and> (has_bit m HI_ACCEPT \<longleftrightarrow> fd = l) \<and> (fd = l \<longrightarrow> \<not> has_bit m HI_WRITE)"
    using assms(1) by (auto simp: asks_def)
  show ?thesis
  proof (cases "r fd")
    case None
    then show ?thesis
      unfolding asks_def using r by (intro exI [of _ r]) (auto simp: wanted_append)
  next
    case (Some m)
    then show ?thesis
      unfolding asks_def using r assms(2)
      by (intro exI [of _ "r(fd := Some (m OR (HI_READ OR HI_WRITE)))"]) (auto simp: wanted_append split: if_splits)
  qed
qed

lemma asks_del:
  assumes "asks l t log" "om_inv t" "fd \<noteq> l"
  shows "asks l (om_erase fd t) (log @ [Del fd])"
proof -
  obtain r where r: "wanted log (\<lambda>_. None) = Some r" "\<forall>fd. r fd \<noteq> None \<longleftrightarrow> fd = l \<or> om_find t fd \<noteq> None"
    "\<forall>fd m. r fd = Some m \<longrightarrow> has_bit m HI_READ \<and> (has_bit m HI_ACCEPT \<longleftrightarrow> fd = l) \<and> (fd = l \<longrightarrow> \<not> has_bit m HI_WRITE)"
    using assms(1) by (auto simp: asks_def)
  then show ?thesis
    unfolding asks_def using assms(2,3) by (intro exI [of _ "r(fd := None)"]) (auto simp: wanted_append)
qed

lemma asks_del_absent:
  assumes "asks l t log" "om_inv t" "fd \<noteq> l" "om_find t fd = None"
  shows "asks l t (log @ [Del fd])"
proof -
  have "om_find (om_erase fd t) i = om_find t i" for i
    using assms(2,4) by simp
  then show ?thesis
    using asks_del [OF assms(1-3)] by (simp add: asks_def)
qed

section \<open>Every step keeps it\<close>

text \<open>What the invariant depends on, and the operations that leave it alone.\<close>

definition view :: "('p, 'c, 'r) http_server \<Rightarrow> (int, nat) omap \<times> watch_op list \<times> (nat \<Rightarrow> int option)" where
  "view s = (m_reading_connections s, watch_log s, \<lambda>a. map_option sock (conns s a))"

definition watch_inv :: "int \<Rightarrow> ('p, 'c, 'r) http_server \<Rightarrow> bool" where
  "watch_inv l s \<longleftrightarrow> (case view s of (table, log, socks) \<Rightarrow>
     om_inv table \<and> om_find table l = None \<and> (\<forall>a. socks a \<noteq> Some l) \<and> asks l table log)"

lemma view_inv: "view s' = view s \<Longrightarrow> watch_inv l s' = watch_inv l s"
  by (simp add: watch_inv_def)

lemma view_set_conn: "conns s a = Some c \<Longrightarrow> sock c' = sock c \<Longrightarrow> view (set_conn a c' s) = view s"
  by (auto simp: view_def set_conn_def)

lemma view_fields [simp]:
  "view (s\<lparr>handled_http := x\<rparr>) = view s" "view (s\<lparr>handled_custom := y\<rparr>) = view s"
  "view (s\<lparr>m_resp_queue := q\<rparr>) = view s" "view (s\<lparr>m_custom_resp_queue := cq\<rparr>) = view s"
  "view (s\<lparr>m_sendq_locked := b\<rparr>) = view s" "view (s\<lparr>wire := w\<rparr>) = view s"
  "view (s\<lparr>answered := n\<rparr>) = view s" "view (s\<lparr>m_customProtocols := p\<rparr>) = view s"
  by (simp_all add: view_def)

lemma inv_fields [simp]:
  "watch_inv l (s\<lparr>m_resp_queue := q\<rparr>) = watch_inv l s" "watch_inv l (s\<lparr>m_custom_resp_queue := cq\<rparr>) = watch_inv l s"
  "watch_inv l (s\<lparr>m_sendq_locked := b\<rparr>) = watch_inv l s" "watch_inv l (s\<lparr>wire := w\<rparr>) = watch_inv l s"
  "watch_inv l (s\<lparr>answered := n\<rparr>) = watch_inv l s" "watch_inv l (s\<lparr>m_customProtocols := p\<rparr>) = watch_inv l s"
  by (rule view_inv, simp)+

lemma view_onSendResponse: "onSendResponse fd resp s = Some s' \<Longrightarrow> view s' = view s"
  by (auto simp: onSendResponse_def split: if_splits option.splits)

lemma view_onSendCustomResponse [simp]: "view (onSendCustomResponse fd resp s) = view s"
  by (simp add: onSendCustomResponse_def split: option.split)

lemma view_request_hdl: "request_hdl hc a c req s = Some s' \<Longrightarrow> view s' = view s"
  by (auto simp: request_hdl_def Let_def dest!: view_onSendResponse split: option.splits)

lemma view_runCustomHandler [simp]: "view (runCustomHandler a c req s) = view s"
  by (simp add: runCustomHandler_def Let_def split: option.split)

lemma checkUpgrade_sock: "checkUpgrade g req c = (c', h) \<Longrightarrow> sock c' = sock c"
  by (auto simp: checkUpgrade_def split: option.splits prod.splits)

lemma view_handleWaitingRequests:
  assumes "handleWaitingRequests hc a s = Some s'"
  shows "view s' = view s"
proof -
  obtain c where c: "conns s a = Some c"
    using assms by (auto simp: handleWaitingRequests_def split: option.splits)
  note set = view_set_conn [OF c]
  show ?thesis
    using assms c
    by (auto simp: handleWaitingRequests_def Let_def set split: if_splits prod.splits option.splits
        dest!: checkUpgrade_sock view_request_hdl)
qed

lemma run_callback_sock: "run_callback unescape cb c = Some c' \<Longrightarrow> sock c' = sock c"
  by (cases "(unescape, cb, c)" rule: run_callback.cases)
    (auto simp: onUrl_def onHeadersField_def onHeadersValue_def onHeadersComplete_def onBody_def onMessageComplete_def Let_def
      split: option.splits if_splits)

lemma run_callbacks_sock: "run_callbacks unescape cbs c = Some c' \<Longrightarrow> sock c' = sock c"
  by (induction cbs arbitrary: c) (auto dest: run_callback_sock split: option.splits)

lemma conn_performRecv_sock:
  assumes "conn_performRecv ops execute unescape now rs c = Some (c', throws)"
  shows "sock c' = sock c"
proof -
  have exec: "sock d' = sock d" if "conn_execute ops execute unescape bf d = Some (d', e)" for bf d d' e
    using that by (auto simp: conn_execute_def dest: run_callbacks_sock split: if_splits prod.splits option.splits)
  have take: "sock d' = sock d" if "conn_take_requests ops d = Some (d', e)" for d d' e
    using that by (auto simp: conn_take_requests_def split: if_splits prod.splits option.splits)
  show ?thesis
    using assms by (auto simp: conn_performRecv_def dest!: exec take split: option.splits if_splits bool.splits)
qed

text \<open>The operations that change the table.\<close>

lemma inv_del:
  assumes "watch_inv l s" "fd \<noteq> l"
  shows "watch_inv l (erase_conn fd (watch (Del fd) s))"
  using assms asks_del [of l "m_reading_connections s" "watch_log s" fd]
  by (simp add: watch_inv_def view_def erase_conn_def watch_def)

lemma inv_del_absent:
  assumes "watch_inv l s" "fd \<noteq> l" "om_find (m_reading_connections s) fd = None"
  shows "watch_inv l (watch (Del fd) s)"
  using assms asks_del_absent [of l "m_reading_connections s" "watch_log s" fd]
  by (simp add: watch_inv_def view_def watch_def)

lemma inv_enable: "watch_inv l s \<Longrightarrow> fd \<noteq> l \<Longrightarrow> watch_inv l (watch (Enable fd (HI_READ OR HI_WRITE)) s)"
  using asks_enable [of l "m_reading_connections s" "watch_log s" fd] by (simp add: watch_inv_def view_def watch_def)

lemma inv_killConnection:
  assumes "watch_inv l s" "fd \<noteq> l"
  shows "watch_inv l (killConnection fd s)"
proof -
  have "m_reading_connections (watch (Del fd) s) = m_reading_connections s"
    by (simp add: watch_def)
  then show ?thesis
    using inv_del [OF assms] inv_del_absent [OF assms] by (simp add: killConnection_def Let_def split: option.split)
qed

lemma inv_set_conn: "watch_inv l s \<Longrightarrow> conns s a = Some c \<Longrightarrow> sock c' = sock c \<Longrightarrow> watch_inv l (set_conn a c' s)"
  using view_inv [OF view_set_conn] by blast

lemma inv_sock: "watch_inv l s \<Longrightarrow> conns s a = Some c \<Longrightarrow> sock c \<noteq> l"
  by (auto simp: watch_inv_def view_def dest: spec [of _ a])

definition accept_one :: "('p, 'c, 'r) server_code \<Rightarrow> u64 \<Rightarrow> int \<Rightarrow> ('p, 'c, 'r) http_server \<Rightarrow> ('p, 'c, 'r) http_server" where
  "accept_one hc now fd s = watch (Add fd HI_READ)
     (s\<lparr>conns := (conns s)(next_conn s := Some (HttpConnection_new (sc_parser hc) now fd (sc_resp_info hc))),
       next_conn := next_conn s + 1, m_reading_connections := om_ins fd (next_conn s) (m_reading_connections s)\<rparr>)"

lemma performAccept_one: "performAccept hc now (Accepted fd # rs) s = performAccept hc now rs (accept_one hc now fd s)"
  by (simp add: accept_one_def set_conn_def Let_def)

lemma inv_accept_one:
  assumes "watch_inv l s" "fd \<noteq> l" "om_find (m_reading_connections s) fd = None"
  shows "watch_inv l (accept_one hc now fd s)"
    "\<forall>i. i \<noteq> fd \<longrightarrow> om_find (m_reading_connections (accept_one hc now fd s)) i = om_find (m_reading_connections s) i"
  using assms asks_add [of l "m_reading_connections s" "watch_log s" fd "next_conn s"]
  by (simp_all add: watch_inv_def view_def accept_one_def watch_def HttpConnection_new_def)

lemma inv_accept:
  "watch_inv l s \<Longrightarrow> distinct (accepted rs) \<Longrightarrow>
    \<forall>fd \<in> set (accepted rs). fd \<noteq> l \<and> om_find (m_reading_connections s) fd = None \<Longrightarrow>
    watch_inv l (performAccept hc now rs s)"
proof (induction rs arbitrary: s)
  case (Cons r rs)
  show ?case
  proof (cases r)
    case (Accepted fd)
    have fd: "fd \<noteq> l" "om_find (m_reading_connections s) fd = None" "fd \<notin> set (accepted rs)"
      using Cons.prems Accepted by simp_all
    note one = inv_accept_one [OF Cons.prems(1) fd(1,2), of hc now]
    have "\<forall>i \<in> set (accepted rs). i \<noteq> l \<and> om_find (m_reading_connections (accept_one hc now fd s)) i = None"
    proof
      fix i
      assume i: "i \<in> set (accepted rs)"
      then have "i \<noteq> fd"
        using fd(3) by blast
      then show "i \<noteq> l \<and> om_find (m_reading_connections (accept_one hc now fd s)) i = None"
        using one(2) i Cons.prems(3) Accepted by simp
    qed
    then have "watch_inv l (performAccept hc now rs (accept_one hc now fd s))"
      using Cons.prems(2) Accepted by (intro Cons.IH one(1)) simp_all
    then show ?thesis
      using Accepted by (simp only: performAccept_one)
  qed (use Cons in simp_all)
qed simp

lemma inv_performRecv:
  assumes "server_performRecv hc now rs fd s = Some s'" "watch_inv l s" "fd \<noteq> l"
  shows "watch_inv l s'"
proof (cases "om_find (m_reading_connections s) fd")
  case None
  then show ?thesis
    using assms inv_del_absent by (auto simp: server_performRecv_def)
next
  case (Some a)
  then obtain c c' e where c: "conns s a = Some c"
      "conn_performRecv (sc_ops hc) (sc_execute hc) (sc_unescape hc) now rs c = Some (c', e)"
    using assms(1) by (auto simp: server_performRecv_def split: option.splits)
  let ?s = "set_conn a c' s"
  have set: "watch_inv l ?s"
    by (rule inv_set_conn [OF assms(2) c(1) conn_performRecv_sock [OF c(2)]])
  have "s' = killConnection fd ?s \<or> s' = erase_conn fd (watch (Del fd) ?s) \<or> handleWaitingRequests hc a ?s = Some s'"
    using assms(1) Some c by (auto simp: server_performRecv_def split: bool.splits if_splits)
  then show ?thesis
    using inv_killConnection [OF set assms(3)] inv_del [OF set assms(3)] view_inv [OF view_handleWaitingRequests] set by blast
qed

lemma inv_performSend:
  assumes "server_performSend now nsent again fd s = Some s'" "watch_inv l s"
  shows "watch_inv l s'"
proof (cases "om_find (m_reading_connections s) fd")
  case None
  then show ?thesis
    using assms by (auto simp: server_performSend_def)
next
  case (Some a)
  then obtain c where c: "conns s a = Some c"
    using assms(1) by (auto simp: server_performSend_def split: option.splits)
  obtain c' out ok where send: "conn_performSend now nsent again c = (c', out, ok)"
    by (cases "conn_performSend now nsent again c") auto
  let ?s = "(set_conn a c' s)\<lparr>wire := wire s @ [(a, out)]\<rparr>"
  have set: "watch_inv l ?s"
    using inv_set_conn [OF assms(2) c, of c'] performSend_fields [OF send] by simp
  have "fd \<noteq> l"
    using assms(2) Some by (auto simp: watch_inv_def view_def)
  moreover have "s' = erase_conn fd (watch (Del fd) ?s) \<or> s' = ?s"
    using assms(1) Some c send by (auto simp: server_performSend_def Let_def split: if_splits)
  ultimately show ?thesis
    using inv_del [OF set] set by blast
qed

lemma inv_handleResponse:
  assumes "handleResponse hc now nsent again a s = Some s'" "watch_inv l s"
  shows "watch_inv l s'"
proof -
  obtain c where c: "conns s a = Some c"
    using assms(1) by (auto simp: handleResponse_def split: option.splits)
  obtain c' out ok where send: "conn_performSend now nsent again (c\<lparr>waiting_last_handling := False\<rparr>) = (c', out, ok)"
    by (cases "conn_performSend now nsent again (c\<lparr>waiting_last_handling := False\<rparr>)") auto
  then have sock: "sock c' = sock c"
    using performSend_fields [OF send] by simp
  let ?s = "(set_conn a c' s)\<lparr>wire := wire s @ [(a, out)], answered := answered s @ [a]\<rparr>"
  have set: "watch_inv l ?s"
    using inv_set_conn [OF assms(2) c sock] by simp
  have "sock c' \<noteq> l"
    using inv_sock [OF assms(2) c] sock by simp
  moreover have "handleWaitingRequests hc a ?s = Some s' \<or> s' = erase_conn (sock c') (watch (Del (sock c')) ?s) \<or>
      handleWaitingRequests hc a (watch (Enable (sock c') (HI_READ OR HI_WRITE)) ?s) = Some s'"
    using assms(1) c send by (auto simp: handleResponse_def Let_def split: if_splits option.splits)
  ultimately show ?thesis
    using inv_del [OF set] inv_enable [OF set] set view_inv [OF view_handleWaitingRequests] by blast
qed

lemma inv_with_conn:
  assumes "with_conn a f s = Some s'" "watch_inv l s" "\<And>c. sock (f c) = sock c"
  shows "watch_inv l s'"
proof -
  obtain c where "conns s a = Some c" "s' = set_conn a (f c) s"
    using assms(1) by (auto simp: with_conn_def split: option.splits)
  then show ?thesis
    using inv_set_conn [OF assms(2)] assms(3) by blast
qed

lemma inv_respond:
  assumes "with_conn a f s = Some s1" "handleResponse hc now nsent again a s1 = Some s2" "watch_inv l s" "\<And>c. sock (f c) = sock c"
  shows "watch_inv l s2"
  using inv_handleResponse [OF assms(2) inv_with_conn [OF assms(1,3,4)]] .

lemma inv_resp_loop:
  assumes "resp_loop hc now sends s = Some r"
  shows "watch_inv l s \<longrightarrow> watch_inv l (snd r)"
proof (rule resp_loop.raw_induct [where P = "\<lambda>hc now sends s r. watch_inv l s \<longrightarrow> watch_inv l (snd r)", OF _ assms], goal_cases)
  case (1 loop hc now sends s r)
  show ?case
  proof (cases "m_resp_queue s")
    case (Cons e q)
    obtain a resp nsent again sends' where e: "e = (a, resp)" "next_send sends = ((nsent, again), sends')"
      by (cases e; cases "next_send sends") auto
    then obtain s1 s2 where s: "with_conn a (addResponse now resp) s = Some s1" "handleResponse hc now nsent again a s1 = Some s2"
      "loop hc now sends' (s2\<lparr>m_resp_queue := tl (m_resp_queue s2)\<rparr>) = Some r"
      using 1(2) Cons by (auto simp: bind_eq_Some_conv)
    show ?thesis
      using inv_respond [OF s(1,2)] 1(1) [OF s(3)] by (simp add: addResponse_def)
  qed (use 1(2) in auto)
qed

lemma inv_custom_resp_loop:
  assumes "custom_resp_loop hc now sends s = Some s'"
  shows "watch_inv l s \<longrightarrow> watch_inv l s'"
proof (rule custom_resp_loop.raw_induct [where P = "\<lambda>hc now sends s s'. watch_inv l s \<longrightarrow> watch_inv l s'", OF _ assms], goal_cases)
  case (1 loop hc now sends s s')
  show ?case
  proof (cases "m_custom_resp_queue s")
    case (Cons e q)
    obtain a resp nsent again sends' where e: "e = (a, resp)" "next_send sends = ((nsent, again), sends')"
      by (cases e; cases "next_send sends") auto
    then obtain s1 s2 where s: "with_conn a (addCustomResponse resp) s = Some s1" "handleResponse hc now nsent again a s1 = Some s2"
      "loop hc now sends' (s2\<lparr>m_custom_resp_queue := tl (m_custom_resp_queue s2)\<rparr>) = Some s'"
      using 1(2) Cons by (auto simp: bind_eq_Some_conv)
    show ?thesis
      using inv_respond [OF s(1,2)] 1(1) [OF s(3)] by (simp add: addCustomResponse_def)
  qed (use 1(2) in auto)
qed

lemma inv_handle_queues: "handle_queues hc now sends s = Some s' \<Longrightarrow> watch_inv l s \<Longrightarrow> watch_inv l s'"
  using inv_resp_loop [of hc now sends "s\<lparr>m_sendq_locked := True\<rparr>"] inv_custom_resp_loop
  by (fastforce simp: handle_queues_def bind_eq_Some_conv)

lemma cleanUp_same: "cleanUpDeadConnections now s = Some s' \<Longrightarrow> s' = s"
proof -
  have "cleanup_loop now es s = Some s' \<Longrightarrow> s' = s" for es
    by (induction now es s rule: cleanup_loop.induct) (auto split: option.splits if_splits)
  then show "cleanUpDeadConnections now s = Some s' \<Longrightarrow> s' = s"
    by (auto simp: cleanUpDeadConnections_def split: if_splits)
qed

lemma inv_step:
  assumes "server_step hc op s = Some s'" "watch_inv l s" "system_ok l op s"
  shows "watch_inv l s'"
proof (cases op)
  case (Event now e)
  show ?thesis
  proof (cases e)
    case (EvAccept rs)
    then show ?thesis
      using assms Event inv_accept [of l s rs hc now] by auto
  next
    case (EvRead fd rs)
    then show ?thesis
      using assms Event inv_performRecv by auto
  next
    case (EvWrite fd nsent again)
    then show ?thesis
      using assms Event inv_performSend by auto
  next
    case (EvError fd)
    then show ?thesis
      using assms Event inv_killConnection by auto
  qed
next
  case (Queues now sends)
  then show ?thesis
    using assms inv_handle_queues by auto
next
  case (Respond fd resp)
  then show ?thesis
    using assms(1,2) view_inv [OF view_onSendResponse, of fd resp s s' l] by simp
next
  case (RespondCustom fd resp)
  then show ?thesis
    using assms(1,2) view_inv [OF view_onSendCustomResponse, of l fd resp s] by auto
qed (use assms in \<open>auto simp: sendResponse_def addCustomProtocol_def dest: cleanUp_same split: if_splits\<close>)

lemma inv_run:
  "server_run hc ops s = Some s' \<Longrightarrow> watch_inv l s \<Longrightarrow> run_system_ok hc l ops s \<Longrightarrow> watch_inv l s'"
  by (induction ops arbitrary: s) (auto dest: inv_step split: bind_splits)

lemma inv_new: "watch_inv l (HttpServer_new l)"
  using asks_new [of l] by (simp add: watch_inv_def view_def HttpServer_new_def om_inv_def om_find_def)

section \<open>Over the watcher\<close>

text \<open>The table of the kqueue watcher is what it was asked for.\<close>

lemma kq_mask_changes:
  "kqueue_addSocket kevent fd m w = Some w' \<Longrightarrow> k_masks w' = (k_masks w)(fd := Some m)"
  "kqueue_enableEvents kevent fd m w = Some w' \<Longrightarrow>
    k_masks w' = (case k_masks w fd of None \<Rightarrow> k_masks w | Some m' \<Rightarrow> (k_masks w)(fd := Some (m' OR m)))"
  "kqueue_delSocket kevent fd w = Some w' \<Longrightarrow> k_masks w' = (k_masks w)(fd := None)"
  by (auto simp: kqueue_addSocket_def kqueue_enableEvents_def kqueue_delSocket_def Let_def or_new split: option.splits)

lemma kq_masks:
  assumes "watch_run (kqueue_addSocket kevent) (kqueue_enableEvents kevent) (kqueue_delSocket kevent) ops w = Some w'"
    "wanted ops (k_masks w) = Some r"
  shows "k_masks w' = r"
  using assms
proof (induction ops arbitrary: w)
  case (Cons op ops)
  obtain w1 where w1: "(case op of Add fd m \<Rightarrow> kqueue_addSocket kevent fd m w | Enable fd m \<Rightarrow> kqueue_enableEvents kevent fd m w
        | Del fd \<Rightarrow> kqueue_delSocket kevent fd w) = Some w1"
      "watch_run (kqueue_addSocket kevent) (kqueue_enableEvents kevent) (kqueue_delSocket kevent) ops w1 = Some w'"
    using Cons.prems(1) by (auto split: option.splits)
  have "wanted ops (k_masks w1) = Some r"
    using w1(1) Cons.prems(2) by (cases op) (auto dest!: kq_mask_changes split: option.splits if_splits)
  then show ?case
    by (rule Cons.IH [OF w1(2)])
qed simp

section \<open>The property\<close>

text \<open>
  C14: over the kqueue watcher, at every moment of every run of the server, the kernel reports
  reads of exactly the socket that listens and of the connections in the server's table: no
  connection is forgotten, and none is watched after it has left the table. The watcher passes a
  read of the socket that listens to the function that accepts and every other one to the
  function that reads, writes are reported of connections only, and no call ends the process.
\<close>

theorem server_watches_connections:
  assumes "kqueue_kernel kevent reg" "\<forall>fd f. \<not> reg k fd f"
    "server_run hc ops (HttpServer_new l) = Some s" "run_system_ok hc l ops (HttpServer_new l)"
  shows "\<exists>w. Option.bind (EventWatcherKqueue_new (Some k))
      (watch_run (kqueue_addSocket kevent) (kqueue_enableEvents kevent) (kqueue_delSocket kevent) (watch_log s)) = Some w \<and>
    (\<forall>fd. reg (m_kqueue w) fd EVFILT_READ \<longleftrightarrow> fd = l \<or> om_find (m_reading_connections s) fd \<noteq> None) \<and>
    (\<forall>fd. reg (m_kqueue w) fd EVFILT_READ \<longrightarrow> read_call (k_masks w) fd = (if fd = l then OnAccept fd else OnRead fd)) \<and>
    (\<forall>fd. reg (m_kqueue w) fd EVFILT_WRITE \<longrightarrow> om_find (m_reading_connections s) fd \<noteq> None)"
proof -
  have "watch_inv l s"
    by (rule inv_run [OF assms(3) inv_new assms(4)])
  then obtain r where r: "wanted (watch_log s) (\<lambda>_. None) = Some r"
    "\<forall>fd. r fd \<noteq> None \<longleftrightarrow> fd = l \<or> om_find (m_reading_connections s) fd \<noteq> None"
    "\<forall>fd m. r fd = Some m \<longrightarrow> has_bit m HI_READ \<and> (has_bit m HI_ACCEPT \<longleftrightarrow> fd = l) \<and> (fd = l \<longrightarrow> \<not> has_bit m HI_WRITE)"
    by (auto simp: watch_inv_def view_def asks_def)
  obtain w where w: "watch_run (kqueue_addSocket kevent) (kqueue_enableEvents kevent) (kqueue_delSocket kevent) (watch_log s)
      \<lparr>m_kqueue = k, k_masks = \<lambda>_. None\<rparr> = Some w"
    "\<forall>fd. reg (m_kqueue w) fd EVFILT_READ = (case r fd of None \<Rightarrow> False | Some m \<Rightarrow> has_bit m HI_READ)"
    "\<forall>fd. reg (m_kqueue w) fd EVFILT_WRITE = (case r fd of None \<Rightarrow> False | Some m \<Rightarrow> has_bit m HI_WRITE)"
    using kqueue_kernel.kq_watch [OF assms(1,2) r(1)] by blast
  have "k_masks w = r"
    using kq_masks [OF w(1)] r(1) by simp
  then have "read_call (k_masks w) fd = (if fd = l then OnAccept fd else OnRead fd)" if "r fd \<noteq> None" for fd
    using that r(3) by (auto simp: read_call_def)
  moreover have "reg (m_kqueue w) fd EVFILT_READ \<longleftrightarrow> r fd \<noteq> None" for fd
    using w(2) r(3) by (cases "r fd") auto
  moreover have "om_find (m_reading_connections s) fd \<noteq> None" if "reg (m_kqueue w) fd EVFILT_WRITE" for fd
    using that w(3) r(2,3) by (cases "r fd") (simp, metis option.distinct(1) option.simps(5))
  ultimately show ?thesis
    using w(1) r(2) by (intro exI [of _ w]) (simp add: EventWatcherKqueue_new_def)
qed

theorem server_watches_connections_witness:
  "\<exists>s w. server_run (demo_code None) demo_ops (HttpServer_new 3) = Some s \<and>
     watch_run (kqueue_addSocket kq_model) (kqueue_enableEvents kq_model) (kqueue_delSocket kq_model) (watch_log s)
       \<lparr>m_kqueue = [], k_masks = \<lambda>_. None\<rparr> = Some w \<and>
     ((5, EVFILT_READ) \<in> set (m_kqueue w) \<longleftrightarrow> om_find (m_reading_connections s) 5 \<noteq> None)"
proof -
  have "map_option (\<lambda>s. ()) (server_run (demo_code None) demo_ops (HttpServer_new 3)) = Some ()"
    by code_simp
  then obtain s where s: "server_run (demo_code None) demo_ops (HttpServer_new 3) = Some s"
    by auto
  have "run_system_ok (demo_code None) 3 demo_ops (HttpServer_new 3)"
    by code_simp
  from server_watches_connections [OF kq_model.kqueue_kernel_axioms _ s this, of "[]"] show ?thesis
    using s by (auto simp: EventWatcherKqueue_new_def)
qed

end
