(* ===== verification/Spec2Isabelle.thy ===== *)
theory Spec2Isabelle
  imports Hi_Prelude Base64 Sha1 Md5 BinServerParser BinClientParser BinConnection BinClientA AhoCorasick Utf8
    StringUtf8 StringUtils ThreadPool TaskLauncher EventWatcher HttpConnection HttpServer HttpApi
    HttpClientAsync HttpOutReqDisp Locks RegularTask LoadConf Daemon RefParser
    Descriptors ServerUtils Pg Ct BinCalls ApiCalls
    BorTree LauncherSteps ServerEvents
begin

text \<open>
  hiaux is a C++ library of helpers for network servers. This development models its core and
  proves what makes each part correct, or where it is not.

  \<^bold>\<open>The program.\<close> A server (\<^verbatim>\<open>network/HttpServer\<close>) accepts connections, reads them when its event
  watcher (\<^verbatim>\<open>events\<close>) says so, parses HTTP requests with a vendored parser, and hands them to
  the handlers of the user, through a router; a connection can change to a custom protocol,
  of which \<^verbatim>\<open>network/HttpApi/BinServer\<close> is one: frames of a size line and as many bytes. The
  client of that protocol (\<^verbatim>\<open>network/HttpApi/BinClient\<close>) keeps connections to one server and
  distributes requests over them. Tasks run on a pool of threads (\<^verbatim>\<open>threads/threadpool\<close>), with a
  launcher that limits how many run at once (\<^verbatim>\<open>threads/tasklauncher\<close>). Digests and encodings
  (\<^verbatim>\<open>crypt\<close>) and operations on bytes and on UTF-8 text (\<^verbatim>\<open>strings\<close>) are used throughout, and so
  are locks that are released with their ticket or guard (\<^verbatim>\<open>threads/locks\<close>). Requests to other
  servers go through an asynchronous client over libcurl and a dispatcher on the launcher
  (\<^verbatim>\<open>network/HttpClientAsync\<close>, \<^verbatim>\<open>network/HttpOutReqDisp\<close>). A service is started as a daemon with a
  watcher that restarts it (\<^verbatim>\<open>tools/Daemon\<close>), from a configuration file (\<^verbatim>\<open>loadconf\<close>).

  \<^bold>\<open>The theories.\<close>

  \<^item> \<open>Hi_Prelude\<close>: bytes, characters, decimal numbers and \<^verbatim>\<open>sscanf\<close>, the padding of the
    digests, \<^verbatim>\<open>std::map\<close> as the locale \<open>ordered_map\<close> interpreted on sorted association lists
    (\<open>om_find\<close>, \<open>om_put\<close>, \<open>om_ins\<close>, \<open>om_erase\<close>), and the locale \<open>incremental\<close> of everything
    that is fed a stream in pieces.
  \<^item> \<open>Base64\<close>, \<open>Sha1\<close>, \<open>Md5\<close>: \<^verbatim>\<open>crypt/base64.cpp\<close>, \<^verbatim>\<open>crypt/sha1.cpp\<close>, \<^verbatim>\<open>crypt/md5.cpp\<close>. The
    encoder computes RFC 4648 and both decoders invert it, as far as their \<^verbatim>\<open>int\<close> length counts; the digests are those of
    FIPS 180-4 and RFC 1321, in one call or in pieces, whatever the buffers held before.
  \<^item> \<open>Frames\<close>, \<open>BinServerParser\<close>, \<open>BinClientParser\<close>: the size-prefixed frames and the two
    incremental parsers, both instances of the locale \<open>frame_source\<close>: how the network cuts
    the bytes is irrelevant to a stream that does not raise, and to one that does it decides at
    most whether the last message before the exception is handed on. A size line that does not
    start with a number is read as an uninitialised value, another one each time (\<open>junk\<close>, the locale
    \<open>uninit_source\<close>). Round trips and the errors raised.
  \<^item> \<open>BinConnection\<close>, \<open>BinClientA\<close>: \<^verbatim>\<open>BinClient/Connection.cpp\<close> and \<^verbatim>\<open>BinClient/BinClientA.cpp\<close>
    as state machines whose steps take what the sockets did. Every request is completed once
    and in order, and none is lost, whatever the network does; what was added is what the
    server queues.
  \<^item> \<open>AhoCorasick\<close>, \<open>BorTree\<close>: \<^verbatim>\<open>strings/AhoCorasick.cpp\<close>, the automaton as a store of nodes. The
    search finds exactly the occurrences of the words; the destructors free every node once.
  \<^item> \<open>Utf8\<close>, \<open>StringUtf8\<close>, \<open>StringUtils\<close>: the part of \<^verbatim>\<open>thirdparty/utf8_v2_3_4\<close> that
    \<^verbatim>\<open>strings/string_utils.cpp\<close> uses, and the functions of that file, on code points and on
    bytes. Reads out of bounds are \<open>None\<close> or an error.
  \<^item> \<open>ThreadPool\<close>, \<open>TaskLauncher\<close>, \<open>LauncherSteps\<close>: the pool with its condition variables as
    steps that interleave in any order, one step per critical section, read of a flag or signal.
    Tasks are conserved, wake-ups of \<open>addTask\<close> are not lost, those of \<open>kill\<close> can be. The launcher
    first as a sequence of method calls (\<open>TaskLauncher\<close>), then with the calls interleaved
    (\<open>LauncherSteps\<close>), of which the first is shown to be a special case: no task is forgotten
    under any interleaving, but the limit can be exceeded and the end reported too early.
  \<^item> \<open>EventWatcher\<close>: the watchers over kqueue and epoll, over kernels that are parameters with
    the laws of the manual pages (locales \<open>kqueue_system\<close>, where a filter may be refused and goes
    with its descriptor; \<open>kqueue_kernel\<close>, for descriptors that are open; \<open>epoll_kernel\<close>; interpreted
    on sets of filters, with and without a limit, and on a map). The contract is the locale \<open>event_watcher\<close>; a sublocale
    proves it of kqueue, a theorem refutes it for epoll.
  \<^item> \<open>HttpConnection\<close>, \<open>HttpServer\<close>: \<^verbatim>\<open>Connection.impl\<close>, \<^verbatim>\<open>ConnectionParsing.impl\<close>,
    \<^verbatim>\<open>HttpRouter.impl\<close>, \<^verbatim>\<open>HttpServer.impl\<close>. Connections are in a store under addresses, since
    the table, the queues and the handlers share them. The vendored parser is a parameter that
    makes callbacks; a custom protocol is a record of operations with the locale
    \<open>custom_protocol\<close>, interpreted on \<open>BinServerParser\<close>. Requests are taken in order and one at
    a time in every run; rendered responses can be read back; and three ways in which
    \<open>handleEvents\<close> hangs or is undefined.
  \<^item> \<open>HttpApi\<close>: \<^verbatim>\<open>network/HttpApi/HttpApi.impl\<close>, the dispatch of calls to the methods of the user
    with its check of signatures, and \<^verbatim>\<open>HttpApiClient.cpp\<close>, which builds the URLs. A URL of the
    client is accepted by the server; what a signature covers is exactly stated.

  \<^item> \<open>HttpClientAsync\<close>, \<open>HttpOutReqDisp\<close>: \<^verbatim>\<open>network/HttpClient.cpp\<close>,
    \<^verbatim>\<open>network/HttpClientAsync.cpp\<close>, \<^verbatim>\<open>network/HttpOutReqDisp.cpp\<close> and the simple requesters. The
    client is a table of jobs whose \<open>kick\<close> is a sequence of steps; the dispatcher is the labelled
    step relation \<open>disp_step\<close>, iterated by \<open>disp_run\<close>, where tasks, calls and callbacks come in any
    order. The code lets a call and \<open>kick\<close> use the client at once; a state where they do has a data
    race, and any state may follow it (label \<open>Undefined\<close>, lemma \<open>call_races_with_kick\<close>). In a run
    without one every call is on its way, answered to its requester, dropped because the requester
    had finished, or lost because \<^verbatim>\<open>curl_easy_init\<close> failed; a simple requester is answered exactly
    once; the tables refer to what is there.
  \<^item> \<open>Locks\<close>: \<^verbatim>\<open>threads/locks.cpp\<close>. The mutexes of POSIX are the locales \<open>mutex\<close> and \<open>rwlock\<close>,
    interpreted on an owner and on readers, as many as the system allows, and a writer; the errors
    of the latter, which the code ignores, leave a guard without the lock. Tickets and guards are in a list, so
    that copies and early releases can be stated: at most one thread holds, nothing is unlocked
    twice when guards are not copied; a kicked waiter wakes.
  \<^item> \<open>RegularTask\<close>, \<open>LoadConf\<close>, \<open>Daemon\<close>, \<open>RefParser\<close>: \<^verbatim>\<open>tools/RegularTask.cpp\<close> as interleaved
    steps of the threads that check it; \<^verbatim>\<open>loadconf/loadconf.cpp\<close>, with the file system, the
    environment and the JSON library as parameters; \<^verbatim>\<open>tools/Daemon.cpp\<close>, its watcher loop over what
    \<^verbatim>\<open>fork\<close>, \<^verbatim>\<open>sigwait\<close> and \<^verbatim>\<open>waitpid\<close> give, its table of descriptors and its command line; and
    \<^verbatim>\<open>strings/RefParser.cpp\<close>.

  \<^item> \<open>Descriptors\<close>, \<open>ServerUtils\<close>, \<open>Pg\<close>, \<open>Ct\<close>: the table of descriptors of a process;
    \<^verbatim>\<open>network/HttpServer/ServerUtils.cpp\<close>, which opens the sockets (a failed connect leaks one);
    \<^verbatim>\<open>pg/pg.cpp\<close>, with libpq as a parameter, where a query is tried again after a lost
    connection; and \<^verbatim>\<open>ct/CtObj.cpp\<close>, with the JSON library as a parameter.
  \<^item> \<open>BinCalls\<close> composes the binary client with the HTTP server: a call of a method arrives in
    the queue of the connection that changed its protocol.
  \<^item> \<open>ApiCalls\<close> composes the client of the API, the HTTP server and the API: a signed call runs
    its method with the parameters of the call, and the answer is written to the connection.
  \<^item> \<open>ServerEvents\<close> composes the HTTP server with the kqueue watcher: the kernel reports reads of
    exactly the connections in the server's table and of the socket that listens.

  \<^bold>\<open>Conventions.\<close> A C++ exception is a value of a sum or an option, undefined behaviour and a
  call that does not return are \<open>None\<close> (the theory says which). \<^verbatim>\<open>uint32_t\<close> and \<^verbatim>\<open>uint64_t\<close> are
  words; an uninitialised value is a parameter, and a variable that is read uninitialised more
  than once a function of the number of such reads (\<open>junk\<close>). What sockets, clocks and schedulers do
  is a parameter of each step, so that a theorem about all runs is about all of them.

  \<^bold>\<open>Loops and bounds.\<close> Loops over data are structural or have a measure (\<open>server_parse\<close>,
  \<open>server_drain\<close>, \<open>checkLaunch\<close>, \<open>env_loop\<close>, the block loops of the digests). Loops that may not end are
  \<open>partial_function (option)\<close>: \<open>replaceString\<close> (with a theorem on when it ends), the receive
  loop of \<open>BinConnection\<close> (with a theorem on when it does not), \<open>getFallNode\<close> and the recursions
  of \<open>BorTree\<close> (shown to end on every automaton that the constructor builds), \<open>conn_drain\<close> (shown to end for every
  \<open>custom_protocol\<close>), and the loops over the queues of the server. No fuel is used. SHA-1 is
  bounded by inputs below \<open>2^28\<close> bytes, where the code's 32-bit length is exact; a rendered
  body, an encoding to decode and a URL by \<open>2^31\<close>, where the code's \<^verbatim>\<open>int\<close> is.

  \<^bold>\<open>Not modelled.\<close> Small files that only call the system (\<^verbatim>\<open>fs\<close>, \<^verbatim>\<open>common\<close>); \<^verbatim>\<open>logs\<close>, which does not
  compile, since its header of types is missing; generated and vendored code other than the UTF-8
  headers, and of these what the library does not use; files that are commented out
  (\<^verbatim>\<open>network/hpoolserver\<close>, \<^verbatim>\<open>threads/batchlauncher\<close>); experiments and tests. Of what is modelled:
  an error of \<^verbatim>\<open>sigwait\<close>; errors of \<^verbatim>\<open>socket\<close> other than the limit of descriptors; the moment in
  \<open>hCondWaiter::wait\<close> between the destruction of the condition variable and its initialisation; the
  other order of the two loads in \<open>running\<close> of the launcher, which C++ leaves open; a thread between
  the unlocking of a mutex and the mark in its ticket; and races on flags that are single variables
  (\<^verbatim>\<open>kick_running\<close>, \<^verbatim>\<open>m_isfinished\<close>), which are read and written in one step.
\<close>

end
